(* ===== verification/Prelude.thy ===== *)
theory Prelude
  imports Main "HOL-Library.Word"
begin

text \<open>
  The vocabulary every component shares: the C integer types as words of their width, the
  collections of rewrite rules the component proofs draw on, and the generic lemmas on words and
  lists that several components need. Nothing here models a source line.
\<close>

unbundle bit_operations_syntax

type_synonym u8 = "8 word"
type_synonym u16 = "16 word"
type_synonym u32 = "32 word"
type_synonym u64 = "64 word"

text \<open>Pointers are 64-bit addresses and the null pointer is address zero.\<close>

abbreviation (input) NULL :: u64 where "NULL \<equiv> 0"

text \<open>A call that may end in an endless halt loop: the state it returns with, or the state it halts in.\<close>

datatype 'a outcome = Returns 'a | Halts 'a

named_theorems word_nat \<open>turning word comparisons and arithmetic into nat ones\<close>
named_theorems loop_unfold \<open>one-step unfoldings of the loops of the model\<close>

lemmas [word_nat] = word_less_nat_alt word_le_nat_alt unat_div_distrib unat_mod_distrib

section \<open>Words\<close>

lemma unat_below: "unat (w :: 'a::len word) < 2 ^ LENGTH('a)"
  by (rule unsigned_less)

lemma unat_plus_one_less:
  fixes a b :: "'a::len word"
  assumes "a < b"
  shows "unat (a + 1) = Suc (unat a)"
proof -
  from assms have "Suc (unat a) \<le> unat b" by (simp add: word_less_nat_alt)
  also have "\<dots> < 2 ^ LENGTH('a)" by (rule unat_below)
  finally have "unat a + unat (1 :: 'a word) < 2 ^ LENGTH('a)" by simp
  then have "unat (a + 1) = unat a + unat (1 :: 'a word)" by (simp only: unat_add_lem)
  then show ?thesis by simp
qed

lemma unat_plus_nowrap:
  fixes a b :: "'a::len word"
  assumes "unat a + unat b < 2 ^ LENGTH('a)"
  shows "unat (a + b) = unat a + unat b"
  using assms by (simp add: unat_add_lem)

lemma unat_mult_nowrap:
  fixes a b :: "'a::len word"
  assumes "unat a * unat b < 2 ^ LENGTH('a)"
  shows "unat (a * b) = unat a * unat b"
  using assms by (simp add: unat_mult_lem)

lemma loop_measure:
  fixes a b :: "'a::len word"
  assumes "a < b"
  shows "unat (b - (a + 1)) < unat (b - a)"
proof -
  from assms have "a + 1 \<le> b" by (simp add: inc_le)
  then have "unat (b - (a + 1)) = unat b - unat (a + 1)" by (simp add: unat_sub)
  moreover from assms have "unat (b - a) = unat b - unat a" by (simp add: unat_sub order_less_imp_le)
  moreover from assms have "unat a < unat b" by (simp add: word_less_nat_alt)
  ultimately show ?thesis using assms by (simp add: unat_plus_one_less)
qed

lemma bit_word_less:
  "bit (w :: 'a::len word) n \<Longrightarrow> n < LENGTH('a)"
  by (rule bit_imp_le_length)

lemma and_single_bit: "bit (w :: 'a::len word) n \<Longrightarrow> w AND push_bit n 1 = push_bit n 1"
  by (rule bit_eqI) (auto simp: bit_simps)

text \<open>
  Fields of a word: \<open>bit_field k w x\<close> keeps the \<open>w\<close> bits of \<open>x\<close> from bit \<open>k\<close> on, in place. A field stored in a
  narrower integer and shifted back is a slice, and adjacent slices join.
\<close>

definition bit_field :: "nat \<Rightarrow> nat \<Rightarrow> u64 \<Rightarrow> u64" where
  "bit_field k w x = push_bit k (take_bit w (drop_bit k x))"

lemma bit_bit_field: "bit (bit_field k w x) n \<longleftrightarrow> k \<le> n \<and> n < k + w \<and> bit x n"
  by (auto simp: bit_field_def bit_simps dest: bit_word_less)

lemma bit_field_join: "bit_field k v x OR bit_field (k + v) w x = bit_field k (v + w) x"
  by (rule bit_eqI) (auto simp: bit_or_iff bit_bit_field)

lemma bit_field_all: "bit_field 0 64 x = x"
  by (rule bit_eqI) (auto simp: bit_bit_field)

lemma bit_field_cast:
  assumes "w \<le> LENGTH('b::len)"
  shows "push_bit k (ucast (ucast (drop_bit k x AND mask w) :: 'b word)) = bit_field k w x"
  by (rule bit_eqI) (use assms in \<open>auto simp: bit_bit_field bit_simps dest: bit_word_less\<close>)

lemma ucast_ucast_u8: "(ucast (ucast (x :: u8) :: u16) :: u8) = x"
  by (rule bit_eqI) (auto simp: bit_simps dest: bit_word_less)

text \<open>Clearing the low bits of a word is rounding down to the power of two.\<close>

lemma unat_and_not_mask:
  fixes w :: "'a::len word"
  assumes "n < LENGTH('a)"
  shows "unat (w AND NOT (mask n)) = unat w div 2 ^ n * 2 ^ n"
proof -
  have "w AND NOT (mask n) = push_bit n (drop_bit n w)"
    by (rule bit_eqI) (auto simp: bit_simps)
  then have "unat (w AND NOT (mask n)) = unat (push_bit n (drop_bit n w))" by simp
  also have "\<dots> = take_bit LENGTH('a) (push_bit n (unat w div 2 ^ n))"
    by (simp add: unsigned_push_bit_eq unsigned_drop_bit_eq drop_bit_eq_div [where 'a = nat]
        take_bit_nat_eq_self [OF unsigned_less])
  also have "\<dots> = unat w div 2 ^ n * 2 ^ n"
  proof -
    have "unat w div 2 ^ n * 2 ^ n \<le> unat w" by simp
    also have "\<dots> < 2 ^ LENGTH('a)" by (rule unsigned_less)
    finally show ?thesis by (simp add: push_bit_eq_mult take_bit_nat_eq_self)
  qed
  finally show ?thesis .
qed

lemma unat_and_mask:
  fixes w :: "'a::len word"
  shows "unat (w AND mask n) = unat w mod 2 ^ n"
proof -
  have "w AND mask n = take_bit n w" by (simp add: take_bit_eq_mask)
  then show ?thesis by (simp add: unsigned_take_bit_eq take_bit_eq_mod [where 'a = nat])
qed

section \<open>Lists\<close>

lemma list_update_numeral [simp]: "(x # xs)[numeral k := v] = x # xs[pred_numeral k := v]"
  by (simp add: numeral_eq_Suc)

lemma length_fold_update:
  "length (fold (\<lambda>i bs. bs[i := v]) is xs) = length xs"
  by (induction "is" arbitrary: xs) auto

lemma fold_update_upto:
  assumes "n \<le> length xs"
  shows "fold (\<lambda>i bs. bs[i := v]) [0..<n] xs = replicate n v @ drop n xs"
  using assms
proof (induction n)
  case (Suc n)
  then have "fold (\<lambda>i bs. bs[i := v]) [0..<Suc n] xs = (replicate n v @ drop n xs)[n := v]"
    by simp
  also have "\<dots> = replicate n v @ (drop n xs)[0 := v]"
    by (simp add: list_update_append)
  also have "(drop n xs)[0 := v] = v # drop (Suc n) xs"
    using Suc.prems by (simp add: Cons_nth_drop_Suc [symmetric])
  also have "replicate n v @ v # drop (Suc n) xs = replicate (Suc n) v @ drop (Suc n) xs"
    by (simp add: replicate_app_Cons_same)
  finally show ?case .
qed simp

lemma fold_update_all:
  "fold (\<lambda>i bs. bs[i := v]) [0..<length xs] xs = replicate (length xs) v"
  by (simp add: fold_update_upto)

end
