(* ===== verification/Console.thy ===== *)
theory Console
  imports Prelude
begin

text \<open>
  The framebuffer console of \<open>src/kernel/kernel.c\<close> (declared in \<open>console.h\<close>): pixels, rectangles, glyphs, the text cursor
  with scrolling, and the number printers. The framebuffer is a function from pixel indices to colours; an index is
  computed in 32-bit arithmetic, as in the source. A C string argument is the list of its bytes up to the zero byte.
\<close>

definition COLOR_WHITE :: u32 where "COLOR_WHITE = 0x00FFFFFF"
definition COLOR_GREEN :: u32 where "COLOR_GREEN = 0x0000FF00"
definition COLOR_CYAN :: u32 where "COLOR_CYAN = 0x00FFFF00"
definition COLOR_YELLOW :: u32 where "COLOR_YELLOW = 0x0000FFFF"
definition COLOR_RED :: u32 where "COLOR_RED = 0x000000FF"
definition COLOR_DARK_BG :: u32 where "COLOR_DARK_BG = 0x00202030"

record console =
  fb :: "u32 \<Rightarrow> u32"
  fb_width :: u32
  fb_height :: u32
  fb_pitch :: u32
  cursor_x :: u32
  cursor_y :: u32
  text_color :: u32

section \<open>Font\<close>

text \<open>The initialised entries of the table; all others are zero.\<close>

definition font_table :: "(nat \<times> u8 list) list" where
  "font_table =
    [(32, [0x00, 0x00, 0x00, 0x00, 0x00, 0x00, 0x00, 0x00]), (33, [0x18, 0x18, 0x18, 0x18, 0x18, 0x00, 0x18, 0x00]),
     (34, [0x6C, 0x6C, 0x24, 0x00, 0x00, 0x00, 0x00, 0x00]), (48, [0x3C, 0x66, 0x6E, 0x76, 0x66, 0x66, 0x3C, 0x00]),
     (49, [0x18, 0x38, 0x18, 0x18, 0x18, 0x18, 0x7E, 0x00]), (50, [0x3C, 0x66, 0x06, 0x0C, 0x18, 0x30, 0x7E, 0x00]),
     (51, [0x3C, 0x66, 0x06, 0x1C, 0x06, 0x66, 0x3C, 0x00]), (52, [0x0C, 0x1C, 0x3C, 0x6C, 0x7E, 0x0C, 0x0C, 0x00]),
     (53, [0x7E, 0x60, 0x7C, 0x06, 0x06, 0x66, 0x3C, 0x00]), (54, [0x1C, 0x30, 0x60, 0x7C, 0x66, 0x66, 0x3C, 0x00]),
     (55, [0x7E, 0x06, 0x0C, 0x18, 0x30, 0x30, 0x30, 0x00]), (56, [0x3C, 0x66, 0x66, 0x3C, 0x66, 0x66, 0x3C, 0x00]),
     (57, [0x3C, 0x66, 0x66, 0x3E, 0x06, 0x0C, 0x38, 0x00]), (58, [0x00, 0x18, 0x18, 0x00, 0x18, 0x18, 0x00, 0x00]),
     (65, [0x18, 0x3C, 0x66, 0x66, 0x7E, 0x66, 0x66, 0x00]), (66, [0x7C, 0x66, 0x66, 0x7C, 0x66, 0x66, 0x7C, 0x00]),
     (67, [0x3C, 0x66, 0x60, 0x60, 0x60, 0x66, 0x3C, 0x00]), (68, [0x78, 0x6C, 0x66, 0x66, 0x66, 0x6C, 0x78, 0x00]),
     (69, [0x7E, 0x60, 0x60, 0x7C, 0x60, 0x60, 0x7E, 0x00]), (70, [0x7E, 0x60, 0x60, 0x7C, 0x60, 0x60, 0x60, 0x00]),
     (71, [0x3C, 0x66, 0x60, 0x6E, 0x66, 0x66, 0x3E, 0x00]), (72, [0x66, 0x66, 0x66, 0x7E, 0x66, 0x66, 0x66, 0x00]),
     (73, [0x3C, 0x18, 0x18, 0x18, 0x18, 0x18, 0x3C, 0x00]), (74, [0x06, 0x06, 0x06, 0x06, 0x66, 0x66, 0x3C, 0x00]),
     (75, [0x66, 0x6C, 0x78, 0x70, 0x78, 0x6C, 0x66, 0x00]), (76, [0x60, 0x60, 0x60, 0x60, 0x60, 0x60, 0x7E, 0x00]),
     (77, [0xC6, 0xEE, 0xFE, 0xD6, 0xC6, 0xC6, 0xC6, 0x00]), (78, [0x66, 0x76, 0x7E, 0x7E, 0x6E, 0x66, 0x66, 0x00]),
     (79, [0x3C, 0x66, 0x66, 0x66, 0x66, 0x66, 0x3C, 0x00]), (80, [0x7C, 0x66, 0x66, 0x7C, 0x60, 0x60, 0x60, 0x00]),
     (81, [0x3C, 0x66, 0x66, 0x66, 0x6A, 0x6C, 0x36, 0x00]), (82, [0x7C, 0x66, 0x66, 0x7C, 0x6C, 0x66, 0x66, 0x00]),
     (83, [0x3C, 0x66, 0x60, 0x3C, 0x06, 0x66, 0x3C, 0x00]), (84, [0x7E, 0x18, 0x18, 0x18, 0x18, 0x18, 0x18, 0x00]),
     (85, [0x66, 0x66, 0x66, 0x66, 0x66, 0x66, 0x3C, 0x00]), (86, [0x66, 0x66, 0x66, 0x66, 0x66, 0x3C, 0x18, 0x00]),
     (87, [0xC6, 0xC6, 0xC6, 0xD6, 0xFE, 0xEE, 0xC6, 0x00]), (88, [0x66, 0x66, 0x3C, 0x18, 0x3C, 0x66, 0x66, 0x00]),
     (89, [0x66, 0x66, 0x66, 0x3C, 0x18, 0x18, 0x18, 0x00]), (90, [0x7E, 0x06, 0x0C, 0x18, 0x30, 0x60, 0x7E, 0x00]),
     (97, [0x00, 0x00, 0x3C, 0x06, 0x3E, 0x66, 0x3E, 0x00]), (98, [0x60, 0x60, 0x7C, 0x66, 0x66, 0x66, 0x7C, 0x00]),
     (99, [0x00, 0x00, 0x3C, 0x66, 0x60, 0x66, 0x3C, 0x00]), (100, [0x06, 0x06, 0x3E, 0x66, 0x66, 0x66, 0x3E, 0x00]),
     (101, [0x00, 0x00, 0x3C, 0x66, 0x7E, 0x60, 0x3C, 0x00]), (102, [0x1C, 0x30, 0x7C, 0x30, 0x30, 0x30, 0x30, 0x00]),
     (103, [0x00, 0x00, 0x3E, 0x66, 0x66, 0x3E, 0x06, 0x3C]), (104, [0x60, 0x60, 0x7C, 0x66, 0x66, 0x66, 0x66, 0x00]),
     (105, [0x18, 0x00, 0x38, 0x18, 0x18, 0x18, 0x3C, 0x00]), (106, [0x18, 0x00, 0x18, 0x18, 0x18, 0x18, 0x18, 0x70]),
     (107, [0x60, 0x60, 0x66, 0x6C, 0x78, 0x6C, 0x66, 0x00]), (108, [0x38, 0x18, 0x18, 0x18, 0x18, 0x18, 0x3C, 0x00]),
     (109, [0x00, 0x00, 0xEC, 0xFE, 0xD6, 0xC6, 0xC6, 0x00]), (110, [0x00, 0x00, 0x7C, 0x66, 0x66, 0x66, 0x66, 0x00]),
     (111, [0x00, 0x00, 0x3C, 0x66, 0x66, 0x66, 0x3C, 0x00]), (112, [0x00, 0x00, 0x7C, 0x66, 0x66, 0x7C, 0x60, 0x60]),
     (113, [0x00, 0x00, 0x3E, 0x66, 0x66, 0x3E, 0x06, 0x06]), (114, [0x00, 0x00, 0x7C, 0x66, 0x60, 0x60, 0x60, 0x00]),
     (115, [0x00, 0x00, 0x3E, 0x60, 0x3C, 0x06, 0x7C, 0x00]), (116, [0x30, 0x30, 0x7C, 0x30, 0x30, 0x30, 0x1C, 0x00]),
     (117, [0x00, 0x00, 0x66, 0x66, 0x66, 0x66, 0x3E, 0x00]), (118, [0x00, 0x00, 0x66, 0x66, 0x66, 0x3C, 0x18, 0x00]),
     (119, [0x00, 0x00, 0xC6, 0xC6, 0xD6, 0xFE, 0x6C, 0x00]), (120, [0x00, 0x00, 0x66, 0x3C, 0x18, 0x3C, 0x66, 0x00]),
     (121, [0x00, 0x00, 0x66, 0x66, 0x66, 0x3E, 0x06, 0x3C]), (122, [0x00, 0x00, 0x7E, 0x0C, 0x18, 0x30, 0x7E, 0x00]),
     (46, [0x00, 0x00, 0x00, 0x00, 0x00, 0x18, 0x18, 0x00]), (44, [0x00, 0x00, 0x00, 0x00, 0x00, 0x18, 0x18, 0x30]),
     (45, [0x00, 0x00, 0x00, 0x7E, 0x00, 0x00, 0x00, 0x00]), (95, [0x00, 0x00, 0x00, 0x00, 0x00, 0x00, 0x00, 0xFF]),
     (40, [0x0C, 0x18, 0x30, 0x30, 0x30, 0x18, 0x0C, 0x00]), (41, [0x30, 0x18, 0x0C, 0x0C, 0x0C, 0x18, 0x30, 0x00]),
     (91, [0x3C, 0x30, 0x30, 0x30, 0x30, 0x30, 0x3C, 0x00]), (93, [0x3C, 0x0C, 0x0C, 0x0C, 0x0C, 0x0C, 0x3C, 0x00]),
     (47, [0x00, 0x06, 0x0C, 0x18, 0x30, 0x60, 0x00, 0x00]), (61, [0x00, 0x00, 0x7E, 0x00, 0x7E, 0x00, 0x00, 0x00]),
     (43, [0x00, 0x18, 0x18, 0x7E, 0x18, 0x18, 0x00, 0x00]), (42, [0x00, 0x66, 0x3C, 0xFF, 0x3C, 0x66, 0x00, 0x00]),
     (64, [0x3C, 0x66, 0x6E, 0x6A, 0x6E, 0x60, 0x3C, 0x00]), (35, [0x6C, 0x6C, 0xFE, 0x6C, 0xFE, 0x6C, 0x6C, 0x00]),
     (36, [0x18, 0x3E, 0x60, 0x3C, 0x06, 0x7C, 0x18, 0x00]), (37, [0x00, 0x66, 0x0C, 0x18, 0x30, 0x66, 0x00, 0x00]),
     (38, [0x38, 0x6C, 0x38, 0x70, 0x6E, 0x66, 0x3E, 0x00]), (60, [0x0C, 0x18, 0x30, 0x60, 0x30, 0x18, 0x0C, 0x00]),
     (62, [0x30, 0x18, 0x0C, 0x06, 0x0C, 0x18, 0x30, 0x00]), (63, [0x3C, 0x66, 0x06, 0x0C, 0x18, 0x00, 0x18, 0x00]),
     (124, [0x18, 0x18, 0x18, 0x18, 0x18, 0x18, 0x18, 0x00]), (94, [0x18, 0x3C, 0x66, 0x00, 0x00, 0x00, 0x00, 0x00]),
     (126, [0x00, 0x00, 0x32, 0x7E, 0x4C, 0x00, 0x00, 0x00])]"

definition font8x8 :: "nat \<Rightarrow> u8 list" where
  "font8x8 c = (case map_of font_table c of None \<Rightarrow> replicate 8 0 | Some rows \<Rightarrow> rows)"

section \<open>Graphics\<close>

definition put_pixel :: "u32 \<Rightarrow> u32 \<Rightarrow> u32 \<Rightarrow> console \<Rightarrow> console" where
  "put_pixel x y color c =
     (if x < fb_width c \<and> y < fb_height c then c\<lparr>fb := (fb c)(y * fb_pitch c + x := color)\<rparr> else c)"

text \<open>The inner loop of \<open>fill_rect\<close>, from column \<open>px\<close> on, and the outer one, from row \<open>py\<close> on.\<close>

function fill_row :: "u32 \<Rightarrow> u32 \<Rightarrow> u32 \<Rightarrow> u32 \<Rightarrow> console \<Rightarrow> console" where
  "fill_row px xe py color c =
     (if px < xe \<and> px < fb_width c
      then fill_row (px + 1) xe py color (c\<lparr>fb := (fb c)(py * fb_pitch c + px := color)\<rparr>) else c)"
  by pat_completeness auto
termination
  by (relation "measure (\<lambda>(px, xe, py, color, c). unat (xe - px))") (auto simp: loop_measure)

declare fill_row.simps [simp del]

lemma fill_row_dims [simp]:
  "fb_width (fill_row px xe py color c) = fb_width c" "fb_height (fill_row px xe py color c) = fb_height c"
  "fb_pitch (fill_row px xe py color c) = fb_pitch c" "cursor_x (fill_row px xe py color c) = cursor_x c"
  "cursor_y (fill_row px xe py color c) = cursor_y c" "text_color (fill_row px xe py color c) = text_color c"
  by (induction px xe py color c rule: fill_row.induct; subst fill_row.simps; simp)+

function fill_rows :: "u32 \<Rightarrow> u32 \<Rightarrow> u32 \<Rightarrow> u32 \<Rightarrow> u32 \<Rightarrow> console \<Rightarrow> console" where
  "fill_rows py ye x xe color c =
     (if py < ye \<and> py < fb_height c then fill_rows (py + 1) ye x xe color (fill_row x xe py color c) else c)"
  by pat_completeness auto
termination
  by (relation "measure (\<lambda>(py, ye, x, xe, color, c). unat (ye - py))") (auto simp: loop_measure)

declare fill_rows.simps [simp del]

definition fill_rect :: "u32 \<Rightarrow> u32 \<Rightarrow> u32 \<Rightarrow> u32 \<Rightarrow> u32 \<Rightarrow> console \<Rightarrow> console" where
  "fill_rect x y w h color c = fill_rows y (y + h) x (x + w) color c"

text \<open>The loops of \<open>clear_screen\<close> run to the width and the height.\<close>

definition clear_screen :: "u32 \<Rightarrow> console \<Rightarrow> console" where
  "clear_screen color c = fill_rows 0 (fb_height c) 0 (fb_width c) color c"

definition draw_row :: "u32 \<Rightarrow> u32 \<Rightarrow> u32 \<Rightarrow> u8 \<Rightarrow> nat \<Rightarrow> console \<Rightarrow> console" where
  "draw_row x y color bits row =
     fold (\<lambda>col c. if bits AND drop_bit col 0x80 \<noteq> 0 then put_pixel (x + of_nat col) (y + of_nat row) color c else c) [0..<8]"

definition draw_char :: "u32 \<Rightarrow> u32 \<Rightarrow> u8 \<Rightarrow> u32 \<Rightarrow> console \<Rightarrow> console" where
  "draw_char x y ch color =
     (let ch = (if ch > 127 then 63 else ch); glyph = font8x8 (unat ch)
      in fold (\<lambda>row. draw_row x y color (glyph ! row) row) [0..<8])"

section \<open>Console\<close>

function scroll_row :: "u32 \<Rightarrow> u32 \<Rightarrow> console \<Rightarrow> console" where
  "scroll_row x y c =
     (if x < fb_width c
      then scroll_row (x + 1) y (c\<lparr>fb := (fb c)((y - 10) * fb_pitch c + x := fb c (y * fb_pitch c + x))\<rparr>) else c)"
  by pat_completeness auto
termination
  by (relation "measure (\<lambda>(x, y, c). unat (fb_width c - x))") (auto simp: loop_measure)

declare scroll_row.simps [simp del]

lemma scroll_row_dims [simp]:
  "fb_width (scroll_row x y c) = fb_width c" "fb_height (scroll_row x y c) = fb_height c"
  "fb_pitch (scroll_row x y c) = fb_pitch c" "cursor_x (scroll_row x y c) = cursor_x c"
  "cursor_y (scroll_row x y c) = cursor_y c" "text_color (scroll_row x y c) = text_color c"
  by (induction x y c rule: scroll_row.induct; subst scroll_row.simps; simp)+

function scroll_rows :: "u32 \<Rightarrow> console \<Rightarrow> console" where
  "scroll_rows y c = (if y < fb_height c then scroll_rows (y + 1) (scroll_row 0 y c) else c)"
  by pat_completeness auto
termination
  by (relation "measure (\<lambda>(y, c). unat (fb_height c - y))") (auto simp: loop_measure)

declare scroll_rows.simps [simp del]

definition console_newline :: "console \<Rightarrow> console" where
  "console_newline c =
     (let c = c\<lparr>cursor_x := 0, cursor_y := cursor_y c + 10\<rparr> in
      if cursor_y c + 10 > fb_height c
      then let c = scroll_rows 10 c;
               c = fill_rect 0 (fb_height c - 10) (fb_width c) 10 COLOR_DARK_BG c
           in c\<lparr>cursor_y := fb_height c - 10\<rparr>
      else c)"

definition console_putchar :: "u8 \<Rightarrow> console \<Rightarrow> console" where
  "console_putchar ch c =
     (if ch = 10 then console_newline c
      else if ch = 13 then c\<lparr>cursor_x := 0\<rparr>
      else if ch = 9 then c\<lparr>cursor_x := (cursor_x c + 32) AND NOT 31\<rparr>
      else if ch = 8
      then (if cursor_x c \<ge> 8
            then let c = c\<lparr>cursor_x := cursor_x c - 8\<rparr> in fill_rect (cursor_x c) (cursor_y c) 8 10 COLOR_DARK_BG c
            else c)
      else
        let c = draw_char (cursor_x c) (cursor_y c) ch (text_color c) c;
            c = c\<lparr>cursor_x := cursor_x c + 8\<rparr>
        in if cursor_x c + 8 > fb_width c then console_newline c else c)"

definition console_print :: "u8 list \<Rightarrow> console \<Rightarrow> console" where
  "console_print str = fold console_putchar str"

definition console_set_color :: "u32 \<Rightarrow> console \<Rightarrow> console" where
  "console_set_color color c = c\<lparr>text_color := color\<rparr>"

definition console_clear :: "console \<Rightarrow> console" where
  "console_clear c = (clear_screen COLOR_DARK_BG c)\<lparr>cursor_x := 0, cursor_y := 0\<rparr>"

section \<open>Numbers\<close>

text \<open>
  The digits \<open>print_dec\<close> writes from the end of its buffer towards the front; the second argument is what is already
  there, and the position of the next digit is 20 less its length.
\<close>

function dec_loop :: "u64 \<Rightarrow> u8 list \<Rightarrow> u8 list" where
  "dec_loop num p = (if num > 0 then dec_loop (num div 10) ((48 + ucast (num mod 10)) # p) else p)"
  by pat_completeness auto
termination
proof (relation "measure (\<lambda>(num, p). unat num)")
  fix num :: u64 and p :: "u8 list"
  assume "num > 0"
  then have "0 < unat num" by (simp add: word_nat)
  then show "((num div 10, (48 + ucast (num mod 10)) # p), num, p) \<in> measure (\<lambda>(num, p). unat num)"
    by (simp add: unat_div_distrib)
qed simp

declare dec_loop.simps [simp del]

definition dec_digits :: "u64 \<Rightarrow> u8 list" where
  "dec_digits num = (if num = 0 then [48] else dec_loop num [])"

definition print_dec :: "u64 \<Rightarrow> console \<Rightarrow> console" where
  "print_dec num = console_print (dec_digits num)"

definition hex_digit :: "u64 \<Rightarrow> u8" where
  "hex_digit d = [48, 49, 50, 51, 52, 53, 54, 55, 56, 57, 65, 66, 67, 68, 69, 70] ! unat d"

text \<open>The buffer of \<open>print_hex\<close>, filled from the end, and the leading zeros skipped.\<close>

fun hex_fill :: "nat \<Rightarrow> u64 \<Rightarrow> u8 list \<Rightarrow> u8 list" where
  "hex_fill 0 num buf = buf"
| "hex_fill (Suc i) num buf = hex_fill i (drop_bit 4 num) (hex_digit (num AND 0xF) # buf)"

fun skip_zeros :: "u8 list \<Rightarrow> u8 list" where
  "skip_zeros (a # b # rest) = (if a = 48 then skip_zeros (b # rest) else a # b # rest)"
| "skip_zeros p = p"

definition hex_digits :: "u64 \<Rightarrow> u8 list" where
  "hex_digits num = [48, 120] @ skip_zeros (hex_fill 16 num [])"

definition print_hex :: "u64 \<Rightarrow> console \<Rightarrow> console" where
  "print_hex num = console_print (hex_digits num)"

section \<open>Logo\<close>

definition draw_logo :: "u32 \<Rightarrow> u32 \<Rightarrow> console \<Rightarrow> console" where
  "draw_logo x y c =
     (let color = COLOR_CYAN;
          c = fill_rect x y 60 10 color c;
          c = fill_rect x y 10 30 color c;
          c = fill_rect x (y + 25) 60 10 color c;
          c = fill_rect (x + 50) (y + 25) 10 30 color c
      in fill_rect x (y + 50) 60 10 color c)"

end
