(* ===== verification/Console_Spec.thy ===== *)
theory Console_Spec
  imports Console
begin

text \<open>
  What the console promises: whatever is printed, only pixels of the visible rectangle are written and the text
  cursor stays on the screen; a line feed at the bottom moves the picture up by ten rows; a printable character
  sets exactly the pixels of its glyph; and the number printers produce the digits of the number.
\<close>

section \<open>Writes stay on the screen\<close>

definition visible :: "console \<Rightarrow> u32 set" where
  "visible c = {y * fb_pitch c + x | x y. x < fb_width c \<and> y < fb_height c}"

lemma visible_cursor [simp]: "visible (c\<lparr>cursor_x := x\<rparr>) = visible c" "visible (c\<lparr>cursor_y := y\<rparr>) = visible c"
  by (simp_all add: visible_def)

definition same_screen :: "console \<Rightarrow> console \<Rightarrow> bool" where
  "same_screen c c' \<longleftrightarrow> fb_width c' = fb_width c \<and> fb_height c' = fb_height c \<and> fb_pitch c' = fb_pitch c
     \<and> (\<forall>i. i \<notin> visible c \<longrightarrow> fb c' i = fb c i)"

lemma same_screen_refl [simp]: "same_screen c c"
  by (simp add: same_screen_def)

lemma same_screen_trans: "same_screen a b \<Longrightarrow> same_screen b c \<Longrightarrow> same_screen a c"
  by (simp add: same_screen_def visible_def)

lemma same_screen_cursor [simp]:
  "same_screen c (c'\<lparr>cursor_x := x\<rparr>) = same_screen c c'" "same_screen c (c'\<lparr>cursor_y := y\<rparr>) = same_screen c c'"
  "same_screen c (c'\<lparr>text_color := k\<rparr>) = same_screen c c'" "same_screen (c\<lparr>cursor_x := x\<rparr>) c' = same_screen c c'"
  "same_screen (c\<lparr>cursor_y := y\<rparr>) c' = same_screen c c'"
  by (simp_all add: same_screen_def visible_def)

lemma write_visible:
  assumes "x < fb_width c" "y < fb_height c"
  shows "same_screen c (c\<lparr>fb := (fb c)(y * fb_pitch c + x := v)\<rparr>)"
proof -
  have "y * fb_pitch c + x \<in> visible c" using assms by (auto simp: visible_def)
  then show ?thesis by (auto simp: same_screen_def)
qed

lemma put_pixel_screen: "same_screen c (put_pixel x y v c)"
  using write_visible by (simp add: put_pixel_def)

lemma fill_row_screen: "py < fb_height c \<Longrightarrow> same_screen c (fill_row px xe py v c)"
proof (induction px xe py v c rule: fill_row.induct)
  case (1 px xe py v c)
  show ?case
  proof (cases "px < xe \<and> px < fb_width c")
    case True
    let ?c = "c\<lparr>fb := (fb c)(py * fb_pitch c + px := v)\<rparr>"
    have "same_screen ?c (fill_row (px + 1) xe py v ?c)" using 1 True by simp
    then show ?thesis using True write_visible [of px c py v] 1(2) same_screen_trans by (subst fill_row.simps) auto
  next
    case False
    then show ?thesis by (subst fill_row.simps) auto
  qed
qed

lemma fill_rows_screen: "same_screen c (fill_rows py ye x xe v c)"
proof (induction py ye x xe v c rule: fill_rows.induct)
  case (1 py ye x xe v c)
  show ?case
  proof (cases "py < ye \<and> py < fb_height c")
    case True
    then show ?thesis using 1 [OF True] fill_row_screen [of py c x xe v] same_screen_trans by (subst fill_rows.simps) auto
  next
    case False
    then show ?thesis by (subst fill_rows.simps) auto
  qed
qed

lemma cursor_fill_rows [simp]:
  "cursor_x (fill_rows py ye x xe v c) = cursor_x c" "cursor_y (fill_rows py ye x xe v c) = cursor_y c"
  by (induction py ye x xe v c rule: fill_rows.induct; subst fill_rows.simps; simp)+

lemma draw_char_screen: "same_screen c (draw_char x y ch v c) \<and> cursor_y (draw_char x y ch v c) = cursor_y c
    \<and> cursor_x (draw_char x y ch v c) = cursor_x c"
proof -
  define ok where "ok d \<longleftrightarrow> same_screen c d \<and> cursor_y d = cursor_y c \<and> cursor_x d = cursor_x c" for d
  have put: "ok (put_pixel a b v d)" if "ok d" for a b d
    using that put_pixel_screen [of d a b v] same_screen_trans by (auto simp: ok_def put_pixel_def)
  have row: "ok (draw_row x y v bits r d)" if "ok d" for bits r d
  proof -
    have "ok (fold (\<lambda>col c. if bits AND drop_bit col 0x80 \<noteq> 0 then put_pixel (x + of_nat col) (y + of_nat r) v c else c) cols d)" for cols
      using that by (induction cols arbitrary: d) (auto simp: put)
    then show ?thesis by (simp add: draw_row_def)
  qed
  have "ok (fold (\<lambda>r. draw_row x y v (g ! r) r) rs d)" if "ok d" for g rs d
    using that by (induction rs arbitrary: d) (auto simp: row)
  moreover have "ok c" by (simp add: ok_def)
  ultimately show ?thesis by (simp add: draw_char_def Let_def ok_def)
qed

lemma scroll_row_screen: "y < fb_height c \<Longrightarrow> 10 \<le> y \<Longrightarrow> same_screen c (scroll_row x y c)"
proof (induction x y c rule: scroll_row.induct)
  case (1 x y c)
  show ?case
  proof (cases "x < fb_width c")
    case True
    let ?c = "c\<lparr>fb := (fb c)((y - 10) * fb_pitch c + x := fb c (y * fb_pitch c + x))\<rparr>"
    have "y - 10 < fb_height c" using 1(2,3) by (simp add: word_nat unat_sub)
    then have "same_screen c ?c" by (rule write_visible [OF True])
    moreover have "same_screen ?c (scroll_row (x + 1) y ?c)" using 1 True by simp
    ultimately show ?thesis using True same_screen_trans by (subst scroll_row.simps) auto
  next
    case False
    then show ?thesis by (subst scroll_row.simps) auto
  qed
qed

lemma scroll_rows_screen: "10 \<le> y \<Longrightarrow> same_screen c (scroll_rows y c)"
proof (induction y c rule: scroll_rows.induct)
  case (1 y c)
  show ?case
  proof (cases "y < fb_height c")
    case True
    then have "10 \<le> y + 1" using 1(2) unat_plus_one_less [OF True] by (simp add: word_nat)
    then have "same_screen (scroll_row 0 y c) (scroll_rows (y + 1) (scroll_row 0 y c))" using 1(1) True by simp
    then show ?thesis using True scroll_row_screen [of y c 0] 1(2) same_screen_trans by (subst scroll_rows.simps) auto
  next
    case False
    then show ?thesis by (subst scroll_rows.simps) auto
  qed
qed

text \<open>The cursor is on the screen: a text line of ten rows fits below it.\<close>

definition con_inv :: "console \<Rightarrow> bool" where
  "con_inv c \<longleftrightarrow> unat (fb_height c) < 2 ^ 32 - 20 \<and> unat (cursor_y c) + 10 \<le> unat (fb_height c)"

lemma newline_ok:
  assumes "con_inv c"
  shows "same_screen c (console_newline c) \<and> con_inv (console_newline c)"
proof -
  let ?c = "c\<lparr>cursor_x := 0, cursor_y := cursor_y c + 10\<rparr>"
  have h: "10 \<le> unat (fb_height c)" "unat (cursor_y c) + 20 < 2 ^ 32" using assms by (auto simp: con_inv_def)
  have y: "unat (cursor_y c + 10) = unat (cursor_y c) + 10" "unat (cursor_y c + 10 + 10) = unat (cursor_y c) + 20"
    using h(2) unat_plus_nowrap [of "cursor_y c" 10] unat_plus_nowrap [of "cursor_y c + 10" 10] by simp_all
  show ?thesis
  proof (cases "fb_height c < cursor_y c + 10 + 10")
    case False
    then have "unat (cursor_y c) + 20 \<le> unat (fb_height c)" using y(2) by (simp add: word_nat)
    then show ?thesis using False y(1) assms by (simp add: console_newline_def con_inv_def)
  next
    case True
    let ?d = "scroll_rows 10 ?c"
    let ?e = "fill_rect 0 (fb_height ?d - 10) (fb_width ?d) 10 COLOR_DARK_BG ?d"
    have d: "same_screen c ?d" using scroll_rows_screen [of 10 ?c] by simp
    have e: "same_screen c ?e" using same_screen_trans [OF d] fill_rows_screen unfolding fill_rect_def by blast
    have hh: "fb_height ?e = fb_height c" using e by (simp add: same_screen_def)
    have "unat (fb_height c - 10) = unat (fb_height c) - 10" using h(1) by (simp add: unat_sub word_nat)
    then have "con_inv (?e\<lparr>cursor_y := fb_height ?e - 10\<rparr>)" using h(1) assms hh by (simp add: con_inv_def)
    moreover have "console_newline c = ?e\<lparr>cursor_y := fb_height ?e - 10\<rparr>" using True by (simp add: console_newline_def Let_def)
    ultimately show ?thesis using e by simp
  qed
qed

lemma putchar_ok:
  assumes "con_inv c"
  shows "same_screen c (console_putchar ch c) \<and> con_inv (console_putchar ch c)"
proof -
  let ?d = "draw_char (cursor_x c) (cursor_y c) ch (text_color c) c"
  have d: "same_screen c ?d" "cursor_y ?d = cursor_y c" using draw_char_screen by blast+
  then have invd: "con_inv (?d\<lparr>cursor_x := x\<rparr>)" for x using assms by (simp add: con_inv_def same_screen_def)
  have nl: "same_screen c (console_newline (?d\<lparr>cursor_x := x\<rparr>)) \<and> con_inv (console_newline (?d\<lparr>cursor_x := x\<rparr>))" for x
    using newline_ok [OF invd [of x]] same_screen_trans [OF d(1)] by simp
  have fr: "same_screen c (fill_rows py ye x xe v (c\<lparr>cursor_x := k\<rparr>)) \<and> con_inv (fill_rows py ye x xe v (c\<lparr>cursor_x := k\<rparr>))" for py ye x xe v k
    using fill_rows_screen [of "c\<lparr>cursor_x := k\<rparr>" py ye x xe v] assms by (simp add: con_inv_def same_screen_def)
  have cx: "con_inv (c\<lparr>cursor_x := k\<rparr>)" for k using assms by (simp add: con_inv_def)
  show ?thesis
    using newline_ok [OF assms] fr nl invd d(1) cx assms
    by (simp add: console_putchar_def Let_def fill_rect_def)
qed


section \<open>Pixels\<close>

text \<open>A framebuffer whose rows do not overlap: every pixel has an index of its own.\<close>

definition geo :: "console \<Rightarrow> bool" where
  "geo c \<longleftrightarrow> unat (fb_width c) \<le> unat (fb_pitch c) \<and> unat (fb_pitch c) * unat (fb_height c) \<le> 2 ^ 32"

definition pixel :: "console \<Rightarrow> u32 \<Rightarrow> u32 \<Rightarrow> u32" where
  "pixel c x y = fb c (y * fb_pitch c + x)"

lemma pixel_index:
  assumes "geo c" "x < fb_width c" "y < fb_height c"
  shows "unat (y * fb_pitch c + x) = unat y * unat (fb_pitch c) + unat x"
proof -
  have x: "unat x < unat (fb_pitch c)" using assms(1,2) by (simp add: geo_def word_nat)
  have "Suc (unat y) \<le> unat (fb_height c)" using assms(3) by (simp add: word_nat)
  then have "Suc (unat y) * unat (fb_pitch c) \<le> unat (fb_height c) * unat (fb_pitch c)" by (rule mult_le_mono1)
  also have "\<dots> \<le> 2 ^ 32" using assms(1) by (simp add: geo_def mult.commute)
  finally have lt: "unat y * unat (fb_pitch c) + unat x < 2 ^ 32" using x by simp
  then have "unat (y * fb_pitch c) = unat y * unat (fb_pitch c)" by (intro unat_mult_nowrap) simp
  then show ?thesis using lt unat_plus_nowrap [of "y * fb_pitch c" x] by simp
qed

lemma pixel_inj:
  assumes "geo c" "x < fb_width c" "y < fb_height c" "x' < fb_width c" "y' < fb_height c"
    "y * fb_pitch c + x = y' * fb_pitch c + x'"
  shows "x = x' \<and> y = y'"
proof -
  let ?p = "unat (fb_pitch c)"
  have lt: "unat x < ?p" "unat x' < ?p" using assms by (auto simp: geo_def word_nat)
  have "unat y * ?p + unat x = unat y' * ?p + unat x'"
    using pixel_index [OF assms(1-3)] pixel_index [OF assms(1,4,5)] assms(6) by simp
  then have e: "(unat y * ?p + unat x) div ?p = (unat y' * ?p + unat x') div ?p" "(unat y * ?p + unat x) mod ?p = (unat y' * ?p + unat x') mod ?p"
    by simp_all
  then show ?thesis using lt by (auto simp: word_unat_eq_iff)
qed

lemma pixel_write:
  assumes "geo c" "x < fb_width c" "y < fb_height c" "a < fb_width c" "b < fb_height c"
  shows "pixel (c\<lparr>fb := (fb c)(b * fb_pitch c + a := v)\<rparr>) x y = (if x = a \<and> y = b then v else pixel c x y)"
  using pixel_inj [OF assms] by (auto simp: pixel_def)

lemma geo_frame [simp]:
  "geo (c\<lparr>fb := f\<rparr>) = geo c" "geo (c\<lparr>cursor_x := u\<rparr>) = geo c" "geo (c\<lparr>cursor_y := w\<rparr>) = geo c"
  "pixel (c\<lparr>cursor_x := u\<rparr>) x y = pixel c x y" "pixel (c\<lparr>cursor_y := w\<rparr>) x y = pixel c x y"
  by (simp_all add: geo_def pixel_def)

lemma fill_row_pixel:
  assumes "geo c" "py < fb_height c" "x < fb_width c" "y < fb_height c"
  shows "pixel (fill_row px xe py v c) x y = (if y = py \<and> px \<le> x \<and> x < xe then v else pixel c x y)"
  using assms
proof (induction px xe py v c rule: fill_row.induct)
  case (1 px xe py v c)
  show ?case
  proof (cases "px < xe \<and> px < fb_width c")
    case True
    let ?c = "c\<lparr>fb := (fb c)(py * fb_pitch c + px := v)\<rparr>"
    have "pixel (fill_row (px + 1) xe py v ?c) x y = (if y = py \<and> px + 1 \<le> x \<and> x < xe then v else pixel ?c x y)"
      using 1 True by simp
    moreover have "px + 1 \<le> x \<longleftrightarrow> px < x" using unat_plus_one_less [of px xe] True by (simp add: word_nat Suc_le_eq)
    moreover have "pixel ?c x y = (if x = px \<and> y = py then v else pixel c x y)"
      by (rule pixel_write) (use 1(2-) True in auto)
    ultimately show ?thesis using True by (subst fill_row.simps) (auto simp: le_less)
  next
    case False
    then have "\<not> (px \<le> x \<and> x < xe)" using 1(4) by auto
    then show ?thesis using False by (subst fill_row.simps) auto
  qed
qed

lemma fill_rows_pixel:
  assumes "geo c" "x < fb_width c" "y < fb_height c"
  shows "pixel (fill_rows py ye px xe v c) x y = (if py \<le> y \<and> y < ye \<and> px \<le> x \<and> x < xe then v else pixel c x y)"
  using assms
proof (induction py ye px xe v c rule: fill_rows.induct)
  case (1 py ye px xe v c)
  show ?case
  proof (cases "py < ye \<and> py < fb_height c")
    case True
    let ?c = "fill_row px xe py v c"
    have "geo ?c" using 1(2) by (simp add: geo_def)
    then have "pixel (fill_rows (py + 1) ye px xe v ?c) x y = (if py + 1 \<le> y \<and> y < ye \<and> px \<le> x \<and> x < xe then v else pixel ?c x y)"
      using 1 True by simp
    moreover have "py + 1 \<le> y \<longleftrightarrow> py < y" using unat_plus_one_less [of py ye] True by (simp add: word_nat Suc_le_eq)
    moreover have "pixel ?c x y = (if y = py \<and> px \<le> x \<and> x < xe then v else pixel c x y)"
      by (rule fill_row_pixel) (use 1(2-) True in auto)
    ultimately show ?thesis using True by (subst fill_rows.simps) (auto simp: le_less)
  next
    case False
    then have "\<not> (py \<le> y \<and> y < ye)" using 1(4) by auto
    then show ?thesis using False by (subst fill_rows.simps) auto
  qed
qed

lemma scroll_row_pixel:
  assumes "geo c" "10 \<le> b" "b < fb_height c" "x < fb_width c" "y < fb_height c"
  shows "pixel (scroll_row a b c) x y = (if y = b - 10 \<and> a \<le> x then pixel c x b else pixel c x y)"
  using assms
proof (induction a b c rule: scroll_row.induct)
  case (1 a b c)
  have b: "b - 10 < fb_height c" "b - 10 \<noteq> b" using 1(3,4) by (simp_all add: word_nat unat_sub)
  show ?case
  proof (cases "a < fb_width c")
    case True
    let ?c = "c\<lparr>fb := (fb c)((b - 10) * fb_pitch c + a := fb c (b * fb_pitch c + a))\<rparr>"
    have "pixel (scroll_row (a + 1) b ?c) x y = (if y = b - 10 \<and> a + 1 \<le> x then pixel ?c x b else pixel ?c x y)"
      using 1 True by simp
    moreover have "a + 1 \<le> x \<longleftrightarrow> a < x" using unat_plus_one_less [OF True] by (simp add: word_nat Suc_le_eq)
    moreover have w: "pixel ?c x z = (if x = a \<and> z = b - 10 then pixel c a b else pixel c x z)" if "z < fb_height c" for z
      using pixel_write [OF 1(2) 1(5) that True b(1)] by (simp add: pixel_def)
    ultimately show ?thesis using True w [OF 1(6)] w [OF 1(4)] b(2) by (subst scroll_row.simps) (auto simp: le_less)
  next
    case False
    then have "\<not> a \<le> x" using 1(5) by auto
    then show ?thesis using False by (subst scroll_row.simps) auto
  qed
qed

lemma scroll_rows_pixel:
  assumes "geo c" "10 \<le> b" "x < fb_width c" "y < fb_height c"
  shows "pixel (scroll_rows b c) x y = (if unat b \<le> unat y + 10 \<and> unat y + 10 < unat (fb_height c) then pixel c x (y + 10) else pixel c x y)"
  using assms
proof (induction b c rule: scroll_rows.induct)
  case (1 b c)
  show ?case
  proof (cases "b < fb_height c")
    case True
    let ?c = "scroll_row 0 b c"
    have b1: "unat (b + 1) = Suc (unat b)" by (rule unat_plus_one_less [OF True])
    have "geo ?c" "10 \<le> b + 1" using 1(2,3) b1 by (simp_all add: geo_def word_nat)
    then have IH: "pixel (scroll_rows (b + 1) ?c) x y = (if unat (b + 1) \<le> unat y + 10 \<and> unat y + 10 < unat (fb_height c) then pixel ?c x (y + 10) else pixel ?c x y)"
      using 1 True by simp
    have row: "pixel ?c x z = (if z = b - 10 then pixel c x b else pixel c x z)" if "z < fb_height c" for z
      using scroll_row_pixel [OF 1(2,3) True 1(4) that, of 0] by simp
    have y10: "unat (y + 10) = unat y + 10" if "unat y + 10 < unat (fb_height c)"
      using that unat_below [of "fb_height c"] unat_plus_nowrap [of y 10] by simp
    have b10: "unat (b - 10) = unat b - 10" "10 \<le> unat b" using 1(3) by (simp_all add: word_nat unat_sub)
    have eqb: "y = b - 10 \<longleftrightarrow> unat y + 10 = unat b" using b10 by (auto simp: word_unat_eq_iff)
    have yb: "y + 10 = b" if "unat y + 10 = unat b" using that True y10 by (simp add: word_unat_eq_iff word_nat)
    have far: "y + 10 \<noteq> b - 10" if "unat (b + 1) \<le> unat y + 10" "unat y + 10 < unat (fb_height c)"
      using that y10 b10 b1 by (simp add: word_unat_eq_iff)
    show ?thesis
    proof (cases "unat (b + 1) \<le> unat y + 10 \<and> unat y + 10 < unat (fb_height c)")
      case up: True
      then have "y + 10 < fb_height c" using y10 by (simp add: word_nat)
      then show ?thesis using up True IH row [of "y + 10"] far b1 by (subst scroll_rows.simps) auto
    next
      case no: False
      then show ?thesis using True IH row [OF 1(5)] eqb yb b1 by (subst scroll_rows.simps) (auto simp: word_nat)
    qed
  next
    case False
    then show ?thesis by (subst scroll_rows.simps) (auto simp: word_nat)
  qed
qed


lemma fill_rows_dims [simp]:
  "fb_width (fill_rows py ye x xe v c) = fb_width c" "fb_height (fill_rows py ye x xe v c) = fb_height c"
  "fb_pitch (fill_rows py ye x xe v c) = fb_pitch c" "text_color (fill_rows py ye x xe v c) = text_color c"
  by (induction py ye x xe v c rule: fill_rows.induct; subst fill_rows.simps; simp)+

lemma scroll_rows_dims [simp]:
  "fb_width (scroll_rows y c) = fb_width c" "fb_height (scroll_rows y c) = fb_height c"
  "fb_pitch (scroll_rows y c) = fb_pitch c" "cursor_x (scroll_rows y c) = cursor_x c"
  by (induction y c rule: scroll_rows.induct; subst scroll_rows.simps; simp)+

section \<open>Glyphs\<close>

text \<open>The bit of a glyph at a column and a row.\<close>

definition glyph_bit :: "u8 \<Rightarrow> nat \<Rightarrow> nat \<Rightarrow> bool" where
  "glyph_bit ch col row \<longleftrightarrow> bit (font8x8 (unat (if ch > 127 then 63 else ch)) ! row) (7 - col)"

lemma column_bit: "col < 8 \<Longrightarrow> (b :: u8) AND drop_bit col 0x80 \<noteq> 0 \<longleftrightarrow> bit b (7 - col)"
proof -
  assume c: "col < 8"
  have "drop_bit col (0x80 :: u8) = push_bit (7 - col) 1"
  proof -
    consider "col = 0" | "col = 1" | "col = 2" | "col = 3" | "col = 4" | "col = 5" | "col = 6" | "col = 7"
      using c by linarith
    then show ?thesis by cases (simp_all add: push_bit_eq_mult drop_bit_eq_div)
  qed
  moreover have "b AND push_bit (7 - col) 1 \<noteq> 0 \<longleftrightarrow> bit b (7 - col)"
    using and_exp_eq_0_iff_not_bit [of b "7 - col"] by (simp add: push_bit_eq_mult)
  ultimately show ?thesis by simp
qed

lemma put_pixel_pixel:
  assumes "geo c" "x < fb_width c" "y < fb_height c"
  shows "pixel (put_pixel a b v c) x y = (if x = a \<and> y = b then v else pixel c x y)" "geo (put_pixel a b v c)"
    "fb_width (put_pixel a b v c) = fb_width c" "fb_height (put_pixel a b v c) = fb_height c"
  using pixel_write [OF assms, of a b v] assms by (auto simp: put_pixel_def)

text \<open>A run of pixels drawn one after the other, each under a condition of its own.\<close>

lemma fold_put_pixel:
  assumes "geo c" "x < fb_width c" "y < fb_height c"
  shows "pixel (fold (\<lambda>i c. if P i then put_pixel (f i) (g i) v c else c) is c) x y
      = (if \<exists>i \<in> set is. P i \<and> x = f i \<and> y = g i then v else pixel c x y)"
  using assms
proof (induction "is" arbitrary: c)
  case (Cons i "is")
  show ?case
  proof (cases "P i")
    case True
    then show ?thesis using Cons.IH [of "put_pixel (f i) (g i) v c"] put_pixel_pixel [OF Cons.prems] Cons.prems
      by auto
  next
    case False
    then show ?thesis using Cons.IH [OF Cons.prems] by auto
  qed
qed simp

lemma fold_put_pixel_frame:
  assumes "geo c" "x < fb_width c" "y < fb_height c"
  shows "geo (fold (\<lambda>i c. if P i then put_pixel (f i) (g i) v c else c) is c)"
    "fb_width (fold (\<lambda>i c. if P i then put_pixel (f i) (g i) v c else c) is c) = fb_width c"
    "fb_height (fold (\<lambda>i c. if P i then put_pixel (f i) (g i) v c else c) is c) = fb_height c"
  using assms by (induction "is" arbitrary: c) (auto simp: put_pixel_def)

lemma draw_char_fold:
  "draw_char x y ch v c = fold (\<lambda>(row, col) c. if glyph_bit ch col row then put_pixel (x + of_nat col) (y + of_nat row) v c else c)
     (List.product [0..<8] [0..<8]) c"
proof -
  have row: "draw_row x y v (font8x8 (unat (if ch > 127 then 63 else ch)) ! row) row d
      = fold (\<lambda>(row, col) c. if glyph_bit ch col row then put_pixel (x + of_nat col) (y + of_nat row) v c else c) (map (Pair row) [0..<8]) d" for row d
    unfolding draw_row_def fold_map by (rule fold_cong) (auto simp: column_bit glyph_bit_def)
  have "fold (\<lambda>row. draw_row x y v (font8x8 (unat (if ch > 127 then 63 else ch)) ! row) row) rows d
      = fold (\<lambda>(row, col) c. if glyph_bit ch col row then put_pixel (x + of_nat col) (y + of_nat row) v c else c) (List.product rows [0..<8]) d" for rows d
    by (induction rows arbitrary: d) (simp_all only: fold.simps List.product.simps fold_append row comp_apply id_apply)
  then show ?thesis by (simp add: draw_char_def Let_def)
qed


lemma draw_char_pixel:
  assumes "geo c" "x < fb_width c" "y < fb_height c"
  shows "pixel (draw_char a b ch v c) x y
      = (if \<exists>col < 8. \<exists>row < 8. glyph_bit ch col row \<and> x = a + of_nat col \<and> y = b + of_nat row then v else pixel c x y)"
proof -
  let ?f = "\<lambda>p. a + of_nat (snd p)" and ?g = "\<lambda>p. b + of_nat (fst p)"
  have "pixel (draw_char a b ch v c) x y
      = (if \<exists>p \<in> set (List.product [0..<8] [0..<8]). glyph_bit ch (snd p) (fst p) \<and> x = ?f p \<and> y = ?g p then v else pixel c x y)"
    unfolding draw_char_fold split_def by (rule fold_put_pixel [OF assms])
  moreover have "(\<exists>p \<in> set (List.product [0..<8] [0..<8]). glyph_bit ch (snd p) (fst p) \<and> x = ?f p \<and> y = ?g p)
      \<longleftrightarrow> (\<exists>col < 8. \<exists>row < 8. glyph_bit ch col row \<and> x = a + of_nat col \<and> y = b + of_nat row)"
    by (auto simp: Bex_def)
  ultimately show ?thesis by simp
qed

lemma draw_char_frame:
  "fb_width (draw_char a b ch v c) = fb_width c" "fb_height (draw_char a b ch v c) = fb_height c"
  "fb_pitch (draw_char a b ch v c) = fb_pitch c" "cursor_x (draw_char a b ch v c) = cursor_x c"
  "cursor_y (draw_char a b ch v c) = cursor_y c"
  using draw_char_screen [of c a b ch v] by (simp_all add: same_screen_def)

lemma putchar_printable:
  assumes "ch \<notin> {8, 9, 10, 13}" "unat (cursor_x c) + 16 \<le> unat (fb_width c)"
  shows "console_putchar ch c = (draw_char (cursor_x c) (cursor_y c) ch (text_color c) c)\<lparr>cursor_x := cursor_x c + 8\<rparr>"
    "unat (cursor_x c + 8) = unat (cursor_x c) + 8"
proof -
  have "unat (cursor_x c) + 16 < 2 ^ 32" using assms(2) unat_below [of "fb_width c"] by simp
  then have u: "unat (cursor_x c + 8) = unat (cursor_x c) + 8" "unat (cursor_x c + 8 + 8) = unat (cursor_x c) + 16"
    using unat_plus_nowrap [of "cursor_x c" 8] unat_plus_nowrap [of "cursor_x c + 8" 8] by simp_all
  then show "unat (cursor_x c + 8) = unat (cursor_x c) + 8" by simp
  have "\<not> fb_width c < cursor_x c + 8 + 8" using u(2) assms(2) by (simp add: word_nat)
  then show "console_putchar ch c = (draw_char (cursor_x c) (cursor_y c) ch (text_color c) c)\<lparr>cursor_x := cursor_x c + 8\<rparr>"
    using assms(1) by (simp add: console_putchar_def Let_def draw_char_frame)
qed

section \<open>Properties\<close>

text \<open>What a client of the console can call.\<close>

datatype con_op = Put u8 | Color u32 | Clear

fun con_step :: "con_op \<Rightarrow> console \<Rightarrow> console" where
  "con_step (Put ch) c = console_putchar ch c"
| "con_step (Color v) c = console_set_color v c"
| "con_step Clear c = console_clear c"

lemma con_step_ok: "con_inv c \<Longrightarrow> same_screen c (con_step op c) \<and> con_inv (con_step op c)"
proof (cases op)
  case Clear
  assume "con_inv c"
  then show ?thesis using Clear fill_rows_screen [of c 0 "fb_height c" 0 "fb_width c" COLOR_DARK_BG]
    by (simp add: console_clear_def clear_screen_def con_inv_def)
qed (use putchar_ok in \<open>simp_all add: console_set_color_def con_inv_def\<close>)

text \<open>
  C20: Whatever is printed, in whatever colours and with the screen cleared at any time, the console writes no byte
  outside the visible rectangle of the framebuffer, and the text cursor stays at least a text line above the bottom.
\<close>

theorem console_stays_on_screen:
  assumes "unat (fb_height c) < 2 ^ 32 - 20" "unat (cursor_y c) + 10 \<le> unat (fb_height c)"
    and "\<And>x y. x < fb_width c \<Longrightarrow> y < fb_height c \<Longrightarrow> i \<noteq> y * fb_pitch c + x"
  shows "fb (fold con_step ops c) i = fb c i \<and> unat (cursor_y (fold con_step ops c)) + 10 \<le> unat (fb_height c)"
proof -
  have "same_screen c (fold con_step ops c) \<and> con_inv (fold con_step ops c)" if "con_inv c" for c
    using that
  proof (induction ops arbitrary: c)
    case (Cons op ops)
    then show ?case using con_step_ok [OF Cons.prems, of op] same_screen_trans by auto
  qed simp
  then have "same_screen c (fold con_step ops c) \<and> con_inv (fold con_step ops c)"
    using assms(1,2) by (simp add: con_inv_def)
  moreover have "i \<notin> visible c" using assms(3) by (auto simp: visible_def)
  ultimately show ?thesis
    by (auto simp: same_screen_def con_inv_def)
qed

definition small_screen :: console where
  "small_screen = \<lparr>fb = (\<lambda>i. ucast i), fb_width = 16, fb_height = 20, fb_pitch = 16, cursor_x = 0, cursor_y = 10, text_color = COLOR_WHITE\<rparr>"

theorem console_stays_on_screen_witness:
  "fb (fold con_step [Put 65, Put 10, Clear, Put 66] small_screen) 320 = 320
   \<and> unat (cursor_y (fold con_step [Put 65, Put 10, Clear, Put 66] small_screen)) + 10 \<le> 20"
proof -
  have "320 \<noteq> y * 16 + x" if "x < 16" "y < 20" for x y :: u32
  proof -
    have "unat (y * 16 + x) = unat y * 16 + unat x"
      using pixel_index [of small_screen x y] that by (simp add: small_screen_def geo_def)
    moreover have "unat x < 16" "unat y < 20" using that by (simp_all add: word_nat)
    ultimately have "unat (y * 16 + x) < 320" by simp
    then show ?thesis by auto
  qed
  then show ?thesis
    using console_stays_on_screen [of small_screen 320 "[Put 65, Put 10, Clear, Put 66]"] by (simp add: small_screen_def)
qed

text \<open>
  C21: A line feed on the last text line moves the picture up by ten rows, fills the ten rows at the bottom with the
  background colour, and puts the cursor at the start of them.
\<close>

theorem console_newline_scrolls:
  assumes "unat (fb_width c) \<le> unat (fb_pitch c)" "unat (fb_pitch c) * unat (fb_height c) \<le> 2 ^ 32"
    and "unat (fb_height c) < 2 ^ 32 - 20" "unat (cursor_y c) + 10 \<le> unat (fb_height c)"
    and "unat (fb_height c) < unat (cursor_y c) + 20" "x < fb_width c" "y < fb_height c"
  shows "fb (console_newline c) (y * fb_pitch c + x)
      = (if unat y + 10 < unat (fb_height c) then fb c ((y + 10) * fb_pitch c + x) else COLOR_DARK_BG)
    \<and> cursor_x (console_newline c) = 0 \<and> cursor_y (console_newline c) = fb_height c - 10"
proof -
  let ?c = "c\<lparr>cursor_x := 0, cursor_y := cursor_y c + 10\<rparr>"
  let ?d = "scroll_rows 10 ?c"
  have geo: "geo c" using assms(1,2) by (simp add: geo_def)
  have lt: "unat (cursor_y c) + 20 < 2 ^ 32" "10 \<le> unat (fb_height c)" using assms(3,4) by linarith+
  then have "unat (cursor_y c + 10 + 10) = unat (cursor_y c) + 20"
    using unat_plus_nowrap [of "cursor_y c" 10] unat_plus_nowrap [of "cursor_y c + 10" 10] by simp
  then have bottom: "fb_height c < cursor_y c + 10 + 10" using assms(5) by (simp add: word_nat)
  have h: "unat (fb_height c - 10) = unat (fb_height c) - 10" using lt(2) by (simp add: unat_sub word_nat)
  have nl: "console_newline c = (fill_rows (fb_height c - 10) (fb_height c - 10 + 10) 0 (fb_width c) COLOR_DARK_BG ?d)\<lparr>cursor_y := fb_height c - 10\<rparr>"
    using bottom by (simp add: console_newline_def Let_def fill_rect_def)
  then have cur: "cursor_x (console_newline c) = 0" "cursor_y (console_newline c) = fb_height c - 10" by simp_all
  have gd: "geo ?d" using geo by (simp add: geo_def)
  have cleared: "pixel (console_newline c) x y = (if fb_height c - 10 \<le> y then COLOR_DARK_BG else pixel ?d x y)"
    using fill_rows_pixel [OF gd, of x y "fb_height c - 10" "fb_height c - 10 + 10" 0 "fb_width c" COLOR_DARK_BG] assms(6,7) by (simp add: nl)
  have "pixel ?d x y = (if unat y + 10 < unat (fb_height c) then pixel c x (y + 10) else pixel c x y)"
    using scroll_rows_pixel [of ?c 10 x y] geo assms(6,7) by simp
  moreover have "fb_height c - 10 \<le> y \<longleftrightarrow> \<not> unat y + 10 < unat (fb_height c)" using h lt(2) by (auto simp: word_nat)
  moreover have "fb_pitch (console_newline c) = fb_pitch c" by (simp add: nl)
  ultimately have "fb (console_newline c) (y * fb_pitch c + x)
      = (if unat y + 10 < unat (fb_height c) then fb c ((y + 10) * fb_pitch c + x) else COLOR_DARK_BG)"
    using cleared by (simp add: pixel_def)
  then show ?thesis using cur by blast
qed

theorem console_newline_scrolls_witness:
  "fb (console_newline small_screen) 3 = 163 \<and> fb (console_newline small_screen) 243 = COLOR_DARK_BG
   \<and> cursor_y (console_newline small_screen) = 10"
  using console_newline_scrolls [of small_screen 3 0] console_newline_scrolls [of small_screen 3 15]
  by (simp add: small_screen_def)


text \<open>
  A printable character that fits on the line paints exactly the set bits of its glyph, in the text colour, into
  the cell at the cursor, and moves the cursor one cell to the right; a backspace right after it blanks the cell (its
  ten rows) and moves the cursor back. All other pixels are left alone.
\<close>

theorem console_char_and_backspace:
  assumes "unat (fb_width c) \<le> unat (fb_pitch c)" "unat (fb_pitch c) * unat (fb_height c) \<le> 2 ^ 32"
    and "unat (fb_height c) < 2 ^ 32 - 20" "unat (cursor_y c) + 10 \<le> unat (fb_height c)"
    and "ch \<notin> {8, 9, 10, 13}" "unat (cursor_x c) + 16 \<le> unat (fb_width c)" "x < fb_width c" "y < fb_height c"
  shows "fb (console_putchar ch c) (y * fb_pitch c + x)
      = (if \<exists>col < 8. \<exists>row < 8. glyph_bit ch col row \<and> x = cursor_x c + of_nat col \<and> y = cursor_y c + of_nat row
         then text_color c else fb c (y * fb_pitch c + x))
    \<and> cursor_x (console_putchar ch c) = cursor_x c + 8
    \<and> fb (console_putchar 8 (console_putchar ch c)) (y * fb_pitch c + x)
      = (if unat (cursor_x c) \<le> unat x \<and> unat x < unat (cursor_x c) + 8 \<and> unat (cursor_y c) \<le> unat y \<and> unat y < unat (cursor_y c) + 10
         then COLOR_DARK_BG else fb c (y * fb_pitch c + x))
    \<and> cursor_x (console_putchar 8 (console_putchar ch c)) = cursor_x c"
proof -
  have geo: "geo c" using assms(1,2) by (simp add: geo_def)
  note put = putchar_printable [OF assms(5,6)]
  let ?d = "console_putchar ch c"
  have d: "cursor_x ?d = cursor_x c + 8" "cursor_y ?d = cursor_y c" "fb_width ?d = fb_width c" "fb_height ?d = fb_height c"
    "fb_pitch ?d = fb_pitch c" by (simp_all add: put(1) draw_char_frame)
  then have cx: "cursor_x ?d = cursor_x c + 8" by simp
  have px: "pixel ?d x y = (if \<exists>col < 8. \<exists>row < 8. glyph_bit ch col row \<and> x = cursor_x c + of_nat col \<and> y = cursor_y c + of_nat row
         then text_color c else pixel c x y)" using draw_char_pixel [OF geo assms(7,8)] by (simp add: put(1))
  then have drawn: "fb ?d (y * fb_pitch c + x)
      = (if \<exists>col < 8. \<exists>row < 8. glyph_bit ch col row \<and> x = cursor_x c + of_nat col \<and> y = cursor_y c + of_nat row
         then text_color c else fb c (y * fb_pitch c + x))" using d(5) unfolding pixel_def by simp
  have "8 \<le> cursor_x c + 8" using put(2) by (simp add: word_nat)
  then have bs: "console_putchar 8 ?d = fill_rows (cursor_y c) (cursor_y c + 10) (cursor_x c) (cursor_x c + 8) COLOR_DARK_BG (?d\<lparr>cursor_x := cursor_x c\<rparr>)"
    using d by (simp add: console_putchar_def [of 8] Let_def fill_rect_def)
  then have cx8: "cursor_x (console_putchar 8 ?d) = cursor_x c" by simp
  have lt: "unat (cursor_y c) + 10 < 2 ^ 32" using assms(3,4) by linarith
  have yb: "unat (cursor_y c + 10) = unat (cursor_y c) + 10" using lt unat_plus_nowrap [of "cursor_y c" 10] by simp
  have gd: "geo (?d\<lparr>cursor_x := cursor_x c\<rparr>)" using geo d by (simp add: geo_def)
  have box: "pixel (console_putchar 8 ?d) x y = (if cursor_y c \<le> y \<and> y < cursor_y c + 10 \<and> cursor_x c \<le> x \<and> x < cursor_x c + 8 then COLOR_DARK_BG else pixel ?d x y)"
    unfolding bs using fill_rows_pixel [OF gd, of x y] assms(7,8) d by simp
  have "unat (cursor_x c + of_nat col) = unat (cursor_x c) + col" if "col < 8" for col
    using that assms(6) unat_below [of "fb_width c"] unat_plus_nowrap [of "cursor_x c" "of_nat col"] by (simp add: unat_of_nat)
  moreover have "unat (cursor_y c + of_nat row) = unat (cursor_y c) + row" if "row < 8" for row
    using that lt unat_plus_nowrap [of "cursor_y c" "of_nat row"] by (simp add: unat_of_nat)
  ultimately have cell: "unat (cursor_x c) \<le> unat x \<and> unat x < unat (cursor_x c) + 8 \<and> unat (cursor_y c) \<le> unat y \<and> unat y < unat (cursor_y c) + 10"
    if "\<exists>col < 8. \<exists>row < 8. glyph_bit ch col row \<and> x = cursor_x c + of_nat col \<and> y = cursor_y c + of_nat row"
    using that by auto
  have "pixel (console_putchar 8 ?d) x y
      = (if unat (cursor_x c) \<le> unat x \<and> unat x < unat (cursor_x c) + 8 \<and> unat (cursor_y c) \<le> unat y \<and> unat y < unat (cursor_y c) + 10
         then COLOR_DARK_BG else pixel c x y)"
    using box px cell put(2) yb by (simp add: word_nat)
  moreover have "fb_pitch (console_putchar 8 ?d) = fb_pitch c" using d(5) by (simp add: bs)
  ultimately have "fb (console_putchar 8 ?d) (y * fb_pitch c + x)
      = (if unat (cursor_x c) \<le> unat x \<and> unat x < unat (cursor_x c) + 8 \<and> unat (cursor_y c) \<le> unat y \<and> unat y < unat (cursor_y c) + 10
         then COLOR_DARK_BG else fb c (y * fb_pitch c + x))" by (simp add: pixel_def)
  then show ?thesis using drawn cx cx8 by blast
qed

theorem console_char_and_backspace_witness:
  "fb (console_putchar 8 (console_putchar 65 small_screen)) 163 = COLOR_DARK_BG
   \<and> fb (console_putchar 8 (console_putchar 65 small_screen)) 3 = 3 \<and> cursor_x (console_putchar 65 small_screen) = 8"
  using console_char_and_backspace [of small_screen 65 3 10] console_char_and_backspace [of small_screen 65 3 0]
  by (simp add: small_screen_def)

end
