(* ===== verification/Port_Io.thy ===== *)
theory Port_Io
  imports Prelude
begin

text \<open>
  Port input and output, \<open>src/kernel/io.h\<close>, and the interrupt controller that uses it,
  \<open>src/kernel/cpu/pic.c\<close>. What a port returns is up to the device behind it, so the state holds the
  value each port answers with (\<open>port_in\<close>) and the list of writes, newest first (\<open>port_out\<close>).
\<close>

section \<open>Ports\<close>

record io =
  port_in :: "u16 \<Rightarrow> u8"
  port_out :: "(u16 \<times> u8) list"

definition inb :: "u16 \<Rightarrow> io \<Rightarrow> u8" where
  "inb port s = port_in s port"

definition outb :: "u16 \<Rightarrow> u8 \<Rightarrow> io \<Rightarrow> io" where
  "outb port v s = s\<lparr>port_out := (port, v) # port_out s\<rparr>"

definition io_wait :: "io \<Rightarrow> io" where
  "io_wait s = outb 0x80 0 s"

section \<open>The interrupt controller\<close>

definition PIC1_COMMAND :: u8 where "PIC1_COMMAND = 0x20"
definition PIC1_DATA :: u8 where "PIC1_DATA = 0x21"
definition PIC2_COMMAND :: u8 where "PIC2_COMMAND = 0xA0"
definition PIC2_DATA :: u8 where "PIC2_DATA = 0xA1"
definition PIC_EOI :: u8 where "PIC_EOI = 0x20"
definition PIC_ICW1_INIT :: u8 where "PIC_ICW1_INIT = 0x11"
definition PIC_ICW1_ICW4 :: u8 where "PIC_ICW1_ICW4 = 0x01"
definition PIC_ICW4_8086 :: u8 where "PIC_ICW4_8086 = 0x01"
definition PIC1_OFFSET :: u8 where "PIC1_OFFSET = 0x20"
definition PIC2_OFFSET :: u8 where "PIC2_OFFSET = 0x28"

definition pic_send_command :: "u8 \<Rightarrow> u8 \<Rightarrow> io \<Rightarrow> io" where
  "pic_send_command pic cmd s = io_wait (outb (ucast pic) cmd s)"

definition pic_send_data :: "u8 \<Rightarrow> u8 \<Rightarrow> io \<Rightarrow> io" where
  "pic_send_data pic d s = io_wait (outb (ucast pic) d s)"

definition pic_init :: "io \<Rightarrow> io" where
  "pic_init s =
     (let s = pic_send_command PIC1_COMMAND (PIC_ICW1_INIT OR PIC_ICW1_ICW4) s;
          s = pic_send_data PIC1_DATA PIC1_OFFSET s;
          s = pic_send_data PIC1_DATA (push_bit 2 1) s;
          s = pic_send_data PIC1_DATA PIC_ICW4_8086 s;
          s = pic_send_command PIC2_COMMAND (PIC_ICW1_INIT OR PIC_ICW1_ICW4) s;
          s = pic_send_data PIC2_DATA PIC2_OFFSET s;
          s = pic_send_data PIC2_DATA 2 s;
          s = pic_send_data PIC2_DATA PIC_ICW4_8086 s;
          s = pic_send_data PIC1_DATA 0xFB s
      in pic_send_data PIC2_DATA 0xFF s)"

definition pic_eoi :: "u8 \<Rightarrow> io \<Rightarrow> io" where
  "pic_eoi irq s =
     (let s = (if irq \<ge> 8 then pic_send_command PIC2_COMMAND PIC_EOI s else s)
      in pic_send_command PIC1_COMMAND PIC_EOI s)"

definition pic_disable :: "io \<Rightarrow> io" where
  "pic_disable s = pic_send_data PIC2_DATA 0xFF (pic_send_data PIC1_DATA 0xFF s)"

text \<open>The port and the bit of an interrupt line; the shift \<open>1 << irq\<close> is an \<open>int\<close> shift cut to a byte.\<close>

definition pic_line :: "u8 \<Rightarrow> u16 \<times> u8" where
  "pic_line irq =
     (let (port, irq) = (if irq < 8 then (ucast PIC1_DATA, irq) else (ucast PIC2_DATA, irq - 8))
      in (port, ucast (push_bit (unat irq) 1 :: u32)))"

definition pic_enable_irq :: "u8 \<Rightarrow> io \<Rightarrow> io" where
  "pic_enable_irq irq s =
     (let (port, line) = pic_line irq; value = inb port s AND NOT line in outb port value s)"

definition pic_disable_irq :: "u8 \<Rightarrow> io \<Rightarrow> io" where
  "pic_disable_irq irq s =
     (let (port, line) = pic_line irq; value = inb port s OR line in outb port value s)"

section \<open>What reaches the controller\<close>

text \<open>The writes to the controller's ports in the order they are made, the delay port left out.\<close>

definition pic_writes :: "io \<Rightarrow> (u16 \<times> u8) list" where
  "pic_writes s = filter (\<lambda>(p, v). p \<noteq> 0x80) (rev (port_out s))"

lemma pic_writes_outb [simp]:
  "pic_writes (outb p v s) = (if p = 0x80 then pic_writes s else pic_writes s @ [(p, v)])"
  by (simp add: pic_writes_def outb_def)

lemma pic_writes_wait [simp]: "pic_writes (io_wait s) = pic_writes s"
  by (simp add: io_wait_def)

lemma port_in_keeps [simp]:
  "port_in (outb p v s) = port_in s" "port_in (io_wait s) = port_in s"
  by (simp_all add: outb_def io_wait_def)

lemmas pic_ports = PIC1_COMMAND_def PIC1_DATA_def PIC2_COMMAND_def PIC2_DATA_def PIC_EOI_def
  PIC_ICW1_INIT_def PIC_ICW1_ICW4_def PIC_ICW4_8086_def PIC1_OFFSET_def PIC2_OFFSET_def

lemma pic_writes_send [simp]:
  "pic \<noteq> 0x80 \<Longrightarrow> pic_writes (pic_send_command pic c s) = pic_writes s @ [(ucast pic, c)]"
  "pic \<noteq> 0x80 \<Longrightarrow> pic_writes (pic_send_data pic c s) = pic_writes s @ [(ucast pic, c)]"
proof -
  have "ucast pic \<noteq> (0x80 :: u16)" if "pic \<noteq> 0x80"
  proof
    assume "ucast pic = (0x80 :: u16)"
    then have "(ucast (ucast pic :: u16) :: u8) = ucast (0x80 :: u16)" by (rule arg_cong)
    then show False using that unfolding ucast_ucast_u8 by simp
  qed
  then show "pic \<noteq> 0x80 \<Longrightarrow> pic_writes (pic_send_command pic c s) = pic_writes s @ [(ucast pic, c)]"
    "pic \<noteq> 0x80 \<Longrightarrow> pic_writes (pic_send_data pic c s) = pic_writes s @ [(ucast pic, c)]"
    by (simp_all add: pic_send_command_def pic_send_data_def)
qed

lemma pic_eoi_writes:
  "pic_writes (pic_eoi irq s) = pic_writes s @ (if irq \<ge> 8 then [(0xA0, 0x20)] else []) @ [(0x20, 0x20)]"
  by (simp add: pic_eoi_def pic_ports)

lemma pic_init_writes:
  "pic_writes (pic_init s) = pic_writes s @
     [(0x20, 0x11), (0x21, 0x20), (0x21, 4), (0x21, 1), (0xA0, 0x11), (0xA1, 0x28), (0xA1, 2), (0xA1, 1),
      (0x21, 0xFB), (0xA1, 0xFF)]"
  by (simp add: pic_init_def pic_ports)

lemma pic_line_bit:
  assumes "irq < 16"
  shows "pic_line irq = (if irq < 8 then 0x21 else 0xA1, push_bit (unat irq mod 8) 1)"
proof -
  have small: "unat irq < 16" using assms by (simp add: word_nat)
  have uc: "ucast (push_bit n 1 :: u32) = (push_bit n 1 :: u8)" if "n < 8" for n
    by (rule bit_eqI) (use that in \<open>auto simp: bit_simps\<close>)
  show ?thesis
  proof (cases "irq < 8")
    case True
    then have "unat irq < 8" by (simp add: word_nat)
    then show ?thesis using True uc [of "unat irq"] by (simp add: pic_line_def pic_ports)
  next
    case False
    then have "unat (irq - 8) = unat irq - 8" using unat_sub [of 8 irq] by (simp add: not_less)
    moreover have "8 \<le> unat irq" using False by (simp add: word_nat)
    ultimately have "unat (irq - 8) = unat irq mod 8" using small by (simp add: le_mod_geq)
    then show ?thesis using False uc [of "unat irq mod 8"] by (simp add: pic_line_def pic_ports)
  qed
qed

text \<open>
  unmasking or masking one of the 16 interrupt lines writes one byte, to the data port of the controller
  the line belongs to, and that byte differs from the mask read from the port in exactly the bit of the line.
\<close>

theorem pic_mask_changes_one_line:
  assumes "irq < 16"
  shows "let port = (if irq < 8 then 0x21 else 0xA1) in
    (\<exists>v. port_out (pic_enable_irq irq s) = (port, v) # port_out s
      \<and> (\<forall>n < 8. bit v n \<longleftrightarrow> n \<noteq> unat irq mod 8 \<and> bit (port_in s port) n))
    \<and> (\<exists>v. port_out (pic_disable_irq irq s) = (port, v) # port_out s
      \<and> (\<forall>n < 8. bit v n \<longleftrightarrow> n = unat irq mod 8 \<or> bit (port_in s port) n))"
  using pic_line_bit [OF assms]
  by (auto simp: Let_def pic_enable_irq_def pic_disable_irq_def outb_def inb_def bit_simps)

theorem pic_mask_changes_one_line_witness:
  "\<exists>v. port_out (pic_enable_irq 9 \<lparr>port_in = (\<lambda>_. 0xFF), port_out = []\<rparr>) = [(0xA1, v)] \<and> \<not> bit v 1 \<and> bit v 0"
proof -
  have "\<exists>v. port_out (pic_enable_irq 9 \<lparr>port_in = (\<lambda>_. 0xFF), port_out = []\<rparr>) = [(0xA1, v)]
      \<and> (\<forall>n < 8. bit v n \<longleftrightarrow> n \<noteq> 1 \<and> bit (0xFF :: u8) n)"
    using pic_mask_changes_one_line [of 9 "\<lparr>port_in = (\<lambda>_. 0xFF), port_out = []\<rparr>"] by (simp add: Let_def)
  then obtain v where v: "port_out (pic_enable_irq 9 \<lparr>port_in = (\<lambda>_. 0xFF), port_out = []\<rparr>) = [(0xA1, v)]"
    "\<And>n. n < 8 \<Longrightarrow> bit v n \<longleftrightarrow> n \<noteq> 1 \<and> bit (0xFF :: u8) n" by auto
  then show ?thesis using v(2) [of 0] v(2) [of 1] by simp
qed

end
