(* ===== verification/Memory.thy ===== *)
theory Memory
  imports Prelude
begin

text \<open>
  Physical memory as the kernel sees it (it runs on the identity map of the firmware): a byte per
  64-bit address, and the loads and stores a C access of 8, 4 or 1 bytes performs, little endian.
  Heap headers, page tables, kernel stacks and the memory map handed over by the boot loader all
  live in this one memory, so aliasing between them is what the addresses say it is.
\<close>

type_synonym mem = "u64 \<Rightarrow> u8"

definition load8 :: "mem \<Rightarrow> u64 \<Rightarrow> u8" where
  "load8 m a = m a"

definition store8 :: "mem \<Rightarrow> u64 \<Rightarrow> u8 \<Rightarrow> mem" where
  "store8 m a v = m(a := v)"

text \<open>Byte \<open>i\<close> of a little-endian value, and the bytes of a value in memory order.\<close>

definition byte_of :: "nat \<Rightarrow> u64 \<Rightarrow> u8" where
  "byte_of i v = ucast (drop_bit (8 * i) v)"

definition join_bytes :: "(nat \<Rightarrow> u8) \<Rightarrow> nat \<Rightarrow> u64" where
  "join_bytes f n = foldr (\<lambda>i acc. push_bit (8 * i) (ucast (f i)) OR acc) [0..<n] 0"

definition load64 :: "mem \<Rightarrow> u64 \<Rightarrow> u64" where
  "load64 m a = join_bytes (\<lambda>i. m (a + of_nat i)) 8"

definition load32 :: "mem \<Rightarrow> u64 \<Rightarrow> u32" where
  "load32 m a = ucast (join_bytes (\<lambda>i. m (a + of_nat i)) 4)"

definition store64 :: "mem \<Rightarrow> u64 \<Rightarrow> u64 \<Rightarrow> mem" where
  "store64 m a v = (\<lambda>x. if x - a < 8 then byte_of (unat (x - a)) v else m x)"

definition store32 :: "mem \<Rightarrow> u64 \<Rightarrow> u32 \<Rightarrow> mem" where
  "store32 m a v = (\<lambda>x. if x - a < 4 then byte_of (unat (x - a)) (ucast v) else m x)"

section \<open>Alignment\<close>

text \<open>An address is \<open>n\<close>-aligned when its low \<open>n\<close> bits are clear.\<close>

definition aligned :: "nat \<Rightarrow> u64 \<Rightarrow> bool" where
  "aligned n a \<longleftrightarrow> take_bit n a = 0"

lemma aligned_0 [simp]: "aligned n 0"
  by (simp add: aligned_def)

lemma aligned_add: "aligned n a \<Longrightarrow> aligned n b \<Longrightarrow> aligned n (a + b)"
  by (simp add: aligned_def take_bit_eq_0_iff)

lemma aligned_diff: "aligned n a \<Longrightarrow> aligned n b \<Longrightarrow> aligned n (a - b)"
  by (simp add: aligned_def take_bit_eq_0_iff)

lemma aligned_mono: "aligned n a \<Longrightarrow> k \<le> n \<Longrightarrow> aligned k a"
  unfolding aligned_def by (metis min.absorb1 take_bit_of_0 take_bit_take_bit)

lemma aligned_unat: "aligned n a \<longleftrightarrow> unat a mod 2 ^ n = 0"
  unfolding aligned_def word_unat_eq_iff
  by (simp add: unsigned_take_bit_eq take_bit_eq_mod [where 'a = nat])

lemma aligned_mult: "aligned n (2 ^ n * a)"
proof -
  have "take_bit n (push_bit n a) = 0" by (rule bit_eqI) (simp add: bit_simps)
  then show ?thesis by (simp add: aligned_def push_bit_eq_mult mult.commute)
qed

text \<open>A run of eight bytes at an aligned address meets no other aligned run.\<close>

lemma aligned_cells_disjoint:
  assumes "aligned 3 a" "aligned 3 b" "i < 8" "b + of_nat i - a < 8"
  shows "a = b"
proof -
  let ?d = "b - a"
  have d: "unat ?d mod 8 = 0" using aligned_diff [OF assms(2,1)] by (simp add: aligned_unat)
  have lt: "unat ?d < 2 ^ 64" using unsigned_less [of ?d] by simp
  have sum: "unat ?d + i < 2 ^ 64" using d lt assms(3) by simp presburger
  have "unat (?d + of_nat i) = unat ?d + i"
  proof -
    have i: "unat (of_nat i :: u64) = i" using assms(3) by (simp add: unat_of_nat)
    show ?thesis using sum i unat_plus_nowrap [of ?d "of_nat i"] by simp
  qed
  moreover have "?d + of_nat i = b + of_nat i - a" by simp
  ultimately have "unat ?d + i < 8" using assms(4) by (simp add: word_less_nat_alt)
  then have "unat ?d = 0" using d by simp
  then have "?d = 0" by (simp only: unat_eq_zero)
  then show ?thesis by simp
qed

section \<open>Reading back what was stored\<close>

lemma bit_foldr_or:
  "bit (foldr (\<lambda>i acc. g i OR acc) is (0 :: u64)) k \<longleftrightarrow> (\<exists>i \<in> set is. bit (g i) k)"
  by (induction "is") (auto simp: bit_or_iff)

lemma bit_join_bytes:
  "bit (join_bytes f n) k \<longleftrightarrow> k < 64 \<and> k < 8 * n \<and> bit (f (k div 8)) (k mod 8)"
proof -
  have one: "bit (push_bit (8 * i) (ucast (f i) :: u64)) k
      \<longleftrightarrow> k < 64 \<and> i = k div 8 \<and> bit (f i) (k mod 8)" for i
  proof (cases "8 * i \<le> k \<and> k < 8 * i + 8")
    case True
    define r where "r = k - 8 * i"
    have k: "k = 8 * i + r" and "r < 8" using True by (auto simp: r_def)
    then have "k div 8 = i" and "k mod 8 = r" by simp_all
    then show ?thesis using k \<open>r < 8\<close> by (auto simp: bit_simps)
  next
    case False
    then have "i \<noteq> k div 8" by auto
    moreover from False have "8 * i \<le> k \<Longrightarrow> \<not> bit (f i) (k - 8 * i)"
      by (auto dest: bit_word_less)
    ultimately show ?thesis by (auto simp: bit_simps)
  qed
  show ?thesis
    unfolding join_bytes_def by (auto simp: bit_foldr_or one)
qed

lemma bit_byte_of: "bit (byte_of i v) k \<longleftrightarrow> k < 8 \<and> bit v (8 * i + k)"
  by (auto simp: byte_of_def bit_simps add.commute dest: bit_word_less)

lemma join_byte_of: "join_bytes (\<lambda>i. byte_of i v) 8 = v"
  by (rule bit_eqI) (auto simp: bit_join_bytes bit_byte_of dest: bit_word_less)

lemma join_bytes_cong: "(\<And>i. i < n \<Longrightarrow> f i = g i) \<Longrightarrow> join_bytes f n = join_bytes g n"
  by (rule bit_eqI) (auto simp: bit_join_bytes)

lemma unat_of_nat_small: "i < 8 \<Longrightarrow> unat (of_nat i :: u64) = i"
  by (simp add: unat_of_nat)

lemma load64_store64_same: "load64 (store64 m a v) a = v"
proof -
  have "join_bytes (\<lambda>i. store64 m a v (a + of_nat i)) 8 = join_bytes (\<lambda>i. byte_of i v) 8"
    by (rule join_bytes_cong) (simp add: store64_def word_less_nat_alt unat_of_nat_small)
  then show ?thesis by (simp add: load64_def join_byte_of)
qed

lemma load32_store32_same: "load32 (store32 m a v) a = v"
proof -
  have "join_bytes (\<lambda>i. store32 m a v (a + of_nat i)) 4 = join_bytes (\<lambda>i. byte_of i (ucast v)) 4"
    by (rule join_bytes_cong) (simp add: store32_def word_less_nat_alt unat_of_nat_small)
  then show ?thesis
    unfolding load32_def
    by (intro bit_eqI) (auto simp: bit_simps bit_join_bytes bit_byte_of dest: bit_word_less)
qed

text \<open>A store at one aligned cell leaves every load at another aligned cell as it was.\<close>

lemma store_other_byte:
  assumes "aligned 3 a" "aligned 3 b" "a \<noteq> b" "i < 8"
  shows "store64 m a v (b + of_nat i) = m (b + of_nat i)"
    and "store32 m a w (b + of_nat i) = m (b + of_nat i)"
proof -
  have no: "\<not> b + of_nat i - a < 8" using aligned_cells_disjoint assms by blast
  then have "\<not> b + of_nat i - a < 4" by (simp add: word_less_nat_alt)
  with no show "store64 m a v (b + of_nat i) = m (b + of_nat i)"
    and "store32 m a w (b + of_nat i) = m (b + of_nat i)"
    by (simp_all add: store64_def store32_def)
qed

lemma load_store_other:
  assumes "aligned 3 a" "aligned 3 b" "a \<noteq> b"
  shows "load64 (store64 m a v) b = load64 m b"
    and "load32 (store64 m a v) b = load32 m b"
    and "load64 (store32 m a w) b = load64 m b"
    and "load32 (store32 m a w) b = load32 m b"
  using store_other_byte [OF assms]
  by (auto simp: load64_def load32_def intro!: join_bytes_cong arg_cong [where f = ucast])

section \<open>The contract of a cell store\<close>

text \<open>
  What the clients of memory rely on: a cell reads back what was last stored in it, and stores to
  other cells do not disturb it. The consequences for whole arrays of cells are proved once here.
\<close>

locale cell_store =
  fixes ld :: "'s \<Rightarrow> 'a \<Rightarrow> 'v"
    and st :: "'s \<Rightarrow> 'a \<Rightarrow> 'v \<Rightarrow> 's"
    and valid :: "'a \<Rightarrow> bool"
  assumes ld_same: "valid a \<Longrightarrow> ld (st m a v) a = v"
    and ld_other: "valid a \<Longrightarrow> valid b \<Longrightarrow> a \<noteq> b \<Longrightarrow> ld (st m a v) b = ld m b"
begin

lemma ld_st: "valid a \<Longrightarrow> valid b \<Longrightarrow> ld (st m a v) b = (if a = b then v else ld m b)"
  by (simp add: ld_same ld_other)

lemma ld_fold:
  assumes "\<And>i. i \<in> set is \<Longrightarrow> valid (f i)" "valid b" "b \<notin> f ` set is"
  shows "ld (fold (\<lambda>i m. st m (f i) (g i m)) is m) b = ld m b"
  using assms by (induction "is" arbitrary: m) (auto simp: ld_other)

lemma ld_fold_const:
  assumes "\<And>i. i \<in> set is \<Longrightarrow> valid (f i)" "valid b"
  shows "ld (fold (\<lambda>i m. st m (f i) v) is m) b = (if b \<in> f ` set is then v else ld m b)"
  using assms
proof (induction "is" arbitrary: m)
  case (Cons i "is")
  then show ?case by (auto simp: ld_st)
qed simp

end

interpretation qword: cell_store load64 store64 "aligned 3"
  by unfold_locales (simp_all add: load64_store64_same load_store_other)

interpretation dword: cell_store load32 store32 "aligned 3"
  by unfold_locales (simp_all add: load32_store32_same load_store_other)

end
