(* ===== verification/Ring.thy ===== *)
theory Ring
  imports Prelude
begin

text \<open>
  Ring buffers, as the keyboard driver (characters) and the shell history (lines) keep them: an array in which
  the \<open>cnt\<close> elements from position \<open>start\<close> on, wrapping at the end, are in use. The contract of a bounded
  first-in first-out queue is a locale; the keyboard buffer is an instance of it.
\<close>

section \<open>The elements of a ring\<close>

definition ring_list :: "'a list \<Rightarrow> nat \<Rightarrow> nat \<Rightarrow> 'a list" where
  "ring_list buf start cnt = map (\<lambda>i. buf ! ((start + i) mod length buf)) [0..<cnt]"

lemma length_ring_list [simp]: "length (ring_list buf start cnt) = cnt"
  by (simp add: ring_list_def)

lemma ring_list_nth: "i < cnt \<Longrightarrow> ring_list buf start cnt ! i = buf ! ((start + i) mod length buf)"
  by (simp add: ring_list_def)

lemma ring_slot_inj:
  assumes "(start + i) mod n = (start + j) mod n" "i < n" "j < (n :: nat)"
  shows "i = j"
proof -
  have "i = j" if "(start + i) mod n = (start + j) mod n" "i \<le> j" "j < n" for i j
  proof -
    have "n dvd (start + j) - (start + i)"
      by (rule mod_eq_dvd_iff_nat [THEN iffD1]) (use that in simp_all)
    then show ?thesis using that by (auto dest: dvd_imp_le)
  qed
  then show ?thesis using assms by (metis nat_le_linear)
qed

lemma ring_put:
  assumes "cnt < length buf"
  shows "ring_list (buf[(start + cnt) mod length buf := x]) start (Suc cnt) = ring_list buf start cnt @ [x]"
proof (rule nth_equalityI)
  fix i assume i: "i < length (ring_list (buf[(start + cnt) mod length buf := x]) start (Suc cnt))"
  have "(start + i) mod length buf \<noteq> (start + cnt) mod length buf" if "i < cnt"
    using ring_slot_inj [of start i "length buf" cnt] that assms by auto
  moreover have "(start + cnt) mod length buf < length buf" using assms by (intro mod_less_divisor) linarith
  ultimately show "ring_list (buf[(start + cnt) mod length buf := x]) start (Suc cnt) ! i = (ring_list buf start cnt @ [x]) ! i"
    using i by (cases "i < cnt") (auto simp: ring_list_nth nth_append less_Suc_eq)
qed simp

lemma ring_get:
  assumes "0 < cnt"
  shows "ring_list buf start cnt = buf ! (start mod length buf) # ring_list buf (Suc start mod length buf) (cnt - 1)"
proof (rule nth_equalityI)
  fix i assume i: "i < length (ring_list buf start cnt)"
  show "ring_list buf start cnt ! i = (buf ! (start mod length buf) # ring_list buf (Suc start mod length buf) (cnt - 1)) ! i"
  proof (cases i)
    case 0
    then show ?thesis using assms by (simp add: ring_list_nth)
  next
    case (Suc j)
    have "(Suc start mod length buf + j) mod length buf = (start + i) mod length buf" using Suc by (simp add: mod_add_left_eq)
    then show ?thesis using i Suc by (simp add: ring_list_nth)
  qed
qed (use assms in simp)

text \<open>A full ring in which the oldest element is overwritten.\<close>

lemma ring_overwrite:
  assumes "start < length buf"
  shows "ring_list (buf[start := x]) (Suc start mod length buf) (length buf) = tl (ring_list buf start (length buf)) @ [x]"
proof -
  let ?n = "length buf"
  have "ring_list buf start ?n = buf ! start # ring_list buf (Suc start mod ?n) (?n - 1)"
    using ring_get [of ?n buf start] assms by (cases buf) simp_all
  moreover have "(Suc start mod ?n + (?n - 1)) mod ?n = start"
  proof -
    have "(Suc start mod ?n + (?n - 1)) mod ?n = (Suc start + (?n - 1)) mod ?n" by (rule mod_add_left_eq)
    also have "Suc start + (?n - 1) = start + ?n" using assms by simp
    also have "\<dots> mod ?n = start" using assms by simp
    finally show ?thesis .
  qed
  moreover have "?n = Suc (?n - 1)" "?n - 1 < ?n" using assms by simp_all
  ultimately show ?thesis using ring_put [of "?n - 1" buf "Suc start mod ?n" x] by simp
qed

section \<open>Bounded queues\<close>

fun drain :: "('s \<Rightarrow> 'a \<times> 's) \<Rightarrow> nat \<Rightarrow> 's \<Rightarrow> 'a list \<times> 's" where
  "drain get 0 s = ([], s)"
| "drain get (Suc n) s = (case get s of (x, s) \<Rightarrow> case drain get n s of (xs, s) \<Rightarrow> (x # xs, s))"

locale bounded_queue =
  fixes put :: "'a \<Rightarrow> 's \<Rightarrow> 's" and get :: "'s \<Rightarrow> 'a \<times> 's" and elems :: "'s \<Rightarrow> 'a list"
    and inv :: "'s \<Rightarrow> bool" and cap :: nat
  assumes bound: "inv s \<Longrightarrow> length (elems s) \<le> cap"
    and put: "inv s \<Longrightarrow> inv (put x s)"
      "inv s \<Longrightarrow> elems (put x s) = (if length (elems s) < cap then elems s @ [x] else elems s)"
    and get: "inv s \<Longrightarrow> elems s = x # xs \<Longrightarrow> fst (get s) = x \<and> inv (snd (get s)) \<and> elems (snd (get s)) = xs"
begin

text \<open>What is put beyond the capacity is dropped, the oldest elements stay.\<close>

lemma put_all: "inv s \<Longrightarrow> inv (fold put xs s) \<and> elems (fold put xs s) = take cap (elems s @ xs)"
proof (induction xs arbitrary: s)
  case Nil
  then show ?case using bound [of s] by simp
next
  case (Cons x xs)
  then have "inv (fold put xs (put x s)) \<and> elems (fold put xs (put x s)) = take cap (elems (put x s) @ xs)"
    using put(1) by blast
  then show ?case using put(2) [OF Cons.prems, of x] bound [OF Cons.prems] by (auto simp: not_less take_Cons')
qed

lemma drain_elems:
  "inv s \<Longrightarrow> n \<le> length (elems s) \<Longrightarrow>
     fst (drain get n s) = take n (elems s) \<and> inv (snd (drain get n s)) \<and> elems (snd (drain get n s)) = drop n (elems s)"
proof (induction n arbitrary: s)
  case (Suc n)
  then obtain x xs where xs: "elems s = x # xs" by (cases "elems s") auto
  then show ?case using get [OF Suc.prems(1) xs] Suc.IH [of "snd (get s)"] Suc.prems(2)
    by (auto simp: split_beta)
qed simp

end

end
