(* ===== verification/Keyboard.thy ===== *)
theory Keyboard
  imports Port_Io Memory Ring
begin

text \<open>
  The keyboard driver, \<open>src/kernel/drivers/keyboard.c\<close>: a ring of 256 characters filled by the interrupt
  handler and emptied by the readers, and the state of the modifier keys. The reference the handler is
  compared with is a decoder of scan codes that says, for each key, which character it produces.
\<close>

section \<open>State\<close>

definition KEYBOARD_DATA :: u16 where "KEYBOARD_DATA = 0x60"
definition KEYBOARD_BUFFER_SIZE :: nat where "KEYBOARD_BUFFER_SIZE = 256"
definition SCANCODE_LSHIFT :: u8 where "SCANCODE_LSHIFT = 0x2A"
definition SCANCODE_RSHIFT :: u8 where "SCANCODE_RSHIFT = 0x36"
definition SCANCODE_LCTRL :: u8 where "SCANCODE_LCTRL = 0x1D"
definition SCANCODE_LALT :: u8 where "SCANCODE_LALT = 0x38"
definition SCANCODE_CAPSLOCK :: u8 where "SCANCODE_CAPSLOCK = 0x3A"
definition SCANCODE_RELEASE :: u8 where "SCANCODE_RELEASE = 0x80"
definition SCANCODE_EXTENDED :: u8 where "SCANCODE_EXTENDED = 0xE0"
definition KEY_UP :: u8 where "KEY_UP = 0x80"
definition KEY_DOWN :: u8 where "KEY_DOWN = 0x81"
definition KEY_LEFT :: u8 where "KEY_LEFT = 0x82"
definition KEY_RIGHT :: u8 where "KEY_RIGHT = 0x83"

record keyboard =
  key_buffer :: "u8 list"
  buffer_head :: nat
  buffer_tail :: nat
  shift_pressed :: bool
  ctrl_pressed :: bool
  alt_pressed :: bool
  capslock_on :: bool
  extended_scancode :: bool
  kb_io :: io

definition scancode_to_ascii :: "u8 list" where
  "scancode_to_ascii =
    [0, 27, 49, 50, 51, 52, 53, 54, 55, 56, 57, 48, 45, 61, 8,
     9, 113, 119, 101, 114, 116, 121, 117, 105, 111, 112, 91, 93, 10,
     0, 97, 115, 100, 102, 103, 104, 106, 107, 108, 59, 39, 96,
     0, 92, 122, 120, 99, 118, 98, 110, 109, 44, 46, 47, 0,
     42, 0, 32] @ replicate 70 0"

definition scancode_to_ascii_shifted :: "u8 list" where
  "scancode_to_ascii_shifted =
    [0, 27, 33, 64, 35, 36, 37, 94, 38, 42, 40, 41, 95, 43, 8,
     9, 81, 87, 69, 82, 84, 89, 85, 73, 79, 80, 123, 125, 10,
     0, 65, 83, 68, 70, 71, 72, 74, 75, 76, 58, 34, 126,
     0, 124, 90, 88, 67, 86, 66, 78, 77, 60, 62, 63, 0,
     42, 0, 32] @ replicate 70 0"

section \<open>Operations\<close>

definition buffer_put :: "u8 \<Rightarrow> keyboard \<Rightarrow> keyboard" where
  "buffer_put c s =
     (let nx = (buffer_head s + 1) mod KEYBOARD_BUFFER_SIZE in
      if nx \<noteq> buffer_tail s
      then s\<lparr>key_buffer := (key_buffer s)[buffer_head s := c], buffer_head := nx\<rparr>
      else s)"

definition buffer_get :: "keyboard \<Rightarrow> u8 \<times> keyboard" where
  "buffer_get s =
     (if buffer_head s = buffer_tail s then (0, s)
      else (key_buffer s ! buffer_tail s, s\<lparr>buffer_tail := (buffer_tail s + 1) mod KEYBOARD_BUFFER_SIZE\<rparr>))"

definition keyboard_init :: "keyboard \<Rightarrow> keyboard" where
  "keyboard_init s =
     s\<lparr>buffer_head := 0, buffer_tail := 0, shift_pressed := False, ctrl_pressed := False, alt_pressed := False,
       capslock_on := False, kb_io := pic_enable_irq 1 (kb_io s)\<rparr>"

text \<open>The character ranges are compared as signed \<open>char\<close> values.\<close>

definition in_range :: "int \<Rightarrow> int \<Rightarrow> u8 \<Rightarrow> bool" where
  "in_range lo hi c \<longleftrightarrow> lo \<le> sint c \<and> sint c \<le> hi"

definition translate :: "u8 \<Rightarrow> keyboard \<Rightarrow> u8" where
  "translate scancode s =
     (if scancode < 128
      then
        let c = (if shift_pressed s then scancode_to_ascii_shifted ! unat scancode else scancode_to_ascii ! unat scancode);
            c = (if capslock_on s \<and> in_range 97 122 c then c - 97 + 65
                 else if capslock_on s \<and> in_range 65 90 c then c - 65 + 97 else c)
        in if ctrl_pressed s \<and> in_range 97 122 c then c - 97 + 1 else c
      else 0)"

definition release_key :: "u8 \<Rightarrow> keyboard \<Rightarrow> keyboard" where
  "release_key scancode s =
     (let released = scancode AND 0x7F in
      if extended_scancode s then s\<lparr>extended_scancode := False\<rparr>
      else if released = SCANCODE_LSHIFT \<or> released = SCANCODE_RSHIFT then s\<lparr>shift_pressed := False\<rparr>
      else if released = SCANCODE_LCTRL then s\<lparr>ctrl_pressed := False\<rparr>
      else if released = SCANCODE_LALT then s\<lparr>alt_pressed := False\<rparr>
      else s)"

definition extended_key :: "u8 \<Rightarrow> keyboard \<Rightarrow> keyboard" where
  "extended_key scancode s =
     (let special = (if scancode = 0x48 then KEY_UP else if scancode = 0x50 then KEY_DOWN
                     else if scancode = 0x4B then KEY_LEFT else if scancode = 0x4D then KEY_RIGHT else 0);
          s = s\<lparr>extended_scancode := False\<rparr>
      in if special \<noteq> 0 then buffer_put special s else s)"

definition keyboard_handler :: "keyboard \<Rightarrow> keyboard" where
  "keyboard_handler s =
     (let scancode = inb KEYBOARD_DATA (kb_io s) in
      if scancode = SCANCODE_EXTENDED then s\<lparr>extended_scancode := True\<rparr>
      else if scancode AND SCANCODE_RELEASE \<noteq> 0 then release_key scancode s
      else if extended_scancode s then extended_key scancode s
      else if scancode = SCANCODE_LSHIFT \<or> scancode = SCANCODE_RSHIFT then s\<lparr>shift_pressed := True\<rparr>
      else if scancode = SCANCODE_LCTRL then s\<lparr>ctrl_pressed := True\<rparr>
      else if scancode = SCANCODE_LALT then s\<lparr>alt_pressed := True\<rparr>
      else if scancode = SCANCODE_CAPSLOCK then s\<lparr>capslock_on := \<not> capslock_on s\<rparr>
      else
        let c = translate scancode s in if c \<noteq> 0 then buffer_put c s else s)"

definition keyboard_available :: "keyboard \<Rightarrow> bool" where
  "keyboard_available s \<longleftrightarrow> buffer_head s \<noteq> buffer_tail s"

text \<open>One keyboard interrupt: the controller offers a scan code and the handler runs.\<close>

definition key_interrupt :: "u8 \<Rightarrow> keyboard \<Rightarrow> keyboard" where
  "key_interrupt scancode s = keyboard_handler (s\<lparr>kb_io := (kb_io s)\<lparr>port_in := (port_in (kb_io s))(KEYBOARD_DATA := scancode)\<rparr>\<rparr>)"

text \<open>
  The blocking read halts until an interrupt comes, as often as the buffer is empty. The argument is the list of
  scan codes still to come; \<open>None\<close> means that the wait does not end with them.
\<close>

fun keyboard_getchar :: "u8 list \<Rightarrow> keyboard \<Rightarrow> (u8 \<times> u8 list \<times> keyboard) option" where
  "keyboard_getchar [] s =
     (if keyboard_available s then let (c, s) = buffer_get s in Some (c, [], s) else None)"
| "keyboard_getchar (k # ks) s =
     (if keyboard_available s then let (c, s) = buffer_get s in Some (c, k # ks, s)
      else keyboard_getchar ks (key_interrupt k s))"

function read_loop :: "u64 \<Rightarrow> u64 \<Rightarrow> u64 \<Rightarrow> mem \<times> keyboard \<Rightarrow> u64 \<times> mem \<times> keyboard" where
  "read_loop buf n cnt ms =
     (case ms of (m, s) \<Rightarrow>
        if cnt < n \<and> keyboard_available s
        then let (c, s) = buffer_get s in read_loop buf n (cnt + 1) (store8 m (buf + cnt) c, s)
        else (cnt, m, s))"
  by pat_completeness auto
termination
  by (relation "measure (\<lambda>(buf, n, cnt, ms). unat (n - cnt))") (auto simp: loop_measure)

declare read_loop.simps [simp del]

definition keyboard_read :: "u64 \<Rightarrow> u64 \<Rightarrow> mem \<times> keyboard \<Rightarrow> int \<times> mem \<times> keyboard" where
  "keyboard_read buf n ms =
     (case read_loop buf n 0 ms of (cnt, m, s) \<Rightarrow> (sint (ucast cnt :: u32), m, s))"


section \<open>The buffer is a bounded queue\<close>

definition kb_inv :: "keyboard \<Rightarrow> bool" where
  "kb_inv s \<longleftrightarrow> length (key_buffer s) = 256 \<and> buffer_head s < 256 \<and> buffer_tail s < 256"

definition kb_count :: "keyboard \<Rightarrow> nat" where
  "kb_count s = (if buffer_tail s \<le> buffer_head s then buffer_head s - buffer_tail s else buffer_head s + 256 - buffer_tail s)"

definition queued :: "keyboard \<Rightarrow> u8 list" where
  "queued s = ring_list (key_buffer s) (buffer_tail s) (kb_count s)"

lemma length_queued [simp]: "length (queued s) = kb_count s"
  by (simp add: queued_def)

lemma kb_head: "kb_inv s \<Longrightarrow> (buffer_tail s + kb_count s) mod 256 = buffer_head s"
  by (auto simp: kb_inv_def kb_count_def)

lemma kb_next:
  "kb_inv s \<Longrightarrow> (buffer_head s + 1) mod 256 = buffer_tail s \<longleftrightarrow> \<not> kb_count s < 255"
  by (cases "buffer_head s = 255") (auto simp: kb_inv_def kb_count_def)

lemma kb_count_put:
  assumes "kb_inv s" "kb_count s < 255"
  shows "kb_count (s\<lparr>key_buffer := b, buffer_head := (buffer_head s + 1) mod 256\<rparr>) = Suc (kb_count s)"
  using assms by (cases "buffer_head s = 255") (auto simp: kb_inv_def kb_count_def)

lemma available_iff: "kb_inv s \<Longrightarrow> keyboard_available s \<longleftrightarrow> queued s \<noteq> []"
  by (auto simp: keyboard_available_def kb_inv_def kb_count_def simp flip: length_greater_0_conv)

interpretation kq: bounded_queue buffer_put buffer_get queued kb_inv 255
proof
  show "length (queued s) \<le> 255" if "kb_inv s" for s using that by (auto simp: kb_inv_def kb_count_def)
  show "kb_inv (buffer_put x s)" if "kb_inv s" for x s
    using that by (simp add: kb_inv_def buffer_put_def KEYBOARD_BUFFER_SIZE_def Let_def)
  show "queued (buffer_put x s) = (if length (queued s) < 255 then queued s @ [x] else queued s)" if inv: "kb_inv s" for x s
  proof (cases "kb_count s < 255")
    case True
    have "ring_list ((key_buffer s)[buffer_head s := x]) (buffer_tail s) (Suc (kb_count s)) = queued s @ [x]"
      using ring_put [of "kb_count s" "key_buffer s" "buffer_tail s" x] True inv kb_head [OF inv] by (simp add: queued_def kb_inv_def)
    then show ?thesis using True kb_next [OF inv] kb_count_put [OF inv True]
      by (simp add: buffer_put_def KEYBOARD_BUFFER_SIZE_def queued_def)
  next
    case False
    then show ?thesis using kb_next [OF inv] by (simp add: buffer_put_def KEYBOARD_BUFFER_SIZE_def)
  qed
  show "fst (buffer_get s) = x \<and> kb_inv (snd (buffer_get s)) \<and> queued (snd (buffer_get s)) = xs"
    if inv: "kb_inv s" and q: "queued s = x # xs" for s x xs
  proof -
    have pos: "0 < kb_count s" using q length_queued [of s] by simp
    then have ne: "buffer_head s \<noteq> buffer_tail s" by (auto simp: kb_count_def split: if_splits)
    let ?t = "s\<lparr>buffer_tail := Suc (buffer_tail s) mod 256\<rparr>"
    have cnt: "kb_count ?t = kb_count s - 1"
      using inv ne by (cases "buffer_tail s = 255") (auto simp: kb_inv_def kb_count_def)
    have "queued s = key_buffer s ! buffer_tail s # queued ?t"
      using ring_get [OF pos, of "key_buffer s" "buffer_tail s"] inv cnt by (simp add: queued_def kb_inv_def)
    then show ?thesis using q inv ne by (simp add: buffer_get_def KEYBOARD_BUFFER_SIZE_def kb_inv_def)
  qed
qed

lemma queued_frame [simp]:
  "queued (s\<lparr>shift_pressed := a\<rparr>) = queued s" "queued (s\<lparr>ctrl_pressed := a\<rparr>) = queued s" "queued (s\<lparr>alt_pressed := a\<rparr>) = queued s"
  "queued (s\<lparr>capslock_on := a\<rparr>) = queued s" "queued (s\<lparr>extended_scancode := a\<rparr>) = queued s" "queued (s\<lparr>kb_io := i\<rparr>) = queued s"
  by (simp_all add: queued_def kb_count_def)

lemma kb_inv_frame [simp]:
  "kb_inv (s\<lparr>shift_pressed := a\<rparr>) = kb_inv s" "kb_inv (s\<lparr>ctrl_pressed := a\<rparr>) = kb_inv s" "kb_inv (s\<lparr>alt_pressed := a\<rparr>) = kb_inv s"
  "kb_inv (s\<lparr>capslock_on := a\<rparr>) = kb_inv s" "kb_inv (s\<lparr>extended_scancode := a\<rparr>) = kb_inv s" "kb_inv (s\<lparr>kb_io := i\<rparr>) = kb_inv s"
  by (simp_all add: kb_inv_def)

section \<open>What a key stands for\<close>

text \<open>
  The reference: the modifiers a user holds, and the characters a scan code adds. A letter is in upper case exactly
  when one of Shift and Caps Lock is in effect, and a control code when Ctrl is down and it would be in lower case.
\<close>

record mods =
  m_shift :: bool
  m_ctrl :: bool
  m_caps :: bool
  m_prefix :: bool

definition mods_of :: "keyboard \<Rightarrow> mods" where
  "mods_of s = \<lparr>m_shift = shift_pressed s, m_ctrl = ctrl_pressed s, m_caps = capslock_on s, m_prefix = extended_scancode s\<rparr>"

definition letter :: "u8 \<Rightarrow> bool" where
  "letter c \<longleftrightarrow> 97 \<le> c \<and> c \<le> 122"

definition glyph :: "mods \<Rightarrow> u8 \<Rightarrow> u8" where
  "glyph m k =
     (let base = scancode_to_ascii ! unat k in
      if letter base
      then if m_shift m \<noteq> m_caps m then base - 32 else if m_ctrl m then base - 96 else base
      else if m_shift m then scancode_to_ascii_shifted ! unat k else base)"

definition arrow :: "u8 \<Rightarrow> u8 list" where
  "arrow k = (if k = 0x48 then [0x80] else if k = 0x50 then [0x81] else if k = 0x4B then [0x82] else if k = 0x4D then [0x83] else [])"

definition decode1 :: "u8 \<Rightarrow> mods \<Rightarrow> mods \<times> u8 list" where
  "decode1 k m =
     (if k = 0xE0 then (m\<lparr>m_prefix := True\<rparr>, [])
      else if m_prefix m then (m\<lparr>m_prefix := False\<rparr>, arrow k)
      else if k = 0x2A \<or> k = 0x36 then (m\<lparr>m_shift := True\<rparr>, [])
      else if k = 0xAA \<or> k = 0xB6 then (m\<lparr>m_shift := False\<rparr>, [])
      else if k = 0x1D then (m\<lparr>m_ctrl := True\<rparr>, [])
      else if k = 0x9D then (m\<lparr>m_ctrl := False\<rparr>, [])
      else if k = 0x3A then (m\<lparr>m_caps := \<not> m_caps m\<rparr>, [])
      else (m, if k < 0x80 \<and> k \<noteq> 0x38 \<and> glyph m k \<noteq> 0 then [glyph m k] else []))"

fun decode :: "mods \<Rightarrow> u8 list \<Rightarrow> u8 list" where
  "decode m [] = []"
| "decode m (k # ks) = (case decode1 k m of (m', cs) \<Rightarrow> cs @ decode m' ks)"


text \<open>How the two tables relate, checked entry by entry.\<close>

definition table_rel :: "u8 \<Rightarrow> u8 \<Rightarrow> bool" where
  "table_rel b u \<longleftrightarrow>
     (if letter b then in_range 97 122 b \<and> \<not> in_range 65 90 b \<and> u = b - 32 \<and> in_range 65 90 u \<and> \<not> in_range 97 122 u
      else \<not> in_range 97 122 b \<and> \<not> in_range 65 90 b \<and> \<not> in_range 97 122 u \<and> \<not> in_range 65 90 u)"

lemma tables_related: "list_all2 table_rel scancode_to_ascii scancode_to_ascii_shifted"
  by code_simp

lemma tables_length: "length scancode_to_ascii = 128" "length scancode_to_ascii_shifted = 128"
  by code_simp+

lemma translate_glyph:
  assumes "k < 0x80"
  shows "translate k s = glyph (mods_of s) k"
proof -
  have "unat k < 128" using assms by (simp add: word_nat)
  then have "table_rel (scancode_to_ascii ! unat k) (scancode_to_ascii_shifted ! unat k)"
    using tables_related tables_length by (simp add: list_all2_conv_all_nth)
  then show ?thesis using assms
    by (auto simp: table_rel_def translate_def glyph_def mods_of_def Let_def split: if_splits)
qed

lemma u8_all: "(\<forall>k :: u8. P k) \<longleftrightarrow> (\<forall>n \<in> set [0..<256]. P (word_of_nat n))"
proof -
  have "P k" if "\<forall>n \<in> set [0..<256]. P (word_of_nat n)" for k :: u8
    using that [rule_format, of "unat k"] unat_below [of k] by simp
  then show ?thesis by blast
qed

lemma release_codes:
  "\<forall>k :: u8. (k AND 0x80 \<noteq> 0 \<longleftrightarrow> \<not> k < 0x80)
     \<and> (\<not> k < 0x80 \<longrightarrow> (k AND 0x7F = 0x2A \<longleftrightarrow> k = 0xAA) \<and> (k AND 0x7F = 0x36 \<longleftrightarrow> k = 0xB6) \<and> (k AND 0x7F = 0x1D \<longleftrightarrow> k = 0x9D))"
  unfolding u8_all by code_simp


lemma mods_of_put [simp]: "mods_of (buffer_put c s) = mods_of s"
  by (simp add: mods_of_def buffer_put_def Let_def)

lemma queued_put:
  assumes "kb_inv s"
  shows "queued (buffer_put c s) = take 255 (queued s @ [c])"
  using kq.put_all [OF assms, of "[c]"] by simp

lemmas scancodes = SCANCODE_LSHIFT_def SCANCODE_RSHIFT_def SCANCODE_LCTRL_def SCANCODE_LALT_def SCANCODE_CAPSLOCK_def
  SCANCODE_RELEASE_def SCANCODE_EXTENDED_def KEY_UP_def KEY_DOWN_def KEY_LEFT_def KEY_RIGHT_def

lemma key_interrupt_decode1:
  assumes "kb_inv s"
  shows "kb_inv (key_interrupt k s)" "mods_of (key_interrupt k s) = fst (decode1 k (mods_of s))"
    "queued (key_interrupt k s) = take 255 (queued s @ snd (decode1 k (mods_of s)))"
proof -
  define t where "t = s\<lparr>kb_io := (kb_io s)\<lparr>port_in := (port_in (kb_io s))(KEYBOARD_DATA := k)\<rparr>\<rparr>"
  have t: "kb_inv t" "queued t = queued s" "mods_of t = mods_of s" "inb KEYBOARD_DATA (kb_io t) = k"
    using assms by (simp_all add: t_def mods_of_def inb_def)
  note bound = kq.bound [OF t(1)]
  have q: "take 255 (queued s) = queued s" using bound t(2) by simp
  have key: "key_interrupt k s = keyboard_handler t" by (simp add: key_interrupt_def t_def)
  have "kb_inv (keyboard_handler t) \<and> mods_of (keyboard_handler t) = fst (decode1 k (mods_of t))
    \<and> queued (keyboard_handler t) = take 255 (queued t @ snd (decode1 k (mods_of t)))"
  proof (cases "k < 0x80")
    case True
    have put: "queued (buffer_put c u) = take 255 (queued t @ [c])" "kb_inv (buffer_put c u)"
      if "kb_inv u" "queued u = queued t" for c u using queued_put [OF that(1)] kq.put(1) [OF that(1)] that(2) by simp_all
    have ne: "k \<noteq> 0xE0" "k \<noteq> 0xAA" "k \<noteq> 0xB6" "k \<noteq> 0x9D" using True by (auto simp: word_nat)
    have press: "k AND 0x80 = 0" using release_codes True by blast
    show ?thesis
    proof (cases "extended_scancode t")
      case ext: True
      have run: "keyboard_handler t = extended_key k t" using t(4) ext ne press by (simp add: keyboard_handler_def scancodes)
      have dec: "decode1 k (mods_of t) = ((mods_of t)\<lparr>m_prefix := False\<rparr>, arrow k)" using ext ne by (simp add: decode1_def mods_of_def)
      have "extended_key k t = fold buffer_put (arrow k) (t\<lparr>extended_scancode := False\<rparr>)"
        by (simp add: extended_key_def arrow_def scancodes Let_def)
      moreover have "mods_of (fold buffer_put cs u) = mods_of u" for cs u by (induction cs arbitrary: u) simp_all
      moreover have "mods_of (t\<lparr>extended_scancode := False\<rparr>) = (mods_of t)\<lparr>m_prefix := False\<rparr>" by (simp add: mods_of_def)
      ultimately show ?thesis unfolding run dec using kq.put_all [of "t\<lparr>extended_scancode := False\<rparr>" "arrow k"] t(1) by simp
    next
      case pl: False
      show ?thesis
      proof (cases "k \<in> {0x2A, 0x36, 0x1D, 0x38, 0x3A}")
        case True
        then show ?thesis using t(1,4) pl bound
          by (elim insertE) (simp_all add: keyboard_handler_def decode1_def scancodes mods_of_def)
      next
        case False
        have run: "keyboard_handler t = (if glyph (mods_of t) k \<noteq> 0 then buffer_put (glyph (mods_of t) k) t else t)"
          using t(4) pl ne press False translate_glyph [OF True, of t] by (simp add: keyboard_handler_def scancodes Let_def)
        have dec: "decode1 k (mods_of t) = (mods_of t, if glyph (mods_of t) k \<noteq> 0 then [glyph (mods_of t) k] else [])"
          using pl ne False True by (simp add: decode1_def mods_of_def)
        show ?thesis unfolding run dec using put [of t] t(1) bound by simp
      qed
    qed
  next
    case False
    note rc = release_codes [rule_format, of k]
    have rel: "k AND 0x80 \<noteq> 0" and codes: "k AND 0x7F = 0x2A \<longleftrightarrow> k = 0xAA" "k AND 0x7F = 0x36 \<longleftrightarrow> k = 0xB6"
      "k AND 0x7F = 0x1D \<longleftrightarrow> k = 0x9D" using rc False by blast+
    have ne: "k \<noteq> 0x2A" "k \<noteq> 0x36" "k \<noteq> 0x1D" "k \<noteq> 0x3A" "arrow k = []" using False by (auto simp: word_nat arrow_def)
    show ?thesis
    proof (cases "k = 0xE0")
      case True
      then show ?thesis using t(1,4) bound by (simp add: keyboard_handler_def decode1_def scancodes mods_of_def)
    next
      case other: False
      have run: "keyboard_handler t = release_key k t" using t(4) other rel by (simp add: keyboard_handler_def scancodes)
      show ?thesis unfolding run using t(1) bound other False ne codes
        by (simp add: release_key_def decode1_def scancodes Let_def mods_of_def)
    qed
  qed
  then show "kb_inv (key_interrupt k s)" "mods_of (key_interrupt k s) = fst (decode1 k (mods_of s))"
    "queued (key_interrupt k s) = take 255 (queued s @ snd (decode1 k (mods_of s)))" using key t(2,3) by simp_all
qed

lemma key_interrupts_decode:
  assumes "kb_inv s"
  shows "kb_inv (fold key_interrupt ks s) \<and> queued (fold key_interrupt ks s) = take 255 (queued s @ decode (mods_of s) ks)"
  using assms
proof (induction ks arbitrary: s)
  case Nil
  then show ?case using kq.bound [of s] by simp
next
  case (Cons k ks)
  note K = key_interrupt_decode1 [OF Cons.prems, of k]
  show ?case using Cons.IH [OF K(1)] K(2,3) by (simp add: split_beta min_def take_all_iff)
qed


section \<open>Reading\<close>

text \<open>The bytes at \<open>buf\<close> after storing a list there.\<close>

definition store_bytes :: "mem \<Rightarrow> u64 \<Rightarrow> u8 list \<Rightarrow> mem" where
  "store_bytes m a cs = (\<lambda>x. if unat (x - a) < length cs then cs ! unat (x - a) else m x)"

lemma store_bytes_Nil [simp]: "store_bytes m a [] = m"
  by (simp add: store_bytes_def)

lemma store_bytes_snoc:
  assumes "length cs < 2 ^ 64"
  shows "store8 (store_bytes m a cs) (a + of_nat (length cs)) c = store_bytes m a (cs @ [c])"
proof
  fix x
  have eq: "x = a + of_nat (length cs) \<longleftrightarrow> unat (x - a) = length cs"
  proof
    assume "unat (x - a) = length cs"
    then have "of_nat (unat (x - a)) = (of_nat (length cs) :: u64)" by simp
    then have "x - a = of_nat (length cs)" by simp
    then show "x = a + of_nat (length cs)" by (simp add: algebra_simps)
  qed (use assms in \<open>simp add: unat_of_nat\<close>)
  show "store8 (store_bytes m a cs) (a + of_nat (length cs)) c x = store_bytes m a (cs @ [c]) x"
    unfolding store8_def fun_upd_def eq store_bytes_def by (auto simp: nth_append)
qed

lemma read_loop_drain:
  assumes "kb_inv s" "length cs + kb_count s < 2 ^ 64" "cnt = of_nat (length cs)"
  shows "read_loop buf n cnt (store_bytes m buf cs, s) =
    (let k = min (unat n - length cs) (kb_count s) in
     (of_nat (length cs + k), store_bytes m buf (cs @ take k (queued s)), snd (drain buffer_get k s)))"
  using assms
proof (induction "queued s" arbitrary: s cs cnt)
  case Nil
  then have "\<not> keyboard_available s" "kb_count s = 0" using available_iff [of s] length_queued [of s] by simp_all
  then show ?case using Nil by (simp add: read_loop.simps)
next
  case (Cons c rest)
  note q = Cons.hyps(2) [symmetric]
  have av: "keyboard_available s" using available_iff [OF Cons.prems(1)] q by simp
  have cnt: "unat cnt = length cs" using Cons.prems(2,3) by (simp add: unat_of_nat)
  have pos: "kb_count s = Suc (length rest)" using q length_queued [of s] by simp
  obtain s' where g: "buffer_get s = (c, s')" "kb_inv s'" "queued s' = rest"
    using kq.get [OF Cons.prems(1) q] by (cases "buffer_get s") auto
  have cs': "kb_count s' = length rest" using length_queued [of s'] g(3) by simp
  show ?case
  proof (cases "cnt < n")
    case False
    then have "unat n - length cs = 0" using cnt by (simp add: word_nat)
    then show ?thesis using False Cons.prems(3) by (simp add: read_loop.simps)
  next
    case True
    then have lt: "length cs < unat n" using cnt by (simp add: word_nat)
    have IH: "read_loop buf n (cnt + 1) (store_bytes m buf (cs @ [c]), s') =
      (let k = min (unat n - length (cs @ [c])) (kb_count s') in
       (of_nat (length (cs @ [c]) + k), store_bytes m buf ((cs @ [c]) @ take k (queued s')), snd (drain buffer_get k s')))"
      by (rule Cons.hyps(1)) (use g cs' pos Cons.prems in simp_all)
    have st: "store8 (store_bytes m buf cs) (buf + cnt) c = store_bytes m buf (cs @ [c])"
      using store_bytes_snoc [of cs m buf c] Cons.prems(2,3) by simp
    define k where "k = min (unat n - Suc (length cs)) (length rest)"
    have k: "min (unat n - length cs) (kb_count s) = Suc k" using lt pos by (auto simp: k_def)
    have "read_loop buf n cnt (store_bytes m buf cs, s) = read_loop buf n (cnt + 1) (store_bytes m buf (cs @ [c]), s')"
      using True av g(1) st by (simp add: read_loop.simps [of buf n cnt])
    then show ?thesis unfolding IH k using g q cs' by (simp add: k_def [symmetric] split_beta)
  qed
qed

section \<open>Properties\<close>

definition keyboard_bss :: keyboard where
  "keyboard_bss = \<lparr>key_buffer = replicate 256 0, buffer_head = 0, buffer_tail = 0, shift_pressed = False, ctrl_pressed = False,
     alt_pressed = False, capslock_on = False, extended_scancode = False, kb_io = \<lparr>port_in = (\<lambda>_. 0xFF), port_out = []\<rparr>\<rparr>"

lemma keyboard_bss_inv: "kb_inv keyboard_bss" "queued keyboard_bss = []"
  "mods_of keyboard_bss = \<lparr>m_shift = False, m_ctrl = False, m_caps = False, m_prefix = False\<rparr>"
  by (simp_all add: keyboard_bss_def kb_inv_def queued_def kb_count_def ring_list_def mods_of_def)

text \<open>
  C17: the interrupt handler decodes the keyboard: after any sequence of scan codes the buffer holds, behind what it
  held before, the characters the reference decoder reads from the sequence (letters in upper case exactly when one
  of Shift and Caps Lock is in effect, control codes for lower-case letters under Ctrl, codes 80 to 83 hex for the
  arrow keys), up to its capacity of 255; what comes after that is dropped and nothing is overwritten.
\<close>

theorem keyboard_handler_decodes:
  assumes "kb_inv s"
  shows "kb_inv (fold key_interrupt ks s) \<and> queued (fold key_interrupt ks s) = take 255 (queued s @ decode (mods_of s) ks)"
  by (rule key_interrupts_decode [OF assms])

text \<open>Shift+H, i, Ctrl+C, arrow up.\<close>

theorem keyboard_handler_decodes_witness:
  "queued (fold key_interrupt [0x2A, 0x23, 0xA3, 0xAA, 0x17, 0x97, 0x1D, 0x2E, 0xAE, 0x9D, 0xE0, 0x48] keyboard_bss)
     = [72, 105, 3, 0x80]"
proof -
  have "decode \<lparr>m_shift = False, m_ctrl = False, m_caps = False, m_prefix = False\<rparr>
      [0x2A, 0x23, 0xA3, 0xAA, 0x17, 0x97, 0x1D, 0x2E, 0xAE, 0x9D, 0xE0, 0x48] = [72, 105, 3, 0x80]"
    by code_simp
  moreover have "queued (fold key_interrupt [0x2A, 0x23, 0xA3, 0xAA, 0x17, 0x97, 0x1D, 0x2E, 0xAE, 0x9D, 0xE0, 0x48] keyboard_bss)
      = take 255 (queued keyboard_bss @ decode (mods_of keyboard_bss) [0x2A, 0x23, 0xA3, 0xAA, 0x17, 0x97, 0x1D, 0x2E, 0xAE, 0x9D, 0xE0, 0x48])"
    by (rule conjunct2 [OF keyboard_handler_decodes [OF keyboard_bss_inv(1)]])
  ultimately show ?thesis unfolding keyboard_bss_inv by (simp only: append_Nil take_all list.size)
qed

text \<open>
  \<open>keyboard_read\<close> returns and delivers characters in the order they were typed: it stores the first \<open>n\<close> queued
  characters (or all, if there are fewer) at the buffer, changes no other byte, returns their number and leaves the
  rest queued.
\<close>

theorem keyboard_read_in_order:
  assumes "kb_inv s"
  shows "\<exists>s'. keyboard_read buf n (m, s) = (int (min (unat n) (length (queued s))),
      \<lambda>a. if unat (a - buf) < min (unat n) (length (queued s)) then queued s ! unat (a - buf) else m a, s')
    \<and> kb_inv s' \<and> queued s' = drop (unat n) (queued s)"
proof -
  define k where "k = min (unat n) (kb_count s)"
  have b: "kb_count s \<le> 255" using kq.bound [OF assms] by simp
  then have k: "k \<le> kb_count s" "k \<le> 255" by (simp_all add: k_def)
  have "read_loop buf n 0 (m, s) = (of_nat k, store_bytes m buf (take k (queued s)), snd (drain buffer_get k s))"
    using read_loop_drain [OF assms, of "[]" 0 buf n m] b by (simp add: k_def Let_def)
  moreover have "sint (ucast (of_nat k :: u64) :: u32) = int k"
  proof -
    have "ucast (of_nat k :: u64) = (of_nat k :: u32)" using k(2) by (simp add: word_unat_eq_iff unat_of_nat unsigned_ucast_eq take_bit_eq_mod)
    then show ?thesis using k(2) by (simp add: signed_of_nat signed_take_bit_int_eq_self)
  qed
  moreover have "drop k (queued s) = drop (unat n) (queued s)" by (auto simp: k_def min_def)
  moreover have "store_bytes m buf (take k (queued s)) =
      (\<lambda>a. if unat (a - buf) < min (unat n) (length (queued s)) then queued s ! unat (a - buf) else m a)"
    by (auto simp: store_bytes_def k_def)
  ultimately show ?thesis
    using kq.drain_elems [OF assms, of k] k(1) by (intro exI [of _ "snd (drain buffer_get k s)"]) (simp add: keyboard_read_def k_def)
qed

theorem keyboard_read_in_order_witness:
  "\<exists>m' s'. keyboard_read 0x9000 10 ((\<lambda>_. 0), fold key_interrupt [0x23, 0x17] keyboard_bss) = (2, m', s')
    \<and> m' 0x9000 = 104 \<and> m' 0x9001 = 105 \<and> queued s' = []"
proof -
  define s where "s = fold key_interrupt [0x23, 0x17] keyboard_bss"
  have "decode (mods_of keyboard_bss) [0x23, 0x17] = [104, 105]" unfolding keyboard_bss_inv by code_simp
  then have s: "kb_inv s" "queued s = [104, 105]"
    using key_interrupts_decode [OF keyboard_bss_inv(1), of "[0x23, 0x17]"] unfolding keyboard_bss_inv s_def
    by (simp_all only: append_Nil take_all list.size)
  then have "kb_count s = 2" using length_queued [of s] by simp
  then show ?thesis unfolding s_def [symmetric]
    using keyboard_read_in_order [OF s(1), of "0x9000" 10 "\<lambda>_. 0"] s(2) by auto
qed

end
