(* ===== verification/Shell_Text.thy ===== *)
theory Shell_Text
  imports Console_Spec Keyboard
begin

text \<open>
  The string helpers of the shell, \<open>src/kernel/shell/shell.c\<close>: comparison, copying, number parsing and the splitting
  of a command line into arguments. A string that is only read is the list of its bytes up to the zero byte; a
  character array that is written is the list of all its bytes. The properties: \<open>parse_uint\<close> reads back what
  \<open>print_dec\<close> and \<open>print_hex\<close> print, and the splitter yields the first eight words of the line.
\<close>

definition SHELL_MAX_LINE :: nat where "SHELL_MAX_LINE = 128"
definition SHELL_MAX_ARGS :: nat where "SHELL_MAX_ARGS = 8"

text \<open>The string an array holds, and the byte of an array at an offset.\<close>

definition cstr :: "u8 list \<Rightarrow> u8 list" where
  "cstr buf = takeWhile (\<lambda>c. c \<noteq> 0) buf"

definition byte_at :: "u8 list \<Rightarrow> nat \<Rightarrow> u8" where
  "byte_at s i = (if i < length s then s ! i else 0)"

section \<open>Helpers\<close>

fun shell_str_equal :: "u8 list \<Rightarrow> u8 list \<Rightarrow> bool" where
  "shell_str_equal (a # as) (b # bs) = (if a \<noteq> b then False else shell_str_equal as bs)"
| "shell_str_equal [] [] = True"
| "shell_str_equal _ _ = False"

fun str_len :: "u8 list \<Rightarrow> nat" where
  "str_len [] = 0"
| "str_len (c # s) = Suc (str_len s)"

text \<open>\<open>while (src[i] && i < max - 1) dst[i] = src[i]\<close> and the terminating zero.\<close>

function str_copy_loop :: "nat \<Rightarrow> u8 list \<Rightarrow> nat \<Rightarrow> u8 list \<Rightarrow> u8 list" where
  "str_copy_loop i src m dst =
     (if byte_at src i \<noteq> 0 \<and> i < m - 1 then str_copy_loop (i + 1) src m (dst[i := byte_at src i]) else dst[i := 0])"
  by pat_completeness auto
termination
  by (relation "measure (\<lambda>(i, src, m, dst). m - i)") auto

declare str_copy_loop.simps [simp del]

definition str_copy :: "u8 list \<Rightarrow> u8 list \<Rightarrow> nat \<Rightarrow> u8 list" where
  "str_copy dst src m = (if m = 0 then dst else str_copy_loop 0 src m dst)"

definition is_space :: "u8 \<Rightarrow> bool" where
  "is_space c \<longleftrightarrow> c = 32 \<or> c = 9"

section \<open>Numbers\<close>

text \<open>The value of a digit in a base, if it is one.\<close>

definition digit_of :: "u64 \<Rightarrow> u8 \<Rightarrow> u8 option" where
  "digit_of base c =
     (if in_range 48 57 c then Some (c - 48)
      else if base = 16 \<and> in_range 97 102 c then Some (10 + c - 97)
      else if base = 16 \<and> in_range 65 70 c then Some (10 + c - 65)
      else None)"

fun parse_digits :: "u64 \<Rightarrow> u64 \<Rightarrow> u8 list \<Rightarrow> u64 option" where
  "parse_digits base value [] = Some value"
| "parse_digits base value (c # s) =
     (case digit_of base c of None \<Rightarrow> None | Some digit \<Rightarrow> parse_digits base (value * base + ucast digit) s)"

text \<open>The value and the flag \<open>ok\<close>; a null pointer is \<open>None\<close>.\<close>

definition parse_uint :: "u8 list option \<Rightarrow> u64 \<times> bool" where
  "parse_uint ps =
     (case ps of
        None \<Rightarrow> (0, False)
      | Some s \<Rightarrow>
          if s = [] then (0, False)
          else
            let (base, rest) = (if byte_at s 0 = 48 \<and> (byte_at s 1 = 120 \<or> byte_at s 1 = 88) then (16, drop 2 s) else (10, s))
            in case parse_digits base 0 rest of None \<Rightarrow> (0, False) | Some value \<Rightarrow> (value, True))"

section \<open>Splitting a line\<close>

function skip_spaces :: "u8 list \<Rightarrow> nat \<Rightarrow> nat" where
  "skip_spaces line p = (if byte_at line p \<noteq> 0 \<and> is_space (byte_at line p) then skip_spaces line (p + 1) else p)"
  by pat_completeness auto
termination
  by (relation "measure (\<lambda>(line, p). length line - p)") (auto simp: byte_at_def split: if_splits)

function skip_word :: "u8 list \<Rightarrow> nat \<Rightarrow> nat" where
  "skip_word line p = (if byte_at line p \<noteq> 0 \<and> \<not> is_space (byte_at line p) then skip_word line (p + 1) else p)"
  by pat_completeness auto
termination
  by (relation "measure (\<lambda>(line, p). length line - p)") (auto simp: byte_at_def split: if_splits)

declare skip_spaces.simps [simp del] skip_word.simps [simp del]

text \<open>
  The loop of \<open>shell_execute\<close> that fills \<open>argv\<close>: the pointers are offsets into the line, and the byte behind each
  argument is overwritten with zero.
\<close>

function split_args :: "nat \<Rightarrow> nat list \<Rightarrow> u8 list \<Rightarrow> nat list \<times> u8 list" where
  "split_args p argv line =
     (if byte_at line p \<noteq> 0 \<and> length argv < SHELL_MAX_ARGS
      then
        let p = skip_spaces line p in
        if byte_at line p = 0 then (argv, line)
        else
          let q = skip_word line p in
          if byte_at line q \<noteq> 0 then split_args (q + 1) (argv @ [p]) (line[q := 0])
          else split_args q (argv @ [p]) line
      else (argv, line))"
  by pat_completeness auto
termination
  by (relation "measure (\<lambda>(p, argv, line). SHELL_MAX_ARGS - length argv)") auto

declare split_args.simps [simp del]

section \<open>Copying\<close>

lemma shell_str_equal_iff: "shell_str_equal a b \<longleftrightarrow> a = b"
  by (induction a b rule: shell_str_equal.induct) auto

lemma str_len_length [simp]: "str_len s = length s"
  by (induction s) auto

lemma cstr_append: "0 \<notin> set w \<Longrightarrow> cstr (w @ 0 # rest) = w"
  by (induction w) (auto simp: cstr_def)

lemma cstr_no_zero: "0 \<notin> set (cstr b)"
  unfolding cstr_def by (auto dest: set_takeWhileD)

lemma cstr_split:
  assumes "0 \<in> set b"
  shows "b = cstr b @ 0 # drop (Suc (length (cstr b))) b"
proof -
  obtain pre post where b: "b = pre @ 0 # post" "0 \<notin> set pre" using split_list_first [OF assms] by blast
  then show ?thesis by (simp add: cstr_append)
qed

lemma str_copy_loop_spec:
  assumes "i \<le> length src" "i < m" "m \<le> length dst" "0 \<notin> set src" "take i dst = take i src"
  shows "cstr (str_copy_loop i src m dst) = take (m - 1) src \<and> length (str_copy_loop i src m dst) = length dst"
  using assms
proof (induction i src m dst rule: str_copy_loop.induct)
  case (1 i src m dst)
  have nz: "byte_at src i \<noteq> 0 \<longleftrightarrow> i < length src" using 1(5) unfolding byte_at_def by (metis nth_mem)
  show ?case
  proof (cases "i < length src \<and> i < m - 1")
    case True
    let ?d = "dst[i := byte_at src i]"
    have "i < length dst" using True 1(4) by linarith
    then have "take (i + 1) ?d = take (i + 1) src" using True 1(6) by (simp add: take_Suc_conv_app_nth byte_at_def)
    then have "cstr (str_copy_loop (i + 1) src m ?d) = take (m - 1) src \<and> length (str_copy_loop (i + 1) src m ?d) = length ?d"
      using 1(1) True nz 1(4,5) by (simp add: less_diff_conv)
    then show ?thesis using True nz by (subst (1 2) str_copy_loop.simps) simp
  next
    case False
    then have i: "i = min (length src) (m - 1)" using 1(2,3) by auto
    have "dst[i := 0] = take i src @ 0 # drop (Suc i) dst" using 1(3,4,6) by (simp add: upd_conv_take_nth_drop)
    moreover have "0 \<notin> set (take i src)" using 1(5) by (meson in_set_takeD)
    ultimately have "cstr (dst[i := 0]) = take i src" by (simp add: cstr_append)
    moreover have "take i src = take (m - 1) src" by (simp add: i min_def)
    ultimately show ?thesis using False nz by (subst (1 2) str_copy_loop.simps) auto
  qed
qed

lemma str_copy_spec:
  assumes "0 < m" "m \<le> length dst" "0 \<notin> set src"
  shows "cstr (str_copy dst src m) = take (m - 1) src" "length (str_copy dst src m) = length dst"
  using str_copy_loop_spec [of 0 src m dst] assms by (simp_all add: str_copy_def)

section \<open>Printing and parsing\<close>

lemma small_digit: "(d :: u64) < 10 \<Longrightarrow> d \<in> {0, 1, 2, 3, 4, 5, 6, 7, 8, 9}"
proof -
  assume "d < 10"
  then have "unat d < 10" by (simp add: word_nat)
  then have "unat d \<in> {0, 1, 2, 3, 4, 5, 6, 7, 8, 9}" by auto
  then show ?thesis by (auto simp: word_unat_eq_iff)
qed

lemma digit_of_dec: "d < 10 \<Longrightarrow> digit_of base (48 + ucast (d :: u64)) = Some (ucast d)"
  using small_digit [of d] by (auto simp: digit_of_def in_range_def)

lemma parse_dec_loop: "parse_digits 10 0 (dec_loop n p) = parse_digits 10 n p"
proof (induction n p rule: dec_loop.induct)
  case (1 n p)
  show ?case
  proof (cases "0 < n")
    case True
    have lt: "n mod 10 < 10" by (simp add: word_nat)
    have "ucast (ucast (n mod 10) :: u8) = n mod 10"
      using lt by (simp add: word_unat_eq_iff unsigned_ucast_eq take_bit_eq_mod word_nat)
    then have "n div 10 * 10 + ucast (ucast (n mod 10) :: u8) = n" by (simp add: div_mult_mod_eq)
    then show ?thesis using 1 [OF True] digit_of_dec [OF lt, of 10] True by (subst dec_loop.simps) simp
  next
    case False
    then have "n = 0" by (simp add: word_neq_0_conv [symmetric])
    then show ?thesis by (subst dec_loop.simps) simp
  qed
qed

lemma dec_loop_length: "unat n < 10 ^ k \<Longrightarrow> length (dec_loop n p) \<le> k + length p"
proof (induction k arbitrary: n p)
  case 0
  then show ?case by (subst dec_loop.simps) (simp add: word_nat)
next
  case (Suc k)
  have "unat (n div 10) < 10 ^ k" using Suc.prems by (simp add: word_nat less_mult_imp_div_less mult.commute)
  then have "length (dec_loop (n div 10) ((48 + ucast (n mod 10)) # p)) \<le> k + length ((48 + ucast (n mod 10)) # p)"
    by (rule Suc.IH)
  then show ?case by (subst dec_loop.simps) simp
qed

lemma dec_loop_digits: "set (dec_loop n p) \<subseteq> {48, 49, 50, 51, 52, 53, 54, 55, 56, 57} \<union> set p"
proof -
  define D where "D = ({48, 49, 50, 51, 52, 53, 54, 55, 56, 57} :: u8 set)"
  have digit: "48 + ucast d \<in> D" if "(d :: u64) < 10" for d using small_digit [OF that] by (auto simp: D_def)
  have "set (dec_loop n p) \<subseteq> D \<union> set p"
  proof (induction n p rule: dec_loop.induct)
    case (1 n p)
    have "48 + ucast (n mod 10) \<in> D" by (rule digit) (simp add: word_nat)
    then show ?case using 1 by (subst dec_loop.simps) auto
  qed
  then show ?thesis by (simp only: D_def)
qed

lemma digit_of_hex:
  assumes "d < 16"
  shows "digit_of 16 (hex_digit d) = Some (ucast d)" "ucast (ucast d :: u8) = d" "hex_digit d = 48 \<longleftrightarrow> d = 0" "hex_digit d \<noteq> 120"
proof -
  have "unat d < 16" using assms by (simp add: word_nat)
  then have "unat d \<in> {0, 1, 2, 3, 4, 5, 6, 7, 8, 9, 10, 11, 12, 13, 14, 15}" unfolding insert_iff empty_iff by presburger
  then have "d \<in> {0, 1, 2, 3, 4, 5, 6, 7, 8, 9, 10, 11, 12, 13, 14, 15}" by (auto simp: word_unat_eq_iff)
  then show "digit_of 16 (hex_digit d) = Some (ucast d)" "ucast (ucast d :: u8) = d" "hex_digit d = 48 \<longleftrightarrow> d = 0" "hex_digit d \<noteq> 120"
    by (auto simp: hex_digit_def digit_of_def in_range_def)
qed

lemma nibble_less: "(n :: u64) AND 0xF < 16"
proof -
  have "n AND 0xF = n AND mask 4" by (simp add: mask_eq_exp_minus_1)
  then have "unat (n AND 0xF) = unat n mod 2 ^ 4" by (simp only: unat_and_mask)
  then show ?thesis by (simp add: word_nat)
qed

lemma nibble_step: "take_bit k (drop_bit 4 n) * 16 + (n AND 0xF) = (take_bit (k + 4) n :: u64)"
proof -
  have "take_bit k (drop_bit 4 n) * 16 = push_bit 4 (take_bit k (drop_bit 4 n))" by (simp add: push_bit_eq_mult)
  moreover have "n AND 0xF = take_bit 4 n" by (simp add: take_bit_eq_mask mask_eq_exp_minus_1)
  moreover have "push_bit 4 (take_bit k (drop_bit 4 n)) + take_bit 4 n = push_bit 4 (take_bit k (drop_bit 4 n)) OR take_bit 4 n"
    by (rule disjunctive_add) (auto simp: bit_simps)
  moreover have "push_bit 4 (take_bit k (drop_bit 4 n)) OR take_bit 4 n = take_bit (k + 4) n"
    by (rule bit_eqI) (auto simp: bit_simps)
  ultimately show ?thesis by simp
qed

lemma parse_hex_fill: "parse_digits 16 0 (hex_fill i n buf) = parse_digits 16 (take_bit (4 * i) n) buf"
proof (induction i n buf rule: hex_fill.induct)
  case (2 i n buf)
  have "take_bit (4 * i) (drop_bit 4 n) * 16 + ucast (ucast (n AND 0xF) :: u8) = take_bit (4 * Suc i) n"
    using nibble_step [of "4 * i" n] by (simp add: digit_of_hex(2) [OF nibble_less] add.commute)
  then show ?case using 2 digit_of_hex(1) [OF nibble_less [of n]] by simp
qed simp

lemma parse_skip_zeros: "parse_digits 16 0 (skip_zeros p) = parse_digits 16 0 p"
  by (induction p rule: skip_zeros.induct) (auto simp: digit_of_def in_range_def)

lemma hex_fill_length: "length (hex_fill i n buf) = i + length buf"
  by (induction i n buf rule: hex_fill.induct) auto

lemma skip_zeros_length: "length (skip_zeros p) \<le> length p"
  by (induction p rule: skip_zeros.induct) auto

lemma parse_dec_digits: "parse_uint (Some (dec_digits n)) = (n, True)"
proof -
  have digits: "set (dec_digits n) \<subseteq> {48, 49, 50, 51, 52, 53, 54, 55, 56, 57}"
    using dec_loop_digits [of n "[]"] by (auto simp: dec_digits_def)
  have val: "parse_digits 10 0 (dec_digits n) = Some n"
    using parse_dec_loop [of n "[]"] by (auto simp: dec_digits_def digit_of_def in_range_def)
  have ne: "dec_digits n \<noteq> []"
  proof
    assume "dec_digits n = []"
    then have "n = 0" using val by simp
    then show False using \<open>dec_digits n = []\<close> by (simp add: dec_digits_def)
  qed
  have "byte_at (dec_digits n) 1 \<notin> {120, 88}"
  proof (cases "1 < length (dec_digits n)")
    case True
    then have "dec_digits n ! 1 \<in> {48, 49, 50, 51, 52, 53, 54, 55, 56, 57}" using digits nth_mem by blast
    then show ?thesis using True by (auto simp: byte_at_def)
  qed (simp add: byte_at_def)
  then show ?thesis using ne val by (auto simp: parse_uint_def Let_def)
qed

lemma parse_hex_digits: "parse_uint (Some (hex_digits n)) = (n, True)"
proof -
  have "parse_digits 16 0 (skip_zeros (hex_fill 16 n [])) = Some n"
    using parse_hex_fill [of 16 n "[]"] by (simp add: parse_skip_zeros take_bit_word_eq_self)
  then show ?thesis by (simp add: parse_uint_def hex_digits_def byte_at_def)
qed

text \<open>
  C22: The number printers and the parser of the shell agree: for every 64-bit number the decimal and the hexadecimal
  text the kernel prints is accepted by \<open>parse_uint\<close> and read back as the same number; the decimal text fits the 20
  characters of the buffer of \<open>print_dec\<close>.
\<close>

theorem parse_uint_reads_printed:
  "parse_uint (Some (dec_digits n)) = (n, True) \<and> parse_uint (Some (hex_digits n)) = (n, True)
   \<and> length (dec_digits n) \<le> 20 \<and> length (hex_digits n) \<le> 18"
proof (intro conjI parse_dec_digits parse_hex_digits)
  have fit: "unat n < 10 ^ 20" using unat_below [of n] by (rule less_le_trans) simp
  show "length (dec_digits n) \<le> 20" using dec_loop_length [OF fit, of "[]"] by (simp add: dec_digits_def)
  show "length (hex_digits n) \<le> 18" using skip_zeros_length [of "hex_fill 16 n []"] by (simp add: hex_digits_def hex_fill_length)
qed

section \<open>Words of a line\<close>

text \<open>The words of a text: maximal runs of characters that are not blank.\<close>

function words :: "u8 list \<Rightarrow> u8 list list" where
  "words cs =
     (case dropWhile is_space cs of
        [] \<Rightarrow> []
      | d # ds \<Rightarrow> takeWhile (\<lambda>c. \<not> is_space c) (d # ds) # words (dropWhile (\<lambda>c. \<not> is_space c) (d # ds)))"
  by pat_completeness auto
termination
proof (relation "measure length")
  fix cs d ds
  assume "dropWhile is_space cs = d # ds"
  then have "\<not> is_space d" "length (d # ds) \<le> length cs" using hd_dropWhile [of is_space cs] length_dropWhile_le [of is_space cs] by auto
  then show "(dropWhile (\<lambda>c. \<not> is_space c) (d # ds), cs) \<in> measure length"
    using length_dropWhile_le [of "\<lambda>c. \<not> is_space c" ds] by simp
qed simp

declare words.simps [simp del]

lemma words_spaces: "words (dropWhile is_space cs) = words cs"
  by (subst (1 2) words.simps) (simp add: dropWhile_idem)

lemma words_cons:
  assumes "dropWhile is_space cs = w @ rest" "w \<noteq> []" "\<forall>c \<in> set w. \<not> is_space c" "rest = [] \<or> is_space (hd rest)"
  shows "words cs = w # words (tl rest)"
proof -
  obtain d ds where w: "w = d # ds" using assms(2) by (cases w) auto
  have take: "takeWhile (\<lambda>c. \<not> is_space c) (w @ rest) = w" "dropWhile (\<lambda>c. \<not> is_space c) (w @ rest) = rest"
    using assms(3,4) by (cases rest; simp add: takeWhile_append dropWhile_append)+
  have "words cs = w # words rest" using assms(1) take unfolding w by (subst words.simps) simp
  moreover have "words rest = words (tl rest)"
  proof (cases rest)
    case (Cons r rs)
    then have "dropWhile is_space rest = dropWhile is_space rs" using assms(4) by simp
    then show ?thesis using words_spaces [of rest] words_spaces [of rs] Cons by simp
  qed simp
  ultimately show ?thesis by simp
qed

text \<open>The two skipping loops, on a line whose rest holds the string \<open>cs\<close>.\<close>

lemma byte_at_append: "byte_at (pre @ post) (length pre + i) = byte_at post i"
  by (auto simp: byte_at_def nth_append)

lemma skip_spaces_spec:
  assumes "\<forall>c \<in> set sp. is_space c" "\<not> is_space (byte_at rest 0)"
  shows "skip_spaces (pre @ sp @ rest) (length pre) = length pre + length sp"
  using assms(1)
proof (induction sp arbitrary: pre)
  case Nil
  have "byte_at (pre @ rest) (length pre) = byte_at rest 0" using byte_at_append [of pre rest 0] by simp
  then show ?case using assms(2) by (subst skip_spaces.simps) simp
next
  case (Cons s sp)
  have "byte_at (pre @ (s # sp) @ rest) (length pre) = s" using byte_at_append [of pre "(s # sp) @ rest" 0] by (simp add: byte_at_def)
  moreover have "is_space s" "s \<noteq> 0" using Cons.prems by (auto simp: is_space_def)
  moreover have "skip_spaces (pre @ (s # sp) @ rest) (length pre + 1) = length pre + 1 + length sp"
    using Cons.IH [of "pre @ [s]"] Cons.prems by simp
  ultimately show ?case by (subst skip_spaces.simps) simp
qed

lemma skip_word_spec:
  assumes "\<forall>c \<in> set w. \<not> is_space c \<and> c \<noteq> 0" "byte_at rest 0 = 0 \<or> is_space (byte_at rest 0)"
  shows "skip_word (pre @ w @ rest) (length pre) = length pre + length w"
  using assms(1)
proof (induction w arbitrary: pre)
  case Nil
  have "byte_at (pre @ rest) (length pre) = byte_at rest 0" using byte_at_append [of pre rest 0] by simp
  then show ?case using assms(2) by (subst skip_word.simps) auto
next
  case (Cons s w)
  have "byte_at (pre @ (s # w) @ rest) (length pre) = s" using byte_at_append [of pre "(s # w) @ rest" 0] by (simp add: byte_at_def)
  moreover have "skip_word (pre @ (s # w) @ rest) (length pre + 1) = length pre + 1 + length w"
    using Cons.IH [of "pre @ [s]"] Cons.prems by simp
  ultimately show ?case using Cons.prems by (subst skip_word.simps) simp
qed

text \<open>A text is blank, or blanks, a word and the rest, which is empty or starts with a blank.\<close>

lemma first_word:
  assumes "\<not> (\<forall>c \<in> set cs. is_space c)"
  obtains sp w rest where "cs = sp @ w @ rest" "\<forall>c \<in> set sp. is_space c" "w \<noteq> []" "\<forall>c \<in> set w. \<not> is_space c"
    "rest = [] \<or> is_space (hd rest)" "words cs = w # words (tl rest)"
proof -
  define ds where "ds = dropWhile is_space cs"
  define w where "w = takeWhile (\<lambda>c. \<not> is_space c) ds"
  define rest where "rest = dropWhile (\<lambda>c. \<not> is_space c) ds"
  have ne: "ds \<noteq> []" using assms by (simp add: ds_def)
  then have "\<not> is_space (hd ds)" using hd_dropWhile [of is_space cs] by (simp add: ds_def)
  then have wne: "w \<noteq> []" using ne by (cases ds) (auto simp: w_def)
  have wch: "\<forall>c \<in> set w. \<not> is_space c" using set_takeWhileD [of _ "\<lambda>c. \<not> is_space c" ds] by (auto simp: w_def)
  have hdr: "rest = [] \<or> is_space (hd rest)" using hd_dropWhile [of "\<lambda>c. \<not> is_space c" ds] by (auto simp: rest_def)
  have ds: "dropWhile is_space cs = w @ rest" by (simp add: w_def rest_def ds_def)
  show thesis
  proof (rule that)
    show "cs = takeWhile is_space cs @ w @ rest" using ds takeWhile_dropWhile_id [of is_space cs] by simp
    show "\<forall>c \<in> set (takeWhile is_space cs). is_space c" by (auto dest: set_takeWhileD)
    show "words cs = w # words (tl rest)" by (rule words_cons [OF ds wne wch hdr])
  qed (fact wne wch hdr)+
qed

lemma words_blank:
  assumes "\<forall>c \<in> set cs. is_space c"
  shows "words cs = []"
proof -
  have "dropWhile is_space cs = []" using assms by simp
  then show ?thesis using words.simps [of cs] unfolding \<open>dropWhile is_space cs = []\<close> by simp
qed

text \<open>
  One round of the splitter, on a line of the part already split, the string still to split, its zero byte and what the
  array holds behind it.
\<close>

lemma split_blank:
  assumes "\<forall>c \<in> set cs. is_space c"
  shows "split_args (length pre) argv (pre @ cs @ 0 # post) = (argv, pre @ cs @ 0 # post)"
proof -
  let ?line = "pre @ cs @ 0 # post"
  have skip: "skip_spaces ?line (length pre) = length (pre @ cs)"
    using skip_spaces_spec [OF assms, of "0 # post" pre] by (simp add: byte_at_def is_space_def)
  have "byte_at ?line (length (pre @ cs)) = 0" using byte_at_append [of "pre @ cs" "0 # post" 0] by (simp add: byte_at_def)
  then show ?thesis using skip by (subst split_args.simps) (simp add: Let_def)
qed

lemma split_word:
  assumes sp: "\<forall>c \<in> set sp. is_space c" and w: "w \<noteq> []" "\<forall>c \<in> set w. \<not> is_space c \<and> c \<noteq> 0"
    and rest: "rest = [] \<or> is_space (hd rest)" and more: "length argv < SHELL_MAX_ARGS"
  shows "split_args (length pre) argv (pre @ (sp @ w @ rest) @ 0 # post) =
    (case rest of
       [] \<Rightarrow> (argv @ [length (pre @ sp)], pre @ sp @ w @ 0 # post)
     | r # rs \<Rightarrow> split_args (length (pre @ sp @ w @ [0])) (argv @ [length (pre @ sp)]) ((pre @ sp @ w @ [0]) @ rs @ 0 # post))"
proof -
  let ?line = "pre @ (sp @ w @ rest) @ 0 # post"
  have first: "byte_at (w @ rest @ 0 # post) 0 = hd w" using w(1) by (cases w) (simp_all add: byte_at_def)
  have hdw: "\<not> is_space (hd w)" "hd w \<noteq> 0" using w by simp_all
  have nz: "byte_at ?line (length pre) \<noteq> 0"
    using byte_at_append [of pre "(sp @ w @ rest) @ 0 # post" 0] sp hdw first by (cases sp) (auto simp: byte_at_def is_space_def)
  have skip: "skip_spaces ?line (length pre) = length (pre @ sp)"
    using skip_spaces_spec [OF sp, of "w @ rest @ 0 # post" pre] first hdw by simp
  have arg: "byte_at ?line (length (pre @ sp)) \<noteq> 0"
    using byte_at_append [of "pre @ sp" "w @ rest @ 0 # post" 0] first hdw by simp
  have word: "skip_word ?line (length (pre @ sp)) = length (pre @ sp @ w)"
    using skip_word_spec [OF w(2), of "rest @ 0 # post" "pre @ sp"] rest by (cases rest) (auto simp: byte_at_def)
  have behind: "byte_at ?line (length (pre @ sp @ w)) = byte_at (rest @ 0 # post) 0"
    using byte_at_append [of "pre @ sp @ w" "rest @ 0 # post" 0] by simp
  have step: "split_args (length pre) argv ?line =
      (if byte_at (rest @ 0 # post) 0 \<noteq> 0
       then split_args (length (pre @ sp @ w) + 1) (argv @ [length (pre @ sp)]) (?line[length (pre @ sp @ w) := 0])
       else split_args (length (pre @ sp @ w)) (argv @ [length (pre @ sp)]) ?line)"
    using nz more skip arg word behind by (subst split_args.simps) (simp only: Let_def if_True if_False simp_thms)
  show ?thesis
  proof (cases rest)
    case Nil
    then have "byte_at ?line (length (pre @ sp @ w)) = 0" using behind by (simp add: byte_at_def)
    then have "split_args (length (pre @ sp @ w)) (argv @ [length (pre @ sp)]) ?line = (argv @ [length (pre @ sp)], ?line)"
      by (subst split_args.simps) simp
    then show ?thesis using step Nil by (simp add: byte_at_def)
  next
    case (Cons r rs)
    have "r \<noteq> 0" using rest Cons by (auto simp: is_space_def)
    moreover have "?line[length (pre @ sp @ w) := 0] = (pre @ sp @ w @ [0]) @ rs @ 0 # post" using Cons by (simp add: list_update_append)
    ultimately show ?thesis using step Cons by (simp add: byte_at_def)
  qed
qed

lemma split_args_spec:
  assumes "0 \<notin> set cs"
  shows "\<exists>new line'. split_args (length pre) argv (pre @ cs @ 0 # post) = (argv @ new, pre @ line')
      \<and> map (\<lambda>p. cstr (drop p (pre @ line'))) new = take (SHELL_MAX_ARGS - length argv) (words cs)"
  using assms
proof (induction "SHELL_MAX_ARGS - length argv" arbitrary: pre cs argv)
  case 0
  then show ?case by (subst split_args.simps) auto
next
  case (Suc n)
  have more: "length argv < SHELL_MAX_ARGS" using Suc.hyps(2) by simp
  show ?case
  proof (cases "\<forall>c \<in> set cs. is_space c")
    case True
    then show ?thesis using split_blank [OF True, of pre argv post] words_blank [OF True] by auto
  next
    case False
    obtain sp w rest where cs: "cs = sp @ w @ rest" and sp: "\<forall>c \<in> set sp. is_space c" and wne: "w \<noteq> []"
      and wch: "\<forall>c \<in> set w. \<not> is_space c" and hdr: "rest = [] \<or> is_space (hd rest)" and wcs: "words cs = w # words (tl rest)"
      using first_word [OF False] by blast
    have nz: "\<forall>c \<in> set w. \<not> is_space c \<and> c \<noteq> 0" using wch Suc.prems cs by auto
    note step = split_word [OF sp wne nz hdr more, of pre post, folded cs]
    have str: "cstr (drop (length (pre @ sp)) (pre @ sp @ w @ 0 # l)) = w" for l using cstr_append [of w l] nz by auto
    let ?p = "length (pre @ sp)"
    have head: "take (SHELL_MAX_ARGS - length argv) (words cs) = w # take (SHELL_MAX_ARGS - length (argv @ [?p])) (words (tl rest))"
      using wcs more by (simp add: take_Cons')
    show ?thesis
    proof (cases rest)
      case Nil
      then show ?thesis using step str head by (intro exI [of _ "[?p]"]) (auto simp: words_blank)
    next
      case (Cons r rs)
      let ?P = "pre @ sp @ w @ [0]"
      have "0 \<notin> set rs" "n = SHELL_MAX_ARGS - length (argv @ [?p])" using Suc.prems Suc.hyps(2) by (simp_all add: cs Cons)
      then obtain new line' where "split_args (length ?P) (argv @ [?p]) (?P @ rs @ 0 # post) = ((argv @ [?p]) @ new, ?P @ line')"
          "map (\<lambda>p. cstr (drop p (?P @ line'))) new = take (SHELL_MAX_ARGS - length (argv @ [?p])) (words rs)"
        using Suc.hyps(1) [of "argv @ [?p]" rs ?P] by blast
      then show ?thesis using step str head Cons by (intro exI [of _ "?p # new"] exI [of _ "sp @ w @ 0 # line'"]) simp
    qed
  qed
qed

lemma split_args_line:
  assumes "0 \<in> set line"
  obtains argv line' where "split_args 0 [] line = (argv, line')" "map (\<lambda>p. cstr (drop p line')) argv = take 8 (words (cstr line))"
proof -
  have "line = [] @ cstr line @ 0 # drop (Suc (length (cstr line))) line" using cstr_split [OF assms] by simp
  moreover obtain new line' where "split_args (length ([] :: u8 list)) [] ([] @ cstr line @ 0 # drop (Suc (length (cstr line))) line) = ([] @ new, [] @ line')"
    "map (\<lambda>p. cstr (drop p ([] @ line'))) new = take (SHELL_MAX_ARGS - length ([] :: nat list)) (words (cstr line))"
    using split_args_spec [OF cstr_no_zero [of line], of "[]" "[]"] by blast
  ultimately show ?thesis using that by (simp add: SHELL_MAX_ARGS_def)
qed

text \<open>
  C23: The command line is split into words: on a line that holds a string, the argument pointers of \<open>shell_execute\<close>
  point at the first eight blank-separated words of it, each terminated where it ends.
\<close>

theorem split_args_words:
  assumes "0 \<in> set line"
  shows "case split_args 0 [] line of (argv, line') \<Rightarrow> map (\<lambda>p. cstr (drop p line')) argv = take 8 (words (cstr line))"
  by (rule split_args_line [OF assms]) simp

text \<open>The line ``echo  hi'' in an array of twelve bytes.\<close>

theorem split_args_words_witness:
  "case split_args 0 [] [101, 99, 104, 111, 32, 32, 104, 105, 0, 7, 7, 7] of (argv, line') \<Rightarrow>
     map (\<lambda>p. cstr (drop p line')) argv = [[101, 99, 104, 111], [104, 105]]"
proof -
  have "take 8 (words (cstr [101, 99, 104, 111, 32, 32, 104, 105, 0, 7, 7, 7])) = [[101, 99, 104, 111], [104, 105]]"
    by (simp add: cstr_def words.simps is_space_def)
  then show ?thesis using split_args_words [of "[101, 99, 104, 111, 32, 32, 104, 105, 0, 7, 7, 7]"] by simp
qed

end
