(* ===== verification/History.thy ===== *)
theory History
  imports Ring
begin

text \<open>
  The command history of the shell, \<open>src/kernel/shell/history.c\<close>: a ring of 16 lines of 128 bytes and a
  position for walking through them. A C string is a function from offsets to bytes that has a zero byte; the
  pointer to an entry is its index. The specification is a list of lines, oldest first, and a cursor.
\<close>

section \<open>C strings\<close>

text \<open>The string at \<open>f\<close> is the list \<open>cs\<close>.\<close>

definition is_str :: "(nat \<Rightarrow> u8) \<Rightarrow> u8 list \<Rightarrow> bool" where
  "is_str f cs \<longleftrightarrow> (\<forall>i < length cs. f i = cs ! i \<and> f i \<noteq> 0) \<and> f (length cs) = 0"

text \<open>The comparison loop at offset \<open>i\<close>; it returns when one of the strings ends.\<close>

partial_function (option) str_equal_from :: "(nat \<Rightarrow> u8) \<Rightarrow> (nat \<Rightarrow> u8) \<Rightarrow> nat \<Rightarrow> bool option" where
  "str_equal_from a b i =
     (if a i \<noteq> 0 \<and> b i \<noteq> 0 then (if a i \<noteq> b i then Some False else str_equal_from a b (i + 1))
      else Some (a i = b i))"

definition str_equal :: "(nat \<Rightarrow> u8) \<Rightarrow> (nat \<Rightarrow> u8) \<Rightarrow> bool option" where
  "str_equal a b = str_equal_from a b 0"

section \<open>State and operations\<close>

definition HISTORY_MAX_ENTRIES :: nat where "HISTORY_MAX_ENTRIES = 16"
definition HISTORY_MAX_LINE :: nat where "HISTORY_MAX_LINE = 128"

record history =
  history_entries :: "u8 list list"
  history_count :: nat
  history_start :: nat
  nav_pos :: int

definition history_init :: "history \<Rightarrow> history" where
  "history_init s = s\<lparr>history_count := 0, history_start := 0, nav_pos := -1\<rparr>"

text \<open>The copy loop, from offset \<open>i\<close> on, with the terminating zero.\<close>

function copy_line :: "nat \<Rightarrow> (nat \<Rightarrow> u8) \<Rightarrow> u8 list \<Rightarrow> u8 list" where
  "copy_line i line dst =
     (if line i \<noteq> 0 \<and> i < HISTORY_MAX_LINE - 1 then copy_line (i + 1) line (dst[i := line i]) else dst[i := 0])"
  by pat_completeness auto
termination
  by (relation "measure (\<lambda>(i, line, dst). HISTORY_MAX_LINE - i)") auto

declare copy_line.simps [simp del]

definition insert_line :: "(nat \<Rightarrow> u8) \<Rightarrow> history \<Rightarrow> history" where
  "insert_line line s =
     (let (at, s) =
        (if history_count s < HISTORY_MAX_ENTRIES
         then ((history_start s + history_count s) mod HISTORY_MAX_ENTRIES, s\<lparr>history_count := history_count s + 1\<rparr>)
         else (history_start s, s\<lparr>history_start := (history_start s + 1) mod HISTORY_MAX_ENTRIES\<rparr>));
          s = s\<lparr>history_entries := (history_entries s)[at := copy_line 0 line (history_entries s ! at)]\<rparr>
      in s\<lparr>nav_pos := -1\<rparr>)"

definition history_add :: "(nat \<Rightarrow> u8) option \<Rightarrow> history \<Rightarrow> history option" where
  "history_add pline s =
     (case pline of
        None \<Rightarrow> Some (s\<lparr>nav_pos := -1\<rparr>)
      | Some line \<Rightarrow>
          if line 0 = 0 then Some (s\<lparr>nav_pos := -1\<rparr>)
          else if history_count s > 0
          then let last_index = (history_start s + history_count s - 1) mod HISTORY_MAX_ENTRIES in
               (case str_equal (\<lambda>i. history_entries s ! last_index ! i) line of
                  None \<Rightarrow> None
                | Some True \<Rightarrow> Some (s\<lparr>nav_pos := -1\<rparr>)
                | Some False \<Rightarrow> Some (insert_line line s))
          else Some (insert_line line s))"

text \<open>The slot of the entry that is \<open>n\<close> behind the newest.\<close>

definition entry_behind :: "int \<Rightarrow> history \<Rightarrow> nat" where
  "entry_behind n s = nat ((int (history_start s) + int (history_count s) - 1 - n) mod int HISTORY_MAX_ENTRIES)"

definition history_prev :: "history \<Rightarrow> nat option \<times> history" where
  "history_prev s =
     (if history_count s = 0 then (None, s)
      else
        let s = (if nav_pos s < int (history_count s) - 1 then s\<lparr>nav_pos := nav_pos s + 1\<rparr> else s)
        in (Some (entry_behind (nav_pos s) s), s))"

definition history_next :: "history \<Rightarrow> nat option \<times> history" where
  "history_next s =
     (if history_count s = 0 then (None, s)
      else if nav_pos s = -1 then (None, s)
      else if nav_pos s > 0
      then let s = s\<lparr>nav_pos := nav_pos s - 1\<rparr> in (Some (entry_behind (nav_pos s) s), s)
      else (None, s\<lparr>nav_pos := -1\<rparr>))"

definition history_reset_nav :: "history \<Rightarrow> history" where
  "history_reset_nav s = s\<lparr>nav_pos := -1\<rparr>"

section \<open>Comparing and copying\<close>

lemma is_str_end: "is_str f cs \<Longrightarrow> i \<le> length cs \<Longrightarrow> f i = 0 \<longleftrightarrow> i = length cs"
  by (auto simp: is_str_def le_less)

lemma str_equal_from_spec:
  assumes "is_str a as" "is_str b bs" "i \<le> length as" "i \<le> length bs" "take i as = take i bs"
  shows "str_equal_from a b i = Some (as = bs)"
  using assms(3-5)
proof (induction "length as - i" arbitrary: i rule: less_induct)
  case less
  note ea = is_str_end [OF assms(1) less.prems(1)] and eb = is_str_end [OF assms(2) less.prems(2)]
  show ?case
  proof (cases "i < length as \<and> i < length bs")
    case True
    then have v: "a i = as ! i" "b i = bs ! i" "a i \<noteq> 0" "b i \<noteq> 0" using assms(1,2) by (auto simp: is_str_def)
    show ?thesis
    proof (cases "as ! i = bs ! i")
      case eq: True
      then have "take (i + 1) as = take (i + 1) bs" using True less.prems(3) by (simp add: take_Suc_conv_app_nth)
      then have "str_equal_from a b (i + 1) = Some (as = bs)" using True by (intro less.hyps) auto
      then show ?thesis using v eq by (simp add: str_equal_from.simps [of a b i])
    next
      case False
      then show ?thesis using v by (auto simp: str_equal_from.simps [of a b i])
    qed
  next
    case False
    have "(a i = b i) = (as = bs)"
    proof (cases "length as = length bs")
      case True
      then show ?thesis using False less.prems ea eb by auto
    next
      case ne: False
      then have "(a i = 0) \<noteq> (b i = 0)" using False less.prems(1,2) ea eb by auto
      then show ?thesis using ne by auto
    qed
    moreover have "\<not> (a i \<noteq> 0 \<and> b i \<noteq> 0)" using False less.prems(1,2) ea eb by auto
    ultimately show ?thesis by (subst str_equal_from.simps) auto
  qed
qed

lemma str_equal_spec: "is_str a as \<Longrightarrow> is_str b bs \<Longrightarrow> str_equal a b = Some (as = bs)"
  using str_equal_from_spec [of a as b bs 0] by (simp add: str_equal_def)

lemma copy_line_spec:
  assumes "is_str line cs" "length dst = 128" "i \<le> length cs" "i \<le> 127" "\<And>j. j < i \<Longrightarrow> dst ! j = cs ! j"
  shows "length (copy_line i line dst) = 128 \<and> is_str (\<lambda>j. copy_line i line dst ! j) (take 127 cs)"
  using assms(2-5)
proof (induction "127 - i" arbitrary: i dst)
  case 0
  then have "i = 127" by simp
  then have "copy_line i line dst = dst[i := 0]" by (simp add: copy_line.simps HISTORY_MAX_LINE_def)
  moreover have "cs ! j \<noteq> 0" if "j < length cs" for j using assms(1) that by (auto simp: is_str_def)
  ultimately show ?case using 0 \<open>i = 127\<close> by (auto simp: is_str_def nth_list_update min_def)
next
  case (Suc n)
  then have i: "i < 127" by simp
  show ?case
  proof (cases "i = length cs")
    case True
    then have "line i = 0" using assms(1) by (simp add: is_str_def)
    then have "copy_line i line dst = dst[i := 0]" by (simp add: copy_line.simps)
    moreover have "cs ! j \<noteq> 0" if "j < length cs" for j using assms(1) that by (auto simp: is_str_def)
    ultimately show ?thesis using Suc.prems True i by (auto simp: is_str_def nth_list_update min_def)
  next
    case False
    then have "i < length cs" using Suc.prems(2) by simp
    then have lt: "i < length cs" "line i = cs ! i" "line i \<noteq> 0" using assms(1) unfolding is_str_def by auto
    then have "copy_line i line dst = copy_line (i + 1) line (dst[i := line i])"
      using i by (simp add: copy_line.simps [of i] HISTORY_MAX_LINE_def)
    moreover have "length (copy_line (i + 1) line (dst[i := line i])) = 128
      \<and> is_str (\<lambda>j. copy_line (i + 1) line (dst[i := line i]) ! j) (take 127 cs)"
      by (rule Suc.hyps(1)) (use Suc.hyps(2) Suc.prems lt i in \<open>auto simp: nth_list_update less_Suc_eq\<close>)
    ultimately show ?thesis by simp
  qed
qed


section \<open>The history as a list of lines\<close>

definition lines :: "history \<Rightarrow> u8 list list" where
  "lines s = ring_list (history_entries s) (history_start s) (history_count s)"

definition history_rep :: "history \<Rightarrow> u8 list list \<Rightarrow> bool" where
  "history_rep s hs \<longleftrightarrow> length (history_entries s) = 16 \<and> (\<forall>e \<in> set (history_entries s). length e = 128)
     \<and> history_start s < 16 \<and> history_count s \<le> 16 \<and> list_all2 (\<lambda>e h. is_str (\<lambda>i. e ! i) h) (lines s) hs
     \<and> -1 \<le> nav_pos s \<and> nav_pos s < int (history_count s)"

definition add_line :: "u8 list \<Rightarrow> u8 list list \<Rightarrow> u8 list list" where
  "add_line l hs = (if l = [] \<or> (hs \<noteq> [] \<and> last hs = l) then hs
     else (if length hs = 16 then tl hs else hs) @ [take 127 l])"

lemma history_repD:
  assumes "history_rep s hs"
  shows "length (history_entries s) = 16" "history_start s < 16" "history_count s = length hs" "length hs \<le> 16"
    "list_all2 (\<lambda>e h. is_str (\<lambda>i. e ! i) h) (lines s) hs"
  using assms list_all2_lengthD [of "\<lambda>e h. is_str (\<lambda>i. e ! i) h" "lines s" hs] by (auto simp: history_rep_def lines_def)

lemma history_slot:
  assumes "history_rep s hs" "i < length hs"
  shows "is_str (\<lambda>j. history_entries s ! ((history_start s + i) mod 16) ! j) (hs ! i)"
  using assms history_repD [OF assms(1)] by (auto simp: list_all2_conv_all_nth lines_def ring_list_nth)

lemma insert_line_rep:
  assumes rep: "history_rep s hs" and "is_str line l"
  shows "history_rep (insert_line line s) ((if length hs = 16 then tl hs else hs) @ [take 127 l])"
proof -
  note D = history_repD [OF rep]
  have len: "length (history_entries s ! i) = 128" if "i < 16" for i using rep D(1) that by (simp add: history_rep_def)
  define at where "at = (if length hs = 16 then history_start s else (history_start s + length hs) mod 16)"
  have at: "at < 16" using D(2) by (simp add: at_def)
  define e where "e = copy_line 0 line (history_entries s ! at)"
  have e: "length e = 128" "is_str (\<lambda>j. e ! j) (take 127 l)"
    using copy_line_spec [OF assms(2) len [OF at], of 0] by (simp_all add: e_def)
  have run: "insert_line line s = s\<lparr>history_entries := (history_entries s)[at := e], nav_pos := -1,
      history_count := (if length hs = 16 then 16 else Suc (length hs)),
      history_start := (if length hs = 16 then Suc (history_start s) mod 16 else history_start s)\<rparr>"
    using D(3,4) by (simp add: insert_line_def HISTORY_MAX_ENTRIES_def at_def e_def Let_def)
  have "lines (insert_line line s) = (if length hs = 16 then tl (lines s) else lines s) @ [e]"
    using ring_put [of "length hs" "history_entries s" "history_start s" e]
      ring_overwrite [of "history_start s" "history_entries s" e] D(1-4)
    by (auto simp: run lines_def at_def)
  moreover have "list_all2 (\<lambda>e h. is_str (\<lambda>i. e ! i) h) ((if length hs = 16 then tl (lines s) else lines s) @ [e])
      ((if length hs = 16 then tl hs else hs) @ [take 127 l])"
  proof (intro list_all2_appendI)
    show "list_all2 (\<lambda>e h. is_str (\<lambda>i. e ! i) h) (if length hs = 16 then tl (lines s) else lines s)
        (if length hs = 16 then tl hs else hs)"
      using D(5) by (cases hs; cases "lines s") auto
  qed (use e(2) in simp)
  ultimately show ?thesis using D rep e(1)
    by (auto simp: history_rep_def run dest: set_update_subset_insert [THEN subsetD])
qed

lemma history_add_rep:
  assumes rep: "history_rep s hs" and "is_str line l"
  shows "\<exists>s'. history_add (Some line) s = Some s' \<and> history_rep s' (add_line l hs) \<and> nav_pos s' = -1"
proof -
  note D = history_repD [OF rep]
  have idle: "history_rep (s\<lparr>nav_pos := -1\<rparr>) hs" using rep by (auto simp: history_rep_def lines_def)
  have ins: "nav_pos (insert_line line s) = -1" by (simp add: insert_line_def Let_def split_beta)
  have z: "line 0 = 0 \<longleftrightarrow> l = []" using is_str_end [OF assms(2), of 0] by simp
  show ?thesis
  proof (cases "l = [] \<or> hs = []")
    case True
    then show ?thesis using z idle insert_line_rep [OF assms] ins D(3) by (auto simp: history_add_def add_line_def)
  next
    case False
    then have pos: "0 < history_count s" using D(3) by simp
    have "str_equal (\<lambda>i. history_entries s ! ((history_start s + (length hs - 1)) mod 16) ! i) line = Some (hs ! (length hs - 1) = l)"
      by (rule str_equal_spec [OF history_slot [OF rep] assms(2)]) (use False in simp)
    moreover have "history_start s + length hs - 1 = history_start s + (length hs - 1)" using False by (cases hs) auto
    ultimately have "str_equal (\<lambda>i. history_entries s ! ((history_start s + history_count s - 1) mod 16) ! i) line = Some (last hs = l)"
      using False D(3) by (simp add: last_conv_nth)
    then show ?thesis using z False pos idle insert_line_rep [OF assms] ins
      by (auto simp: history_add_def add_line_def HISTORY_MAX_ENTRIES_def Let_def)
  qed
qed


lemma entry_behind_str:
  assumes rep: "history_rep s hs" and n: "0 \<le> n" "n < int (length hs)"
  shows "entry_behind n s < 16" "is_str (\<lambda>j. history_entries s ! entry_behind n s ! j) (hs ! (length hs - 1 - nat n))"
proof -
  note D = history_repD [OF rep]
  let ?k = "length hs - 1 - nat n"
  have "int (history_start s) + int (history_count s) - 1 - n = int (history_start s + ?k)" using D(3) n by simp
  then have eq: "entry_behind n s = (history_start s + ?k) mod 16"
    unfolding entry_behind_def HISTORY_MAX_ENTRIES_def by (simp only: nat_int flip: of_nat_mod)
  then show "entry_behind n s < 16" by simp
  have "?k < length hs" using n by linarith
  then show "is_str (\<lambda>j. history_entries s ! entry_behind n s ! j) (hs ! ?k)" unfolding eq by (rule history_slot [OF rep])
qed

lemma history_rep_nav:
  assumes "history_rep s hs" "-1 \<le> n" "n < int (length hs)"
  shows "history_rep (s\<lparr>nav_pos := n\<rparr>) hs"
  using assms history_repD(3) [OF assms(1)] by (simp add: history_rep_def lines_def)

section \<open>Properties\<close>

text \<open>
  C19: \<open>history_add\<close> always returns and keeps the last 16 lines: an empty line or a repetition of the newest one
  changes nothing, any other line is appended, cut to 127 characters, and pushes out the oldest line of a full
  history; the ring of byte arrays implements exactly this list.
\<close>

theorem history_add_keeps_recent:
  assumes "history_rep s hs" "is_str line l"
  shows "\<exists>s'. history_add (Some line) s = Some s' \<and> nav_pos s' = -1
    \<and> history_rep s' (if l = [] \<or> (hs \<noteq> [] \<and> last hs = l) then hs
        else (if length hs = 16 then tl hs else hs) @ [take 127 l])"
  using history_add_rep [OF assms] unfolding add_line_def by blast

definition history_bss :: history where
  "history_bss = \<lparr>history_entries = replicate 16 (replicate 128 0), history_count = 0, history_start = 0, nav_pos = -1\<rparr>"

lemma history_bss_rep: "history_rep history_bss []"
  by (simp add: history_bss_def history_rep_def lines_def ring_list_def)

definition text_ls :: "nat \<Rightarrow> u8" where
  "text_ls i = (if i = 0 then 108 else if i = 1 then 115 else 0)"

lemma text_ls_str: "is_str text_ls [108, 115]"
  by (simp add: is_str_def text_ls_def less_Suc_eq)

theorem history_add_keeps_recent_witness:
  "\<exists>s'. history_add (Some text_ls) history_bss = Some s' \<and> history_rep s' [[108, 115]]"
  using history_add_keeps_recent [OF history_bss_rep text_ls_str] by auto

lemma history_prev_step:
  assumes "history_rep s hs" "hs \<noteq> []" "older = min (nav_pos s + 1) (int (length hs) - 1)"
  shows "\<exists>i s'. history_prev s = (Some i, s') \<and> i < 16 \<and> history_rep s' hs \<and> nav_pos s' = older
      \<and> is_str (\<lambda>j. history_entries s' ! i ! j) (hs ! (length hs - 1 - nat older))"
proof -
  note D = history_repD [OF assms(1)]
  have nav: "-1 \<le> nav_pos s" "nav_pos s < int (length hs)" using assms(1) D(3) by (simp_all add: history_rep_def)
  have b: "0 \<le> older" "older < int (length hs)" using nav assms(2) by (auto simp: assms(3) min_def)
  let ?s = "s\<lparr>nav_pos := older\<rparr>"
  have "history_prev s = (Some (entry_behind older ?s), ?s)"
  proof (cases "nav_pos s < int (length hs) - 1")
    case True
    then have "older = nav_pos s + 1" by (simp add: assms(3))
    then show ?thesis using True D(3) assms(2) by (simp add: history_prev_def Let_def)
  next
    case False
    then have "older = nav_pos s" using nav by (simp add: assms(3))
    then show ?thesis using False D(3) assms(2) by (simp add: history_prev_def Let_def)
  qed
  moreover have "history_rep ?s hs" by (rule history_rep_nav) (use assms(1) b in simp_all)
  ultimately show ?thesis using entry_behind_str [of ?s hs older] b by auto
qed

lemma history_next_step:
  assumes "history_rep s hs" "0 < nav_pos s"
  shows "\<exists>i s'. history_next s = (Some i, s') \<and> i < 16 \<and> history_rep s' hs \<and> nav_pos s' = nav_pos s - 1
      \<and> is_str (\<lambda>j. history_entries s' ! i ! j) (hs ! (length hs - nat (nav_pos s)))"
proof -
  note D = history_repD [OF assms(1)]
  have nav: "nav_pos s < int (length hs)" using assms(1) D(3) by (simp add: history_rep_def)
  then have ne: "hs \<noteq> []" using assms(2) by auto
  let ?s = "s\<lparr>nav_pos := nav_pos s - 1\<rparr>"
  have rep: "history_rep ?s hs" by (rule history_rep_nav) (use assms nav in simp_all)
  have ix: "length hs - 1 - nat (nav_pos s - 1) = length hs - nat (nav_pos s)" using assms(2) by linarith
  have "history_next s = (Some (entry_behind (nav_pos s - 1) ?s), ?s)" using assms(2) D(3) ne by (simp add: history_next_def Let_def)
  then show ?thesis using entry_behind_str [OF rep, of "nav_pos s - 1"] rep assms(2) nav unfolding ix by auto
qed

lemma history_next_leave:
  assumes "history_rep s hs" "nav_pos s \<le> 0"
  shows "\<exists>s'. history_next s = (None, s') \<and> history_rep s' hs \<and> nav_pos s' = -1"
proof -
  have "-1 \<le> nav_pos s" "nav_pos s < int (history_count s)" using assms(1) by (simp_all add: history_rep_def)
  then have "history_next s = (None, s\<lparr>nav_pos := -1\<rparr>)"
    using assms(2) by (cases "nav_pos s = -1"; cases "history_count s = 0") (auto simp: history_next_def)
  then show ?thesis using history_rep_nav [OF assms(1), of "-1"] by simp
qed

text \<open>
  walking the history: \<open>history_prev\<close> moves one line back, staying at the oldest, and \<open>history_next\<close> one
  line forward, leaving the history past the newest; each returns an entry that holds the line the cursor is on,
  and neither changes the lines.
\<close>

theorem history_walk:
  assumes "history_rep s hs" "hs \<noteq> []"
  defines "older \<equiv> min (nav_pos s + 1) (int (length hs) - 1)"
  shows "(\<exists>i s'. history_prev s = (Some i, s') \<and> i < 16 \<and> history_rep s' hs \<and> nav_pos s' = older
      \<and> is_str (\<lambda>j. history_entries s' ! i ! j) (hs ! (length hs - 1 - nat older)))
    \<and> (0 < nav_pos s \<longrightarrow> (\<exists>i s'. history_next s = (Some i, s') \<and> i < 16 \<and> history_rep s' hs \<and> nav_pos s' = nav_pos s - 1
      \<and> is_str (\<lambda>j. history_entries s' ! i ! j) (hs ! (length hs - nat (nav_pos s)))))
    \<and> (nav_pos s \<le> 0 \<longrightarrow> (\<exists>s'. history_next s = (None, s') \<and> history_rep s' hs \<and> nav_pos s' = -1))"
  using history_prev_step [OF assms(1,2)] history_next_step [OF assms(1)] history_next_leave [OF assms(1)] older_def by blast

theorem history_walk_witness:
  "\<exists>s i s'. history_add (Some text_ls) history_bss = Some s \<and> history_prev s = (Some i, s')
    \<and> is_str (\<lambda>j. history_entries s' ! i ! j) [108, 115]"
proof -
  obtain s where s: "history_add (Some text_ls) history_bss = Some s" "history_rep s [[108, 115]]" "nav_pos s = -1"
    using history_add_rep [OF history_bss_rep text_ls_str] by (auto simp: add_line_def)
  then show ?thesis using history_walk [OF s(2)] by auto
qed

end
