(* ===== verification/Pmm.thy ===== *)
theory Pmm
  imports Memory
begin

text \<open>
  The physical memory manager, \<open>src/kernel/mm/pmm.c\<close>: a bitmap with one bit per 4 KB page of the
  first 256 MB (a set bit is a page in use) and two counters. The state is the three file-level
  variables of the source; every function of the source is one definition here, and every loop is
  a recursive function over the same 64-bit loop variables.

  The lemmas show that the allocator behaves as an allocator over the abstract set of free pages
  (\<open>free_pages\<close>), that the counters agree with that set, and that the skip-ahead search for a run
  of pages finds the same run as the plain search. The contract the page-table and process code
  relies on is the locale \<open>page_allocator\<close>, interpreted here on the model of \<open>pmm.c\<close>.
\<close>

section \<open>Constants and state\<close>

definition PAGE_SIZE :: u64 where "PAGE_SIZE = 4096"
definition PMM_MAX_MEMORY :: u64 where "PMM_MAX_MEMORY = 256 * 1024 * 1024"
definition PMM_MAX_PAGES :: u64 where "PMM_MAX_PAGES = PMM_MAX_MEMORY div PAGE_SIZE"
definition PMM_BITMAP_SIZE :: u64 where "PMM_BITMAP_SIZE = PMM_MAX_PAGES div 8"

text \<open>The page number \<open>(2 * 1024 * 1024) / PAGE_SIZE\<close> where allocation starts.\<close>

definition FIRST_PAGE :: u64 where "FIRST_PAGE = (2 * 1024 * 1024) div PAGE_SIZE"

text \<open>One entry of the memory map, as \<open>memory_map_entry_t\<close> lays it out (40 bytes).\<close>

record memory_map_entry =
  me_type :: u32
  me_pad :: u32
  physical_start :: u64
  virtual_start :: u64
  num_pages :: u64
  attribute :: u64

definition MEMORY_BOOT_CODE :: u32 where "MEMORY_BOOT_CODE = 3"
definition MEMORY_BOOT_DATA :: u32 where "MEMORY_BOOT_DATA = 4"
definition MEMORY_CONVENTIONAL :: u32 where "MEMORY_CONVENTIONAL = 7"

text \<open>The C expression \<open>mmap[i]\<close>: the entry at a stride of the size of the struct.\<close>

definition mmap_at :: "mem \<Rightarrow> u64 \<Rightarrow> u64 \<Rightarrow> memory_map_entry" where
  "mmap_at m mmap i =
     (let p = mmap + 40 * i in
      \<lparr>me_type = load32 m p, me_pad = load32 m (p + 4), physical_start = load64 m (p + 8),
       virtual_start = load64 m (p + 16), num_pages = load64 m (p + 24),
       attribute = load64 m (p + 32)\<rparr>)"

record pmm =
  bitmap :: "u8 list"
  total_pages :: u64
  used_pages :: u64

section \<open>Bitmap operations\<close>

definition bitmap_set :: "u64 \<Rightarrow> pmm \<Rightarrow> pmm" where
  "bitmap_set page s =
     (if page < PMM_MAX_PAGES
      then s\<lparr>bitmap := (bitmap s)[unat (page div 8) :=
              bitmap s ! unat (page div 8) OR push_bit (unat (page mod 8)) 1]\<rparr>
      else s)"

definition bitmap_clear :: "u64 \<Rightarrow> pmm \<Rightarrow> pmm" where
  "bitmap_clear page s =
     (if page < PMM_MAX_PAGES
      then s\<lparr>bitmap := (bitmap s)[unat (page div 8) :=
              bitmap s ! unat (page div 8) AND NOT (push_bit (unat (page mod 8)) 1)]\<rparr>
      else s)"

definition bitmap_test :: "u64 \<Rightarrow> pmm \<Rightarrow> bool" where
  "bitmap_test page s =
     (if page < PMM_MAX_PAGES
      then drop_bit (unat (page mod 8)) (bitmap s ! unat (page div 8)) AND 1 \<noteq> 0
      else True)"

text \<open>
  The two statement pairs the source repeats: mark a page used and count it; and, if a page is
  used, mark it free and uncount it.
\<close>

definition claim_page :: "u64 \<Rightarrow> pmm \<Rightarrow> pmm" where
  "claim_page page s =
     (let s1 = bitmap_set page s in s1\<lparr>used_pages := used_pages s1 + 1\<rparr>)"

definition release_page :: "u64 \<Rightarrow> pmm \<Rightarrow> pmm" where
  "release_page page s =
     (if bitmap_test page s
      then (let s1 = bitmap_clear page s in s1\<lparr>used_pages := used_pages s1 - 1\<rparr>)
      else s)"

section \<open>Initialisation\<close>

text \<open>\<open>for (j = i; j < n && start + j < PMM_MAX_PAGES; j++) release(start + j)\<close>.\<close>

function release_loop :: "u64 \<Rightarrow> u64 \<Rightarrow> u64 \<Rightarrow> pmm \<Rightarrow> pmm" where
  "release_loop i n start s =
     (if i < n \<and> start + i < PMM_MAX_PAGES
      then release_loop (i + 1) n start (release_page (start + i) s)
      else s)"
  by pat_completeness auto
termination
  by (relation "measure (\<lambda>(i, n, start, s). unat (n - i))") (auto simp: loop_measure)

declare release_loop.simps [simp del]

definition usable :: "memory_map_entry \<Rightarrow> bool" where
  "usable e \<longleftrightarrow> me_type e = MEMORY_CONVENTIONAL \<or> me_type e = MEMORY_BOOT_CODE
     \<or> me_type e = MEMORY_BOOT_DATA"

definition init_entry :: "memory_map_entry \<Rightarrow> pmm \<Rightarrow> pmm" where
  "init_entry e s =
     (if usable e
      then (let start = physical_start e;
                n = num_pages e;
                n = (if n > PMM_MAX_PAGES then PMM_MAX_PAGES else n);
                start_page = start div PAGE_SIZE
            in release_loop 0 n start_page s)
      else s)"

function init_entries_loop :: "u64 \<Rightarrow> u64 \<Rightarrow> mem \<Rightarrow> u64 \<Rightarrow> pmm \<Rightarrow> pmm" where
  "init_entries_loop i entries m mmap s =
     (if i < entries
      then init_entries_loop (i + 1) entries m mmap (init_entry (mmap_at m mmap i) s)
      else s)"
  by pat_completeness auto
termination
  by (relation "measure (\<lambda>(i, entries, m, mmap, s). unat (entries - i))") (auto simp: loop_measure)

declare init_entries_loop.simps [simp del]

function reserve_loop :: "u64 \<Rightarrow> pmm \<Rightarrow> pmm" where
  "reserve_loop page s =
     (if page < FIRST_PAGE
      then reserve_loop (page + 1) (if \<not> bitmap_test page s then claim_page page s else s)
      else s)"
  by pat_completeness auto
termination
  by (relation "measure (\<lambda>(page, s). unat (FIRST_PAGE - page))") (auto simp: loop_measure)

declare reserve_loop.simps [simp del]

definition pmm_init :: "mem \<Rightarrow> u64 \<Rightarrow> u64 \<Rightarrow> pmm \<Rightarrow> pmm" where
  "pmm_init m mmap entries s =
     (if mmap = NULL \<or> entries = 0 \<or> entries > 256
      then s\<lparr>total_pages := 0, used_pages := 0\<rparr>
      else
        let s = s\<lparr>bitmap := fold (\<lambda>i bm. bm[i := 0xFF]) [0..<unat PMM_BITMAP_SIZE] (bitmap s)\<rparr>;
            s = s\<lparr>total_pages := PMM_MAX_PAGES, used_pages := PMM_MAX_PAGES\<rparr>;
            s = init_entries_loop 0 entries m mmap s
        in reserve_loop 0 s)"

section \<open>Single pages\<close>

function alloc_page_loop :: "u64 \<Rightarrow> pmm \<Rightarrow> u64 \<times> pmm" where
  "alloc_page_loop page s =
     (if page < PMM_MAX_PAGES
      then if \<not> bitmap_test page s then (page * PAGE_SIZE, claim_page page s)
           else alloc_page_loop (page + 1) s
      else (NULL, s))"
  by pat_completeness auto
termination
  by (relation "measure (\<lambda>(page, s). unat (PMM_MAX_PAGES - page))") (auto simp: loop_measure)

declare alloc_page_loop.simps [simp del]

definition pmm_alloc_page :: "pmm \<Rightarrow> u64 \<times> pmm" where
  "pmm_alloc_page s = alloc_page_loop FIRST_PAGE s"

definition pmm_free_page :: "u64 \<Rightarrow> pmm \<Rightarrow> pmm" where
  "pmm_free_page addr s =
     (let page = addr div PAGE_SIZE
      in if page < PMM_MAX_PAGES then release_page page s else s)"

section \<open>Runs of pages\<close>

text \<open>The inner search: the first offset below \<open>count\<close> whose page is used, if there is one.\<close>

function scan_run :: "u64 \<Rightarrow> u64 \<Rightarrow> u64 \<Rightarrow> pmm \<Rightarrow> u64 option" where
  "scan_run i count start s =
     (if i < count
      then if bitmap_test (start + i) s then Some i else scan_run (i + 1) count start s
      else None)"
  by pat_completeness auto
termination
  by (relation "measure (\<lambda>(i, count, start, s). unat (count - i))") (auto simp: loop_measure)

declare scan_run.simps [simp del]

function claim_run :: "u64 \<Rightarrow> u64 \<Rightarrow> u64 \<Rightarrow> pmm \<Rightarrow> pmm" where
  "claim_run i count start s =
     (if i < count then claim_run (i + 1) count start (claim_page (start + i) s) else s)"
  by pat_completeness auto
termination
  by (relation "measure (\<lambda>(i, count, start, s). unat (count - i))") (auto simp: loop_measure)

declare claim_run.simps [simp del]

lemma PMM_MAX_PAGES_val [simp]: "PMM_MAX_PAGES = 65536"
  by (simp add: PMM_MAX_PAGES_def PMM_MAX_MEMORY_def PAGE_SIZE_def)

lemma FIRST_PAGE_val [simp]: "FIRST_PAGE = 512"
  by (simp add: FIRST_PAGE_def PAGE_SIZE_def)

lemma PMM_BITMAP_SIZE_val [simp]: "PMM_BITMAP_SIZE = 8192"
  by (simp add: PMM_BITMAP_SIZE_def)

lemma PAGE_SIZE_val [simp]: "PAGE_SIZE = 4096"
  by (simp add: PAGE_SIZE_def)

lemma scan_run_Some:
  assumes "scan_run i count start s = Some k"
  shows "i \<le> k \<and> k < count \<and> bitmap_test (start + k) s
    \<and> (\<forall>j. i \<le> j \<and> j < k \<longrightarrow> \<not> bitmap_test (start + j) s)"
  using assms
proof (induction i count start s rule: scan_run.induct)
  case (1 i count start s)
  show ?case
  proof (cases "i < count \<and> \<not> bitmap_test (start + i) s")
    case True
    then have rec: "scan_run (i + 1) count start s = Some k"
      using "1.prems" by (simp add: scan_run.simps [of i])
    have IH: "i + 1 \<le> k \<and> k < count \<and> bitmap_test (start + k) s
      \<and> (\<forall>j. i + 1 \<le> j \<and> j < k \<longrightarrow> \<not> bitmap_test (start + j) s)"
      using "1.IH" True rec by simp
    have i1: "unat (i + 1) = Suc (unat i)" using True unat_plus_one_less by blast
    have "j = i \<or> i + 1 \<le> j" if "i \<le> j" for j
      using that i1 by (auto simp: word_nat word_unat_eq_iff)
    moreover have "i \<le> k" using IH i1 by (simp add: word_nat)
    ultimately show ?thesis using IH True by blast
  next
    case False
    then show ?thesis using "1.prems" by (auto simp: scan_run.simps [of i] split: if_splits)
  qed
qed

lemma scan_run_bound:
  assumes "scan_run 0 count start s = Some k"
  shows "unat k \<le> 65536"
proof (rule ccontr)
  assume "\<not> unat k \<le> 65536"
  then have big: "65536 < unat k" by simp
  have free: "\<not> bitmap_test (start + j) s" if "j < k" for j
    using scan_run_Some [OF assms] that by simp
  have start: "start < 65536"
    using free [of 0] big by (auto simp: bitmap_test_def word_nat split: if_splits)
  define j where "j = 65536 - start"
  have "unat j \<le> 65536" using start by (simp add: j_def unat_sub word_nat)
  then have "j < k" using big by (simp add: word_nat)
  then show False using free [of j] by (simp add: bitmap_test_def j_def)
qed

function alloc_pages_loop :: "u64 \<Rightarrow> u64 \<Rightarrow> pmm \<Rightarrow> u64 \<times> pmm" where
  "alloc_pages_loop start count s =
     (if start + count \<le> PMM_MAX_PAGES
      then (case scan_run 0 count start s of
              Some i \<Rightarrow> alloc_pages_loop (start + i + 1) count s
            | None \<Rightarrow> (start * PAGE_SIZE, claim_run 0 count start s))
      else (NULL, s))"
  by pat_completeness auto
termination
proof (relation "measure (\<lambda>(start, count, s).
    if start + count \<le> PMM_MAX_PAGES then Suc (unat (PMM_MAX_PAGES - (start + count))) else 0)")
  fix start count :: u64 and s k
  assume le: "start + count \<le> PMM_MAX_PAGES" and run: "scan_run 0 count start s = Some k"
  define b where "b = start + count"
  define e where "e = start + k + 1 + count"
  have k: "unat k \<le> 65536" using scan_run_bound run by blast
  have b: "unat b \<le> 65536" using le by (simp add: b_def word_nat)
  have k1: "unat (k + 1) = Suc (unat k)" using k unat_plus_nowrap [of k 1] by simp
  have "e = b + (k + 1)" by (simp add: b_def e_def)
  then have e: "unat e = unat b + Suc (unat k)"
    using unat_plus_nowrap [of b "k + 1"] b k k1 by simp
  have "(if e \<le> 65536 then Suc (unat (65536 - e)) else 0) < Suc (unat (65536 - b))"
    using b e by (auto simp: unat_sub word_nat)
  then show "((start + k + 1, count, s), start, count, s) \<in> measure (\<lambda>(start, count, s).
      if start + count \<le> PMM_MAX_PAGES then Suc (unat (PMM_MAX_PAGES - (start + count))) else 0)"
    using le by (simp only: in_measure case_prod_conv PMM_MAX_PAGES_val if_True
        b_def [symmetric] e_def [symmetric])
qed simp

declare alloc_pages_loop.simps [simp del]

definition pmm_alloc_pages :: "u64 \<Rightarrow> pmm \<Rightarrow> u64 \<times> pmm" where
  "pmm_alloc_pages count s =
     (if count = 0 \<or> count > 256 then (NULL, s)
      else alloc_pages_loop FIRST_PAGE count s)"

definition pmm_free_pages :: "u64 \<Rightarrow> u64 \<Rightarrow> pmm \<Rightarrow> pmm" where
  "pmm_free_pages addr count s = release_loop 0 count (addr div PAGE_SIZE) s"

section \<open>Statistics\<close>

definition pmm_get_total_pages :: "pmm \<Rightarrow> u64" where
  "pmm_get_total_pages s = total_pages s"

definition pmm_get_free_pages :: "pmm \<Rightarrow> u64" where
  "pmm_get_free_pages s =
     (if total_pages s > used_pages s then total_pages s - used_pages s else 0)"

definition pmm_get_used_pages :: "pmm \<Rightarrow> u64" where
  "pmm_get_used_pages s = used_pages s"

section \<open>The set of free pages\<close>

definition free_pages :: "pmm \<Rightarrow> nat set" where
  "free_pages s = {p. p < 65536 \<and> \<not> bit (bitmap s ! (p div 8)) (p mod 8)}"

definition pmm_inv :: "pmm \<Rightarrow> bool" where
  "pmm_inv s \<longleftrightarrow> length (bitmap s) = 8192 \<and> total_pages s = PMM_MAX_PAGES
     \<and> unat (used_pages s) + card (free_pages s) = 65536"

lemma finite_free_pages [simp]: "finite (free_pages s)"
  by (simp add: free_pages_def)

lemma free_pages_bound [dest]: "p \<in> free_pages s \<Longrightarrow> p < 65536"
  by (simp add: free_pages_def)

lemma free_pages_counters [simp]:
  "free_pages (s\<lparr>used_pages := u\<rparr>) = free_pages s"
  "free_pages (s\<lparr>total_pages := u\<rparr>) = free_pages s"
  by (simp_all add: free_pages_def)

lemma and_one_neq_zero: "(drop_bit n (w :: 'a::len word) AND 1 \<noteq> 0) = bit w n"
  by (simp add: and_one_eq bit_iff_odd_drop_bit odd_iff_mod_2_eq_one)

lemma bitmap_test_iff: "bitmap_test p s \<longleftrightarrow> unat p \<notin> free_pages s"
  by (simp add: bitmap_test_def and_one_neq_zero free_pages_def word_nat)

lemma byte_index: "q div 8 = p div 8 \<Longrightarrow> (q mod 8 = p mod 8) = (q = (p :: nat))"
  by (metis div_mult_mod_eq)

lemma free_pages_set:
  assumes "length (bitmap s) = 8192" "unat p < 65536"
  shows "free_pages (bitmap_set p s) = free_pages s - {unat p}"
proof -
  have "q \<in> free_pages (bitmap_set p s) \<longleftrightarrow> q \<in> free_pages s - {unat p}" if "q < 65536" for q
    using assms that byte_index [of q "unat p"]
    by (cases "q div 8 = unat p div 8")
      (auto simp: free_pages_def bitmap_set_def nth_list_update bit_simps word_nat)
  then show ?thesis by blast
qed

lemma free_pages_clear:
  assumes "length (bitmap s) = 8192" "unat p < 65536"
  shows "free_pages (bitmap_clear p s) = insert (unat p) (free_pages s)"
proof -
  have "q \<in> free_pages (bitmap_clear p s) \<longleftrightarrow> q \<in> insert (unat p) (free_pages s)" if "q < 65536" for q
    using assms that byte_index [of q "unat p"]
    by (cases "q div 8 = unat p div 8")
      (auto simp: free_pages_def bitmap_clear_def nth_list_update bit_simps word_nat)
  then show ?thesis using assms(2) by blast
qed

lemma bitmap_frame [simp]:
  "length (bitmap (bitmap_set p s)) = length (bitmap s)"
  "length (bitmap (bitmap_clear p s)) = length (bitmap s)"
  "total_pages (bitmap_set p s) = total_pages s"
  "total_pages (bitmap_clear p s) = total_pages s"
  "used_pages (bitmap_set p s) = used_pages s"
  "used_pages (bitmap_clear p s) = used_pages s"
  by (simp_all add: bitmap_set_def bitmap_clear_def)

text \<open>Claiming a free page and releasing any page, on the abstract set and on the invariant.\<close>

lemma claim_page_spec:
  assumes "pmm_inv s" "unat p \<in> free_pages s"
  shows "pmm_inv (claim_page p s)" "free_pages (claim_page p s) = free_pages s - {unat p}"
proof -
  have p: "unat p < 65536" using assms(2) by (rule free_pages_bound)
  have card: "card (free_pages s) > 0" using assms(2) by (auto simp: card_gt_0_iff)
  have used: "unat (used_pages s) < 65536" using assms(1) card by (simp add: pmm_inv_def)
  show F: "free_pages (claim_page p s) = free_pages s - {unat p}"
    using assms(1) p by (simp add: claim_page_def pmm_inv_def free_pages_set)
  have "unat (used_pages s + 1) = Suc (unat (used_pages s))"
    using used unat_plus_nowrap [of "used_pages s" 1] by simp
  then show "pmm_inv (claim_page p s)"
    using assms card by (simp add: pmm_inv_def F card_Diff_singleton) (simp add: claim_page_def)
qed

lemma release_page_spec:
  assumes "pmm_inv s" "unat p < 65536"
  shows "pmm_inv (release_page p s)" "free_pages (release_page p s) = insert (unat p) (free_pages s)"
proof -
  show F: "free_pages (release_page p s) = insert (unat p) (free_pages s)"
    using assms by (auto simp: release_page_def Let_def pmm_inv_def free_pages_clear bitmap_test_iff)
  show "pmm_inv (release_page p s)"
  proof (cases "unat p \<in> free_pages s")
    case True
    then show ?thesis using assms by (simp add: release_page_def bitmap_test_iff)
  next
    case False
    have "insert (unat p) (free_pages s) \<subseteq> {..<65536}" using assms(2) by (auto simp: free_pages_bound)
    then have "card (insert (unat p) (free_pages s)) \<le> 65536"
      using card_mono [of "{..<65536::nat}"] by fastforce
    then have "unat (used_pages s) \<noteq> 0" using assms(1) False by (simp add: pmm_inv_def)
    then have "unat (used_pages s - 1) = unat (used_pages s) - 1"
      using unat_sub [of 1 "used_pages s"] by (simp add: word_nat)
    with \<open>unat (used_pages s) \<noteq> 0\<close> show ?thesis
      using assms False by (simp add: pmm_inv_def F)
        (simp add: release_page_def bitmap_test_iff)
  qed
qed

text \<open>
  Two states that satisfy the invariant and have the same free pages are equal: the bitmap and
  the counters are a canonical representation of the set.
\<close>

lemma pmm_inv_canonical:
  assumes "pmm_inv s" "pmm_inv t" "free_pages s = free_pages t"
  shows "s = (t :: pmm)"
proof -
  have "bitmap s ! k = bitmap t ! k" if k: "k < 8192" for k
  proof (rule bit_eqI)
    fix j assume "possible_bit TYPE(u8) j"
    then have j: "j < 8" by simp
    have "8 * k + j < 65536" using k j by simp
    moreover have "8 * k + j \<in> free_pages s \<longleftrightarrow> 8 * k + j \<in> free_pages t" using assms(3) by simp
    ultimately show "bit (bitmap s ! k) j = bit (bitmap t ! k) j"
      using j by (simp add: free_pages_def)
  qed
  then have "bitmap s = bitmap t" using assms by (auto simp: pmm_inv_def intro: nth_equalityI)
  moreover have "used_pages s = used_pages t"
    using assms by (simp add: pmm_inv_def word_unat_eq_iff)
  ultimately show ?thesis using assms by (simp add: pmm_inv_def)
qed

section \<open>What the loops do to the set\<close>

lemma release_loop_spec:
  assumes "pmm_inv s" "unat start + unat i < 2 ^ 64"
  shows "pmm_inv (release_loop i n start s)
    \<and> free_pages (release_loop i n start s) =
      free_pages s \<union> {q. unat start + unat i \<le> q \<and> q < unat start + unat n \<and> q < 65536}"
  using assms
proof (induction i n start s rule: release_loop.induct)
  case (1 i n start s)
  have pos: "unat (start + i) = unat start + unat i"
    using "1.prems"(2) unat_plus_nowrap [of start i] by simp
  show ?case
  proof (cases "i < n \<and> start + i < PMM_MAX_PAGES")
    case True
    then have lt: "unat start + unat i < 65536" using pos by (simp add: word_nat)
    have i1: "unat (i + 1) = Suc (unat i)" using True unat_plus_one_less by blast
    let ?s = "release_page (start + i) s"
    have step: "pmm_inv ?s" "free_pages ?s = insert (unat start + unat i) (free_pages s)"
      using release_page_spec [OF "1.prems"(1), of "start + i"] pos lt by simp_all
    have IH: "pmm_inv (release_loop (i + 1) n start ?s)
      \<and> free_pages (release_loop (i + 1) n start ?s) = free_pages ?s
        \<union> {q. unat start + unat (i + 1) \<le> q \<and> q < unat start + unat n \<and> q < 65536}"
      using "1.IH" True step(1) i1 lt by simp
    have "unat i < unat n" using True by (simp add: word_nat)
    then have "insert (unat start + unat i) (free_pages s)
        \<union> {q. unat start + Suc (unat i) \<le> q \<and> q < unat start + unat n \<and> q < 65536}
      = free_pages s \<union> {q. unat start + unat i \<le> q \<and> q < unat start + unat n \<and> q < 65536}"
      using lt by auto
    with IH step(2) i1 True show ?thesis by (simp add: release_loop.simps [of i])
  next
    case False
    then have none: "{q. unat start + unat i \<le> q \<and> q < unat start + unat n \<and> q < 65536} = {}"
      using pos by (auto simp: word_nat)
    from False have "release_loop i n start s = s" by (subst release_loop.simps) (rule if_not_P)
    then show ?thesis unfolding none using "1.prems"(1) by simp
  qed
qed

text \<open>The pages an entry of the memory map offers.\<close>

definition entry_pages :: "memory_map_entry \<Rightarrow> nat set" where
  "entry_pages e = (if usable e
     then {q. unat (physical_start e) div 4096 \<le> q
            \<and> q < unat (physical_start e) div 4096 + unat (num_pages e)}
     else {})"

lemma init_entry_spec:
  assumes "pmm_inv s"
  shows "pmm_inv (init_entry e s)
    \<and> free_pages (init_entry e s) = free_pages s \<union> {q \<in> entry_pages e. q < 65536}"
proof (cases "usable e")
  case True
  let ?start = "physical_start e div PAGE_SIZE"
  let ?n = "if num_pages e > PMM_MAX_PAGES then PMM_MAX_PAGES else num_pages e"
  have start: "unat ?start = unat (physical_start e) div 4096" by (simp add: word_nat)
  have "unat ?start + unat (0 :: u64) < 2 ^ 64" using unat_below [of ?start] by simp
  note loop = release_loop_spec [OF assms this, of ?n]
  have n: "unat ?n = min (unat (num_pages e)) 65536" by (simp add: word_nat)
  have "{q. unat ?start + unat (0 :: u64) \<le> q \<and> q < unat ?start + unat ?n \<and> q < 65536}
      = {q \<in> entry_pages e. q < 65536}"
    using True unfolding n start by (auto simp: entry_pages_def)
  then show ?thesis using loop True by (simp add: init_entry_def Let_def)
next
  case False
  then show ?thesis using assms by (simp add: init_entry_def entry_pages_def)
qed

lemma init_entries_loop_spec:
  assumes "pmm_inv s"
  shows "pmm_inv (init_entries_loop i entries m mmap s)
    \<and> free_pages (init_entries_loop i entries m mmap s) = free_pages s
      \<union> {q. q < 65536 \<and> (\<exists>k. i \<le> k \<and> k < entries \<and> q \<in> entry_pages (mmap_at m mmap k))}"
  using assms
proof (induction i entries m mmap s rule: init_entries_loop.induct)
  case (1 i entries m mmap s)
  show ?case
  proof (cases "i < entries")
    case True
    let ?s = "init_entry (mmap_at m mmap i) s"
    have i1: "unat (i + 1) = Suc (unat i)" using True unat_plus_one_less by blast
    have split: "i \<le> k \<longleftrightarrow> k = i \<or> i + 1 \<le> k" for k
      using i1 by (auto simp: word_nat word_unat_eq_iff)
    have "pmm_inv ?s" and F: "free_pages ?s = free_pages s \<union> {q \<in> entry_pages (mmap_at m mmap i). q < 65536}"
      using init_entry_spec [OF "1.prems"] by simp_all
    then show ?thesis using "1.IH" True
      by (simp add: init_entries_loop.simps [of i] F) (auto simp: split)
  next
    case False
    then have none: "{q. q < 65536 \<and> (\<exists>k. i \<le> k \<and> k < entries \<and> q \<in> entry_pages (mmap_at m mmap k))} = {}"
      by (auto simp: word_nat)
    from False have "init_entries_loop i entries m mmap s = s" by (simp add: init_entries_loop.simps [of i])
    then show ?thesis unfolding none using "1.prems" by simp
  qed
qed

lemma reserve_loop_spec:
  assumes "pmm_inv s"
  shows "pmm_inv (reserve_loop page s)
    \<and> free_pages (reserve_loop page s) = free_pages s - {q. unat page \<le> q \<and> q < 512}"
  using assms
proof (induction page s rule: reserve_loop.induct)
  case (1 page s)
  show ?case
  proof (cases "page < FIRST_PAGE")
    case True
    let ?s = "if \<not> bitmap_test page s then claim_page page s else s"
    have p1: "unat (page + 1) = Suc (unat page)" using True unat_plus_one_less by blast
    have "unat page < 512" using True by (simp add: word_nat)
    then have split: "{q. unat page \<le> q \<and> q < 512} = insert (unat page) {q. Suc (unat page) \<le> q \<and> q < 512}"
      by auto
    have step: "pmm_inv ?s" "free_pages ?s = free_pages s - {unat page}"
      using "1.prems" claim_page_spec [of s page] by (auto simp: bitmap_test_iff)
    have unfold: "reserve_loop page s = reserve_loop (page + 1) ?s"
      using True by (simp add: reserve_loop.simps [of page])
    have "pmm_inv (reserve_loop (page + 1) ?s)
      \<and> free_pages (reserve_loop (page + 1) ?s) = free_pages ?s - {q. unat (page + 1) \<le> q \<and> q < 512}"
      using "1.IH" True step(1) by blast
    then show ?thesis unfolding unfold split p1 step(2) by auto
  next
    case False
    then have none: "{q. unat page \<le> q \<and> q < 512} = {}" by (auto simp: word_nat)
    from False have "reserve_loop page s = s" by (simp add: reserve_loop.simps [of page])
    then show ?thesis unfolding none using "1.prems" by simp
  qed
qed

lemma pmm_init_spec:
  assumes "mmap \<noteq> NULL" "entries \<noteq> 0" "entries \<le> 256" "length (bitmap s) = 8192"
  shows "pmm_inv (pmm_init m mmap entries s)
    \<and> free_pages (pmm_init m mmap entries s) =
      {q. 512 \<le> q \<and> q < 65536 \<and> (\<exists>k < entries. q \<in> entry_pages (mmap_at m mmap k))}"
proof -
  let ?s0 = "s\<lparr>bitmap := replicate 8192 0xFF, total_pages := PMM_MAX_PAGES, used_pages := PMM_MAX_PAGES\<rparr>"
  let ?s1 = "init_entries_loop 0 entries m mmap ?s0"
  have full: "bit (0xFF :: u8) (k mod 8)" for k :: nat
  proof -
    have "(0xFF :: u8) = mask 8" by (simp add: mask_eq_exp_minus_1)
    moreover have "bit (mask 8 :: u8) (k mod 8)" by (subst bit_mask_iff) simp
    ultimately show ?thesis by (simp only:)
  qed
  have empty: "free_pages (s\<lparr>bitmap := replicate 8192 0xFF\<rparr>) = {}" using full by (simp add: free_pages_def)
  have inv0: "pmm_inv ?s0" by (simp add: pmm_inv_def empty)
  have run: "pmm_init m mmap entries s = reserve_loop 0 ?s1"
    using assms by (simp add: pmm_init_def fold_update_upto linorder_not_less)
  note loop = init_entries_loop_spec [OF inv0, of 0 entries m mmap]
  have inv1: "pmm_inv ?s1" using loop by (rule conjunct1)
  define offered where "offered q \<longleftrightarrow> (\<exists>k < entries. q \<in> entry_pages (mmap_at m mmap k))" for q
  have F: "free_pages ?s1 = {q. q < 65536 \<and> offered q}"
    using conjunct2 [OF loop]
    by (simp only: free_pages_counters empty Un_empty_left offered_def word_zero_le simp_thms)
  note reserve = reserve_loop_spec [OF inv1, of 0, unfolded F unat_0]
  have "{q. q < 65536 \<and> offered q} - {q. 0 \<le> q \<and> q < 512} = {q. 512 \<le> q \<and> q < 65536 \<and> offered q}"
    by auto
  with reserve show ?thesis unfolding run offered_def by (simp only: simp_thms)
qed

section \<open>Allocation\<close>

lemma alloc_page_loop_cases:
  assumes "alloc_page_loop page s = (a, t)"
  obtains (none) "a = NULL" "t = s" "\<And>q. q \<in> free_pages s \<Longrightarrow> q < unat page"
  | (page) p where "a = p * 4096" "t = claim_page p s" "unat p \<in> free_pages s" "page \<le> p"
      "\<And>q. q \<in> free_pages s \<Longrightarrow> unat page \<le> q \<Longrightarrow> unat p \<le> q"
  using assms
proof (induction page s arbitrary: thesis rule: alloc_page_loop.induct)
  case (1 page s)
  consider (out) "\<not> page < 65536" | (hit) "page < 65536" "\<not> bitmap_test page s"
    | (miss) "page < 65536" "bitmap_test page s"
    by blast
  then show ?case
  proof cases
    case out
    then have "\<And>q. q \<in> free_pages s \<Longrightarrow> q < unat page" by (auto simp: word_nat)
    with out "1.prems" show ?thesis by (simp add: alloc_page_loop.simps [of page])
  next
    case hit
    with "1.prems" show ?thesis by (auto simp: alloc_page_loop.simps [of page] bitmap_test_iff)
  next
    case miss
    then have rec: "alloc_page_loop (page + 1) s = (a, t)"
      using "1.prems"(3) by (simp add: alloc_page_loop.simps [of page])
    have p1: "unat (page + 1) = Suc (unat page)" using miss(1) unat_plus_one_less by blast
    have np: "unat page \<notin> free_pages s" using miss(2) by (simp add: bitmap_test_iff)
    show ?thesis
    proof (rule "1.IH" [OF _ _ _ _ rec])
      assume "a = NULL" "t = s" "\<And>q. q \<in> free_pages s \<Longrightarrow> q < unat (page + 1)"
      then show thesis using np p1 by (intro "1.prems"(1)) (auto simp: less_Suc_eq)
    next
      fix p assume p: "a = p * 4096" "t = claim_page p s" "unat p \<in> free_pages s" "page + 1 \<le> p"
        and least: "\<And>q. q \<in> free_pages s \<Longrightarrow> unat (page + 1) \<le> q \<Longrightarrow> unat p \<le> q"
      have "unat p \<le> q" if "q \<in> free_pages s" "unat page \<le> q" for q
        using that np p1 by (intro least) (auto simp: Suc_le_eq le_eq_less_or_eq)
      then show thesis using p p1 by (intro "1.prems"(2) [of p]) (auto simp: word_nat)
    qed (use miss in simp_all)
  qed
qed

lemma page_address:
  fixes p :: u64
  assumes "unat p < 65536"
  shows "unat (p * 4096) = unat p * 4096" "p * 4096 div 4096 = p"
proof -
  show u: "unat (p * 4096) = unat p * 4096" using assms unat_mult_nowrap [of p 4096] by simp
  show "p * 4096 div 4096 = p" by (simp add: word_unat_eq_iff word_nat u)
qed

lemma claim_run_spec:
  assumes "pmm_inv s" "unat start + unat count \<le> 65536"
    "{q. unat start + unat i \<le> q \<and> q < unat start + unat count} \<subseteq> free_pages s"
  shows "pmm_inv (claim_run i count start s) \<and> free_pages (claim_run i count start s)
    = free_pages s - {q. unat start + unat i \<le> q \<and> q < unat start + unat count}"
  using assms
proof (induction i count start s rule: claim_run.induct)
  case (1 i count start s)
  show ?case
  proof (cases "i < count")
    case True
    let ?s = "claim_page (start + i) s"
    have i1: "unat (i + 1) = Suc (unat i)" using True unat_plus_one_less by blast
    have ic: "unat i < unat count" using True by (simp add: word_nat)
    have pos: "unat (start + i) = unat start + unat i"
      using "1.prems"(2) ic unat_plus_nowrap [of start i] by simp
    have "unat (start + i) \<in> free_pages s" using "1.prems"(3) pos ic by auto
    note step = claim_page_spec [OF "1.prems"(1) this, unfolded pos]
    have "pmm_inv (claim_run (i + 1) count start ?s) \<and> free_pages (claim_run (i + 1) count start ?s)
      = free_pages ?s - {q. unat start + unat (i + 1) \<le> q \<and> q < unat start + unat count}"
      by (rule "1.IH" [OF True step(1) "1.prems"(2)]) (use step(2) i1 "1.prems"(3) in auto)
    moreover have "claim_run i count start s = claim_run (i + 1) count start ?s"
      using True by (simp add: claim_run.simps [of i])
    moreover have "free_pages s - {unat start + unat i}
        - {q. unat start + Suc (unat i) \<le> q \<and> q < unat start + unat count}
      = free_pages s - {q. unat start + unat i \<le> q \<and> q < unat start + unat count}"
      using ic by auto
    ultimately show ?thesis unfolding step(2) i1 by simp
  next
    case False
    then have none: "{q. unat start + unat i \<le> q \<and> q < unat start + unat count} = {}"
      by (auto simp: word_nat)
    from False have "claim_run i count start s = s" by (simp add: claim_run.simps [of i])
    then show ?thesis unfolding none using "1.prems"(1) by simp
  qed
qed

lemma scan_run_None:
  assumes "scan_run i count start s = None" "i \<le> j" "j < count"
  shows "\<not> bitmap_test (start + j) s"
  using assms
proof (induction i count start s rule: scan_run.induct)
  case (1 i count start s)
  have lt: "i < count" using "1.prems"(2,3) by simp
  then have test: "\<not> bitmap_test (start + i) s" and rec: "scan_run (i + 1) count start s = None"
    using "1.prems"(1) by (auto simp: scan_run.simps [of i] split: if_splits)
  show ?case
  proof (cases "j = i")
    case False
    then have "i + 1 \<le> j" using "1.prems"(2) lt unat_plus_one_less [of i count]
      by (auto simp: word_nat word_unat_eq_iff)
    then show ?thesis using "1.IH" lt test rec "1.prems"(3) by blast
  qed (use test in simp)
qed

definition run_free :: "nat \<Rightarrow> nat \<Rightarrow> pmm \<Rightarrow> bool" where
  "run_free p n s \<longleftrightarrow> (\<forall>i < n. p + i \<in> free_pages s)"

text \<open>
  The outer search: it returns the first run at or after its start. A run that starts at or before
  a used page contains it, which is why the search may skip past the page.
\<close>

lemma alloc_pages_loop_cases:
  assumes "alloc_pages_loop start count s = (a, t)" "unat start \<le> 65536" "0 < count" "count \<le> 256"
  obtains (none) "a = NULL" "t = s" "\<And>q. unat start \<le> q \<Longrightarrow> \<not> run_free q (unat count) s"
  | (run) p where "a = p * 4096" "t = claim_run 0 count p s" "start \<le> p" "unat p + unat count \<le> 65536"
      "run_free (unat p) (unat count) s"
      "\<And>q. unat start \<le> q \<Longrightarrow> q < unat p \<Longrightarrow> \<not> run_free q (unat count) s"
  using assms
proof (induction start count s arbitrary: thesis rule: alloc_pages_loop.induct)
  case (1 start count s)
  have c: "0 < unat count" "unat count \<le> 256" using "1.prems"(5,6) by (simp_all add: word_nat)
  have sum: "unat (start + count) = unat start + unat count"
    using "1.prems"(4) c unat_plus_nowrap [of start count] by simp
  consider (out) "\<not> start + count \<le> 65536" | (hit) "start + count \<le> 65536" "scan_run 0 count start s = None"
    | (skip) k where "start + count \<le> 65536" "scan_run 0 count start s = Some k"
    by (cases "scan_run 0 count start s") auto
  then show ?case
  proof cases
    case out
    have "\<not> run_free q (unat count) s" if "unat start \<le> q" for q
    proof
      assume "run_free q (unat count) s"
      moreover have "unat count - 1 < unat count" using c by simp
      ultimately have "q + (unat count - 1) \<in> free_pages s" unfolding run_free_def by blast
      then show False using that out sum c by (auto simp: word_nat)
    qed
    then show ?thesis using out "1.prems"(1,3) by (simp add: alloc_pages_loop.simps [of start])
  next
    case hit
    have le: "unat start + unat count \<le> 65536" using hit(1) sum by (simp add: word_nat)
    have "unat start + i \<in> free_pages s" if "i < unat count" for i
    proof -
      have i: "unat (of_nat i :: u64) = i" using that c by (simp add: unat_of_nat)
      have "\<not> bitmap_test (start + of_nat i) s"
        by (rule scan_run_None [OF hit(2)]) (use that i in \<open>simp_all add: word_nat\<close>)
      moreover have "unat (start + of_nat i) = unat start + i"
        using unat_plus_nowrap [of start "of_nat i"] i that le by simp
      ultimately show ?thesis by (simp add: bitmap_test_iff)
    qed
    then show ?thesis using hit "1.prems"(2,3) le
      by (auto simp: alloc_pages_loop.simps [of start] run_free_def)
  next
    case (skip k)
    have le: "unat start + unat count \<le> 65536" using skip(1) sum by (simp add: word_nat)
    have k: "unat k < unat count" and used: "bitmap_test (start + k) s"
      using scan_run_Some [OF skip(2)] by (simp_all add: word_nat)
    have pos: "unat (start + k) = unat start + unat k"
      using unat_plus_nowrap [of start k] k le by simp
    have nxt: "unat (start + k + 1) = Suc (unat start + unat k)"
      using unat_plus_nowrap [of "start + k" 1] pos k le by simp
    have blocked: "\<not> run_free q (unat count) s" if "unat start \<le> q" "q \<le> unat start + unat k" for q
    proof
      assume "run_free q (unat count) s"
      moreover have "q + (unat start + unat k - q) = unat start + unat k" using that by simp
      moreover have "unat start + unat k - q < unat count" using that k by simp
      ultimately have "unat start + unat k \<in> free_pages s" unfolding run_free_def by metis
      then show False using used pos by (simp add: bitmap_test_iff)
    qed
    have rec: "alloc_pages_loop (start + k + 1) count s = (a, t)"
      using skip "1.prems"(3) by (simp add: alloc_pages_loop.simps [of start])
    show ?thesis
    proof (rule "1.IH" [OF _ skip(2) _ _ rec])
      assume res: "a = NULL" "t = s"
        and none: "\<And>q. unat (start + k + 1) \<le> q \<Longrightarrow> \<not> run_free q (unat count) s"
      have "\<not> run_free q (unat count) s" if "unat start \<le> q" for q
        using that blocked [of q] none [of q] nxt by (cases "q \<le> unat start + unat k") auto
      then show thesis using res by (intro "1.prems"(1))
    next
      fix p assume p: "a = p * 4096" "t = claim_run 0 count p s" "start + k + 1 \<le> p"
        "unat p + unat count \<le> 65536" "run_free (unat p) (unat count) s"
        and first: "\<And>q. unat (start + k + 1) \<le> q \<Longrightarrow> q < unat p \<Longrightarrow> \<not> run_free q (unat count) s"
      have "\<not> run_free q (unat count) s" if "unat start \<le> q" "q < unat p" for q
        using that blocked [of q] first [of q] nxt by (cases "q \<le> unat start + unat k") auto
      moreover have "start \<le> p" using p(3) nxt by (simp add: word_nat)
      ultimately show thesis using p by (intro "1.prems"(2) [of p])
    qed (use skip "1.prems" nxt k le in \<open>simp_all add: word_nat\<close>)
  qed
qed

lemma pmm_alloc_pages_cases:
  assumes "pmm_alloc_pages count s = (a, t)" "0 < count" "count \<le> 256" "pmm_inv s"
  obtains (none) "a = NULL" "t = s" "\<And>q. 512 \<le> q \<Longrightarrow> \<not> run_free q (unat count) s"
  | (run) p where "a = p * 4096" "t = claim_run 0 count p s" "512 \<le> unat p" "unat p + unat count \<le> 65536"
      "run_free (unat p) (unat count) s" "pmm_inv t"
      "free_pages t = free_pages s - {unat p ..< unat p + unat count}"
      "\<And>q. 512 \<le> q \<Longrightarrow> q < unat p \<Longrightarrow> \<not> run_free q (unat count) s"
proof -
  have "alloc_pages_loop 512 count s = (a, t)"
    using assms(1,2,3) by (auto simp: pmm_alloc_pages_def word_nat split: if_splits)
  moreover have "unat (512 :: u64) \<le> 65536" by simp
  ultimately show thesis using assms(2,3)
  proof (cases rule: alloc_pages_loop_cases)
    case none
    then show thesis using that(1) by simp
  next
    case (run p)
    have "{q. unat p + unat (0 :: u64) \<le> q \<and> q < unat p + unat count} \<subseteq> free_pages s"
      using run(5) by (auto simp: run_free_def) (metis le_add_diff_inverse nat_add_left_cancel_less)
    note claim = claim_run_spec [OF assms(4) run(4) this]
    have "{q. unat p + unat (0 :: u64) \<le> q \<and> q < unat p + unat count} = {unat p ..< unat p + unat count}"
      by auto
    then show thesis using that(2) [OF run(1,2) _ run(4,5)] run(2,3,6) claim by (simp add: word_nat)
  qed
qed

lemma pmm_alloc_page_cases:
  assumes "pmm_alloc_page s = (a, t)" "pmm_inv s"
  obtains (none) "a = NULL" "t = s" "\<And>q. q \<in> free_pages s \<Longrightarrow> q < 512"
  | (page) p where "a = p * 4096" "t = claim_page p s" "512 \<le> unat p" "unat p \<in> free_pages s" "pmm_inv t"
      "free_pages t = free_pages s - {unat p}"
      "\<And>q. q \<in> free_pages s \<Longrightarrow> 512 \<le> q \<Longrightarrow> unat p \<le> q"
proof -
  have "alloc_page_loop 512 s = (a, t)" using assms(1) by (simp add: pmm_alloc_page_def)
  then show thesis
  proof (cases rule: alloc_page_loop_cases)
    case none
    then show thesis using that(1) by simp
  next
    case (page p)
    then show thesis using that(2) [of p] claim_page_spec [OF assms(2), of p] by (simp add: word_nat)
  qed
qed

section \<open>The allocator contract\<close>

text \<open>
  What page-table and process code relies on: a page handed out was available, is no longer
  available afterwards, is a non-null page-aligned frame, and a page given back is available
  again.
\<close>

locale page_allocator =
  fixes alloc :: "'s \<Rightarrow> u64 \<times> 's"
    and release :: "u64 \<Rightarrow> 's \<Rightarrow> 's"
    and avail :: "'s \<Rightarrow> u64 set"
    and managed :: "u64 set"
    and invar :: "'s \<Rightarrow> bool"
  assumes alloc_none: "invar s \<Longrightarrow> alloc s = (0, t) \<Longrightarrow> t = s \<and> avail s = {}"
    and alloc_some: "invar s \<Longrightarrow> alloc s = (a, t) \<Longrightarrow> a \<noteq> 0 \<Longrightarrow>
      invar t \<and> a \<in> avail s \<and> avail t = avail s - {a}"
    and release_page: "invar s \<Longrightarrow> a \<in> managed \<Longrightarrow>
      invar (release a s) \<and> avail (release a s) = insert a (avail s)"
    and avail_managed: "avail s \<subseteq> managed"
    and managed_frame: "a \<in> managed \<Longrightarrow> a \<noteq> 0 \<and> aligned 12 a"
begin

lemma alloc_keeps: "invar s \<Longrightarrow> alloc s = (a, t) \<Longrightarrow> invar t \<and> avail t \<subseteq> avail s"
  using alloc_none alloc_some by (cases "a = 0") blast+

lemma alloc_frame: "invar s \<Longrightarrow> alloc s = (a, t) \<Longrightarrow> a \<noteq> 0 \<Longrightarrow> aligned 12 a \<and> a \<notin> avail t"
  using alloc_some avail_managed managed_frame by blast

lemma alloc_twice_distinct:
  "invar s \<Longrightarrow> alloc s = (a, t) \<Longrightarrow> a \<noteq> 0 \<Longrightarrow> alloc t = (b, u) \<Longrightarrow> b \<noteq> 0 \<Longrightarrow> a \<noteq> b"
  using alloc_some by blast

lemma alloc_after_release: "invar s \<Longrightarrow> a \<in> managed \<Longrightarrow> fst (alloc (release a s)) \<noteq> 0"
  using alloc_none release_page by (metis insert_not_empty prod.collapse)

end

text \<open>The frames the manager hands out: page-aligned, from 2 MB up to 256 MB.\<close>

definition managed_frames :: "u64 set" where
  "managed_frames = {a. aligned 12 a \<and> 512 \<le> unat a div 4096 \<and> unat a div 4096 < 65536}"

definition avail_frames :: "pmm \<Rightarrow> u64 set" where
  "avail_frames s = {a \<in> managed_frames. unat a div 4096 \<in> free_pages s}"

lemma frame_page:
  fixes p :: u64
  assumes "512 \<le> unat p" "unat p < 65536"
  shows "p * 4096 \<in> managed_frames" "unat (p * 4096) div 4096 = unat p" "p * 4096 \<noteq> 0"
proof -
  note u = page_address(1) [OF assms(2)]
  show "unat (p * 4096) div 4096 = unat p" using u by simp
  show "p * 4096 \<in> managed_frames" using assms u by (simp add: managed_frames_def aligned_unat)
  show "p * 4096 \<noteq> 0" using u assms by (auto simp: word_unat_eq_iff)
qed

lemma managed_eq:
  assumes "a \<in> managed_frames" "b \<in> managed_frames" "unat a div 4096 = unat b div 4096"
  shows "a = b"
proof -
  have "unat a = unat a div 4096 * 4096" "unat b = unat b div 4096 * 4096"
    using assms(1,2) by (auto simp: managed_frames_def aligned_unat)
  then show ?thesis using assms(3) by (simp add: word_unat_eq_iff)
qed

interpretation pa: page_allocator pmm_alloc_page pmm_free_page avail_frames managed_frames pmm_inv
proof
  fix s t :: pmm and a :: u64
  assume inv: "pmm_inv s"
  show "t = s \<and> avail_frames s = {}" if "pmm_alloc_page s = (0, t)"
    using that inv
  proof (cases rule: pmm_alloc_page_cases)
    case none
    then show ?thesis by (fastforce simp: avail_frames_def managed_frames_def)
  next
    case (page p)
    then show ?thesis using frame_page(3) [of p] by auto
  qed
  show "pmm_inv t \<and> a \<in> avail_frames s \<and> avail_frames t = avail_frames s - {a}"
    if "pmm_alloc_page s = (a, t)" "a \<noteq> 0"
    using that(1) inv
  proof (cases rule: pmm_alloc_page_cases)
    case (page p)
    have p: "unat p < 65536" using page(4) by blast
    note f = frame_page [OF page(3) p]
    have "b = p * 4096 \<longleftrightarrow> unat b div 4096 = unat p" if "b \<in> managed_frames" for b
      using managed_eq [OF that f(1)] f(2) by auto
    then show ?thesis using page f by (auto simp: avail_frames_def)
  qed (use that in simp)
  show "pmm_inv (pmm_free_page a s) \<and> avail_frames (pmm_free_page a s) = insert a (avail_frames s)"
    if "a \<in> managed_frames"
  proof -
    have page: "unat (a div 4096) = unat a div 4096" "unat a div 4096 < 65536"
      using that by (simp_all add: managed_frames_def word_nat)
    note r = release_page_spec [OF inv, of "a div 4096", unfolded page(1), OF page(2)]
    have run: "pmm_free_page a s = release_page (a div 4096) s"
      using page by (simp add: pmm_free_page_def word_nat)
    show ?thesis using r that managed_eq [OF _ that] unfolding run by (auto simp: avail_frames_def)
  qed
next
  show "avail_frames s \<subseteq> managed_frames" for s by (auto simp: avail_frames_def)
  show "a \<noteq> 0 \<and> aligned 12 a" if "a \<in> managed_frames" for a
    using that by (auto simp: managed_frames_def)
qed

section \<open>Sequences of calls\<close>

datatype pmm_call = AllocPage | FreePage u64 | AllocPages u64 | FreePages u64 u64

fun pmm_exec :: "pmm_call \<Rightarrow> pmm \<Rightarrow> pmm" where
  "pmm_exec AllocPage s = snd (pmm_alloc_page s)"
| "pmm_exec (FreePage a) s = pmm_free_page a s"
| "pmm_exec (AllocPages n) s = snd (pmm_alloc_pages n s)"
| "pmm_exec (FreePages a n) s = pmm_free_pages a n s"

text \<open>The state before \<open>pmm_init\<close> runs: static storage, all zero.\<close>

definition pmm_bss :: pmm where
  "pmm_bss = \<lparr>bitmap = replicate 8192 0, total_pages = 0, used_pages = 0\<rparr>"

lemma free_pages_bss: "free_pages pmm_bss = {..<65536}"
  by (auto simp: free_pages_def pmm_bss_def)

definition pmm_all_free :: pmm where
  "pmm_all_free = \<lparr>bitmap = replicate 8192 0, total_pages = 65536, used_pages = 0\<rparr>"

lemma free_pages_all_free: "free_pages pmm_all_free = {..<65536}"
  by (auto simp: free_pages_def pmm_all_free_def)

lemma pmm_inv_all_free: "pmm_inv pmm_all_free"
  by (simp add: pmm_inv_def free_pages_all_free) (simp add: pmm_all_free_def)

lemma alloc_two_all_free: "pmm_alloc_pages 2 pmm_all_free = (0x200000, claim_run 0 2 512 pmm_all_free)"
proof -
  have "scan_run 0 2 512 pmm_all_free = None"
    by (simp add: scan_run.simps bitmap_test_iff free_pages_all_free)
  then show ?thesis by (simp add: pmm_alloc_pages_def alloc_pages_loop.simps)
qed

lemma pmm_free_pages_spec:
  assumes "pmm_inv s"
  shows "pmm_inv (pmm_free_pages a n s) \<and> free_pages (pmm_free_pages a n s) = free_pages s
    \<union> {q. unat a div 4096 \<le> q \<and> q < unat a div 4096 + unat n \<and> q < 65536}"
  using release_loop_spec [OF assms, of "a div 4096" 0 n] unat_below [of "a div 4096"]
  by (simp add: pmm_free_pages_def word_nat)

lemma pmm_exec_inv: "pmm_inv s \<Longrightarrow> pmm_inv (pmm_exec c s)"
proof (induction c s rule: pmm_exec.induct)
  case (1 s)
  then show ?case by (metis pa.alloc_keeps pmm_exec.simps(1) prod.collapse)
next
  case (2 a s)
  then show ?case using release_page_spec [of s "a div 4096"] by (simp add: pmm_free_page_def word_nat)
next
  case (3 n s)
  obtain a t where run: "pmm_alloc_pages n s = (a, t)" by fastforce
  show ?case
  proof (cases "0 < n \<and> n \<le> 256")
    case True
    then have "0 < n" "n \<le> 256" by simp_all
    from run this "3" show ?thesis by (cases rule: pmm_alloc_pages_cases) (simp_all add: run "3")
  next
    case False
    then show ?thesis using "3" by (auto simp: pmm_alloc_pages_def word_nat word_unat_eq_iff)
  qed
next
  case (4 a n s)
  then show ?case using pmm_free_pages_spec by simp
qed

lemma pmm_stats:
  assumes "pmm_inv s"
  shows "unat (pmm_get_free_pages s) = card (free_pages s)"
    "pmm_get_used_pages s + pmm_get_free_pages s = pmm_get_total_pages s"
proof -
  have le: "unat (used_pages s) \<le> 65536" using assms by (simp add: pmm_inv_def)
  have eq: "pmm_get_free_pages s = 65536 - used_pages s"
  proof (cases "used_pages s < 65536")
    case False
    then have "used_pages s = 65536" using le by (simp add: word_nat word_unat_eq_iff)
    then show ?thesis using assms by (simp add: pmm_get_free_pages_def pmm_inv_def)
  qed (use assms in \<open>simp add: pmm_get_free_pages_def pmm_inv_def\<close>)
  then show "unat (pmm_get_free_pages s) = card (free_pages s)"
    using assms le by (auto simp: unat_sub word_nat pmm_inv_def)
  show "pmm_get_used_pages s + pmm_get_free_pages s = pmm_get_total_pages s"
    unfolding eq using assms by (simp add: pmm_get_used_pages_def pmm_get_total_pages_def pmm_inv_def)
qed

text \<open>The plain search the skip-ahead loop of \<open>pmm_alloc_pages\<close> optimises.\<close>

definition plain_first_fit :: "nat \<Rightarrow> pmm \<Rightarrow> nat option" where
  "plain_first_fit n s =
     find (\<lambda>p. list_all (\<lambda>i. \<not> bitmap_test (of_nat (p + i)) s) [0..<n]) [512..<65537 - n]"

lemma plain_test:
  assumes "p + n \<le> 65536"
  shows "list_all (\<lambda>i. \<not> bitmap_test (of_nat (p + i)) s) [0..<n] \<longleftrightarrow> run_free p n s"
proof -
  have "unat (of_nat (p + i) :: u64) = p + i" if "i < n" for i
    using that assms by (simp add: unat_of_nat del: of_nat_add)
  then show ?thesis by (auto simp: list_all_iff run_free_def bitmap_test_iff simp del: of_nat_add)
qed

lemma plain_first_fit_None:
  assumes "\<And>q. 512 \<le> q \<Longrightarrow> \<not> run_free q n s"
  shows "plain_first_fit n s = None"
  using assms plain_test [of _ n s] by (auto simp: plain_first_fit_def find_None_iff)

lemma plain_first_fit_Some:
  assumes "512 \<le> p" "p + n \<le> 65536" "run_free p n s" "\<And>q. 512 \<le> q \<Longrightarrow> q < p \<Longrightarrow> \<not> run_free q n s"
  shows "plain_first_fit n s = Some p"
proof -
  let ?xs = "[512..<65537 - n]"
  have "p - 512 < length ?xs" "?xs ! (p - 512) = p" using assms(1,2) by auto
  moreover have "list_all (\<lambda>i. \<not> bitmap_test (of_nat (p + i)) s) [0..<n]"
    using plain_test assms(2,3) by blast
  moreover have "\<not> list_all (\<lambda>i. \<not> bitmap_test (of_nat (?xs ! j + i)) s) [0..<n]" if "j < p - 512" for j
  proof -
    have "?xs ! j = 512 + j" using that assms(2) by simp
    then show ?thesis using that assms(2,4) plain_test [of "512 + j" n s] by simp
  qed
  ultimately show ?thesis unfolding plain_first_fit_def find_Some_iff by metis
qed

section \<open>Properties\<close>

text \<open>
  C1: Initialisation from a memory map. When the map is present and has 1 to 256 entries, the free
  pages afterwards are exactly the pages that some conventional, boot-code or boot-data entry
  covers, above the first 2 MB and below 256 MB; the counters agree with that set.
\<close>

theorem pmm_init_frees_usable_memory:
  assumes "mmap \<noteq> NULL" "entries \<noteq> 0" "entries \<le> 256" "length (bitmap s) = 8192"
  shows "free_pages (pmm_init m mmap entries s) =
      {q. 512 \<le> q \<and> q < 65536 \<and> (\<exists>k < entries. q \<in> entry_pages (mmap_at m mmap k))}
    \<and> pmm_inv (pmm_init m mmap entries s)"
  using pmm_init_spec [OF assms] by blast

text \<open>A one-entry map in memory: conventional memory of 4 pages at 4 MB.\<close>

definition one_entry_map :: mem where
  "one_entry_map = store64 (store64 (store32 (\<lambda>_. 0) 0x1000 7) 0x1008 0x400000) 0x1018 4"

lemma one_entry_map_at:
  "mmap_at one_entry_map 0x1000 0 = \<lparr>me_type = 7, me_pad = 0, physical_start = 0x400000,
     virtual_start = 0, num_pages = 4, attribute = 0\<rparr>"
  unfolding mmap_at_def one_entry_map_def Let_def by code_simp

theorem pmm_init_frees_usable_memory_witness:
  "free_pages (pmm_init one_entry_map 0x1000 1 pmm_bss) = {1024, 1025, 1026, 1027}"
proof -
  have "length (bitmap pmm_bss) = 8192" by (simp add: pmm_bss_def)
  then have "free_pages (pmm_init one_entry_map 0x1000 1 pmm_bss) =
      {q. 512 \<le> q \<and> q < 65536 \<and> (\<exists>k < 1. q \<in> entry_pages (mmap_at one_entry_map 0x1000 k))}"
    using pmm_init_frees_usable_memory [of "0x1000" 1 pmm_bss one_entry_map] by (simp add: word_nat)
  moreover have "(\<exists>k < (1 :: u64). q \<in> entry_pages (mmap_at one_entry_map 0x1000 k))
      \<longleftrightarrow> q \<in> entry_pages (mmap_at one_entry_map 0x1000 0)" for q
    by (auto simp: word_less_1)
  moreover have "q \<in> entry_pages (mmap_at one_entry_map 0x1000 0) \<longleftrightarrow> q \<in> {1024, 1025, 1026, 1027}" for q
    by (auto simp: one_entry_map_at entry_pages_def usable_def MEMORY_CONVENTIONAL_def)
  ultimately show ?thesis by auto
qed

text \<open>
  C2: \<open>pmm_alloc_page\<close> returns the lowest free page at or above 2 MB and takes exactly that page out
  of the free set; it returns null, and changes nothing, exactly when there is no such page.
\<close>

theorem pmm_alloc_page_lowest_free:
  assumes "pmm_inv s"
  shows "case pmm_alloc_page s of (a, t) \<Rightarrow>
    if {q \<in> free_pages s. 512 \<le> q} = {} then a = NULL \<and> t = s
    else unat a = Min {q \<in> free_pages s. 512 \<le> q} * 4096
      \<and> free_pages t = free_pages s - {unat a div 4096} \<and> pmm_inv t"
proof -
  obtain a t where run: "pmm_alloc_page s = (a, t)" by fastforce
  from run assms show ?thesis
  proof (cases rule: pmm_alloc_page_cases)
    case none
    then show ?thesis using run by (auto simp: not_le)
  next
    case (page p)
    have "Min {q \<in> free_pages s. 512 \<le> q} = unat p"
      using page by (intro Min_eqI) auto
    then show ?thesis using run page page_address(1) [of p] free_pages_bound by auto
  qed
qed

theorem pmm_alloc_page_lowest_free_witness:
  "unat (fst (pmm_alloc_page pmm_all_free)) = 512 * 4096"
proof -
  have "\<exists>q. q < 65536 \<and> (512::nat) \<le> q" by (intro exI [of _ 512]) simp
  then have ne: "{q \<in> free_pages pmm_all_free. 512 \<le> q} \<noteq> {}" by (simp add: free_pages_all_free)
  have "Min {q \<in> free_pages pmm_all_free. 512 \<le> q} = 512"
    by (rule Min_eqI) (auto simp: free_pages_all_free)
  then show ?thesis
    using pmm_alloc_page_lowest_free [OF pmm_inv_all_free, unfolded if_not_P [OF ne]]
    by (simp add: case_prod_unfold)
qed

text \<open>
  C3: The skip-ahead search of \<open>pmm_alloc_pages\<close> is an optimisation only: for every request it
  accepts, it allocates the same run as testing every start page in turn, and fails when that
  fails.
\<close>

theorem pmm_alloc_pages_first_fit:
  assumes "pmm_inv s" "0 < count" "count \<le> 256"
  shows "pmm_alloc_pages count s = (case plain_first_fit (unat count) s of
      None \<Rightarrow> (NULL, s)
    | Some p \<Rightarrow> (of_nat p * 4096, claim_run 0 count (of_nat p) s))"
proof -
  obtain a t where run: "pmm_alloc_pages count s = (a, t)" by fastforce
  from run assms(2,3,1) show ?thesis
  proof (cases rule: pmm_alloc_pages_cases)
    case none
    then show ?thesis using run by (simp add: plain_first_fit_None)
  next
    case (run p)
    then show ?thesis using \<open>pmm_alloc_pages count s = (a, t)\<close>
        plain_first_fit_Some [OF run(3,4,5) run(8)] by simp
  qed
qed

theorem pmm_alloc_pages_first_fit_witness:
  "fst (pmm_alloc_pages 2 pmm_all_free) = 0x200000"
proof -
  have "plain_first_fit (unat (2 :: u64)) pmm_all_free = Some 512"
    by (rule plain_first_fit_Some) (auto simp: run_free_def free_pages_all_free)
  then show ?thesis using pmm_alloc_pages_first_fit [OF pmm_inv_all_free, of 2] by simp
qed

lemma free_pages_restores:
  assumes "pmm_inv s" "0 < count" "count \<le> 256" "pmm_alloc_pages count s = (a, t)" "a \<noteq> NULL"
  shows "pmm_free_pages a count t = s"
  using assms(4,2,3,1)
proof (cases rule: pmm_alloc_pages_cases)
  case none
  then show ?thesis using assms(5) by simp
next
  case (run p)
  have a: "unat a div 4096 = unat p" using run(1,4) page_address(1) [of p] assms(2) by (simp add: word_nat)
  have "free_pages (pmm_free_pages a count t) = free_pages s"
    using pmm_free_pages_spec [OF run(6), of a count] run(4,5,7) unfolding a
    by (auto simp: run_free_def) (metis le_add_diff_inverse nat_add_left_cancel_less)
  then show ?thesis using pmm_inv_canonical pmm_free_pages_spec [OF run(6)] assms(1) by blast
qed

text \<open>
  Freeing a run that was just allocated restores the manager's state exactly: bitmap bytes and
  both counters.
\<close>

theorem pmm_free_pages_undoes_alloc:
  assumes "pmm_inv s" "0 < count" "count \<le> 256" "pmm_alloc_pages count s = (a, t)" "a \<noteq> NULL"
  shows "pmm_free_pages a count t = s"
  using assms by (rule free_pages_restores)

theorem pmm_free_pages_undoes_alloc_witness:
  "pmm_free_pages 0x200000 2 (snd (pmm_alloc_pages 2 pmm_all_free)) = pmm_all_free"
  using pmm_free_pages_undoes_alloc [OF pmm_inv_all_free _ _ alloc_two_all_free] alloc_two_all_free
  by simp

text \<open>
  C4: Every sequence of allocations and frees, with any arguments, keeps the bitmap and the
  counters consistent: the reported free count is the number of free pages, and used plus free is
  the total.
\<close>

theorem pmm_calls_keep_counters:
  assumes "pmm_inv s"
  shows "let t = fold pmm_exec calls s in pmm_inv t
    \<and> unat (pmm_get_free_pages t) = card (free_pages t)
    \<and> pmm_get_used_pages t + pmm_get_free_pages t = pmm_get_total_pages t"
proof -
  have "pmm_inv (fold pmm_exec calls s)"
    using assms by (induction calls arbitrary: s) (simp_all add: pmm_exec_inv)
  then show ?thesis using pmm_stats by (simp add: Let_def)
qed

theorem pmm_calls_keep_counters_witness:
  "let t = fold pmm_exec [AllocPage, FreePage 0, AllocPages 3] pmm_all_free
   in pmm_get_used_pages t + pmm_get_free_pages t = pmm_get_total_pages t"
  using pmm_calls_keep_counters [OF pmm_inv_all_free] by (simp only: Let_def simp_thms)

text \<open>
  When the memory map is rejected (null, empty or more than 256 entries) the counters say that
  nothing is free, but the bitmap keeps its zero bytes and the next allocation still hands out the
  page at 2 MB.
\<close>

theorem pmm_rejected_map_still_allocates:
  assumes "mmap = NULL \<or> entries = 0 \<or> entries > 256"
  shows "let s = pmm_init m mmap entries pmm_bss in
    pmm_get_free_pages s = 0 \<and> fst (pmm_alloc_page s) = 0x200000"
proof -
  have s: "pmm_init m mmap entries pmm_bss = pmm_bss"
    using assms by (simp add: pmm_init_def pmm_bss_def)
  have "\<not> bitmap_test 512 pmm_bss" by (simp add: bitmap_test_iff free_pages_bss)
  then have "pmm_alloc_page pmm_bss = (0x200000, claim_page 512 pmm_bss)"
    by (simp add: pmm_alloc_page_def alloc_page_loop.simps)
  then show ?thesis unfolding s by (simp add: pmm_get_free_pages_def pmm_bss_def Let_def)
qed

theorem pmm_rejected_map_still_allocates_witness:
  "fst (pmm_alloc_page (pmm_init (\<lambda>_. 0) NULL 0 pmm_bss)) = 0x200000"
  using pmm_rejected_map_still_allocates [of NULL 0 "\<lambda>_. 0"] by (simp add: Let_def)

end
