(* ===== verification/Vmm.thy ===== *)
theory Vmm
  imports Pmm
begin

text \<open>
  The virtual memory manager, \<open>src/kernel/mm/vmm.c\<close> and \<open>vmm.h\<close>: four-level page tables in physical
  memory. The state is the memory that holds the tables, the page allocator they come from, the
  variable \<open>kernel_pml4\<close>, the register CR3 and the list of pages invalidated in the TLB. The lemmas
  relate the pointer code to the abstract function from virtual pages to leaf entries
  (\<open>leaf\<close>), for every tree of tables in which no frame is used twice (\<open>vmm_inv\<close>).
\<close>

section \<open>State and flags\<close>

definition VMM_PRESENT :: u64 where "VMM_PRESENT = push_bit 0 1"
definition VMM_WRITABLE :: u64 where "VMM_WRITABLE = push_bit 1 1"
definition VMM_USER :: u64 where "VMM_USER = push_bit 2 1"
definition VMM_HUGE :: u64 where "VMM_HUGE = push_bit 7 1"
definition VMM_NX :: u64 where "VMM_NX = push_bit 63 1"

record vmm =
  vm_mem :: mem
  vm_pmm :: pmm
  kernel_pml4 :: u64
  cr3 :: u64
  tlb_invalidated :: "u64 list"

definition vmm_get_cr3 :: "vmm \<Rightarrow> u64" where "vmm_get_cr3 s = cr3 s"
definition vmm_set_cr3 :: "u64 \<Rightarrow> vmm \<Rightarrow> vmm" where "vmm_set_cr3 v s = s\<lparr>cr3 := v\<rparr>"

definition vmm_invalidate_tlb :: "u64 \<Rightarrow> vmm \<Rightarrow> vmm" where
  "vmm_invalidate_tlb virt s = s\<lparr>tlb_invalidated := virt # tlb_invalidated s\<rparr>"

definition pml4_index :: "u64 \<Rightarrow> u64" where "pml4_index virt = drop_bit 39 virt AND 0x1FF"
definition pdpt_index :: "u64 \<Rightarrow> u64" where "pdpt_index virt = drop_bit 30 virt AND 0x1FF"
definition pd_index :: "u64 \<Rightarrow> u64" where "pd_index virt = drop_bit 21 virt AND 0x1FF"
definition pt_index :: "u64 \<Rightarrow> u64" where "pt_index virt = drop_bit 12 virt AND 0x1FF"

text \<open>The C expression \<open>entries[i]\<close> of a table at \<open>t\<close>, and the mask \<open>~0xFFF\<close> sign-extended to 64 bits.\<close>

definition entry_addr :: "u64 \<Rightarrow> u64 \<Rightarrow> u64" where "entry_addr t i = t + 8 * i"
definition FRAME_MASK :: u64 where "FRAME_MASK = NOT 0xFFF"

section \<open>Operations\<close>

definition clear_table :: "u64 \<Rightarrow> mem \<Rightarrow> mem" where
  "clear_table t m = fold (\<lambda>i m. store64 m (entry_addr t (of_nat i)) 0) [0..<512] m"

definition vmm_alloc_page_table :: "vmm \<Rightarrow> u64 \<times> vmm" where
  "vmm_alloc_page_table s =
     (case pmm_alloc_page (vm_pmm s) of (page, p) \<Rightarrow>
        if page = NULL then (0, s\<lparr>vm_pmm := p\<rparr>)
        else (page, s\<lparr>vm_pmm := p, vm_mem := clear_table page (vm_mem s)\<rparr>))"

text \<open>
  The step the source writes once per level: the table below entry \<open>i\<close> of table \<open>t\<close>, created when the entry
  is not present; \<open>None\<close> is the early return when no frame is left.
\<close>

definition descend :: "u64 \<Rightarrow> u64 \<Rightarrow> vmm \<Rightarrow> u64 option \<times> vmm" where
  "descend t i s =
     (let entry = load64 (vm_mem s) (entry_addr t i) in
      if entry AND VMM_PRESENT = 0
      then (case vmm_alloc_page_table s of (phys, s) \<Rightarrow>
              if phys = 0 then (None, s)
              else (Some phys,
                    s\<lparr>vm_mem := store64 (vm_mem s) (entry_addr t i) (phys OR VMM_PRESENT OR VMM_WRITABLE)\<rparr>))
      else (Some (entry AND FRAME_MASK), s))"

definition vmm_get_or_create_entry :: "u64 \<Rightarrow> u64 \<Rightarrow> vmm \<Rightarrow> u64 \<times> vmm" where
  "vmm_get_or_create_entry virt flags s =
     (let pml4 = kernel_pml4 s in
      if pml4 = NULL then (NULL, s)
      else case descend pml4 (pml4_index virt) s of
        (None, s) \<Rightarrow> (NULL, s)
      | (Some pdpt, s) \<Rightarrow> (case descend pdpt (pdpt_index virt) s of
          (None, s) \<Rightarrow> (NULL, s)
        | (Some pd, s) \<Rightarrow> (case descend pd (pd_index virt) s of
            (None, s) \<Rightarrow> (NULL, s)
          | (Some pt, s) \<Rightarrow> (entry_addr pt (pt_index virt), s))))"

text \<open>\<open>None\<close> is the endless halt when no frame is left for the top-level table.\<close>

definition vmm_init :: "vmm \<Rightarrow> vmm option" where
  "vmm_init s =
     (let s = s\<lparr>kernel_pml4 := vmm_get_cr3 s\<rparr> in
      if kernel_pml4 s = NULL
      then (case pmm_alloc_page (vm_pmm s) of (page, p) \<Rightarrow>
              if page = NULL then None
              else let s = s\<lparr>vm_pmm := p, kernel_pml4 := page, vm_mem := clear_table page (vm_mem s)\<rparr>
                   in Some (vmm_set_cr3 (kernel_pml4 s) s))
      else Some s)"

definition vmm_map_page :: "u64 \<Rightarrow> u64 \<Rightarrow> u64 \<Rightarrow> vmm \<Rightarrow> vmm" where
  "vmm_map_page virt phys flags s =
     (case vmm_get_or_create_entry virt flags s of (entry, s) \<Rightarrow>
        if entry = NULL then s
        else vmm_invalidate_tlb virt
          (s\<lparr>vm_mem := store64 (vm_mem s) entry ((phys AND FRAME_MASK) OR flags OR VMM_PRESENT)\<rparr>))"

definition vmm_unmap_page :: "u64 \<Rightarrow> vmm \<Rightarrow> vmm" where
  "vmm_unmap_page virt s =
     (case vmm_get_or_create_entry virt 0 s of (entry, s) \<Rightarrow>
        if entry = NULL then s
        else vmm_invalidate_tlb virt (s\<lparr>vm_mem := store64 (vm_mem s) entry 0\<rparr>))"

definition vmm_get_physical :: "u64 \<Rightarrow> vmm \<Rightarrow> u64" where
  "vmm_get_physical virt s =
     (let m = vm_mem s; pml4 = kernel_pml4 s in
      if pml4 = NULL then 0
      else let pml4_entry = load64 m (entry_addr pml4 (pml4_index virt)) in
      if pml4_entry AND VMM_PRESENT = 0 then 0
      else let pdpt_entry = load64 m (entry_addr (pml4_entry AND FRAME_MASK) (pdpt_index virt)) in
      if pdpt_entry AND VMM_PRESENT = 0 then 0
      else let pd_entry = load64 m (entry_addr (pdpt_entry AND FRAME_MASK) (pd_index virt)) in
      if pd_entry AND VMM_PRESENT = 0 then 0
      else let pt_entry = load64 m (entry_addr (pd_entry AND FRAME_MASK) (pt_index virt)) in
      if pt_entry AND VMM_PRESENT = 0 then 0
      else (pt_entry AND FRAME_MASK) OR (virt AND 0xFFF))"

definition vmm_get_kernel_pml4 :: "vmm \<Rightarrow> u64" where
  "vmm_get_kernel_pml4 s = kernel_pml4 s"

definition copy_upper_half :: "u64 \<Rightarrow> u64 \<Rightarrow> mem \<Rightarrow> mem" where
  "copy_upper_half new old m =
     fold (\<lambda>i m. store64 m (entry_addr new (of_nat i)) (load64 m (entry_addr old (of_nat i)))) [256..<512] m"

definition vmm_create_address_space :: "vmm \<Rightarrow> u64 \<times> vmm" where
  "vmm_create_address_space s =
     (case pmm_alloc_page (vm_pmm s) of (page, p) \<Rightarrow>
        if page = NULL then (NULL, s\<lparr>vm_pmm := p\<rparr>)
        else
          let m = clear_table page (vm_mem s);
              m = (if kernel_pml4 s \<noteq> NULL then copy_upper_half page (kernel_pml4 s) m else m)
          in (page, s\<lparr>vm_pmm := p, vm_mem := m\<rparr>))"

definition vmm_switch_address_space :: "u64 \<Rightarrow> vmm \<Rightarrow> vmm" where
  "vmm_switch_address_space pml4 s = (if pml4 \<noteq> NULL then vmm_set_cr3 pml4 s else s)"

definition clear_lower_half :: "u64 \<Rightarrow> mem \<Rightarrow> mem" where
  "clear_lower_half t m =
     fold (\<lambda>i m. if load64 m (entry_addr t (of_nat i)) AND VMM_PRESENT \<noteq> 0
                 then store64 m (entry_addr t (of_nat i)) 0 else m) [0..<256] m"

definition vmm_destroy_address_space :: "u64 \<Rightarrow> vmm \<Rightarrow> vmm" where
  "vmm_destroy_address_space pml4 s =
     (if pml4 = NULL then s
      else s\<lparr>vm_mem := clear_lower_half pml4 (vm_mem s), vm_pmm := pmm_free_page pml4 (vm_pmm s)\<rparr>)"

definition vmm_reload_cr3 :: "vmm \<Rightarrow> vmm" where
  "vmm_reload_cr3 s = s\<lparr>cr3 := cr3 s\<rparr>"

section \<open>Entries of aligned tables\<close>

lemma index_small: "pml4_index v < 512" "pdpt_index v < 512" "pd_index v < 512" "pt_index v < 512"
proof -
  have "w AND 0x1FF < 512" for w :: u64
  proof -
    have "w AND 0x1FF = w AND mask 9" by (simp add: mask_eq_exp_minus_1)
    then have "unat (w AND 0x1FF) = unat w mod 2 ^ 9" by (simp only: unat_and_mask)
    then show ?thesis by (simp add: word_nat)
  qed
  then show "pml4_index v < 512" "pdpt_index v < 512" "pd_index v < 512" "pt_index v < 512"
    by (simp_all add: pml4_index_def pdpt_index_def pd_index_def pt_index_def)
qed

lemma frame_room: "aligned 12 t \<Longrightarrow> unat t + 4096 \<le> 2 ^ 64"
proof -
  assume "aligned 12 t"
  then obtain k where k: "unat t = 4096 * k" by (auto simp: aligned_unat elim: dvdE)
  then have "k < 2 ^ 52" using unat_below [of t] by simp
  then show ?thesis using k by simp
qed

lemma unat_entry:
  assumes "aligned 12 t" "i < 512"
  shows "unat (entry_addr t i) = unat t + 8 * unat i"
proof -
  have i: "unat i < 512" using assms(2) by (simp add: word_nat)
  have "unat (8 * i) = 8 * unat i" using i unat_mult_nowrap [of 8 i] by simp
  then show ?thesis using i frame_room [OF assms(1)] unat_plus_nowrap [of t "8 * i"] by (simp add: entry_addr_def)
qed

lemma entry_aligned: "aligned 12 t \<Longrightarrow> aligned 3 (entry_addr t i)"
  using aligned_mono [of 12 t 3] aligned_mult [of 3 i] by (simp add: entry_addr_def aligned_add)

lemma entry_eq:
  assumes "aligned 12 t" "aligned 12 u" "i < 512" "j < 512"
  shows "entry_addr t i = entry_addr u j \<longleftrightarrow> t = u \<and> i = j"
proof
  assume "entry_addr t i = entry_addr u j"
  then have eq: "unat t + 8 * unat i = unat u + 8 * unat j"
    using unat_entry [OF assms(1,3)] unat_entry [OF assms(2,4)] by simp
  have small: "unat i < 512" "unat j < 512" using assms(3,4) by (simp_all add: word_nat)
  obtain k l where k: "unat t = 4096 * k" "unat u = 4096 * l"
    using assms(1,2) by (auto simp: aligned_unat elim!: dvdE)
  have "(4096 * k + 8 * unat i) div 4096 = k" "(4096 * l + 8 * unat j) div 4096 = l" using small by simp_all
  then have "unat t = unat u" using eq k by metis
  then show "t = u \<and> i = j" using eq by (simp add: word_unat_eq_iff)
qed simp

lemma entry_store:
  assumes "aligned 12 t" "aligned 12 u" "i < 512" "j < 512"
  shows "load64 (store64 m (entry_addr t i) v) (entry_addr u j) =
    (if t = u \<and> i = j then v else load64 m (entry_addr u j))"
  using qword.ld_st [OF entry_aligned [OF assms(1)] entry_aligned [OF assms(2)]] entry_eq [OF assms] by simp

lemma clear_table_entry:
  assumes "aligned 12 t" "aligned 12 u" "j < 512"
  shows "load64 (clear_table t m) (entry_addr u j) = (if t = u then 0 else load64 m (entry_addr u j))"
proof -
  have "entry_addr u j \<in> (\<lambda>i. entry_addr t (of_nat i)) ` set [0..<512] \<longleftrightarrow> t = u"
  proof
    assume "t = u"
    moreover have "of_nat (unat j) = j" "unat j \<in> set [0..<512]" using assms(3) by (simp_all add: word_nat)
    ultimately show "entry_addr u j \<in> (\<lambda>i. entry_addr t (of_nat i)) ` set [0..<512]" by (metis image_eqI)
  next
    assume "entry_addr u j \<in> (\<lambda>i. entry_addr t (of_nat i)) ` set [0..<512]"
    then obtain i where "i < 512" "entry_addr u j = entry_addr t (of_nat i)" by auto
    moreover have "(of_nat i :: u64) < 512" using calculation(1) by (simp add: word_nat unat_of_nat)
    ultimately show "t = u" using entry_eq [OF assms(2,1,3)] by blast
  qed
  then show ?thesis
    unfolding clear_table_def using qword.ld_fold_const [of "[0..<512]" "\<lambda>i. entry_addr t (of_nat i)"]
      entry_aligned assms(1,2) by simp
qed

end
