(* ===== verification/Gdt.thy ===== *)
theory Gdt
  imports Prelude
begin

text \<open>
  The segment descriptor table and the task state segment, \<open>src/kernel/cpu/gdt.c\<close> and \<open>gdt.h\<close>. The
  addresses the linker gives to \<open>gdt\<close> and \<open>tss\<close> are parameters; the segment registers the inline
  assembly loads are part of the state.
\<close>

record gdt_entry =
  limit_low :: u16
  base_low :: u16
  base_mid :: u8
  access :: u8
  granularity :: u8
  base_high :: u8

record tss =
  rsp0 :: u64
  rsp1 :: u64
  rsp2 :: u64
  ist :: "u64 list"
  iomap_base :: u16

record gdt_ptr =
  gp_limit :: u16
  gp_base :: u64

record gdt_state =
  gdt :: "gdt_entry list"
  tss :: tss
  gdtr :: gdt_ptr
  seg_cs :: u16
  seg_ds :: u16
  seg_es :: u16
  seg_ss :: u16
  seg_fs :: u16
  seg_gs :: u16
  task_register :: u16

definition GDT_NULL :: nat where "GDT_NULL = 0"
definition GDT_KERNEL_CODE :: nat where "GDT_KERNEL_CODE = 1"
definition GDT_KERNEL_DATA :: nat where "GDT_KERNEL_DATA = 2"
definition GDT_USER_CODE :: nat where "GDT_USER_CODE = 3"
definition GDT_USER_DATA :: nat where "GDT_USER_DATA = 4"
definition GDT_TSS_LOW :: nat where "GDT_TSS_LOW = 5"
definition GDT_TSS_HIGH :: nat where "GDT_TSS_HIGH = 6"

text \<open>\<open>sizeof(tss_t)\<close> and \<open>sizeof(gdt_entry_t)\<close>: both structures are packed.\<close>

definition SIZEOF_TSS :: u32 where "SIZEOF_TSS = 104"
definition SIZEOF_GDT :: u32 where "SIZEOF_GDT = 7 * 8"

definition gdt_set_entry :: "nat \<Rightarrow> u32 \<Rightarrow> u32 \<Rightarrow> u8 \<Rightarrow> u8 \<Rightarrow> gdt_state \<Rightarrow> gdt_state" where
  "gdt_set_entry i base limit acc flags s =
     s\<lparr>gdt := (gdt s)[i := \<lparr>limit_low = ucast (limit AND 0xFFFF), base_low = ucast (base AND 0xFFFF),
         base_mid = ucast (drop_bit 16 base AND 0xFF), access = acc,
         granularity = ucast (drop_bit 16 limit AND 0x0F) OR (flags AND 0xF0),
         base_high = ucast (drop_bit 24 base AND 0xFF)\<rparr>]\<rparr>"

definition gdt_zero :: gdt_entry where
  "gdt_zero = \<lparr>limit_low = 0, base_low = 0, base_mid = 0, access = 0, granularity = 0, base_high = 0\<rparr>"

definition tss_zero :: tss where
  "tss_zero = \<lparr>rsp0 = 0, rsp1 = 0, rsp2 = 0, ist = replicate 7 0, iomap_base = 0\<rparr>"

text \<open>Storing two 32-bit values over the 8 bytes of an entry.\<close>

definition overlay_entry :: "u32 \<Rightarrow> u32 \<Rightarrow> gdt_entry" where
  "overlay_entry lo hi =
     \<lparr>limit_low = ucast lo, base_low = ucast (drop_bit 16 lo), base_mid = ucast hi, access = ucast (drop_bit 8 hi),
      granularity = ucast (drop_bit 16 hi), base_high = ucast (drop_bit 24 hi)\<rparr>"

definition gdt_init :: "u64 \<Rightarrow> u64 \<Rightarrow> gdt_state \<Rightarrow> gdt_state" where
  "gdt_init gdt_addr tss_addr s =
     (let s = s\<lparr>gdt := fold (\<lambda>i g. g[i := gdt_zero]) [0..<7] (gdt s)\<rparr>;
          s = gdt_set_entry GDT_NULL 0 0 0 0 s;
          s = gdt_set_entry GDT_KERNEL_CODE 0 0xFFFFF 0x9A 0xA0 s;
          s = gdt_set_entry GDT_KERNEL_DATA 0 0xFFFFF 0x92 0x80 s;
          s = gdt_set_entry GDT_USER_CODE 0 0xFFFFF 0xFA 0xA0 s;
          s = gdt_set_entry GDT_USER_DATA 0 0xFFFFF 0xF2 0x80 s;
          s = s\<lparr>tss := tss_zero\<lparr>iomap_base := ucast SIZEOF_TSS\<rparr>\<rparr>;
          tss_base = tss_addr;
          tss_limit = SIZEOF_TSS - 1;
          s = s\<lparr>gdt := (gdt s)[GDT_TSS_LOW :=
                \<lparr>limit_low = ucast (tss_limit AND 0xFFFF), base_low = ucast (tss_base AND 0xFFFF),
                 base_mid = ucast (drop_bit 16 tss_base AND 0xFF), access = 0x89,
                 granularity = ucast (drop_bit 16 tss_limit AND 0x0F),
                 base_high = ucast (drop_bit 24 tss_base AND 0xFF)\<rparr>]\<rparr>;
          s = s\<lparr>gdt := (gdt s)[GDT_TSS_HIGH := overlay_entry (ucast (drop_bit 32 tss_base AND 0xFFFFFFFF)) 0]\<rparr>;
          s = s\<lparr>gdtr := \<lparr>gp_limit = ucast (SIZEOF_GDT - 1), gp_base = gdt_addr\<rparr>\<rparr>;
          s = s\<lparr>seg_ds := 0x10, seg_es := 0x10, seg_ss := 0x10, seg_fs := 0, seg_gs := 0, seg_cs := 0x08\<rparr>
      in s\<lparr>task_register := of_nat (GDT_TSS_LOW * 8)\<rparr>)"

definition gdt_set_tss_stack :: "u64 \<Rightarrow> gdt_state \<Rightarrow> gdt_state" where
  "gdt_set_tss_stack stack s = s\<lparr>tss := (tss s)\<lparr>rsp0 := stack\<rparr>\<rparr>"

section \<open>The table as the processor reads it\<close>

text \<open>The 8 bytes of a descriptor as a little-endian number, and the base it describes.\<close>

definition descriptor :: "gdt_entry \<Rightarrow> u64" where
  "descriptor e = ucast (limit_low e) OR push_bit 16 (ucast (base_low e)) OR push_bit 32 (ucast (base_mid e))
     OR push_bit 40 (ucast (access e)) OR push_bit 48 (ucast (granularity e)) OR push_bit 56 (ucast (base_high e))"

definition segment_base :: "gdt_entry \<Rightarrow> u64" where
  "segment_base e = ucast (base_low e) OR push_bit 16 (ucast (base_mid e)) OR push_bit 24 (ucast (base_high e))"

definition system_base :: "gdt_entry \<Rightarrow> gdt_entry \<Rightarrow> u64" where
  "system_base lo hi = segment_base lo OR push_bit 32 (take_bit 32 (descriptor hi))"

text \<open>
  after \<open>gdt_init\<close> the table is the one the comments describe: a null descriptor, flat 64-bit ring 0 and ring 3
  code and data descriptors (as their 8-byte encodings), and a task-state descriptor whose base, put together
  from its five parts over two entries, is the address of the TSS for every 64-bit address, with limit 103. The
  segment registers select kernel code and data and the task register selects the TSS.
\<close>

theorem gdt_init_descriptors:
  assumes "length (gdt s) = 7"
  shows "let s' = gdt_init gdt_addr tss_addr s in
    map descriptor (take 5 (gdt s')) =
      [0, 0x00AF9A000000FFFF, 0x008F92000000FFFF, 0x00AFFA000000FFFF, 0x008FF2000000FFFF]
    \<and> system_base (gdt s' ! 5) (gdt s' ! 6) = tss_addr \<and> limit_low (gdt s' ! 5) = 103 \<and> access (gdt s' ! 5) = 0x89
    \<and> gdtr s' = \<lparr>gp_limit = 55, gp_base = gdt_addr\<rparr>
    \<and> seg_cs s' = 8 \<and> seg_ds s' = 16 \<and> seg_ss s' = 16 \<and> task_register s' = 0x28 \<and> iomap_base (tss s') = 104"
proof -
  have "replicate 7 gdt_zero = [gdt_zero, gdt_zero, gdt_zero, gdt_zero, gdt_zero, gdt_zero, gdt_zero]"
    by (simp add: numeral_eq_Suc)
  then have g: "fold (\<lambda>i g. g[i := gdt_zero]) [0..<7] (gdt s) =
      [gdt_zero, gdt_zero, gdt_zero, gdt_zero, gdt_zero, gdt_zero, gdt_zero]"
    using fold_update_all [of gdt_zero "gdt s"] assms by simp
  let ?lo = "\<lparr>limit_low = 103, base_low = ucast (tss_addr AND 0xFFFF), base_mid = ucast (drop_bit 16 tss_addr AND 0xFF),
    access = 0x89, granularity = 0, base_high = ucast (drop_bit 24 tss_addr AND 0xFF)\<rparr> :: gdt_entry"
  let ?hi = "overlay_entry (ucast (drop_bit 32 tss_addr AND 0xFFFFFFFF)) 0"
  have m: "(0xFFFF :: u64) = mask 16" "(0xFF :: u64) = mask 8" "(0xFFFFFFFF :: u64) = mask 32"
    by (simp_all add: mask_eq_exp_minus_1)
  have "segment_base ?lo = bit_field 0 16 tss_addr OR bit_field 16 8 tss_addr OR bit_field 24 8 tss_addr"
    using bit_field_cast [where 'b = 16 and w = 16 and k = 0 and x = tss_addr]
      bit_field_cast [where 'b = 8 and w = 8 and k = 16 and x = tss_addr]
      bit_field_cast [where 'b = 8 and w = 8 and k = 24 and x = tss_addr]
    by (simp add: segment_base_def m)
  also have "\<dots> = bit_field 0 32 tss_addr"
    using bit_field_join [of 0 16 tss_addr 8] bit_field_join [of 0 24 tss_addr 8] by (simp flip: or.assoc)
  finally have "system_base ?lo ?hi = bit_field 0 32 tss_addr OR push_bit 32 (take_bit 32 (descriptor ?hi))"
    by (simp add: system_base_def)
  moreover have "push_bit 32 (take_bit 32 (descriptor ?hi)) = bit_field 32 32 tss_addr"
    unfolding descriptor_def overlay_entry_def m
    by (rule bit_eqI) (auto simp: bit_bit_field bit_simps dest: bit_word_less)
  ultimately have "system_base ?lo ?hi = tss_addr"
    using bit_field_join [of 0 32 tss_addr 32] bit_field_all by simp
  then show ?thesis
    unfolding gdt_init_def g
    by (simp add: Let_def gdt_set_entry_def GDT_NULL_def GDT_KERNEL_CODE_def GDT_KERNEL_DATA_def
        GDT_USER_CODE_def GDT_USER_DATA_def GDT_TSS_LOW_def GDT_TSS_HIGH_def SIZEOF_TSS_def SIZEOF_GDT_def
        descriptor_def gdt_zero_def tss_zero_def)
qed

definition gdt_bss :: gdt_state where
  "gdt_bss = \<lparr>gdt = replicate 7 gdt_zero, tss = tss_zero, gdtr = \<lparr>gp_limit = 0, gp_base = 0\<rparr>, seg_cs = 0, seg_ds = 0,
     seg_es = 0, seg_ss = 0, seg_fs = 0, seg_gs = 0, task_register = 0\<rparr>"

theorem gdt_init_descriptors_witness:
  "let s' = gdt_init 0x101000 0xFFFF800012345678 gdt_bss in
    system_base (gdt s' ! 5) (gdt s' ! 6) = 0xFFFF800012345678 \<and> task_register s' = 0x28"
  using gdt_init_descriptors [of gdt_bss "0x101000" "0xFFFF800012345678"] by (simp add: gdt_bss_def Let_def)

end
