(* ===== verification/Context.thy ===== *)
theory Context
  imports Memory
begin

text \<open>
  The context switch, \<open>src/kernel/proc/context.S\<close> and \<open>context_t\<close> of \<open>process.h\<close>: the callee-saved registers,
  the stack pointer and the instruction pointer as a record, pushes and pops on the stack in memory. The
  lemmas show that switching away and back restores the registers, whatever ran in between, as long as the
  saved frame is not overwritten.
\<close>

record cpu =
  rsp :: u64
  rbp :: u64
  rbx :: u64
  r12 :: u64
  r13 :: u64
  r14 :: u64
  r15 :: u64
  rip :: u64

definition push :: "u64 \<Rightarrow> cpu \<times> mem \<Rightarrow> cpu \<times> mem" where
  "push v s = (case s of (c, m) \<Rightarrow> (c\<lparr>rsp := rsp c - 8\<rparr>, store64 m (rsp c - 8) v))"

definition pop :: "(u64 \<Rightarrow> cpu \<Rightarrow> cpu) \<Rightarrow> cpu \<times> mem \<Rightarrow> cpu \<times> mem" where
  "pop reg s = (case s of (c, m) \<Rightarrow> (reg (load64 m (rsp c)) (c\<lparr>rsp := rsp c + 8\<rparr>), m))"

text \<open>
  The call pushes the return address (the instruction pointer of the caller), the code saves the registers and
  stores the stack pointer through \<open>old\<close>, then loads the new stack pointer and restores. \<open>old\<close> is a field of a
  process control block, whose new value is returned, or an address in memory.
\<close>

definition context_save :: "cpu \<times> mem \<Rightarrow> cpu \<times> mem" where
  "context_save s =
     (let s = push (rip (fst s)) s;
          s = push (rbp (fst s)) s;
          s = push (rbx (fst s)) s;
          s = push (r12 (fst s)) s;
          s = push (r13 (fst s)) s;
          s = push (r14 (fst s)) s
      in push (r15 (fst s)) s)"

definition context_restore :: "cpu \<times> mem \<Rightarrow> cpu \<times> mem" where
  "context_restore s =
     (let s = pop (\<lambda>v c. c\<lparr>r15 := v\<rparr>) s;
          s = pop (\<lambda>v c. c\<lparr>r14 := v\<rparr>) s;
          s = pop (\<lambda>v c. c\<lparr>r13 := v\<rparr>) s;
          s = pop (\<lambda>v c. c\<lparr>r12 := v\<rparr>) s;
          s = pop (\<lambda>v c. c\<lparr>rbx := v\<rparr>) s;
          s = pop (\<lambda>v c. c\<lparr>rbp := v\<rparr>) s
      in pop (\<lambda>v c. c\<lparr>rip := v\<rparr>) s)"

definition context_switch :: "u64 option \<Rightarrow> u64 \<Rightarrow> cpu \<times> mem \<Rightarrow> u64 \<times> cpu \<times> mem" where
  "context_switch old new s =
     (let (c, m) = context_save s;
          saved = rsp c;
          m = (case old of None \<Rightarrow> m | Some a \<Rightarrow> store64 m a saved)
      in (saved, context_restore (c\<lparr>rsp := new\<rparr>, m)))"

section \<open>Saved frames\<close>

text \<open>The seven cells of a frame, from the saved stack pointer up.\<close>

definition frame_holds :: "u64 \<Rightarrow> cpu \<Rightarrow> mem \<Rightarrow> bool" where
  "frame_holds sp c m \<longleftrightarrow> load64 m sp = r15 c \<and> load64 m (sp + 8) = r14 c \<and> load64 m (sp + 16) = r13 c
     \<and> load64 m (sp + 24) = r12 c \<and> load64 m (sp + 32) = rbx c \<and> load64 m (sp + 40) = rbp c \<and> load64 m (sp + 48) = rip c"

lemma context_restore_frame:
  assumes "frame_holds sp c m"
  shows "context_restore (d\<lparr>rsp := sp\<rparr>, m) = (c\<lparr>rsp := sp + 56\<rparr>, m)"
  using assms by (cases c; cases d) (simp add: context_restore_def pop_def frame_holds_def Let_def ac_simps)

lemma stack_cells:
  assumes "aligned 3 s" "aligned 3 k" "aligned 3 l"
  shows "load64 (store64 m (s - k) v) (s - l) = (if k = l then v else load64 m (s - l))"
proof -
  have "aligned 3 (s - k)" "aligned 3 (s - l)" using assms aligned_diff by blast+
  then show ?thesis by (simp add: qword.ld_st)
qed

lemma context_save_frame:
  assumes "aligned 3 (rsp c)"
  shows "\<exists>m'. context_save (c, m) = (c\<lparr>rsp := rsp c - 56\<rparr>, m') \<and> frame_holds (rsp c - 56) c m'
    \<and> (\<forall>a. aligned 3 a \<longrightarrow> \<not> a - (rsp c - 56) < 56 \<longrightarrow> load64 m' a = load64 m a)"
proof -
  let ?s = "rsp c"
  let ?m = "store64 (store64 (store64 (store64 (store64 (store64 (store64 m (?s - 8) (rip c)) (?s - 16) (rbp c))
    (?s - 24) (rbx c)) (?s - 32) (r12 c)) (?s - 40) (r13 c)) (?s - 48) (r14 c)) (?s - 56) (r15 c)"
  have run: "context_save (c, m) = (c\<lparr>rsp := ?s - 56\<rparr>, ?m)"
    by (simp add: context_save_def push_def Let_def diff_diff_eq)
  have al: "aligned 3 8" "aligned 3 16" "aligned 3 24" "aligned 3 32" "aligned 3 40" "aligned 3 48" "aligned 3 56"
    by (simp_all add: aligned_unat)
  have pos: "?s - 56 + 8 = ?s - 48" "?s - 56 + 16 = ?s - 40" "?s - 56 + 24 = ?s - 32" "?s - 56 + 32 = ?s - 24"
    "?s - 56 + 40 = ?s - 16" "?s - 56 + 48 = ?s - 8" by simp_all
  have "frame_holds (?s - 56) c ?m"
    unfolding frame_holds_def pos by (simp add: stack_cells [OF assms] al)
  moreover have "load64 ?m a = load64 m a" if a: "aligned 3 a" and out: "\<not> a - (?s - 56) < 56" for a
  proof -
    have "a \<noteq> ?s - k" if "unat k \<le> 56" "0 < unat k" for k
    proof
      assume "a = ?s - k"
      then have eq: "a - (?s - 56) = 56 - k" by simp
      have "unat (56 - k) = 56 - unat k" using that(1) unat_sub [of k 56] by (simp add: word_nat)
      moreover have "\<not> unat (56 - k) < 56" using out unfolding eq by (simp add: word_nat)
      ultimately show False using that by linarith
    qed
    note ne = this [of 8] this [of 16] this [of 24] this [of 32] this [of 40] this [of 48] this [of 56]
    have "aligned 3 (?s - k)" if "aligned 3 k" for k using assms that aligned_diff by blast
    note ax = this [OF al(1)] this [OF al(2)] this [OF al(3)] this [OF al(4)] this [OF al(5)] this [OF al(6)] this [OF al(7)]
    show ?thesis using ne by (simp add: qword.ld_other [OF ax(1) a] qword.ld_other [OF ax(2) a] qword.ld_other [OF ax(3) a]
          qword.ld_other [OF ax(4) a] qword.ld_other [OF ax(5) a] qword.ld_other [OF ax(6) a] qword.ld_other [OF ax(7) a])
  qed
  ultimately show ?thesis using run by blast
qed

definition frame_cells :: "u64 \<Rightarrow> u64 set" where
  "frame_cells sp = {sp, sp + 8, sp + 16, sp + 24, sp + 32, sp + 40, sp + 48}"

lemma frame_holds_cong:
  "(\<And>a. a \<in> frame_cells sp \<Longrightarrow> load64 m' a = load64 m a) \<Longrightarrow> frame_holds sp c m \<Longrightarrow> frame_holds sp c m'"
  by (simp add: frame_holds_def frame_cells_def)

lemma frame_cells_aligned: "aligned 3 sp \<Longrightarrow> a \<in> frame_cells sp \<Longrightarrow> aligned 3 a"
  using aligned_add [of 3 sp] by (auto simp: frame_cells_def aligned_unat [of 3 "numeral k" for k])

text \<open>The cell \<open>old\<close> points to, if it is in memory, lies outside a frame.\<close>

definition old_outside :: "u64 option \<Rightarrow> u64 \<Rightarrow> bool" where
  "old_outside old sp \<longleftrightarrow> (case old of None \<Rightarrow> True | Some a \<Rightarrow> aligned 3 a \<and> a \<notin> frame_cells sp)"

lemma context_switch_saves:
  assumes "aligned 3 (rsp c)" "context_switch old new (c, m) = (saved, c', m')" "old_outside old (rsp c - 56)"
  shows "saved = rsp c - 56" "frame_holds saved c m'"
    "\<And>a. aligned 3 a \<Longrightarrow> \<not> a - saved < 56 \<Longrightarrow> old \<noteq> Some a \<Longrightarrow>
      (case old of None \<Rightarrow> True | Some b \<Rightarrow> aligned 3 b) \<Longrightarrow> load64 m' a = load64 m a"
    "frame_holds new d m' \<Longrightarrow> c' = d\<lparr>rsp := new + 56\<rparr>"
proof -
  obtain m1 where s: "context_save (c, m) = (c\<lparr>rsp := rsp c - 56\<rparr>, m1)" "frame_holds (rsp c - 56) c m1"
    and rest: "\<And>a. aligned 3 a \<Longrightarrow> \<not> a - (rsp c - 56) < 56 \<Longrightarrow> load64 m1 a = load64 m a"
    using context_save_frame [OF assms(1), of m] by blast
  define m2 where "m2 = (case old of None \<Rightarrow> m1 | Some a \<Rightarrow> store64 m1 a (rsp c - 56))"
  have run: "saved = rsp c - 56" "(c', m') = context_restore (c\<lparr>rsp := new\<rparr>, m2)"
    using assms(2) s(1) by (cases old; simp add: context_switch_def m2_def Let_def)+
  have m': "m' = m2" using run(2) by (simp add: context_restore_def pop_def Let_def)
  show sv: "saved = rsp c - 56" by (rule run(1))
  have "aligned 3 saved" using assms(1) sv aligned_diff [of 3 "rsp c" 56] by (simp add: aligned_unat [of 3 56])
  then have "load64 m2 a = load64 m1 a" if "a \<in> frame_cells saved" for a
    using frame_cells_aligned [OF _ that] assms(3) that sv
    by (auto simp: m2_def old_outside_def qword.ld_st split: option.splits)
  then show "frame_holds saved c m'" using frame_holds_cong [of saved m2 m1 c] s(2) sv m' by simp
  show "load64 m' a = load64 m a" if "aligned 3 a" "\<not> a - saved < 56" "old \<noteq> Some a"
    "case old of None \<Rightarrow> True | Some b \<Rightarrow> aligned 3 b" for a
    using rest [of a] that m' sv by (auto simp: m2_def qword.ld_st split: option.splits)
  show "c' = d\<lparr>rsp := new + 56\<rparr>" if "frame_holds new d m'"
    using context_restore_frame [of new d m2 c] that run(2) m' by simp
qed

text \<open>
  C11: a thread that was switched away from resumes unchanged: if nothing overwrote its saved frame in the meantime
  (and the thread running then saves its own registers elsewhere), switching to the saved stack pointer restores
  all callee-saved registers, the stack pointer and the instruction pointer of the call.
\<close>

theorem context_switch_resumes:
  assumes "aligned 3 (rsp c)" "context_switch old new (c, m) = (saved, c1, m1)" "old_outside old (rsp c - 56)"
    and kept: "\<And>a. a \<in> frame_cells saved \<Longrightarrow> load64 m2 a = load64 m1 a"
    and returns: "aligned 3 (rsp c2)" "context_switch old' saved (c2, m2) = (saved2, c3, m3)"
      "old_outside old' (rsp c2 - 56)" "old_outside old' saved"
    and apart: "\<And>a. a \<in> frame_cells saved \<Longrightarrow> \<not> a - (rsp c2 - 56) < 56"
  shows "c3 = c"
proof -
  note first = context_switch_saves [OF assms(1,2,3)]
  note second = context_switch_saves [OF returns(1,2,3)]
  have al: "aligned 3 saved" using first(1) assms(1) aligned_diff [of 3 "rsp c" 56] by (simp add: aligned_unat [of 3 56])
  have "load64 m3 a = load64 m1 a" if "a \<in> frame_cells saved" for a
    using second(3) [OF frame_cells_aligned [OF al that]] apart [OF that] kept [OF that] returns(4) that second(1)
    by (auto simp: old_outside_def split: option.splits)
  then have "frame_holds saved c m3" using frame_holds_cong first(2) by blast
  then show ?thesis using second(4) first(1) by simp
qed

theorem context_switch_resumes_witness:
  "let c = \<lparr>rsp = 0x1000, rbp = 1, rbx = 2, r12 = 3, r13 = 4, r14 = 5, r15 = 6, rip = 0x7000\<rparr>;
       (saved, c1, m1) = context_switch None 0x2000 (c, \<lambda>_. 0);
       (saved2, c2, m2) = context_switch None saved (c1\<lparr>rsp := 0x3000\<rparr>, m1)
   in saved = 0xFC8 \<and> c2 = c"
proof -
  let ?c = "\<lparr>rsp = 0x1000, rbp = 1, rbx = 2, r12 = 3, r13 = 4, r14 = 5, r15 = 6, rip = 0x7000\<rparr>"
  obtain saved c1 m1 where s1: "context_switch None 0x2000 (?c, \<lambda>_. 0) = (saved, c1, m1)" by (metis prod_cases3)
  obtain saved2 c2 m2 where s2: "context_switch None saved (c1\<lparr>rsp := 0x3000\<rparr>, m1) = (saved2, c2, m2)" by (metis prod_cases3)
  have al: "aligned 3 (rsp ?c)" "aligned 3 (rsp (c1\<lparr>rsp := 0x3000\<rparr>))" by (simp_all add: aligned_unat)
  have o: "old_outside None sp" for sp by (simp add: old_outside_def)
  have sv: "saved = 0xFC8" using context_switch_saves(1) [OF al(1) s1 o] by simp
  have "c2 = ?c"
    by (rule context_switch_resumes [OF al(1) s1 o refl al(2) s2 o o]) (auto simp: sv frame_cells_def)
  then show ?thesis using s1 s2 sv by (simp add: Let_def)
qed

end
