(* ===== verification/Process.thy ===== *)
theory Process
  imports Vmm Gdt Context
begin

text \<open>
  The process table, \<open>src/kernel/proc/process.c\<close> and \<open>process.h\<close>. A pointer to a process control block is the
  index of its slot (\<open>None\<close> is the null pointer); the state is the table, the current process, the next
  process number, and the memory managers and the task state segment the functions call into.
\<close>

section \<open>Process control blocks\<close>

datatype proc_state = PROC_UNUSED | PROC_READY | PROC_RUNNING | PROC_BLOCKED | PROC_ZOMBIE

record process =
  pid :: u64
  pstate :: proc_state
  priority :: int
  p_context :: u64
  kernel_stack :: u64
  kernel_stack_top :: u64
  page_table :: u64
  brk :: u64
  time_slice :: u64
  total_time :: u64
  wake_time :: u64
  parent :: "nat option"
  exit_code :: int
  p_next :: "nat option"
  p_prev :: "nat option"
  p_name :: "u8 list"

definition MAX_PROCESSES :: nat where "MAX_PROCESSES = 64"
definition KERNEL_STACK_SIZE :: u64 where "KERNEL_STACK_SIZE = 8192"

record proc_sys =
  processes :: "process list"
  current_process :: "nat option"
  next_pid :: u64
  ps_vmm :: vmm
  ps_gdt :: gdt_state

text \<open>Assigning fields of the control block a pointer leads to.\<close>

definition upd_proc :: "nat \<Rightarrow> (process \<Rightarrow> process) \<Rightarrow> proc_sys \<Rightarrow> proc_sys" where
  "upd_proc i f s = s\<lparr>processes := (processes s)[i := f (processes s ! i)]\<rparr>"

abbreviation proc :: "proc_sys \<Rightarrow> nat \<Rightarrow> process" where
  "proc s i \<equiv> processes s ! i"

section \<open>Operations\<close>

definition process_init :: "proc_sys \<Rightarrow> proc_sys" where
  "process_init s =
     (let s = fold (\<lambda>i. upd_proc i (\<lambda>p. p\<lparr>pstate := PROC_UNUSED, pid := 0\<rparr>)) [0..<MAX_PROCESSES] s
      in s\<lparr>current_process := None, next_pid := 1\<rparr>)"

definition alloc_process_slot :: "proc_sys \<Rightarrow> nat option" where
  "alloc_process_slot s = find (\<lambda>i. pstate (proc s i) = PROC_UNUSED) [0..<MAX_PROCESSES]"

text \<open>The name is the bytes at the pointer; the copy stops at its end or after 31 bytes.\<close>

function copy_name :: "nat \<Rightarrow> (nat \<Rightarrow> u8) \<Rightarrow> u8 list \<Rightarrow> u8 list" where
  "copy_name i name dst =
     (if i < 31 \<and> name i \<noteq> 0 then copy_name (i + 1) name (dst[i := name i]) else dst[i := 0])"
  by pat_completeness auto
termination
  by (relation "measure (\<lambda>(i, name, dst). 31 - i)") auto

declare copy_name.simps [simp del]

text \<open>The seven values the source pushes from the top of the stack down.\<close>

definition initial_context :: "u64 \<Rightarrow> u64 \<Rightarrow> mem \<Rightarrow> u64 \<times> mem" where
  "initial_context stop entry m =
     (let sp = stop;
          sp = sp - 8; m = store64 m sp entry;
          sp = sp - 8; m = store64 m sp 0;
          sp = sp - 8; m = store64 m sp 0;
          sp = sp - 8; m = store64 m sp 0;
          sp = sp - 8; m = store64 m sp 0;
          sp = sp - 8; m = store64 m sp 0;
          sp = sp - 8; m = store64 m sp 0
      in (sp, m))"

definition process_create_kernel_thread ::
  "(nat \<Rightarrow> u8) \<Rightarrow> u64 \<Rightarrow> int \<Rightarrow> proc_sys \<Rightarrow> nat option \<times> proc_sys" where
  "process_create_kernel_thread name entry prio s =
     (case alloc_process_slot s of
        None \<Rightarrow> (None, s)
      | Some i \<Rightarrow>
          (case pmm_alloc_pages (KERNEL_STACK_SIZE div PAGE_SIZE) (vm_pmm (ps_vmm s)) of (stack, pm) \<Rightarrow>
             let s = s\<lparr>ps_vmm := (ps_vmm s)\<lparr>vm_pmm := pm\<rparr>\<rparr> in
             if stack = NULL then (None, s)
             else
               let s = upd_proc i (\<lambda>p. p\<lparr>pid := next_pid s\<rparr>) s;
                   s = s\<lparr>next_pid := next_pid s + 1\<rparr>;
                   s = upd_proc i (\<lambda>p. p\<lparr>pstate := PROC_READY, priority := prio, page_table := NULL,
                          parent := current_process s, exit_code := 0, total_time := 0, time_slice := 10,
                          wake_time := 0, p_next := None, p_prev := None\<rparr>) s;
                   s = upd_proc i (\<lambda>p. p\<lparr>p_name := copy_name 0 name (p_name p)\<rparr>) s;
                   s = upd_proc i (\<lambda>p. p\<lparr>kernel_stack := stack\<rparr>) s;
                   s = upd_proc i (\<lambda>p. p\<lparr>kernel_stack_top := kernel_stack p + KERNEL_STACK_SIZE\<rparr>) s;
                   (sp, m) = initial_context (kernel_stack_top (proc s i)) entry (vm_mem (ps_vmm s));
                   s = s\<lparr>ps_vmm := (ps_vmm s)\<lparr>vm_mem := m\<rparr>\<rparr>;
                   s = upd_proc i (\<lambda>p. p\<lparr>p_context := sp\<rparr>) s
               in (Some i, s)))"

definition process_create :: "(nat \<Rightarrow> u8) \<Rightarrow> u64 \<Rightarrow> int \<Rightarrow> proc_sys \<Rightarrow> nat option \<times> proc_sys" where
  "process_create name entry prio s = process_create_kernel_thread name entry prio s"

definition process_exit :: "int \<Rightarrow> proc_sys \<Rightarrow> proc_sys outcome" where
  "process_exit code s =
     (case current_process s of
        None \<Rightarrow> Returns s
      | Some i \<Rightarrow> Halts (upd_proc i (\<lambda>p. p\<lparr>pstate := PROC_ZOMBIE, exit_code := code\<rparr>) s))"

definition process_destroy :: "nat option \<Rightarrow> proc_sys \<Rightarrow> proc_sys" where
  "process_destroy pr s =
     (case pr of
        None \<Rightarrow> s
      | Some i \<Rightarrow>
          if pstate (proc s i) = PROC_UNUSED then s
          else
            let s = (if kernel_stack (proc s i) \<noteq> 0
                     then s\<lparr>ps_vmm := (ps_vmm s)\<lparr>vm_pmm := pmm_free_pages (kernel_stack (proc s i))
                            (KERNEL_STACK_SIZE div PAGE_SIZE) (vm_pmm (ps_vmm s))\<rparr>\<rparr>
                     else s);
                s = (if page_table (proc s i) \<noteq> 0
                     then s\<lparr>ps_vmm := vmm_destroy_address_space (page_table (proc s i)) (ps_vmm s)\<rparr>
                     else s)
            in upd_proc i (\<lambda>p. p\<lparr>pstate := PROC_UNUSED, pid := 0\<rparr>) s)"

definition process_current :: "proc_sys \<Rightarrow> nat option" where
  "process_current s = current_process s"

definition process_get :: "u64 \<Rightarrow> proc_sys \<Rightarrow> nat option" where
  "process_get n s = find (\<lambda>i. pstate (proc s i) \<noteq> PROC_UNUSED \<and> pid (proc s i) = n) [0..<MAX_PROCESSES]"

definition process_get_table :: "proc_sys \<Rightarrow> process list \<times> nat" where
  "process_get_table s = (processes s, MAX_PROCESSES)"

definition process_set_current :: "nat option \<Rightarrow> proc_sys \<Rightarrow> proc_sys" where
  "process_set_current pr s =
     (let s = s\<lparr>current_process := pr\<rparr> in
      case pr of
        None \<Rightarrow> s
      | Some i \<Rightarrow> s\<lparr>ps_gdt := gdt_set_tss_stack (kernel_stack_top (proc s i)) (ps_gdt s)\<rparr>)"

section \<open>Slots and stacks\<close>

lemma upd_proc_simps [simp]:
  "length (processes (upd_proc i f s)) = length (processes s)"
  "current_process (upd_proc i f s) = current_process s"
  "next_pid (upd_proc i f s) = next_pid s"
  "ps_vmm (upd_proc i f s) = ps_vmm s"
  "ps_gdt (upd_proc i f s) = ps_gdt s"
  by (simp_all add: upd_proc_def)

lemma proc_upd_proc: "i < length (processes s) \<Longrightarrow> proc (upd_proc i f s) j = (if i = j then f (proc s i) else proc s j)"
  by (simp add: upd_proc_def)

lemma initial_context_frame:
  assumes "aligned 3 stop"
  shows "\<exists>m'. initial_context stop entry m = (stop - 56, m')
    \<and> frame_holds (stop - 56) \<lparr>rsp = stop, rbp = 0, rbx = 0, r12 = 0, r13 = 0, r14 = 0, r15 = 0, rip = entry\<rparr> m'
    \<and> (\<forall>a. aligned 3 a \<longrightarrow> \<not> a - (stop - 56) < 56 \<longrightarrow> load64 m' a = load64 m a)"
proof -
  let ?c = "\<lparr>rsp = stop, rbp = 0, rbx = 0, r12 = 0, r13 = 0, r14 = 0, r15 = 0, rip = entry\<rparr>"
  have "initial_context stop entry m = (stop - 56, snd (context_save (?c, m)))"
    by (simp add: initial_context_def context_save_def push_def Let_def diff_diff_eq)
  then show ?thesis using context_save_frame [of ?c m] assms by auto
qed

text \<open>A kernel stack: two free pages between 2 MB and 256 MB, aligned, so that its top is aligned too.\<close>

lemma alloc_stack:
  assumes "pmm_inv pm" "pmm_alloc_pages 2 pm = (stack, pm')" "stack \<noteq> 0"
  shows "pmm_inv pm'" "aligned 12 stack" "unat stack + 8192 \<le> 2 ^ 28"
    "free_pages pm' = free_pages pm - {unat stack div 4096, Suc (unat stack div 4096)}"
    "{unat stack div 4096, Suc (unat stack div 4096)} \<subseteq> free_pages pm"
proof -
  have c: "(0 :: u64) < 2" "(2 :: u64) \<le> 256" by simp_all
  from assms(2) c assms(1)
  have "pmm_inv pm' \<and> aligned 12 stack \<and> unat stack + 8192 \<le> 2 ^ 28
    \<and> free_pages pm' = free_pages pm - {unat stack div 4096, Suc (unat stack div 4096)}
    \<and> {unat stack div 4096, Suc (unat stack div 4096)} \<subseteq> free_pages pm"
  proof (cases rule: pmm_alloc_pages_cases)
    case none
    then show ?thesis using assms(3) by simp
  next
    case (run p)
    have p: "512 \<le> unat p" "unat p < 65536" using run(3,4) by simp_all
    have "unat (p * 4096) = unat p * 4096" using page_address(1) [OF p(2)] .
    then have st: "unat stack = unat p * 4096" using run(1) by simp
    have set: "{unat p..<unat p + unat (2 :: u64)} = {unat p, Suc (unat p)}" by auto
    have two: "\<forall>i < 2. unat p + i \<in> free_pages pm" using run(5) by (simp add: run_free_def)
    have "{unat p, Suc (unat p)} \<subseteq> free_pages pm" using two [rule_format, of 0] two [rule_format, of 1] by simp
    then show ?thesis using run(4,6,7) st set by (simp add: aligned_unat)
  qed
  then show "pmm_inv pm'" "aligned 12 stack" "unat stack + 8192 \<le> 2 ^ 28"
    "free_pages pm' = free_pages pm - {unat stack div 4096, Suc (unat stack div 4096)}"
    "{unat stack div 4096, Suc (unat stack div 4096)} \<subseteq> free_pages pm" by blast+
qed

definition new_process :: "nat \<Rightarrow> (nat \<Rightarrow> u8) \<Rightarrow> u64 \<Rightarrow> int \<Rightarrow> proc_sys \<Rightarrow> process" where
  "new_process i name stack prio s = (proc s i)\<lparr>pid := next_pid s, pstate := PROC_READY, priority := prio,
     p_context := stack + 8192 - 56, kernel_stack := stack, kernel_stack_top := stack + 8192, page_table := 0,
     time_slice := 10, total_time := 0, wake_time := 0, parent := current_process s, exit_code := 0, p_next := None,
     p_prev := None, p_name := copy_name 0 name (p_name (proc s i))\<rparr>"

lemma find_upt_Some:
  assumes "find P [0..<n] = Some i"
  shows "i < n" "P i" "\<And>j. j < i \<Longrightarrow> \<not> P j"
  using assms by (auto simp: find_Some_iff)

lemma create_thread_cases:
  assumes inv: "pmm_inv (vm_pmm (ps_vmm s))" "length (processes s) = 64"
    and run: "process_create_kernel_thread name entry prio s = (r, s')"
  obtains (none) "r = None" "s' = s"
  | (made) i stack pm m where "r = Some i" "i < 64" "pstate (proc s i) = PROC_UNUSED"
      "\<And>j. j < i \<Longrightarrow> pstate (proc s j) \<noteq> PROC_UNUSED"
      "pmm_alloc_pages 2 (vm_pmm (ps_vmm s)) = (stack, pm)" "stack \<noteq> 0"
      "initial_context (stack + 8192) entry (vm_mem (ps_vmm s)) = (stack + 8192 - 56, m)"
      "s' = s\<lparr>processes := (processes s)[i := new_process i name stack prio s], next_pid := next_pid s + 1,
        ps_vmm := (ps_vmm s)\<lparr>vm_pmm := pm, vm_mem := m\<rparr>\<rparr>"
proof (cases "alloc_process_slot s")
  case None
  then show ?thesis using none run by (simp add: process_create_kernel_thread_def)
next
  case (Some i)
  have i: "i < 64" "pstate (proc s i) = PROC_UNUSED" "\<And>j. j < i \<Longrightarrow> pstate (proc s j) \<noteq> PROC_UNUSED"
    using find_upt_Some [OF Some [unfolded alloc_process_slot_def]] by (simp_all add: MAX_PROCESSES_def)
  obtain stack pm where al: "pmm_alloc_pages 2 (vm_pmm (ps_vmm s)) = (stack, pm)" by fastforce
  have two: "KERNEL_STACK_SIZE div PAGE_SIZE = 2" by (simp add: KERNEL_STACK_SIZE_def)
  show ?thesis
  proof (cases "stack = 0")
    case True
    have c: "(0 :: u64) < 2" "(2 :: u64) \<le> 256" by simp_all
    from al c inv(1) have "pm = vm_pmm (ps_vmm s)"
    proof (cases rule: pmm_alloc_pages_cases)
      case (run p)
      then show ?thesis using True frame_page(3) [of p] by auto
    qed simp
    then show ?thesis using none run Some al True two by (simp add: process_create_kernel_thread_def)
  next
    case False
    have "initial_context (stack + 8192) entry (vm_mem (ps_vmm s)) = (stack + 8192 - 56, snd (initial_context (stack + 8192) entry (vm_mem (ps_vmm s))))"
      by (simp add: initial_context_def Let_def diff_diff_eq)
    then obtain m where m: "initial_context (stack + 8192) entry (vm_mem (ps_vmm s)) = (stack + 8192 - 56, m)" by blast
    have "process_create_kernel_thread name entry prio s = (Some i,
        s\<lparr>processes := (processes s)[i := new_process i name stack prio s], next_pid := next_pid s + 1,
          ps_vmm := (ps_vmm s)\<lparr>vm_pmm := pm, vm_mem := m\<rparr>\<rparr>)"
      using Some al False two i(1) inv(2) m
      by (cases "processes s ! i")
        (simp add: process_create_kernel_thread_def upd_proc_def Let_def KERNEL_STACK_SIZE_def new_process_def)
    then show ?thesis using made [OF _ i al False m] run by simp
  qed
qed

section \<open>Process numbers\<close>

definition table_inv :: "proc_sys \<Rightarrow> bool" where
  "table_inv s \<longleftrightarrow> length (processes s) = 64 \<and> pmm_inv (vm_pmm (ps_vmm s))
     \<and> (\<forall>i < 64. pstate (proc s i) \<noteq> PROC_UNUSED \<longrightarrow> pid (proc s i) < next_pid s)
     \<and> (\<forall>i < 64. \<forall>j < 64. pstate (proc s i) \<noteq> PROC_UNUSED \<and> pstate (proc s j) \<noteq> PROC_UNUSED
          \<and> pid (proc s i) = pid (proc s j) \<longrightarrow> i = j)"

lemma find_upt_unique:
  assumes "i < n" "P i" "\<And>j. j < n \<Longrightarrow> P j \<Longrightarrow> j = i"
  shows "find P [0..<n] = Some i"
proof -
  have "\<not> P j" if "j < i" for j using assms(1) assms(3) [of j] that by auto
  then show ?thesis unfolding find_Some_iff using assms(1,2) by (intro exI [of _ i]) simp
qed

lemma process_get_unique:
  assumes "table_inv s" "i < 64" "pstate (proc s i) \<noteq> PROC_UNUSED"
  shows "process_get (pid (proc s i)) s = Some i"
  unfolding process_get_def MAX_PROCESSES_def
proof (rule find_upt_unique)
  show "j = i" if "j < 64" "pstate (proc s j) \<noteq> PROC_UNUSED \<and> pid (proc s j) = pid (proc s i)" for j
    using assms that unfolding table_inv_def by blast
qed (use assms in auto)

lemma create_thread_table:
  assumes inv: "table_inv s" and lim: "unat (next_pid s) + 1 < 2 ^ 64"
    and run: "process_create_kernel_thread name entry prio s = (r, s')"
  shows "table_inv s'"
  using inv run
proof -
  have a: "pmm_inv (vm_pmm (ps_vmm s))" "length (processes s) = 64" using inv by (simp_all add: table_inv_def)
  from a run show ?thesis
  proof (cases rule: create_thread_cases)
    case (made i stack pm m)
    have lt: "next_pid s < next_pid s + 1" using lim unat_plus_nowrap [of "next_pid s" 1] by (simp add: word_nat)
    have old: "pid (proc s j) < next_pid s" if "j < 64" "pstate (proc s j) \<noteq> PROC_UNUSED" for j
      using inv that by (simp add: table_inv_def)
    have pr: "proc s' j = (if j = i then new_process i name stack prio s else proc s j)" if "j < 64" for j
      using made(8) that a(2) made(2) by simp
    have np: "pid (new_process i name stack prio s) = next_pid s"
      "pstate (new_process i name stack prio s) = PROC_READY" by (simp_all add: new_process_def)
    show ?thesis unfolding table_inv_def
    proof (intro conjI allI impI)
      show "length (processes s') = 64" using made(8) a(2) by simp
      show "pmm_inv (vm_pmm (ps_vmm s'))" using made(8) alloc_stack(1) [OF a(1) made(5,6)] by simp
    next
      fix j
      assume "j < 64" "pstate (proc s' j) \<noteq> PROC_UNUSED"
      then show "pid (proc s' j) < next_pid s'"
        using pr [of j] np old [of j] lt made(8) by (auto split: if_splits)
    next
      fix j k
      assume "j < 64" "k < 64" "pstate (proc s' j) \<noteq> PROC_UNUSED \<and> pstate (proc s' k) \<noteq> PROC_UNUSED
        \<and> pid (proc s' j) = pid (proc s' k)"
      then show "j = k"
        using pr [of j] pr [of k] np old [of j] old [of k] inv by (auto simp: table_inv_def split: if_splits)
    qed
  qed (use inv in simp)
qed

section \<open>Properties\<close>

text \<open>
  C12: when \<open>process_create_kernel_thread\<close> succeeds it fills the lowest unused slot and no other, with the next
  process number and the given priority, on a stack of two pages that were free and now are not; and the saved
  context it leaves on that stack makes the first switch to the thread start at its entry point, with an empty
  stack and cleared registers.
\<close>

theorem process_create_starts_at_entry:
  assumes "pmm_inv (vm_pmm (ps_vmm s))" "length (processes s) = 64"
    and "process_create_kernel_thread name entry prio s = (Some i, s')"
  shows "let p = proc s' i; m = vm_mem (ps_vmm s'); page = unat (kernel_stack p) div 4096 in
    i < 64 \<and> pstate (proc s i) = PROC_UNUSED \<and> (\<forall>j < i. pstate (proc s j) \<noteq> PROC_UNUSED)
    \<and> (\<forall>j. j \<noteq> i \<longrightarrow> proc s' j = proc s j)
    \<and> pid p = next_pid s \<and> next_pid s' = next_pid s + 1 \<and> pstate p = PROC_READY \<and> priority p = prio
    \<and> kernel_stack_top p = kernel_stack p + KERNEL_STACK_SIZE
    \<and> {page, page + 1} \<subseteq> free_pages (vm_pmm (ps_vmm s))
    \<and> free_pages (vm_pmm (ps_vmm s')) = free_pages (vm_pmm (ps_vmm s)) - {page, page + 1}
    \<and> (\<forall>c. context_restore (c\<lparr>rsp := p_context p\<rparr>, m) =
        (\<lparr>rsp = kernel_stack_top p, rbp = 0, rbx = 0, r12 = 0, r13 = 0, r14 = 0, r15 = 0, rip = entry\<rparr>, m))"
  using assms
proof (cases rule: create_thread_cases)
  case (made k stack pm m)
  then have k: "k = i" by simp
  note st = alloc_stack [OF assms(1) made(5,6)]
  have "aligned 3 stack" using st(2) aligned_mono [of 12 stack 3] by simp
  then have "aligned 3 (stack + 8192)" by (rule aligned_add) (simp add: aligned_unat)
  then have fr: "frame_holds (stack + 8192 - 56)
      \<lparr>rsp = stack + 8192, rbp = 0, rbx = 0, r12 = 0, r13 = 0, r14 = 0, r15 = 0, rip = entry\<rparr> m"
    using initial_context_frame [of "stack + 8192" entry "vm_mem (ps_vmm s)"] made(7) by auto
  have p: "proc s' i = new_process i name stack prio s" using made(2,8) k assms(2) by simp
  have "context_restore (c\<lparr>rsp := stack + 8192 - 56\<rparr>, m) =
      (\<lparr>rsp = stack + 8192, rbp = 0, rbx = 0, r12 = 0, r13 = 0, r14 = 0, r15 = 0, rip = entry\<rparr>, m)" for c
    using context_restore_frame [OF fr, of c] by simp
  then show ?thesis using made(2,3,4,8) k p st(4,5) by (simp add: Let_def new_process_def KERNEL_STACK_SIZE_def)
qed simp

definition proc_zero :: process where
  "proc_zero = \<lparr>pid = 0, pstate = PROC_UNUSED, priority = 0, p_context = 0, kernel_stack = 0, kernel_stack_top = 0,
     page_table = 0, brk = 0, time_slice = 0, total_time = 0, wake_time = 0, parent = None, exit_code = 0,
     p_next = None, p_prev = None, p_name = replicate 32 0\<rparr>"

definition proc_bss :: proc_sys where
  "proc_bss = \<lparr>processes = replicate 64 proc_zero, current_process = None, next_pid = 1,
     ps_vmm = \<lparr>vm_mem = (\<lambda>_. 0), vm_pmm = pmm_all_free, kernel_pml4 = 0, cr3 = 0, tlb_invalidated = []\<rparr>,
     ps_gdt = gdt_bss\<rparr>"

lemma proc_bss_create: "\<exists>s'. process_create_kernel_thread name entry prio proc_bss = (Some 0, s')"
proof -
  have "alloc_process_slot proc_bss = Some 0"
    unfolding alloc_process_slot_def find_Some_iff
    by (intro exI [of _ 0]) (simp add: MAX_PROCESSES_def proc_bss_def proc_zero_def)
  then show ?thesis using alloc_two_all_free
    by (simp add: process_create_kernel_thread_def KERNEL_STACK_SIZE_def Let_def proc_bss_def split: prod.splits)
qed

theorem process_create_starts_at_entry_witness:
  "\<exists>s'. process_create_kernel_thread (\<lambda>_. 0) 0x100123 16 proc_bss = (Some 0, s')
    \<and> (\<forall>c. rip (fst (context_restore (c\<lparr>rsp := p_context (proc s' 0)\<rparr>, vm_mem (ps_vmm s')))) = 0x100123)"
proof -
  obtain s' where s': "process_create_kernel_thread (\<lambda>_. 0) 0x100123 16 proc_bss = (Some 0, s')"
    using proc_bss_create by blast
  have "pmm_inv (vm_pmm (ps_vmm proc_bss))" "length (processes proc_bss) = 64"
    using pmm_inv_all_free by (simp_all add: proc_bss_def)
  then show ?thesis using process_create_starts_at_entry [OF _ _ s'] s' by (simp add: Let_def)
qed

text \<open>
  process numbers identify processes: as long as the counter has not wrapped, creating a thread keeps the numbers
  of the used slots distinct, and \<open>process_get\<close> then finds the new process by its number and every other process
  by its own.
\<close>

theorem process_get_finds_by_number:
  assumes "table_inv s" "unat (next_pid s) + 1 < 2 ^ 64"
    and "process_create_kernel_thread name entry prio s = (Some i, s')"
  shows "table_inv s' \<and> process_get (next_pid s) s' = Some i
    \<and> (\<forall>j < 64. pstate (proc s j) \<noteq> PROC_UNUSED \<longrightarrow> process_get (pid (proc s j)) s' = Some j)"
proof -
  have T: "table_inv s'" by (rule create_thread_table [OF assms])
  have a: "pmm_inv (vm_pmm (ps_vmm s))" "length (processes s) = 64" using assms(1) by (simp_all add: table_inv_def)
  from a assms(3) show ?thesis
  proof (cases rule: create_thread_cases)
    case (made k stack pm m)
    have "proc s' i = new_process i name stack prio s" using made(1,2,8) a(2) by simp
    then have "process_get (next_pid s) s' = Some i"
      using process_get_unique [OF T, of i] made(1,2) by (simp add: new_process_def)
    moreover have "process_get (pid (proc s j)) s' = Some j" if "j < 64" "pstate (proc s j) \<noteq> PROC_UNUSED" for j
    proof -
      have "j \<noteq> k" using that(2) made(3) by auto
      then show ?thesis using process_get_unique [OF T that(1)] that(2) made(8) by simp
    qed
    ultimately show ?thesis using T by blast
  qed simp
qed

theorem process_get_finds_by_number_witness:
  "\<exists>s'. process_create_kernel_thread (\<lambda>_. 0) 0x100123 16 proc_bss = (Some 0, s') \<and> process_get 1 s' = Some 0"
proof -
  obtain s' where s': "process_create_kernel_thread (\<lambda>_. 0) 0x100123 16 proc_bss = (Some 0, s')"
    using proc_bss_create by blast
  have "table_inv proc_bss" using pmm_inv_all_free by (simp add: table_inv_def proc_bss_def proc_zero_def)
  then show ?thesis using process_get_finds_by_number [OF _ _ s'] s' by (simp add: proc_bss_def)
qed

text \<open>
  destroying a thread that was just created gives back its stack and its slot: the page allocator is exactly as
  it was before the creation, and the slot is unused again.
\<close>

theorem process_destroy_undoes_create:
  assumes "pmm_inv (vm_pmm (ps_vmm s))" "length (processes s) = 64"
    and "process_create_kernel_thread name entry prio s = (Some i, s')"
  shows "vm_pmm (ps_vmm (process_destroy (Some i) s')) = vm_pmm (ps_vmm s)
    \<and> pstate (proc (process_destroy (Some i) s') i) = PROC_UNUSED
    \<and> (\<forall>j. j \<noteq> i \<longrightarrow> proc (process_destroy (Some i) s') j = proc s j)"
  using assms
proof (cases rule: create_thread_cases)
  case (made k stack pm m)
  have p: "proc s' i = new_process i name stack prio s" using made(1,2,8) assms(2) by simp
  have "pmm_free_pages stack 2 pm = vm_pmm (ps_vmm s)"
    by (rule free_pages_restores [OF assms(1) _ _ made(5,6)]) simp_all
  then show ?thesis using p made(1,2,6,8) assms(2)
    by (simp add: process_destroy_def Let_def new_process_def upd_proc_def KERNEL_STACK_SIZE_def)
qed simp

theorem process_destroy_undoes_create_witness:
  "\<exists>s'. process_create_kernel_thread (\<lambda>_. 0) 0x100123 16 proc_bss = (Some 0, s')
    \<and> vm_pmm (ps_vmm (process_destroy (Some 0) s')) = pmm_all_free"
proof -
  obtain s' where s': "process_create_kernel_thread (\<lambda>_. 0) 0x100123 16 proc_bss = (Some 0, s')"
    using proc_bss_create by blast
  have "pmm_inv (vm_pmm (ps_vmm proc_bss))" "length (processes proc_bss) = 64"
    using pmm_inv_all_free by (simp_all add: proc_bss_def)
  then show ?thesis using process_destroy_undoes_create [OF _ _ s'] s' by (simp add: proc_bss_def)
qed

end
