(* ===== verification/Linked_List.thy ===== *)
theory Linked_List
  imports Prelude
begin

text \<open>
  Doubly linked lists, as the heap (block headers) and the scheduler (process control blocks)
  thread them through their nodes: what it means that the \<open>next\<close> and \<open>prev\<close> fields chain a list of
  nodes, and how insertion and removal change the chain. The fields are functions from nodes to
  pointers, so the lemmas serve headers in memory and records in a table alike.
\<close>

text \<open>The pointer to the first node of a list that continues at \<open>q\<close>, and to the last one before.\<close>

definition first_of :: "'p list \<Rightarrow> 'p \<Rightarrow> 'p" where
  "first_of xs q = (case xs of [] \<Rightarrow> q | y # _ \<Rightarrow> y)"

definition last_of :: "'p \<Rightarrow> 'p list \<Rightarrow> 'p" where
  "last_of p xs = (if xs = [] then p else last xs)"

lemma first_of_simps [simp]: "first_of [] q = q" "first_of (y # ys) q = y"
  by (simp_all add: first_of_def)

lemma last_of_simps [simp]: "last_of p [] = p" "last_of p (xs @ [x]) = x"
  "last_of p (x # xs) = last_of x xs"
  by (simp_all add: last_of_def)

lemma first_of_append [simp]: "first_of (xs @ ys) q = first_of xs (first_of ys q)"
  by (cases xs) simp_all

lemma last_of_append [simp]: "last_of p (xs @ ys) = last_of (last_of p xs) ys"
  by (induction xs arbitrary: p) simp_all

lemma last_of_mem: "xs \<noteq> [] \<Longrightarrow> last_of p xs \<in> set xs"
  by (simp add: last_of_def)

lemma first_of_mem: "xs \<noteq> [] \<Longrightarrow> first_of xs q \<in> set xs"
  by (cases xs) simp_all

text \<open>The segment \<open>xs\<close> is chained, entered from \<open>p\<close> and left towards \<open>q\<close>.\<close>

fun dlist :: "('p \<Rightarrow> 'p) \<Rightarrow> ('p \<Rightarrow> 'p) \<Rightarrow> 'p \<Rightarrow> 'p list \<Rightarrow> 'p \<Rightarrow> bool" where
  "dlist nx pv p [] q = True"
| "dlist nx pv p (x # xs) q \<longleftrightarrow> pv x = p \<and> nx x = first_of xs q \<and> dlist nx pv x xs q"

lemma dlist_append:
  "dlist nx pv p (xs @ ys) q \<longleftrightarrow>
     dlist nx pv p xs (first_of ys q) \<and> dlist nx pv (last_of p xs) ys q"
  by (induction xs arbitrary: p) auto

lemma dlist_cong:
  assumes "\<And>x. x \<in> set xs \<Longrightarrow> nx' x = nx x \<and> pv' x = pv x"
  shows "dlist nx' pv' p xs q = dlist nx pv p xs q"
  using assms by (induction xs arbitrary: p) auto

text \<open>Changing the predecessor of a segment is a change of the first \<open>prev\<close> field only.\<close>

lemma dlist_enter:
  assumes "dlist nx pv p xs q"
    "\<And>x. x \<in> set xs \<Longrightarrow> nx' x = nx x"
    "\<And>x. x \<in> set (tl xs) \<Longrightarrow> pv' x = pv x"
    "xs \<noteq> [] \<Longrightarrow> pv' (hd xs) = p'"
  shows "dlist nx' pv' p' xs q"
proof (cases xs)
  case (Cons x ys)
  then have "dlist nx pv x ys q" using assms(1) by simp
  then have "dlist nx' pv' x ys q" using assms(2,3) Cons dlist_cong [of ys nx' nx pv' pv] by auto
  then show ?thesis using assms Cons by simp
qed simp

text \<open>Changing the successor of a segment is a change of the last \<open>next\<close> field only.\<close>

lemma dlist_leave:
  assumes "dlist nx pv p xs q"
    "\<And>x. x \<in> set xs \<Longrightarrow> pv' x = pv x"
    "\<And>x. x \<in> set (butlast xs) \<Longrightarrow> nx' x = nx x"
    "xs \<noteq> [] \<Longrightarrow> nx' (last xs) = q'"
  shows "dlist nx' pv' p xs q'"
proof (cases xs rule: rev_cases)
  case (snoc ys y)
  then have "dlist nx pv p ys y" "pv y = last_of p ys" using assms(1) by (simp_all add: dlist_append)
  then have "dlist nx' pv' p ys y" using assms(2,3) snoc dlist_cong [of ys nx' nx pv' pv] by auto
  then show ?thesis using assms \<open>pv y = last_of p ys\<close> snoc by (simp add: dlist_append)
qed simp

lemma dlist_next: "dlist nx pv p (xs @ x # ys) q \<Longrightarrow> nx x = first_of ys q"
  by (simp add: dlist_append)

lemma dlist_prev: "dlist nx pv p (xs @ x # ys) q \<Longrightarrow> pv x = last_of p xs"
  by (simp add: dlist_append)

text \<open>Inserting a node, and unlinking one.\<close>

lemma dlist_insert:
  assumes "dlist nx pv p (xs @ ys) q" "distinct (xs @ ys)" "n \<notin> set (xs @ ys)"
    "nx' n = first_of ys q" "pv' n = last_of p xs"
    "xs \<noteq> [] \<Longrightarrow> nx' (last xs) = n" "ys \<noteq> [] \<Longrightarrow> pv' (hd ys) = n"
    "\<And>x. x \<in> set (xs @ ys) \<Longrightarrow> x \<noteq> last_of p xs \<or> xs = [] \<Longrightarrow> nx' x = nx x"
    "\<And>x. x \<in> set (xs @ ys) \<Longrightarrow> x \<noteq> first_of ys q \<or> ys = [] \<Longrightarrow> pv' x = pv x"
  shows "dlist nx' pv' p (xs @ n # ys) q"
proof -
  have parts: "dlist nx pv p xs (first_of ys q)" "dlist nx pv (last_of p xs) ys q"
    using assms(1) by (simp_all add: dlist_append)
  have "dlist nx' pv' p xs n"
  proof (rule dlist_leave [OF parts(1)])
    show "pv' x = pv x" if "x \<in> set xs" for x
      using that assms(2,9) by (cases ys) auto
    show "nx' x = nx x" if "x \<in> set (butlast xs)" for x
    proof -
      have "x \<noteq> last xs" using that assms(2) by (cases xs rule: rev_cases) auto
      then show ?thesis using that assms(8) [of x] by (auto simp: last_of_def dest: in_set_butlastD)
    qed
  qed (use assms(6) in simp)
  moreover have "dlist nx' pv' n ys q"
  proof (rule dlist_enter [OF parts(2)])
    show "nx' x = nx x" if "x \<in> set ys" for x
      using that assms(2) assms(8) [of x] last_of_mem [of xs p] by (cases "xs = []") auto
    show "pv' x = pv x" if "x \<in> set (tl ys)" for x
      using that assms(2,9) by (cases ys) auto
  qed (use assms(7) in simp)
  ultimately show ?thesis using assms(4,5) by (simp add: dlist_append)
qed

lemma dlist_unlink:
  assumes "dlist nx pv p (xs @ n # ys) q" "distinct (xs @ n # ys)"
    "xs \<noteq> [] \<Longrightarrow> nx' (last xs) = first_of ys q" "ys \<noteq> [] \<Longrightarrow> pv' (hd ys) = last_of p xs"
    "\<And>x. x \<in> set (xs @ ys) \<Longrightarrow> x \<noteq> last_of p xs \<or> xs = [] \<Longrightarrow> nx' x = nx x"
    "\<And>x. x \<in> set (xs @ ys) \<Longrightarrow> x \<noteq> first_of ys q \<or> ys = [] \<Longrightarrow> pv' x = pv x"
  shows "dlist nx' pv' p (xs @ ys) q"
proof -
  have parts: "dlist nx pv p xs n" "dlist nx pv n ys q"
    using assms(1) by (simp_all add: dlist_append)
  have "dlist nx' pv' p xs (first_of ys q)"
  proof (rule dlist_leave [OF parts(1)])
    show "pv' x = pv x" if "x \<in> set xs" for x
      using that assms(2,6) by (cases ys) auto
    show "nx' x = nx x" if "x \<in> set (butlast xs)" for x
    proof -
      have "x \<noteq> last xs" using that assms(2) by (cases xs rule: rev_cases) auto
      then show ?thesis using that assms(5) [of x] by (auto simp: last_of_def dest: in_set_butlastD)
    qed
  qed (use assms(3) in simp)
  moreover have "dlist nx' pv' (last_of p xs) ys q"
  proof (rule dlist_enter [OF parts(2)])
    show "nx' x = nx x" if "x \<in> set ys" for x
      using that assms(2) assms(5) [of x] last_of_mem [of xs p] by (cases "xs = []") auto
    show "pv' x = pv x" if "x \<in> set (tl ys)" for x
      using that assms(2,6) by (cases ys) auto
  qed (use assms(4) in simp)
  ultimately show ?thesis by (simp add: dlist_append)
qed

end
