(* ===== verification/Scheduler.thy ===== *)
theory Scheduler
  imports Process Linked_List
begin

text \<open>
  The scheduler, \<open>src/kernel/proc/scheduler.c\<close>: 32 ready queues threaded through the control blocks, a
  bitmap of the non-empty ones, a sleep queue sorted by wake time, and the timer tick. The walk to the end
  of a queue does not end on a cyclic chain, so the operations that walk return an option; the lemmas of
  \<open>Scheduler_Spec\<close> show that they return on every state whose queues are well-formed. A switch of threads is
  the context switch of \<open>context.S\<close> on the registers and the stacks in memory.
\<close>

section \<open>State\<close>

datatype timer_callback = Scheduler_tick

record sched =
  sys :: proc_sys
  ready_queues :: "nat option list"
  ready_bitmap :: u32
  sleep_queue :: "nat option"
  scheduler_running :: bool
  current_tick :: u64
  idle_proc :: "nat option"
  timer_cb :: "timer_callback option"
  cpu_regs :: cpu

definition SCHED_PRIORITY_LEVELS :: int where "SCHED_PRIORITY_LEVELS = 32"
definition SCHED_PRIORITY_IDLE :: int where "SCHED_PRIORITY_IDLE = 31"
definition SCHED_TIME_SLICE_BASE :: int where "SCHED_TIME_SLICE_BASE = 5"

text \<open>The address of the field \<open>context\<close> of a control block at the null pointer.\<close>

definition NULL_CONTEXT :: u64 where "NULL_CONTEXT = 16"

definition pcb :: "sched \<Rightarrow> nat \<Rightarrow> process" where
  "pcb s i = processes (sys s) ! i"

definition upd :: "nat \<Rightarrow> (process \<Rightarrow> process) \<Rightarrow> sched \<Rightarrow> sched" where
  "upd i f s = s\<lparr>sys := upd_proc i f (sys s)\<rparr>"

text \<open>The two range checks of \<open>scheduler_add\<close> and \<open>scheduler_remove\<close>.\<close>

definition clamp_prio :: "int \<Rightarrow> int" where
  "clamp_prio prio =
     (let prio = (if prio < 0 then 0 else prio)
      in if prio \<ge> SCHED_PRIORITY_LEVELS then SCHED_PRIORITY_LEVELS - 1 else prio)"

section \<open>Queues\<close>

partial_function (option) find_tail :: "sched \<Rightarrow> nat \<Rightarrow> nat option" where
  "find_tail s tail = (case p_next (pcb s tail) of None \<Rightarrow> Some tail | Some n \<Rightarrow> find_tail s n)"

definition scheduler_add :: "nat option \<Rightarrow> sched \<Rightarrow> sched option" where
  "scheduler_add pr s =
     (case pr of
        None \<Rightarrow> Some s
      | Some i \<Rightarrow>
          if pstate (pcb s i) = PROC_UNUSED then Some s
          else
            let prio = clamp_prio (priority (pcb s i));
                k = nat prio;
                s = upd i (\<lambda>p. p\<lparr>p_next := None, p_prev := None\<rparr>) s;
                finish = (\<lambda>s. upd i (\<lambda>p. p\<lparr>pstate := PROC_READY,
                    time_slice := of_int (SCHED_TIME_SLICE_BASE + (SCHED_PRIORITY_LEVELS - prio))\<rparr>) s)
            in case ready_queues s ! k of
                 None \<Rightarrow> Some (finish (s\<lparr>ready_queues := (ready_queues s)[k := Some i],
                            ready_bitmap := ready_bitmap s OR push_bit k 1\<rparr>))
               | Some h \<Rightarrow>
                   (case find_tail s h of
                      None \<Rightarrow> None
                    | Some tail \<Rightarrow>
                        let s = upd tail (\<lambda>p. p\<lparr>p_next := Some i\<rparr>) s;
                            s = upd i (\<lambda>p. p\<lparr>p_prev := Some tail\<rparr>) s
                        in Some (finish s)))"

definition scheduler_remove :: "nat option \<Rightarrow> sched \<Rightarrow> sched" where
  "scheduler_remove pr s =
     (case pr of
        None \<Rightarrow> s
      | Some i \<Rightarrow>
          let k = nat (clamp_prio (priority (pcb s i)));
              s = (case p_prev (pcb s i) of
                     Some q \<Rightarrow> upd q (\<lambda>p. p\<lparr>p_next := p_next (pcb s i)\<rparr>) s
                   | None \<Rightarrow> s\<lparr>ready_queues := (ready_queues s)[k := p_next (pcb s i)]\<rparr>);
              s = (case p_next (pcb s i) of
                     Some n \<Rightarrow> upd n (\<lambda>p. p\<lparr>p_prev := p_prev (pcb s i)\<rparr>) s
                   | None \<Rightarrow> s);
              s = upd i (\<lambda>p. p\<lparr>p_next := None, p_prev := None\<rparr>) s
          in if ready_queues s ! k = None
             then s\<lparr>ready_bitmap := ready_bitmap s AND NOT (push_bit k 1)\<rparr> else s)"

text \<open>\<open>__builtin_ctz\<close>: the number of the lowest set bit.\<close>

definition lowest_bit :: "u32 \<Rightarrow> nat" where
  "lowest_bit w = (case find (\<lambda>k. bit w k) [0..<32] of None \<Rightarrow> 32 | Some k \<Rightarrow> k)"

definition find_next_process :: "sched \<Rightarrow> nat option" where
  "find_next_process s =
     (if ready_bitmap s = 0 then idle_proc s else ready_queues s ! lowest_bit (ready_bitmap s))"

section \<open>Switching\<close>

definition set_current :: "nat option \<Rightarrow> sched \<Rightarrow> sched" where
  "set_current pr s = s\<lparr>sys := process_set_current pr (sys s)\<rparr>"

definition switch_tables :: "nat \<Rightarrow> sched \<Rightarrow> sched" where
  "switch_tables n s =
     (if page_table (pcb s n) \<noteq> 0
      then s\<lparr>sys := (sys s)\<lparr>ps_vmm := vmm_switch_address_space (page_table (pcb s n)) (ps_vmm (sys s))\<rparr>\<rparr>
      else s)"

text \<open>
  \<open>context_switch(&current->context, next->context)\<close>: the saved stack pointer goes to the control block of the
  current process or, when there is none, to the memory at the address of that field behind the null pointer.
\<close>

definition switch_to :: "nat option \<Rightarrow> nat \<Rightarrow> sched \<Rightarrow> sched" where
  "switch_to cur n s =
     (let old = (case cur of None \<Rightarrow> Some NULL_CONTEXT | Some _ \<Rightarrow> None);
          vm = ps_vmm (sys s);
          (saved, c, m) = context_switch old (p_context (pcb s n)) (cpu_regs s, vm_mem vm);
          s = s\<lparr>cpu_regs := c, sys := (sys s)\<lparr>ps_vmm := vm\<lparr>vm_mem := m\<rparr>\<rparr>\<rparr>
      in case cur of None \<Rightarrow> s | Some i \<Rightarrow> upd i (\<lambda>p. p\<lparr>p_context := saved\<rparr>) s)"

definition schedule :: "sched \<Rightarrow> sched option" where
  "schedule s =
     (let cur = process_current (sys s) in
      case find_next_process s of
        None \<Rightarrow> Some s
      | Some n \<Rightarrow>
          if cur = Some n then Some s
          else
            let requeued =
                  (case cur of
                     None \<Rightarrow> Some s
                   | Some i \<Rightarrow>
                       if pstate (pcb s i) = PROC_RUNNING
                       then scheduler_add (Some i) (upd i (\<lambda>p. p\<lparr>pstate := PROC_READY\<rparr>) s)
                       else Some s)
            in case requeued of
                 None \<Rightarrow> None
               | Some s \<Rightarrow>
                   let s = scheduler_remove (Some n) s;
                       s = upd n (\<lambda>p. p\<lparr>pstate := PROC_RUNNING\<rparr>) s;
                       s = set_current (Some n) s;
                       s = switch_tables n s
                   in Some (switch_to cur n s))"

section \<open>The operations of the interface\<close>

definition idle_name :: "nat \<Rightarrow> u8" where
  "idle_name i = (if i < 4 then [105, 100, 108, 101] ! i else 0)"

definition scheduler_init :: "u64 \<Rightarrow> sched \<Rightarrow> sched" where
  "scheduler_init idle_entry s =
     (let s = s\<lparr>ready_queues := fold (\<lambda>i q. q[i := None]) [0..<32] (ready_queues s), ready_bitmap := 0,
                sleep_queue := None, scheduler_running := False, current_tick := 0\<rparr>;
          s = s\<lparr>sys := process_init (sys s)\<rparr>;
          (idle, sy) = process_create_kernel_thread idle_name idle_entry SCHED_PRIORITY_IDLE (sys s);
          s = s\<lparr>sys := sy, idle_proc := idle\<rparr>
      in case idle of None \<Rightarrow> s | Some i \<Rightarrow> upd i (\<lambda>p. p\<lparr>pstate := PROC_READY\<rparr>) s)"

text \<open>The loop that wakes the sleepers whose time has come.\<close>

partial_function (option) wake_loop :: "sched \<Rightarrow> sched option" where
  "wake_loop s =
     (case sleep_queue s of
        None \<Rightarrow> Some s
      | Some i \<Rightarrow>
          if wake_time (pcb s i) \<le> current_tick s
          then
            (let s = s\<lparr>sleep_queue := p_next (pcb s i)\<rparr>;
                 s = (case sleep_queue s of None \<Rightarrow> s | Some n \<Rightarrow> upd n (\<lambda>p. p\<lparr>p_prev := None\<rparr>) s);
                 s = upd i (\<lambda>p. p\<lparr>p_next := None, p_prev := None\<rparr>) s
             in case scheduler_add (Some i) s of None \<Rightarrow> None | Some s \<Rightarrow> wake_loop s)
          else Some s)"

definition scheduler_tick :: "sched \<Rightarrow> sched option" where
  "scheduler_tick s =
     (case wake_loop (s\<lparr>current_tick := current_tick s + 1\<rparr>) of
        None \<Rightarrow> None
      | Some s \<Rightarrow>
          (case process_current (sys s) of
             None \<Rightarrow> Some s
           | Some i \<Rightarrow>
               if pstate (pcb s i) = PROC_RUNNING
               then
                 let s = upd i (\<lambda>p. p\<lparr>total_time := total_time p + 1\<rparr>) s;
                     s = (if time_slice (pcb s i) > 0 then upd i (\<lambda>p. p\<lparr>time_slice := time_slice p - 1\<rparr>) s else s)
                 in if time_slice (pcb s i) = 0 then schedule s else Some s
               else Some s))"

definition scheduler_block :: "nat option \<Rightarrow> sched \<Rightarrow> sched option" where
  "scheduler_block pr s =
     (let pr = (case pr of None \<Rightarrow> process_current (sys s) | Some i \<Rightarrow> Some i) in
      case pr of
        None \<Rightarrow> Some s
      | Some i \<Rightarrow>
          let s = upd i (\<lambda>p. p\<lparr>pstate := PROC_BLOCKED\<rparr>) s;
              s = scheduler_remove (Some i) s
          in if Some i = process_current (sys s) then schedule s else Some s)"

definition scheduler_unblock :: "nat option \<Rightarrow> sched \<Rightarrow> sched option" where
  "scheduler_unblock pr s =
     (case pr of
        None \<Rightarrow> Some s
      | Some i \<Rightarrow> if pstate (pcb s i) \<noteq> PROC_BLOCKED then Some s else scheduler_add (Some i) s)"

definition scheduler_yield :: "sched \<Rightarrow> sched option" where
  "scheduler_yield s =
     (let s = (case process_current (sys s) of None \<Rightarrow> s | Some i \<Rightarrow> upd i (\<lambda>p. p\<lparr>time_slice := 0\<rparr>) s)
      in schedule s)"

text \<open>The walk to the insertion point of the sleep queue.\<close>

partial_function (option) find_pos :: "sched \<Rightarrow> u64 \<Rightarrow> nat \<Rightarrow> nat option" where
  "find_pos s w pos =
     (case p_next (pcb s pos) of
        None \<Rightarrow> Some pos
      | Some n \<Rightarrow> if wake_time (pcb s n) \<le> w then find_pos s w n else Some pos)"

definition sleep_insert :: "nat \<Rightarrow> sched \<Rightarrow> sched option" where
  "sleep_insert i s =
     (case sleep_queue s of
        None \<Rightarrow> Some (upd i (\<lambda>p. p\<lparr>p_next := None, p_prev := None\<rparr>) s\<lparr>sleep_queue := Some i\<rparr>)
      | Some h \<Rightarrow>
          if wake_time (pcb s i) < wake_time (pcb s h)
          then let s = upd i (\<lambda>p. p\<lparr>p_next := Some h, p_prev := None\<rparr>) s;
                   s = upd h (\<lambda>p. p\<lparr>p_prev := Some i\<rparr>) s
               in Some (s\<lparr>sleep_queue := Some i\<rparr>)
          else
            (case find_pos s (wake_time (pcb s i)) h of
               None \<Rightarrow> None
             | Some pos \<Rightarrow>
                 let s = upd i (\<lambda>p. p\<lparr>p_next := p_next (pcb s pos), p_prev := Some pos\<rparr>) s;
                     s = (case p_next (pcb s pos) of None \<Rightarrow> s | Some n \<Rightarrow> upd n (\<lambda>p. p\<lparr>p_prev := Some i\<rparr>) s)
                 in Some (upd pos (\<lambda>p. p\<lparr>p_next := Some i\<rparr>) s)))"

definition scheduler_sleep :: "u64 \<Rightarrow> sched \<Rightarrow> sched option" where
  "scheduler_sleep ticks s =
     (case process_current (sys s) of
        None \<Rightarrow> Some s
      | Some i \<Rightarrow>
          let s = upd i (\<lambda>p. p\<lparr>wake_time := current_tick s + ticks, pstate := PROC_BLOCKED\<rparr>) s;
              s = scheduler_remove (Some i) s
          in case sleep_insert i s of None \<Rightarrow> None | Some s \<Rightarrow> schedule s)"

definition scheduler_start :: "sched \<Rightarrow> sched option" where
  "scheduler_start s = schedule (s\<lparr>scheduler_running := True, timer_cb := Some Scheduler_tick\<rparr>)"

end
