(* ===== verification/Scheduler_Spec.thy ===== *)
theory Scheduler_Spec
  imports Scheduler
begin

text \<open>
  What the scheduler promises, over the lists of processes its queues hold: \<open>Q k\<close> is the ready queue of
  priority \<open>k\<close> for \<open>k < 32\<close> and \<open>Q 32\<close> is the sleep queue. \<open>sched_inv\<close> relates a state to these lists: the
  pointers chain them in both directions, no process is in two of them, the bitmap marks the non-empty
  ready queues, ready processes sit in the queue of their priority and sleepers are sorted by wake time.
\<close>

section \<open>Families of chained lists\<close>

definition chains :: "(nat option \<Rightarrow> nat option) \<Rightarrow> (nat option \<Rightarrow> nat option) \<Rightarrow> (nat \<Rightarrow> nat option)
    \<Rightarrow> (nat \<Rightarrow> nat list) \<Rightarrow> bool" where
  "chains nx pv hp Q \<longleftrightarrow>
     (\<forall>k \<le> 32. hp k = first_of (map Some (Q k)) None \<and> dlist nx pv None (map Some (Q k)) None \<and> distinct (Q k))
     \<and> (\<forall>j \<le> 32. \<forall>k \<le> 32. j \<noteq> k \<longrightarrow> set (Q j) \<inter> set (Q k) = {})"

lemma chainsD:
  assumes "chains nx pv hp Q" "k \<le> 32"
  shows "hp k = first_of (map Some (Q k)) None" "dlist nx pv None (map Some (Q k)) None" "distinct (Q k)"
    "\<And>j. j \<le> 32 \<Longrightarrow> j \<noteq> k \<Longrightarrow> set (Q j) \<inter> set (Q k) = {}"
  using assms unfolding chains_def by blast+

definition unqueued :: "nat \<Rightarrow> (nat \<Rightarrow> nat list) \<Rightarrow> bool" where
  "unqueued i Q \<longleftrightarrow> (\<forall>k \<le> 32. i \<notin> set (Q k))"

lemma chains_other:
  assumes "chains nx pv hp Q" "j \<le> 32" "\<And>x. x \<in> set (Q j) \<Longrightarrow> nx' (Some x) = nx (Some x) \<and> pv' (Some x) = pv (Some x)"
  shows "dlist nx' pv' None (map Some (Q j)) None"
proof -
  have "dlist nx' pv' None (map Some (Q j)) None = dlist nx pv None (map Some (Q j)) None"
    by (rule dlist_cong) (use assms(3) in auto)
  then show ?thesis using chainsD(2) [OF assms(1,2)] by simp
qed

lemma chains_insert:
  assumes C: "chains nx pv hp Q" and k: "k \<le> 32" "Q k = xs @ ys" and i: "unqueued i Q"
    and new: "nx' (Some i) = first_of (map Some ys) None" "pv' (Some i) = last_of None (map Some xs)"
    and left: "xs \<noteq> [] \<Longrightarrow> nx' (Some (last xs)) = Some i" and right: "\<And>y zs. ys = y # zs \<Longrightarrow> pv' (Some y) = Some i"
    and nx: "\<And>x. x \<noteq> i \<Longrightarrow> xs = [] \<or> x \<noteq> last xs \<Longrightarrow> nx' (Some x) = nx (Some x)"
    and pv: "\<And>x. x \<noteq> i \<Longrightarrow> (\<And>y zs. ys = y # zs \<Longrightarrow> x \<noteq> y) \<Longrightarrow> pv' (Some x) = pv (Some x)"
    and hd: "hp' k = (if xs = [] then Some i else hp k)" "\<And>j. j \<noteq> k \<Longrightarrow> hp' j = hp j"
  shows "chains nx' pv' hp' (Q(k := xs @ i # ys))"
proof -
  note Ck = chainsD [OF C k(1), unfolded k(2)]
  have ni: "i \<notin> set xs" "i \<notin> set ys" using i k by (auto simp: unqueued_def)
  have ix: "x \<noteq> i" if "j \<le> 32" "x \<in> set (Q j)" for x j using that i by (auto simp: unqueued_def)
  have "dlist nx' pv' None (map Some xs @ Some i # map Some ys) None"
  proof (rule dlist_insert)
    show "dlist nx pv None (map Some xs @ map Some ys) None" using Ck(2) by simp
    show "distinct (map Some xs @ map Some ys)" using Ck(3) by (auto simp: distinct_map)
    show "Some i \<notin> set (map Some xs @ map Some ys)" using ni by auto
    show "nx' (Some i) = first_of (map Some ys) None" "pv' (Some i) = last_of None (map Some xs)" by (rule new)+
    show "nx' (last (map Some xs)) = Some i" if "map Some xs \<noteq> []" using left that by (simp add: last_map)
    show "pv' (hd (map Some ys)) = Some i" if "map Some ys \<noteq> []" using right that by (cases ys) auto
    show "nx' x = nx x" if mem: "x \<in> set (map Some xs @ map Some ys)" and ne: "x \<noteq> last_of None (map Some xs) \<or> map Some xs = []" for x
    proof -
      obtain z where z: "x = Some z" "z \<in> set xs \<union> set ys" using mem by auto
      then have "z \<noteq> i" using ni by auto
      moreover have "xs = [] \<or> z \<noteq> last xs" using ne z(1) by (cases "xs = []") (auto simp: last_of_def last_map)
      ultimately show ?thesis using nx [of z] z(1) by simp
    qed
    show "pv' x = pv x" if mem: "x \<in> set (map Some xs @ map Some ys)" and ne: "x \<noteq> first_of (map Some ys) None \<or> map Some ys = []" for x
    proof -
      obtain z where z: "x = Some z" "z \<in> set xs \<union> set ys" using mem by auto
      then have "z \<noteq> i" using ni by auto
      moreover have "z \<noteq> y" if "ys = y # zs" for y zs using ne z(1) that by auto
      ultimately show ?thesis using pv [of z] z(1) by simp
    qed
  qed
  moreover have "hp' k = first_of (map Some (xs @ i # ys)) None" using hd(1) Ck(1) by (cases xs) auto
  moreover have "hp' j = first_of (map Some (Q j)) None \<and> dlist nx' pv' None (map Some (Q j)) None" if "j \<le> 32" "j \<noteq> k" for j
  proof -
    have out: "x \<notin> set xs \<union> set ys" if "x \<in> set (Q j)" for x using Ck(4) [OF \<open>j \<le> 32\<close> \<open>j \<noteq> k\<close>] that by auto
    have "nx' (Some x) = nx (Some x) \<and> pv' (Some x) = pv (Some x)" if x: "x \<in> set (Q j)" for x
    proof
      have "xs = [] \<or> x \<noteq> last xs" using out [OF x] last_in_set [of xs] by blast
      then show "nx' (Some x) = nx (Some x)" by (rule nx [OF ix [OF \<open>j \<le> 32\<close> x]])
      show "pv' (Some x) = pv (Some x)" by (rule pv [OF ix [OF \<open>j \<le> 32\<close> x]]) (use out [OF x] in auto)
    qed
    then show ?thesis using chains_other [OF C that(1)] hd(2) [OF that(2)] chainsD(1) [OF C that(1)] by simp
  qed
  moreover have "set (Q j) \<inter> set (xs @ i # ys) = {}" if "j \<le> 32" "j \<noteq> k" for j
    using Ck(4) [OF that] ix [OF that(1)] by auto
  ultimately show ?thesis
    using chainsD(3) [OF C] chainsD(4) [OF C] Ck(3) ni unfolding chains_def by (auto simp: Int_commute)
qed

lemma chains_unlink:
  assumes C: "chains nx pv hp Q" and k: "k \<le> 32" "Q k = xs @ i # ys"
    and left: "xs \<noteq> [] \<Longrightarrow> nx' (Some (last xs)) = first_of (map Some ys) None"
    and right: "\<And>y zs. ys = y # zs \<Longrightarrow> pv' (Some y) = last_of None (map Some xs)"
    and nx: "\<And>x. x \<noteq> i \<Longrightarrow> xs = [] \<or> x \<noteq> last xs \<Longrightarrow> nx' (Some x) = nx (Some x)"
    and pv: "\<And>x. x \<noteq> i \<Longrightarrow> (\<And>y zs. ys = y # zs \<Longrightarrow> x \<noteq> y) \<Longrightarrow> pv' (Some x) = pv (Some x)"
    and hd: "hp' k = (if xs = [] then first_of (map Some ys) None else hp k)" "\<And>j. j \<noteq> k \<Longrightarrow> hp' j = hp j"
  shows "chains nx' pv' hp' (Q(k := xs @ ys))"
proof -
  note Ck = chainsD [OF C k(1), unfolded k(2)]
  have ni: "i \<notin> set xs" "i \<notin> set ys" using Ck(3) by auto
  have "dlist nx' pv' None (map Some xs @ map Some ys) None"
  proof (rule dlist_unlink)
    show "dlist nx pv None (map Some xs @ Some i # map Some ys) None" using Ck(2) by simp
    show "distinct (map Some xs @ Some i # map Some ys)" using Ck(3) by (auto simp: distinct_map)
    show "nx' (last (map Some xs)) = first_of (map Some ys) None" if "map Some xs \<noteq> []"
      using left that by (simp add: last_map)
    show "pv' (hd (map Some ys)) = last_of None (map Some xs)" if "map Some ys \<noteq> []" using right that by (cases ys) auto
    show "nx' x = nx x" if mem: "x \<in> set (map Some xs @ map Some ys)" and ne: "x \<noteq> last_of None (map Some xs) \<or> map Some xs = []" for x
    proof -
      obtain z where z: "x = Some z" "z \<in> set xs \<union> set ys" using mem by auto
      then have "z \<noteq> i" using ni by auto
      moreover have "xs = [] \<or> z \<noteq> last xs" using ne z(1) by (cases "xs = []") (auto simp: last_of_def last_map)
      ultimately show ?thesis using nx [of z] z(1) by simp
    qed
    show "pv' x = pv x" if mem: "x \<in> set (map Some xs @ map Some ys)" and ne: "x \<noteq> first_of (map Some ys) None \<or> map Some ys = []" for x
    proof -
      obtain z where z: "x = Some z" "z \<in> set xs \<union> set ys" using mem by auto
      then have "z \<noteq> i" using ni by auto
      moreover have "z \<noteq> y" if "ys = y # zs" for y zs using ne z(1) that by auto
      ultimately show ?thesis using pv [of z] z(1) by simp
    qed
  qed
  moreover have "hp' k = first_of (map Some (xs @ ys)) None" using hd(1) Ck(1) by (cases xs) auto
  moreover have "hp' j = first_of (map Some (Q j)) None \<and> dlist nx' pv' None (map Some (Q j)) None" if "j \<le> 32" "j \<noteq> k" for j
  proof -
    have out: "x \<notin> set xs \<union> set ys \<and> x \<noteq> i" if "x \<in> set (Q j)" for x using Ck(4) [OF \<open>j \<le> 32\<close> \<open>j \<noteq> k\<close>] that by auto
    have "nx' (Some x) = nx (Some x) \<and> pv' (Some x) = pv (Some x)" if x: "x \<in> set (Q j)" for x
    proof
      have "x \<noteq> i" using out [OF x] by simp
      moreover have "xs = [] \<or> x \<noteq> last xs" using out [OF x] last_in_set [of xs] by blast
      ultimately show "nx' (Some x) = nx (Some x)" by (rule nx)
      show "pv' (Some x) = pv (Some x)" by (rule pv [OF \<open>x \<noteq> i\<close>]) (use out [OF x] in auto)
    qed
    then show ?thesis using chains_other [OF C that(1)] hd(2) [OF that(2)] chainsD(1) [OF C that(1)] by simp
  qed
  moreover have "set (Q j) \<inter> set (xs @ ys) = {}" if "j \<le> 32" "j \<noteq> k" for j
    using Ck(4) [OF that] by auto
  ultimately show ?thesis
    using chainsD(3) [OF C] chainsD(4) [OF C] Ck(3) unfolding chains_def by (auto simp: Int_commute)
qed

section \<open>The invariant\<close>

definition nxt :: "sched \<Rightarrow> nat option \<Rightarrow> nat option" where
  "nxt s p = (case p of None \<Rightarrow> None | Some i \<Rightarrow> p_next (pcb s i))"

definition prv :: "sched \<Rightarrow> nat option \<Rightarrow> nat option" where
  "prv s p = (case p of None \<Rightarrow> None | Some i \<Rightarrow> p_prev (pcb s i))"

definition qhead :: "sched \<Rightarrow> nat \<Rightarrow> nat option" where
  "qhead s k = (if k < 32 then ready_queues s ! k else if k = 32 then sleep_queue s else None)"

abbreviation prio_of :: "process \<Rightarrow> nat" where
  "prio_of p \<equiv> nat (clamp_prio (priority p))"

definition sched_inv :: "sched \<Rightarrow> (nat \<Rightarrow> nat list) \<Rightarrow> bool" where
  "sched_inv s Q \<longleftrightarrow> length (processes (sys s)) = 64 \<and> length (ready_queues s) = 32
     \<and> chains (nxt s) (prv s) (qhead s) Q
     \<and> (\<forall>k \<le> 32. \<forall>i \<in> set (Q k). i < 64)
     \<and> (\<forall>k < 32. \<forall>i \<in> set (Q k). pstate (pcb s i) = PROC_READY \<and> prio_of (pcb s i) = k)
     \<and> (\<forall>k < 32. bit (ready_bitmap s) k \<longleftrightarrow> Q k \<noteq> [])
     \<and> (\<forall>i \<in> set (Q 32). pstate (pcb s i) = PROC_BLOCKED)
     \<and> sorted (map (\<lambda>i. wake_time (pcb s i)) (Q 32))
     \<and> (\<forall>i < 64. unqueued i Q \<longrightarrow> p_next (pcb s i) = None \<and> p_prev (pcb s i) = None)"

lemma sched_invD:
  assumes "sched_inv s Q"
  shows "length (processes (sys s)) = 64" "length (ready_queues s) = 32" "chains (nxt s) (prv s) (qhead s) Q"
    "\<And>k i. k \<le> 32 \<Longrightarrow> i \<in> set (Q k) \<Longrightarrow> i < 64"
    "\<And>k i. k < 32 \<Longrightarrow> i \<in> set (Q k) \<Longrightarrow> pstate (pcb s i) = PROC_READY \<and> prio_of (pcb s i) = k"
    "\<And>k. k < 32 \<Longrightarrow> bit (ready_bitmap s) k \<longleftrightarrow> Q k \<noteq> []"
    "\<And>i. i \<in> set (Q 32) \<Longrightarrow> pstate (pcb s i) = PROC_BLOCKED"
    "sorted (map (\<lambda>i. wake_time (pcb s i)) (Q 32))"
    "\<And>i. i < 64 \<Longrightarrow> unqueued i Q \<Longrightarrow> p_next (pcb s i) = None \<and> p_prev (pcb s i) = None"
  using assms unfolding sched_inv_def by blast+

lemma link_simps [simp]:
  "nxt s (Some i) = p_next (pcb s i)" "prv s (Some i) = p_prev (pcb s i)"
  by (simp_all add: nxt_def prv_def)

lemma upd_simps [simp]:
  "ready_queues (upd i f s) = ready_queues s" "ready_bitmap (upd i f s) = ready_bitmap s"
  "sleep_queue (upd i f s) = sleep_queue s" "current_tick (upd i f s) = current_tick s"
  "idle_proc (upd i f s) = idle_proc s" "cpu_regs (upd i f s) = cpu_regs s" "timer_cb (upd i f s) = timer_cb s"
  "scheduler_running (upd i f s) = scheduler_running s"
  "length (processes (sys (upd i f s))) = length (processes (sys s))"
  "current_process (sys (upd i f s)) = current_process (sys s)"
  "next_pid (sys (upd i f s)) = next_pid (sys s)"
  "ps_vmm (sys (upd i f s)) = ps_vmm (sys s)" "ps_gdt (sys (upd i f s)) = ps_gdt (sys s)"
  by (simp_all add: upd_def)

lemma pcb_upd [simp]:
  assumes "i < length (processes (sys s))"
  shows "pcb (upd i f s) j = (if i = j then f (pcb s i) else pcb s j)"
  using assms by (simp add: pcb_def upd_def proc_upd_proc)

lemma pcb_fields [simp]:
  "pcb (s\<lparr>ready_queues := a\<rparr>) j = pcb s j" "pcb (s\<lparr>ready_bitmap := b\<rparr>) j = pcb s j"
  "pcb (s\<lparr>sleep_queue := c\<rparr>) j = pcb s j" "pcb (s\<lparr>current_tick := d\<rparr>) j = pcb s j"
  "pcb (s\<lparr>cpu_regs := e\<rparr>) j = pcb s j" "pcb (s\<lparr>scheduler_running := r\<rparr>) j = pcb s j"
  "pcb (s\<lparr>timer_cb := t\<rparr>) j = pcb s j"
  by (simp_all add: pcb_def)

lemma clamp_range: "0 \<le> clamp_prio p" "clamp_prio p < 32" "nat (clamp_prio p) < 32"
  by (auto simp: clamp_prio_def SCHED_PRIORITY_LEVELS_def)

text \<open>Everything about a state but the links of its control blocks.\<close>

definition core :: "process \<Rightarrow> process" where
  "core p = p\<lparr>p_next := None, p_prev := None\<rparr>"

lemma core_fields:
  assumes "core p = core q"
  shows "pstate p = pstate q" "priority p = priority q" "wake_time p = wake_time q" "time_slice p = time_slice q"
    "pid p = pid q" "p_context p = p_context q" "kernel_stack_top p = kernel_stack_top q" "page_table p = page_table q"
    "total_time p = total_time q"
  using assms by (cases p; cases q; simp add: core_def)+

lemma core_links [simp]: "core (p\<lparr>p_next := a\<rparr>) = core p" "core (p\<lparr>p_prev := b\<rparr>) = core p"
  "core (core p) = core p" "p_next (core p) = None" "p_prev (core p) = None"
  by (simp_all add: core_def)

text \<open>A queue walk ends at the last process.\<close>

lemma find_tail_last:
  assumes "dlist (nxt s) pv p (map Some (x # xs)) None"
  shows "find_tail s x = Some (last (x # xs))"
  using assms
proof (induction xs arbitrary: x p)
  case Nil
  then show ?case by (simp add: find_tail.simps)
next
  case (Cons y ys)
  then have "find_tail s y = Some (last (y # ys))" by (intro Cons.IH [of "Some x"]) simp
  then show ?case using Cons.prems by (simp add: find_tail.simps [of s x])
qed

section \<open>Adding a process\<close>

text \<open>What the queue operations leave alone besides the control blocks and the queues.\<close>

definition env :: "sched \<Rightarrow> _" where
  "env s = (current_process (sys s), next_pid (sys s), ps_vmm (sys s), ps_gdt (sys s), current_tick s, idle_proc s,
     cpu_regs s, timer_cb s, scheduler_running s)"

definition slice_for :: "nat \<Rightarrow> u64" where
  "slice_for k = of_nat (37 - k)"

definition requeued :: "process \<Rightarrow> process" where
  "requeued p = (core p)\<lparr>pstate := PROC_READY, time_slice := slice_for (prio_of p)\<rparr>"

lemma slice_for_eq: "of_int (SCHED_TIME_SLICE_BASE + (SCHED_PRIORITY_LEVELS - clamp_prio p)) = slice_for (nat (clamp_prio p))"
  using clamp_range [of p]
  by (simp add: slice_for_def SCHED_TIME_SLICE_BASE_def SCHED_PRIORITY_LEVELS_def of_nat_diff)

lemma scheduler_add_run:
  assumes inv: "sched_inv s Q" and i: "i < 64" "unqueued i Q" "pstate (pcb s i) \<noteq> PROC_UNUSED"
  defines "k \<equiv> prio_of (pcb s i)"
  obtains s' where "scheduler_add (Some i) s = Some s'" "env s' = env s" "sleep_queue s' = sleep_queue s"
    "length (processes (sys s')) = 64"
    "ready_queues s' = (if Q k = [] then (ready_queues s)[k := Some i] else ready_queues s)"
    "ready_bitmap s' = (if Q k = [] then ready_bitmap s OR push_bit k 1 else ready_bitmap s)"
    "\<And>j. pcb s' j = (if j = i then (requeued (pcb s i))\<lparr>p_prev := last_of None (map Some (Q k))\<rparr>
       else if Q k \<noteq> [] \<and> j = last (Q k) then (pcb s j)\<lparr>p_next := Some i\<rparr> else pcb s j)"
proof -
  note D = sched_invD [OF inv]
  have k: "k < 32" "k \<le> 32" using clamp_range by (simp_all add: k_def less_imp_le)
  have len: "i < length (processes (sys s))" using D(1) i(1) by simp
  let ?s1 = "upd i (\<lambda>p. p\<lparr>p_next := None, p_prev := None\<rparr>) s"
  let ?fin = "\<lambda>s. upd i (\<lambda>p. p\<lparr>pstate := PROC_READY, time_slice := slice_for k\<rparr>) s"
  note Ck = chainsD [OF D(3) k(2)]
  show ?thesis
  proof (cases "Q k")
    case Nil
    then have q: "ready_queues s ! k = None" using Ck(1) k(1) by (simp add: qhead_def)
    let ?s' = "?fin (?s1\<lparr>ready_queues := (ready_queues s)[k := Some i], ready_bitmap := ready_bitmap s OR push_bit k 1\<rparr>)"
    have "scheduler_add (Some i) s = Some ?s'"
      using i(3) q slice_for_eq by (simp add: scheduler_add_def Let_def k_def)
    then show ?thesis
      by (rule that) (use Nil len D(1) in \<open>simp_all add: env_def requeued_def core_def k_def last_of_def\<close>)
  next
    case (Cons h t)
    have q: "ready_queues s ! k = Some h" using Ck(1) k(1) Cons by (simp add: qhead_def)
    let ?t = "last (Q k)"
    have mem: "?t \<in> set (Q k)" using Cons by simp
    then have t: "?t < 64" "?t \<noteq> i" using D(4) [OF k(2)] i(2) k(2) by (auto simp: unqueued_def)
    have "dlist (nxt ?s1) (prv ?s1) None (map Some (Q k)) None"
      by (rule chains_other [OF D(3) k(2)]) (use i(2) k(2) len in \<open>auto simp: unqueued_def\<close>)
    then have ft: "find_tail ?s1 h = Some ?t" using find_tail_last [of ?s1 "prv ?s1" None h t] Cons by simp
    let ?s' = "?fin (upd i (\<lambda>p. p\<lparr>p_prev := Some ?t\<rparr>) (upd ?t (\<lambda>p. p\<lparr>p_next := Some i\<rparr>) ?s1))"
    have "scheduler_add (Some i) s = Some ?s'"
      using i(3) q ft slice_for_eq by (simp add: scheduler_add_def Let_def k_def)
    then show ?thesis
      by (rule that) (use Cons len t D(1) in \<open>simp_all add: env_def requeued_def core_def k_def last_of_def last_map\<close>)
  qed
qed


text \<open>Setting and clearing the bit of one queue.\<close>

lemma bitmap_set: "k < 32 \<Longrightarrow> j < 32 \<Longrightarrow> bit ((w :: u32) OR push_bit k 1) j \<longleftrightarrow> bit w j \<or> j = k"
  by (auto simp: bit_or_iff bit_exp_iff)

lemma bitmap_clear: "k < 32 \<Longrightarrow> j < 32 \<Longrightarrow> bit ((w :: u32) AND NOT (push_bit k 1)) j \<longleftrightarrow> bit w j \<and> j \<noteq> k"
  by (auto simp: bit_and_iff bit_not_iff bit_exp_iff)

lemma scheduler_add_spec:
  assumes inv: "sched_inv s Q" and i: "i < 64" "unqueued i Q" "pstate (pcb s i) \<noteq> PROC_UNUSED"
  defines "k \<equiv> prio_of (pcb s i)"
  obtains s' where "scheduler_add (Some i) s = Some s'" "env s' = env s" "sched_inv s' (Q(k := Q k @ [i]))"
    "\<And>j. core (pcb s' j) = (if j = i then core (requeued (pcb s i)) else core (pcb s j))"
proof -
  note D = sched_invD [OF inv]
  have k: "k < 32" "k \<le> 32" "k \<noteq> 32" using clamp_range [of "priority (pcb s i)"] by (simp_all add: k_def)
  note Ck = chainsD [OF D(3) k(2)]
  have ni: "i \<notin> set (Q j)" if "j \<le> 32" for j using i(2) that by (simp add: unqueued_def)
  obtain s' where run: "scheduler_add (Some i) s = Some s'" "env s' = env s" "sleep_queue s' = sleep_queue s"
    "length (processes (sys s')) = 64"
    and rq: "ready_queues s' = (if Q k = [] then (ready_queues s)[k := Some i] else ready_queues s)"
    and bm: "ready_bitmap s' = (if Q k = [] then ready_bitmap s OR push_bit k 1 else ready_bitmap s)"
    and pc: "\<And>j. pcb s' j = (if j = i then (requeued (pcb s i))\<lparr>p_prev := last_of None (map Some (Q k))\<rparr>
       else if Q k \<noteq> [] \<and> j = last (Q k) then (pcb s j)\<lparr>p_next := Some i\<rparr> else pcb s j)"
    by (rule scheduler_add_run [OF inv i, folded k_def]) blast
  have co: "core (pcb s' j) = (if j = i then core (requeued (pcb s i)) else core (pcb s j))" for j by (simp add: pc)
  have pi: "pstate (pcb s' i) = PROC_READY" "prio_of (pcb s' i) = k" by (simp_all add: pc requeued_def core_def k_def)
  have pj: "pstate (pcb s' j) = pstate (pcb s j)" "priority (pcb s' j) = priority (pcb s j)"
    "wake_time (pcb s' j) = wake_time (pcb s j)" if "j \<noteq> i" for j using that by (simp_all add: pc)
  have last: "last (Q k) \<noteq> i" if "Q k \<noteq> []" using ni [OF k(2)] last_in_set [OF that] by auto
  have ch: "chains (nxt s') (prv s') (qhead s') (Q(k := Q k @ i # []))"
    by (rule chains_insert [OF D(3) k(2) _ i(2)])
      (use k D(2) last in \<open>auto simp: pc requeued_def core_def rq qhead_def run(3) split: if_splits\<close>)
  have "sched_inv s' (Q(k := Q k @ [i]))" unfolding sched_inv_def
  proof (intro conjI allI ballI impI)
    show "length (ready_queues s') = 32" using D(2) by (simp add: rq)
    show "chains (nxt s') (prv s') (qhead s') (Q(k := Q k @ [i]))" by (rule ch)
    show "j < 64" if "l \<le> 32" "j \<in> set ((Q(k := Q k @ [i])) l)" for j l
      using that D(4) [of l j] i(1) k(2) by (auto split: if_splits)
    show "pstate (pcb s' j) = PROC_READY" "prio_of (pcb s' j) = l" if "l < 32" "j \<in> set ((Q(k := Q k @ [i])) l)" for j l
      using that D(5) [of l j] ni [of l] pi pj [of j] by (cases "j = i"; auto split: if_splits)+
    show "bit (ready_bitmap s') l = ((Q(k := Q k @ [i])) l \<noteq> [])" if "l < 32" for l
      using bitmap_set [OF k(1) that] D(6) [OF that] by (auto simp: bm)
    have ni32: "j \<noteq> i" if "j \<in> set (Q 32)" for j using ni [of 32] that by auto
    then show "pstate (pcb s' j) = PROC_BLOCKED" if "j \<in> set ((Q(k := Q k @ [i])) 32)" for j
      using that D(7) [of j] pj(1) [of j] k(3) by simp
    show "sorted (map (\<lambda>j. wake_time (pcb s' j)) ((Q(k := Q k @ [i])) 32))"
      using D(8) k(3) pj(3) [OF ni32] by (simp cong: map_cong)
    have un: "unqueued j Q \<and> j \<noteq> i \<and> (Q k \<noteq> [] \<longrightarrow> j \<noteq> last (Q k))" if "unqueued j (Q(k := Q k @ [i]))" for j
      using that k(2) unfolding unqueued_def by (auto simp: fun_upd_def split: if_splits)
    show "p_next (pcb s' j) = None" "p_prev (pcb s' j) = None" if "j < 64" "unqueued j (Q(k := Q k @ [i]))" for j
      using D(9) [OF that(1)] un [OF that(2)] by (auto simp: pc)
  qed (rule run(4))
  then show ?thesis using that run(1,2) co by blast
qed

section \<open>Removing a process\<close>

lemma scheduler_remove_run:
  assumes inv: "sched_inv s Q" and k: "k < 32" "Q k = xs @ i # ys"
  defines "s' \<equiv> scheduler_remove (Some i) s"
  shows "env s' = env s" "sleep_queue s' = sleep_queue s" "length (processes (sys s')) = 64"
    "ready_queues s' = (if xs = [] then (ready_queues s)[k := first_of (map Some ys) None] else ready_queues s)"
    "ready_bitmap s' = (if xs = [] \<and> ys = [] then ready_bitmap s AND NOT (push_bit k 1) else ready_bitmap s)"
    "\<And>j. pcb s' j = (if j = i then core (pcb s i)
       else if xs \<noteq> [] \<and> j = last xs then (pcb s j)\<lparr>p_next := first_of (map Some ys) None\<rparr>
       else if ys \<noteq> [] \<and> j = hd ys then (pcb s j)\<lparr>p_prev := last_of None (map Some xs)\<rparr> else pcb s j)"
proof -
  note D = sched_invD [OF inv]
  have k': "k \<le> 32" using k(1) by simp
  note Ck = chainsD [OF D(3) k', unfolded k(2)]
  have pk: "nat (clamp_prio (priority (pcb s i))) = k" using D(5) [OF k(1)] k(2) by simp
  have links: "p_next (pcb s i) = first_of (map Some ys) None" "p_prev (pcb s i) = last_of None (map Some xs)"
    using Ck(2) by (simp_all add: dlist_append)
  have lt: "j < length (processes (sys s))" if "j \<in> set (xs @ i # ys)" for j using D(1) D(4) [OF k'] k(2) that by simp
  have li: "i < length (processes (sys s))" "i \<noteq> j" if "j \<in> set xs \<union> set ys" for j using lt [of i] Ck(3) that by auto
  have lx: "last xs < length (processes (sys s))" "i \<noteq> last xs" if "xs \<noteq> []" using lt [of "last xs"] li [of "last xs"] that by auto
  have ly: "y < length (processes (sys s))" "i \<noteq> y" "xs \<noteq> [] \<Longrightarrow> last xs \<noteq> y" if "ys = y # zs" for y zs
    using lt [of y] Ck(3) last_in_set [of xs] that by auto
  have i: "i < length (processes (sys s))" using lt [of i] by simp
  have ne: "ready_queues s ! k \<noteq> None" using Ck(1) k(1) by (cases xs) (simp_all add: qhead_def)
  define a where "a = (if xs = [] then s\<lparr>ready_queues := (ready_queues s)[k := first_of (map Some ys) None]\<rparr>
    else upd (last xs) (\<lambda>p. p\<lparr>p_next := first_of (map Some ys) None\<rparr>) s)"
  define b where "b = (case ys of [] \<Rightarrow> a | y # _ \<Rightarrow> upd y (\<lambda>p. p\<lparr>p_prev := last_of None (map Some xs)\<rparr>) a)"
  define c where "c = upd i (\<lambda>p. p\<lparr>p_next := None, p_prev := None\<rparr>) b"
  have a: "env a = env s" "sleep_queue a = sleep_queue s" "length (processes (sys a)) = length (processes (sys s))"
    "ready_queues a = (if xs = [] then (ready_queues s)[k := first_of (map Some ys) None] else ready_queues s)"
    "ready_bitmap a = ready_bitmap s"
    "pcb a j = (if xs \<noteq> [] \<and> j = last xs then (pcb s j)\<lparr>p_next := first_of (map Some ys) None\<rparr> else pcb s j)" for j
    using lx by (auto simp: a_def env_def)
  have b: "env b = env s" "sleep_queue b = sleep_queue s" "length (processes (sys b)) = length (processes (sys s))"
    "ready_queues b = ready_queues a" "ready_bitmap b = ready_bitmap s"
    "pcb b j = (if ys \<noteq> [] \<and> j = hd ys then (pcb a j)\<lparr>p_prev := last_of None (map Some xs)\<rparr> else pcb a j)" for j
    using ly(1) a by (cases ys; auto simp: b_def env_def)+
  have c: "env c = env s" "sleep_queue c = sleep_queue s" "length (processes (sys c)) = length (processes (sys s))"
    "ready_queues c = ready_queues a" "ready_bitmap c = ready_bitmap s"
    "pcb c j = (if j = i then core (pcb b j) else pcb b j)" for j
    using b i by (auto simp: c_def env_def core_def)
  have same: "p_next (pcb a i) = first_of (map Some ys) None" "p_prev (pcb a i) = last_of None (map Some xs)"
    using links lx(2) by (auto simp: a(6))
  have pr: "(case last_of None (map Some xs) of Some q \<Rightarrow> upd q (\<lambda>p. p\<lparr>p_next := first_of (map Some ys) None\<rparr>) s
       | None \<Rightarrow> s\<lparr>ready_queues := (ready_queues s)[k := first_of (map Some ys) None]\<rparr>) = a"
    by (simp add: a_def last_of_def last_map)
  have nx: "(case first_of (map Some ys) None of Some n \<Rightarrow> upd n (\<lambda>p. p\<lparr>p_prev := last_of None (map Some xs)\<rparr>) a | None \<Rightarrow> a) = b"
    by (simp add: b_def first_of_def split: list.split)
  have s0: "s' = (if ready_queues c ! k = None then c\<lparr>ready_bitmap := ready_bitmap c AND NOT (push_bit k 1)\<rparr> else c)"
    unfolding s'_def scheduler_remove_def Let_def option.case pk links pr same nx c_def [symmetric] ..
  have "ready_queues c ! k = None \<longleftrightarrow> xs = [] \<and> ys = []"
    using ne k(1) D(2) by (cases ys) (auto simp: a(4) c(4))
  then have s': "s' = (if xs = [] \<and> ys = [] then c\<lparr>ready_bitmap := ready_bitmap c AND NOT (push_bit k 1)\<rparr> else c)"
    unfolding s0 by (rule if_cong) simp_all
  show "env s' = env s" "sleep_queue s' = sleep_queue s" "length (processes (sys s')) = 64"
    "ready_queues s' = (if xs = [] then (ready_queues s)[k := first_of (map Some ys) None] else ready_queues s)"
    "ready_bitmap s' = (if xs = [] \<and> ys = [] then ready_bitmap s AND NOT (push_bit k 1) else ready_bitmap s)"
    using c a(4) D(1) by (simp_all add: s' env_def)
  have pc: "pcb s' j = pcb c j" for j by (simp add: s')
  have ne: "ys \<noteq> [] \<Longrightarrow> hd ys \<noteq> i" "ys \<noteq> [] \<Longrightarrow> xs \<noteq> [] \<Longrightarrow> last xs \<noteq> hd ys" "xs \<noteq> [] \<Longrightarrow> last xs \<noteq> i"
    using ly(2,3) lx(2) by (cases ys; auto)+
  show "pcb s' j = (if j = i then core (pcb s i)
       else if xs \<noteq> [] \<and> j = last xs then (pcb s j)\<lparr>p_next := first_of (map Some ys) None\<rparr>
       else if ys \<noteq> [] \<and> j = hd ys then (pcb s j)\<lparr>p_prev := last_of None (map Some xs)\<rparr> else pcb s j)" for j
  proof (cases "j = i")
    case True
    then have "\<not> (ys \<noteq> [] \<and> j = hd ys)" "\<not> (xs \<noteq> [] \<and> j = last xs)" using ne by auto
    then show ?thesis using True unfolding pc c(6) b(6) a(6) by simp
  next
    case False
    have "\<not> (ys \<noteq> [] \<and> j = hd ys)" if "xs \<noteq> [] \<and> j = last xs" using ne that by auto
    then show ?thesis using False unfolding pc c(6) b(6) a(6) by auto
  qed
qed


lemma scheduler_remove_spec:
  assumes inv: "sched_inv s Q" and k: "k < 32" "Q k = xs @ i # ys"
  defines "s' \<equiv> scheduler_remove (Some i) s"
  shows "env s' = env s" "sched_inv s' (Q(k := xs @ ys))" "core (pcb s' j) = core (pcb s j)" "unqueued i (Q(k := xs @ ys))"
proof -
  note D = sched_invD [OF inv]
  note R = scheduler_remove_run [OF inv k, folded s'_def]
  have k': "k \<le> 32" "k \<noteq> 32" using k(1) by simp_all
  note Ck = chainsD [OF D(3) k'(1)]
  have dist: "i \<notin> set xs" "i \<notin> set ys" "set xs \<inter> set ys = {}" using Ck(3) k(2) by auto
  have ne: "xs \<noteq> [] \<Longrightarrow> last xs \<noteq> i" "xs \<noteq> [] \<Longrightarrow> ys \<noteq> [] \<Longrightarrow> last xs \<noteq> hd ys" "ys \<noteq> [] \<Longrightarrow> hd ys \<noteq> i"
    using dist by (cases xs rule: rev_cases; cases ys; auto)+
  show "env s' = env s" by (rule R(1))
  show co: "core (pcb s' j) = core (pcb s j)" for j
  proof (cases "j = i")
    case True
    then show ?thesis unfolding R(6) by simp
  next
    case False
    then show ?thesis unfolding R(6) if_not_P [OF False] by (auto split: if_split)
  qed
  note same = core_fields [OF co]
  show un: "unqueued i (Q(k := xs @ ys))" unfolding unqueued_def
  proof (intro allI impI)
    fix l :: nat assume "l \<le> 32"
    then show "i \<notin> set ((Q(k := xs @ ys)) l)" using Ck(4) [of l] k(2) dist by (cases "l = k") auto
  qed
  have sub: "j \<in> set ((Q(k := xs @ ys)) l) \<Longrightarrow> j \<in> set (Q l)" for j l using k(2) by (auto split: if_splits)
  have ch: "chains (nxt s') (prv s') (qhead s') (Q(k := xs @ ys))"
    by (rule chains_unlink [OF D(3) k'(1) k(2)])
      (use k D(2) ne in \<open>auto simp: R(2,4,6) qhead_def neq_Nil_conv\<close>)
  show "sched_inv s' (Q(k := xs @ ys))" unfolding sched_inv_def same(1,2)
  proof (intro conjI allI ballI impI)
    show "length (processes (sys s')) = 64" "length (ready_queues s') = 32" using D(2) R(3) by (simp_all add: R(4))
    show "j < 64" if "l \<le> 32" "j \<in> set ((Q(k := xs @ ys)) l)" for j l using D(4) [OF that(1) sub [OF that(2)]] .
    show "pstate (pcb s j) = PROC_READY" "prio_of (pcb s j) = l" if "l < 32" "j \<in> set ((Q(k := xs @ ys)) l)" for j l
      using D(5) [OF that(1) sub [OF that(2)]] by simp_all
    show "pstate (pcb s j) = PROC_BLOCKED" if "j \<in> set ((Q(k := xs @ ys)) 32)" for j using D(7) [OF sub [OF that]] .
    show "bit (ready_bitmap s') l = ((Q(k := xs @ ys)) l \<noteq> [])" if "l < 32" for l
      using bitmap_clear [OF k(1) that] D(6) [OF that] k(2) by (auto simp: R(5))
    show "sorted (map (\<lambda>j. wake_time (pcb s' j)) ((Q(k := xs @ ys)) 32))" using D(8) k'(2) same(3) by simp
    have other: "unqueued j Q \<and> (xs \<noteq> [] \<longrightarrow> j \<noteq> last xs) \<and> (ys \<noteq> [] \<longrightarrow> j \<noteq> hd ys)"
      if "unqueued j (Q(k := xs @ ys))" "j \<noteq> i" for j
    proof -
      have "j \<notin> set (xs @ ys)" using that(1) k'(1) unfolding unqueued_def by (metis fun_upd_same)
      moreover have "j \<notin> set (Q l)" if "l \<le> 32" for l
        using that \<open>unqueued j (Q(k := xs @ ys))\<close> \<open>j \<noteq> i\<close> calculation k(2) unfolding unqueued_def by (cases "l = k") auto
      ultimately show ?thesis using last_in_set [of xs] hd_in_set [of ys] by (auto simp: unqueued_def)
    qed
    show "p_next (pcb s' j) = None" "p_prev (pcb s' j) = None" if "j < 64" "unqueued j (Q(k := xs @ ys))" for j
      using D(9) [OF that(1)] other [OF that(2)] by (cases "j = i"; auto simp: R(6))+
  qed (rule ch)
qed

section \<open>Choosing the next process\<close>

lemma lowest_bit_spec:
  assumes "bit (w :: u32) k" "k < 32" "\<And>j. j < k \<Longrightarrow> \<not> bit w j"
  shows "lowest_bit w = k"
proof -
  have "find (bit w) [0..<32] = Some k"
    unfolding find_Some_iff using assms by (intro exI [of _ k]) simp
  then show ?thesis by (simp add: lowest_bit_def)
qed

lemma find_next_highest:
  assumes inv: "sched_inv s Q" and "k < 32" "Q k = n # ys" "\<And>j. j < k \<Longrightarrow> Q j = []"
  shows "find_next_process s = Some n"
proof -
  note D = sched_invD [OF inv]
  have b: "bit (ready_bitmap s) k" using D(6) assms(2,3) by simp
  have "lowest_bit (ready_bitmap s) = k"
    by (rule lowest_bit_spec [OF b assms(2)]) (use D(6) assms(2,4) in simp)
  moreover have "ready_bitmap s \<noteq> 0" using b by auto
  moreover have "ready_queues s ! k = Some n" using chainsD(1) [OF D(3), of k] assms(2,3) by (simp add: qhead_def)
  ultimately show ?thesis by (simp add: find_next_process_def)
qed

lemma find_next_idle:
  assumes inv: "sched_inv s Q" and "\<And>j. j < 32 \<Longrightarrow> Q j = []"
  shows "find_next_process s = idle_proc s"
proof -
  have "\<not> bit (ready_bitmap s) j" for j
    using sched_invD(6) [OF inv, of j] assms(2) [of j] bit_imp_le_length [of "ready_bitmap s" j] by (cases "j < 32") auto
  then have "ready_bitmap s = 0" by (simp add: bit_eq_iff)
  then show ?thesis by (simp add: find_next_process_def)
qed


section \<open>Switching to the next process\<close>

text \<open>What matters to the invariant: the queued control blocks, and the links of the others.\<close>

lemma sched_inv_cong:
  assumes inv: "sched_inv s Q" and eq: "ready_queues s' = ready_queues s" "ready_bitmap s' = ready_bitmap s"
      "sleep_queue s' = sleep_queue s" "length (processes (sys s')) = length (processes (sys s))"
    and same: "\<And>j. \<not> unqueued j Q \<Longrightarrow> pstate (pcb s' j) = pstate (pcb s j) \<and> priority (pcb s' j) = priority (pcb s j)
      \<and> wake_time (pcb s' j) = wake_time (pcb s j)"
    and links: "\<And>j. p_next (pcb s' j) = p_next (pcb s j)" "\<And>j. p_prev (pcb s' j) = p_prev (pcb s j)"
  shows "sched_inv s' Q"
proof -
  note D = sched_invD [OF inv]
  have f: "pstate (pcb s' j) = pstate (pcb s j)" "priority (pcb s' j) = priority (pcb s j)"
    "wake_time (pcb s' j) = wake_time (pcb s j)" if "k \<le> 32" "j \<in> set (Q k)" for j k
    using same [of j] that by (auto simp: unqueued_def)
  have "nxt s' = nxt s" "prv s' = prv s" "qhead s' = qhead s"
    by (auto simp: nxt_def prv_def qhead_def links eq split: option.split)
  then have "chains (nxt s') (prv s') (qhead s') Q" using D(3) by simp
  moreover have "sorted (map (\<lambda>i. wake_time (pcb s' i)) (Q 32))"
    using D(8) f(3) [of 32] by (simp cong: map_cong)
  moreover have "pstate (pcb s' i) = PROC_READY \<and> prio_of (pcb s' i) = k" if "k < 32" "i \<in> set (Q k)" for k i
    using D(5) [OF that] f(1,2) [of k i] that by simp
  moreover have "pstate (pcb s' i) = PROC_BLOCKED" if "i \<in> set (Q 32)" for i using D(7) [OF that] f(1) [of 32 i] that by simp
  ultimately show ?thesis using D(1,2,4,6,9) unfolding sched_inv_def eq links by blast
qed

lemma sched_inv_upd:
  assumes "sched_inv s Q" "unqueued i Q" "i < 64" "\<And>p. p_next (f p) = p_next p" "\<And>p. p_prev (f p) = p_prev p"
  shows "sched_inv (upd i f s) Q"
  by (rule sched_inv_cong [OF assms(1)]) (use assms sched_invD(1) [OF assms(1)] in auto)

text \<open>A process that is neither ready nor blocked is in no queue.\<close>

lemma running_unqueued:
  assumes "sched_inv s Q" "pstate (pcb s i) \<noteq> PROC_READY" "pstate (pcb s i) \<noteq> PROC_BLOCKED"
  shows "unqueued i Q"
  unfolding unqueued_def
proof (intro allI impI notI)
  fix k :: nat assume "k \<le> 32" "i \<in> set (Q k)"
  then show False using sched_invD(5) [OF assms(1), of k i] sched_invD(7) [OF assms(1), of i] assms(2,3) by (cases "k = 32") auto
qed

text \<open>The last part of \<open>schedule\<close>: from the removal of the chosen process to the switch.\<close>

definition dispatch :: "nat option \<Rightarrow> nat \<Rightarrow> sched \<Rightarrow> sched" where
  "dispatch cur n s = switch_to cur n (switch_tables n (set_current (Some n) (upd n (\<lambda>p. p\<lparr>pstate := PROC_RUNNING\<rparr>) s)))"

lemma set_current_fields [simp]:
  "pcb (set_current pr s) j = pcb s j" "ready_queues (set_current pr s) = ready_queues s"
  "ready_bitmap (set_current pr s) = ready_bitmap s" "sleep_queue (set_current pr s) = sleep_queue s"
  "current_process (sys (set_current pr s)) = pr" "cpu_regs (set_current pr s) = cpu_regs s"
  "processes (sys (set_current pr s)) = processes (sys s)" "ps_vmm (sys (set_current pr s)) = ps_vmm (sys s)"
  "idle_proc (set_current pr s) = idle_proc s" "current_tick (set_current pr s) = current_tick s"
  by (simp_all add: set_current_def process_set_current_def pcb_def Let_def split: option.split)

lemma switch_tables_fields [simp]:
  "pcb (switch_tables n s) j = pcb s j" "ready_queues (switch_tables n s) = ready_queues s"
  "ready_bitmap (switch_tables n s) = ready_bitmap s" "sleep_queue (switch_tables n s) = sleep_queue s"
  "current_process (sys (switch_tables n s)) = current_process (sys s)" "cpu_regs (switch_tables n s) = cpu_regs s"
  "processes (sys (switch_tables n s)) = processes (sys s)" "ps_gdt (sys (switch_tables n s)) = ps_gdt (sys s)"
  "idle_proc (switch_tables n s) = idle_proc s" "current_tick (switch_tables n s) = current_tick s"
  "vm_mem (ps_vmm (sys (switch_tables n s))) = vm_mem (ps_vmm (sys s))"
  by (simp_all add: switch_tables_def pcb_def vmm_switch_address_space_def vmm_set_cr3_def)

definition tss_stack :: "sched \<Rightarrow> u64" where
  "tss_stack s = rsp0 (tss (ps_gdt (sys s)))"


abbreviation mem_of :: "sched \<Rightarrow> mem" where
  "mem_of s \<equiv> vm_mem (ps_vmm (sys s))"

text \<open>
  The hand-over of the processor from \<open>c\<close> to \<open>n\<close>: the registers of \<open>c\<close> are on its stack, where its control
  block says, and those of \<open>n\<close> are loaded from the frame its control block points to.
\<close>

definition hand_over :: "sched \<Rightarrow> nat \<Rightarrow> nat \<Rightarrow> sched \<Rightarrow> bool" where
  "hand_over s c n s' \<longleftrightarrow>
     p_context (pcb s' c) = rsp (cpu_regs s) - 56 \<and> frame_holds (p_context (pcb s' c)) (cpu_regs s) (mem_of s')
     \<and> (\<forall>d. frame_holds (p_context (pcb s n)) d (mem_of s') \<longrightarrow> cpu_regs s' = d\<lparr>rsp := p_context (pcb s n) + 56\<rparr>)
     \<and> (\<forall>a. aligned 3 a \<longrightarrow> \<not> a - (rsp (cpu_regs s) - 56) < 56 \<longrightarrow> load64 (mem_of s') a = load64 (mem_of s) a)"

lemma switch_to_spec:
  fixes n :: nat
  assumes "c < length (processes (sys s))"
  defines "s' \<equiv> switch_to (Some c) n s"
  shows "ready_queues s' = ready_queues s" "ready_bitmap s' = ready_bitmap s" "sleep_queue s' = sleep_queue s"
    "length (processes (sys s')) = length (processes (sys s))" "current_process (sys s') = current_process (sys s)"
    "ps_gdt (sys s') = ps_gdt (sys s)" "idle_proc s' = idle_proc s" "current_tick s' = current_tick s"
    "\<exists>saved. \<forall>j. pcb s' j = (if j = c then (pcb s j)\<lparr>p_context := saved\<rparr> else pcb s j)"
    "aligned 3 (rsp (cpu_regs s)) \<Longrightarrow> hand_over s c n s'"
proof -
  obtain saved r m where sw: "context_switch None (p_context (pcb s n)) (cpu_regs s, mem_of s) = (saved, r, m)"
    by (metis prod_cases3)
  let ?t = "s\<lparr>cpu_regs := r, sys := (sys s)\<lparr>ps_vmm := (ps_vmm (sys s))\<lparr>vm_mem := m\<rparr>\<rparr>\<rparr>"
  have s': "s' = upd c (\<lambda>p. p\<lparr>p_context := saved\<rparr>) ?t" using sw by (simp add: s'_def switch_to_def Let_def)
  have t: "pcb ?t j = pcb s j" for j by (simp add: pcb_def)
  have pc: "pcb s' j = (if j = c then (pcb s j)\<lparr>p_context := saved\<rparr> else pcb s j)" for j
    unfolding s' using assms(1) by (simp add: t)
  then show "\<exists>saved. \<forall>j. pcb s' j = (if j = c then (pcb s j)\<lparr>p_context := saved\<rparr> else pcb s j)" by blast
  show "ready_queues s' = ready_queues s" "ready_bitmap s' = ready_bitmap s" "sleep_queue s' = sleep_queue s"
    "length (processes (sys s')) = length (processes (sys s))" "current_process (sys s') = current_process (sys s)"
    "ps_gdt (sys s') = ps_gdt (sys s)" "idle_proc s' = idle_proc s" "current_tick s' = current_tick s"
    by (simp_all add: s')
  show "hand_over s c n s'" if "aligned 3 (rsp (cpu_regs s))"
    using context_switch_saves [OF that sw] pc [of c] by (simp add: hand_over_def old_outside_def s')
qed

lemma dispatch_spec:
  assumes inv: "sched_inv s Q" and n: "n < 64" "unqueued n Q" and c: "c < 64" "c \<noteq> n"
  defines "s' \<equiv> dispatch (Some c) n s"
  shows "sched_inv s' Q" "current_process (sys s') = Some n" "tss_stack s' = kernel_stack_top (pcb s n)"
    "pcb s' n = (pcb s n)\<lparr>pstate := PROC_RUNNING\<rparr>" "\<exists>saved. pcb s' c = (pcb s c)\<lparr>p_context := saved\<rparr>"
    "\<And>j. j \<noteq> n \<Longrightarrow> j \<noteq> c \<Longrightarrow> pcb s' j = pcb s j" "idle_proc s' = idle_proc s" "current_tick s' = current_tick s"
    "aligned 3 (rsp (cpu_regs s)) \<Longrightarrow> hand_over s c n s'"
proof -
  let ?a = "upd n (\<lambda>p. p\<lparr>pstate := PROC_RUNNING\<rparr>) s"
  let ?b = "switch_tables n (set_current (Some n) ?a)"
  note D = sched_invD [OF inv]
  have a: "sched_inv ?a Q" by (rule sched_inv_upd [OF inv n(2,1)]) simp_all
  have b: "sched_inv ?b Q" by (rule sched_inv_cong [OF a]) simp_all
  have len: "c < length (processes (sys ?b))" using c(1) D(1) by simp
  note S = switch_to_spec [OF len, of n, folded s'_def [unfolded dispatch_def]]
  obtain saved where pc: "\<And>j. pcb s' j = (if j = c then (pcb ?b j)\<lparr>p_context := saved\<rparr> else pcb ?b j)" using S(9) by blast
  have pb: "pcb ?b j = (if j = n then (pcb s n)\<lparr>pstate := PROC_RUNNING\<rparr> else pcb s j)" for j using D(1) n(1) by simp
  show "pcb s' n = (pcb s n)\<lparr>pstate := PROC_RUNNING\<rparr>" "\<exists>saved. pcb s' c = (pcb s c)\<lparr>p_context := saved\<rparr>"
    "\<And>j. j \<noteq> n \<Longrightarrow> j \<noteq> c \<Longrightarrow> pcb s' j = pcb s j" unfolding pc pb using c(2) by auto
  show "sched_inv s' Q" by (rule sched_inv_cong [OF b]) (simp_all add: S(1-4) pc)
  show "current_process (sys s') = Some n" "idle_proc s' = idle_proc s" "current_tick s' = current_tick s"
    by (simp_all add: S(5,7,8))
  show "tss_stack s' = kernel_stack_top (pcb s n)"
    using D(1) n(1) unfolding tss_stack_def S(6)
    by (simp add: set_current_def process_set_current_def gdt_set_tss_stack_def upd_def upd_proc_def pcb_def Let_def)
  show "hand_over s c n s'" if "aligned 3 (rsp (cpu_regs s))"
    using S(10) that D(1) n(1) by (auto simp: hand_over_def)
qed


text \<open>The queues after the processor goes from \<open>c\<close> to the first process of queue \<open>k\<close>.\<close>

definition rotate_queues :: "nat \<Rightarrow> nat \<Rightarrow> nat \<Rightarrow> (nat \<Rightarrow> nat list) \<Rightarrow> nat \<Rightarrow> nat list" where
  "rotate_queues p c k Q = (let Q = Q(p := Q p @ [c]) in Q(k := tl (Q k)))"

lemma schedule_spec:
  assumes inv: "sched_inv s Q" and cur: "current_process (sys s) = Some c" "c < 64" "pstate (pcb s c) = PROC_RUNNING"
    and k: "k < 32" "Q k = n # ys" "\<And>j. j < k \<Longrightarrow> Q j = []"
  obtains s' where "schedule s = Some s'" "sched_inv s' (rotate_queues (prio_of (pcb s c)) c k Q)"
    "current_process (sys s') = Some n" "tss_stack s' = kernel_stack_top (pcb s n)" "c \<noteq> n" "n < 64"
    "core (pcb s' n) = core ((pcb s n)\<lparr>pstate := PROC_RUNNING\<rparr>)"
    "\<exists>saved. core (pcb s' c) = core ((requeued (pcb s c))\<lparr>p_context := saved\<rparr>)"
    "\<And>j. j \<noteq> n \<Longrightarrow> j \<noteq> c \<Longrightarrow> core (pcb s' j) = core (pcb s j)" "idle_proc s' = idle_proc s" "current_tick s' = current_tick s"
    "aligned 3 (rsp (cpu_regs s)) \<Longrightarrow> hand_over s c n s'"
proof -
  note D = sched_invD [OF inv]
  let ?p = "prio_of (pcb s c)"
  have uc: "unqueued c Q" using running_unqueued [OF inv] cur(3) by simp
  have nq: "n \<in> set (Q k)" "n < 64" using k(1,2) D(4) [of k n] by simp_all
  have cn: "c \<noteq> n" using uc nq(1) k(1) by (auto simp: unqueued_def)
  let ?a = "upd c (\<lambda>p. p\<lparr>pstate := PROC_READY\<rparr>) s"
  have a: "sched_inv ?a Q" by (rule sched_inv_upd [OF inv uc cur(2)]) simp_all
  have pa: "pcb ?a j = (if j = c then (pcb s c)\<lparr>pstate := PROC_READY\<rparr> else pcb s j)" for j using D(1) cur(2) by auto
  have un: "pstate (pcb ?a c) \<noteq> PROC_UNUSED" by (simp add: pa)
  obtain b where b: "scheduler_add (Some c) ?a = Some b" "env b = env ?a" "sched_inv b (Q(?p := Q ?p @ [c]))"
    "\<And>j. core (pcb b j) = (if j = c then core (requeued (pcb ?a c)) else core (pcb ?a j))"
    by (rule scheduler_add_spec [OF a cur(2) uc un]) (simp add: pa)
  let ?Q = "Q(?p := Q ?p @ [c])"
  obtain zs where zs: "?Q k = [] @ n # zs" using k(2) by (cases "k = ?p") auto
  define d where "d = scheduler_remove (Some n) b"
  note R = scheduler_remove_spec [OF b(3) k(1) zs, folded d_def]
  define s' where "s' = dispatch (Some c) n d"
  note S = dispatch_spec [OF R(2) nq(2) R(4) cur(2) cn, folded s'_def]
  have nx: "find_next_process s = Some n" by (rule find_next_highest [OF inv k])
  have run: "schedule s = Some s'"
    using cur cn b(1) by (simp add: schedule_def nx process_current_def Let_def s'_def dispatch_def d_def)
  have rq: "?Q(k := [] @ zs) = rotate_queues ?p c k Q" using zs by (simp add: rotate_queues_def Let_def)
  have core_d: "core (pcb d j) = (if j = c then core (requeued (pcb s c)) else core (pcb s j))" for j
    using R(3) [of j] b(4) [of j] by (simp add: pa requeued_def core_def)
  have kn: "kernel_stack_top (pcb d n) = kernel_stack_top (pcb s n)" "p_context (pcb d n) = p_context (pcb s n)"
    using core_fields [of "pcb d n" "pcb s n"] core_d [of n] cn by simp_all
  have ed: "env d = env s" using R(1) b(2) by (simp add: env_def)
  then have e: "cpu_regs d = cpu_regs s" "mem_of d = mem_of s" "idle_proc d = idle_proc s" "current_tick d = current_tick s"
    by (simp_all add: env_def)
  have core_upd: "core (p\<lparr>pstate := x\<rparr>) = (core p)\<lparr>pstate := x\<rparr>" "core (p\<lparr>p_context := y\<rparr>) = (core p)\<lparr>p_context := y\<rparr>" for p x y
    by (simp_all add: core_def)
  show ?thesis
  proof (rule that [OF run])
    show "sched_inv s' (rotate_queues ?p c k Q)" by (rule S(1) [unfolded rq])
    show "tss_stack s' = kernel_stack_top (pcb s n)" using S(3) kn by simp
    show "core (pcb s' n) = core ((pcb s n)\<lparr>pstate := PROC_RUNNING\<rparr>)" using S(4) core_d [of n] cn by (simp add: core_upd)
    show "\<exists>saved. core (pcb s' c) = core ((requeued (pcb s c))\<lparr>p_context := saved\<rparr>)"
    proof -
      obtain sv where "pcb s' c = (pcb d c)\<lparr>p_context := sv\<rparr>" using S(5) by blast
      then show ?thesis using core_d [of c] by (intro exI [of _ sv]) (simp add: core_upd)
    qed
    show "core (pcb s' j) = core (pcb s j)" if "j \<noteq> n" "j \<noteq> c" for j using S(6) core_d [of j] that by simp
    show "idle_proc s' = idle_proc s" "current_tick s' = current_tick s" using S(7,8) e by simp_all
    show "hand_over s c n s'" if "aligned 3 (rsp (cpu_regs s))" using S(9) that by (auto simp: hand_over_def kn e)
  qed (use S(2) cn nq in simp_all)
qed


text \<open>Calling \<open>schedule\<close> again and again, each time from the process that runs then.\<close>

fun schedule_times :: "nat \<Rightarrow> sched \<Rightarrow> sched option" where
  "schedule_times 0 s = Some s"
| "schedule_times (Suc m) s = (case schedule_times m s of None \<Rightarrow> None | Some t \<Rightarrow> schedule t)"

text \<open>The process \<open>hd cs\<close> runs and the others of \<open>cs\<close> wait in this order in queue \<open>k\<close>, the first non-empty one.\<close>

definition round_state :: "sched \<Rightarrow> nat \<Rightarrow> nat list \<Rightarrow> bool" where
  "round_state s k cs \<longleftrightarrow> (\<exists>Q. sched_inv s Q \<and> Q k = tl cs \<and> (\<forall>j < k. Q j = [])) \<and> k < 32 \<and> cs \<noteq> []
     \<and> current_process (sys s) = Some (hd cs) \<and> hd cs < 64 \<and> pstate (pcb s (hd cs)) = PROC_RUNNING
     \<and> prio_of (pcb s (hd cs)) = k"

lemma schedule_round:
  assumes "round_state s k cs" "tl cs \<noteq> []"
  shows "\<exists>s'. schedule s = Some s' \<and> round_state s' k (rotate1 cs)"
proof -
  obtain Q where inv: "sched_inv s Q" and Q: "Q k = tl cs" "\<And>j. j < k \<Longrightarrow> Q j = []"
    using assms(1) by (auto simp: round_state_def)
  have k: "k < 32" and cur: "current_process (sys s) = Some (hd cs)" "hd cs < 64" "pstate (pcb s (hd cs)) = PROC_RUNNING"
    and pk: "prio_of (pcb s (hd cs)) = k" using assms(1) by (simp_all add: round_state_def)
  obtain c n ys where cs: "cs = c # n # ys" using assms by (cases cs; cases "tl cs") (auto simp: round_state_def)
  have Qk: "Q k = n # ys" using Q(1) cs by simp
  obtain s' where s': "schedule s = Some s'" "sched_inv s' (rotate_queues (prio_of (pcb s (hd cs))) (hd cs) k Q)"
    "current_process (sys s') = Some n" "n < 64" "core (pcb s' n) = core ((pcb s n)\<lparr>pstate := PROC_RUNNING\<rparr>)"
    using schedule_spec [OF inv cur k Qk Q(2)] by metis
  have "prio_of (pcb s n) = k" using sched_invD(5) [OF inv k, of n] Qk by simp
  then have "pstate (pcb s' n) = PROC_RUNNING" "prio_of (pcb s' n) = k" using core_fields(1,2) [OF s'(5)] by simp_all
  moreover have "rotate_queues (prio_of (pcb s (hd cs))) (hd cs) k Q = Q(k := ys @ [c])"
    using pk Qk cs by (simp add: rotate_queues_def)
  ultimately have "round_state s' k (n # ys @ [c])"
    using s'(2,3,4) k Q(2) unfolding round_state_def by (auto intro!: exI [of _ "Q(k := ys @ [c])"])
  then show ?thesis using s'(1) cs by simp
qed

lemma schedule_times_round:
  assumes "round_state s k cs" "tl cs \<noteq> []"
  shows "\<exists>s'. schedule_times m s = Some s' \<and> round_state s' k (rotate m cs)"
proof (induction m)
  case 0
  then show ?case using assms(1) by simp
next
  case (Suc m)
  then obtain t where t: "schedule_times m s = Some t" "round_state t k (rotate m cs)" by blast
  have "1 < length cs" using assms(2) by (cases cs) auto
  then have "length (tl (rotate m cs)) \<noteq> 0" by simp
  then have "tl (rotate m cs) \<noteq> []" by force
  then show ?case using schedule_round [OF t(2)] t(1) by simp
qed


section \<open>Sleeping and waking\<close>

lemma sleep_pop:
  assumes inv: "sched_inv s Q" and q: "Q 32 = i # ys"
  defines "s' \<equiv> upd i (\<lambda>p. p\<lparr>p_next := None, p_prev := None\<rparr>)
    (case first_of (map Some ys) None of None \<Rightarrow> s\<lparr>sleep_queue := None\<rparr>
     | Some n \<Rightarrow> upd n (\<lambda>p. p\<lparr>p_prev := None\<rparr>) (s\<lparr>sleep_queue := Some n\<rparr>))"
  shows "sched_inv s' (Q(32 := ys))" "env s' = env s" "unqueued i (Q(32 := ys))" "\<And>j. core (pcb s' j) = core (pcb s j)"
proof -
  note D = sched_invD [OF inv]
  note C = chainsD [OF D(3) order_refl, unfolded q]
  have lt: "j < length (processes (sys s))" if "j \<in> set (i # ys)" for j using D(4) [of 32 j] D(1) q that by simp
  have f: "sleep_queue s' = first_of (map Some ys) None" "ready_queues s' = ready_queues s" "ready_bitmap s' = ready_bitmap s"
    "length (processes (sys s')) = length (processes (sys s))" "env s' = env s" unfolding s'_def env_def by (cases ys; simp)+
  have pc: "pcb s' j = (if j = i then core (pcb s j) else if ys \<noteq> [] \<and> j = hd ys then (pcb s j)\<lparr>p_prev := None\<rparr> else pcb s j)" for j
    using lt C(3) by (cases ys) (auto simp: s'_def core_def)
  show "env s' = env s" by (rule f(5))
  show co: "core (pcb s' j) = core (pcb s j)" for j by (simp add: pc)
  note same = core_fields [OF co]
  have other: "i \<notin> set (Q j)" if "j < 32" for j using C(4) [of j] that by auto
  show un: "unqueued i (Q(32 := ys))" using other C(3) by (auto simp: unqueued_def le_less)
  have ch: "chains (nxt s') (prv s') (qhead s') (Q(32 := [] @ ys))"
    by (rule chains_unlink [where xs = "[]" and i = i and ys = ys, OF D(3) order_refl])
      (cases ys; auto simp: q pc f qhead_def)+
  show "sched_inv s' (Q(32 := ys))" unfolding sched_inv_def same(1,2) f(2,3)
  proof (intro conjI allI ballI impI)
    show "chains (nxt s') (prv s') (qhead s') (Q(32 := ys))" using ch by simp
    show "j < 64" if "k \<le> 32" "j \<in> set ((Q(32 := ys)) k)" for j k using D(4) [OF that(1), of j] that q by (cases "k = 32") auto
    show "sorted (map (\<lambda>j. wake_time (pcb s' j)) ((Q(32 := ys)) 32))" using D(8) q same(3) by simp
    show "p_next (pcb s' j) = None" "p_prev (pcb s' j) = None" if j: "j < 64" "unqueued j (Q(32 := ys))" for j
    proof -
      have "j = i \<or> unqueued j Q" using j(2) q unfolding unqueued_def by (metis fun_upd_other fun_upd_same set_ConsD)
      moreover have "ys \<noteq> [] \<Longrightarrow> j \<noteq> hd ys" using j(2) hd_in_set [of ys] unfolding unqueued_def by (metis fun_upd_same order_refl)
      ultimately show "p_next (pcb s' j) = None" "p_prev (pcb s' j) = None" using D(9) [OF j(1)] by (auto simp: pc)
    qed
  qed (use D f(4) q in auto)
qed

text \<open>Appending the processes of a list, in order, to the queues of their priorities.\<close>

definition wake_into :: "(nat \<Rightarrow> nat) \<Rightarrow> nat list \<Rightarrow> (nat \<Rightarrow> nat list) \<Rightarrow> nat \<Rightarrow> nat list" where
  "wake_into pr due Q = fold (\<lambda>i Q. Q(pr i := Q (pr i) @ [i])) due Q"

lemma wake_into_queue: "wake_into pr due Q k = Q k @ filter (\<lambda>i. pr i = k) due"
  by (induction due arbitrary: Q) (simp_all add: wake_into_def)

lemma wake_loop_spec:
  assumes "sched_inv s Q"
  defines "due \<equiv> takeWhile (\<lambda>i. wake_time (pcb s i) \<le> current_tick s) (Q 32)"
    and "late \<equiv> dropWhile (\<lambda>i. wake_time (pcb s i) \<le> current_tick s) (Q 32)"
  shows "\<exists>s'. wake_loop s = Some s' \<and> env s' = env s \<and> sched_inv s' (wake_into (\<lambda>i. prio_of (pcb s i)) due (Q(32 := late)))
    \<and> (\<forall>j. core (pcb s' j) = (if j \<in> set due then core (requeued (pcb s j)) else core (pcb s j)))"
  using assms(1) unfolding due_def late_def
proof (induction "Q 32" arbitrary: s Q)
  case Nil
  then have "sleep_queue s = None" using chainsD(1) [OF sched_invD(3), of s Q 32] by (simp add: qhead_def)
  moreover have "Q(32 := []) = Q" using Nil(1) by (auto simp: fun_eq_iff)
  ultimately show ?case using Nil by (simp add: wake_loop.simps [of s] wake_into_def)
next
  case (Cons i ys)
  note inv = Cons.prems and q = Cons.hyps(2) [symmetric]
  note D = sched_invD [OF inv]
  have sq: "sleep_queue s = Some i" "p_next (pcb s i) = first_of (map Some ys) None"
    using chainsD(1,2) [OF D(3), of 32] q by (simp_all add: qhead_def)
  show ?case
  proof (cases "wake_time (pcb s i) \<le> current_tick s")
    case False
    have "Q(32 := i # ys) = Q" using q by (auto simp: fun_eq_iff)
    then show ?thesis using False inv sq(1) q by (simp add: wake_loop.simps [of s] wake_into_def)
  next
    case True
    define a where "a = upd i (\<lambda>p. p\<lparr>p_next := None, p_prev := None\<rparr>)
      (case first_of (map Some ys) None of None \<Rightarrow> s\<lparr>sleep_queue := None\<rparr>
       | Some n \<Rightarrow> upd n (\<lambda>p. p\<lparr>p_prev := None\<rparr>) (s\<lparr>sleep_queue := Some n\<rparr>))"
    note A = sleep_pop [OF inv q, folded a_def]
    note ca = core_fields [OF A(4)]
    have i: "i < 64" "pstate (pcb a i) \<noteq> PROC_UNUSED" using D(4) [of 32 i] D(7) [of i] q ca(1) by simp_all
    let ?p = "prio_of (pcb s i)"
    have p: "?p \<noteq> 32" using clamp_range(3) [of "priority (pcb s i)"] by linarith
    let ?Q = "(Q(32 := ys))(?p := Q ?p @ [i])"
    obtain b where b: "scheduler_add (Some i) a = Some b" "env b = env a" "sched_inv b ?Q"
      "\<And>j. core (pcb b j) = (if j = i then core (requeued (pcb a i)) else core (pcb a j))"
      by (rule scheduler_add_spec [OF A(1) i(1) A(3) i(2)]) (use p ca(2) [of i] in simp)
    have tick: "current_tick b = current_tick s" using b(2) A(2) by (simp add: env_def)
    have rq: "core (requeued (pcb a i)) = core (requeued (pcb s i))" using A(4) [of i] ca(2) [of i] by (simp add: requeued_def)
    have cb: "core (pcb b j) = (if j = i then core (requeued (pcb s i)) else core (pcb s j))" for j
      using b(4) [of j] A(4) [of j] rq by simp
    have fb: "wake_time (pcb b j) = wake_time (pcb s j)" "priority (pcb b j) = priority (pcb s j)" for j
      using cb [of j] core_fields(2,3) [of "pcb b j" "requeued (pcb s j)"] core_fields(2,3) [of "pcb b j" "pcb s j"]
      by (auto simp: requeued_def core_def split: if_splits)
    have dist: "i \<notin> set ys" using chainsD(3) [OF D(3), of 32] q by simp
    obtain s' where s': "wake_loop b = Some s'" "env s' = env b"
      "sched_inv s' (wake_into (\<lambda>j. prio_of (pcb b j)) (takeWhile (\<lambda>j. wake_time (pcb b j) \<le> current_tick b) ys)
         (?Q(32 := dropWhile (\<lambda>j. wake_time (pcb b j) \<le> current_tick b) ys)))"
      "\<forall>j. core (pcb s' j) = (if j \<in> set (takeWhile (\<lambda>j. wake_time (pcb b j) \<le> current_tick b) ys)
         then core (requeued (pcb b j)) else core (pcb b j))"
      using Cons.hyps(1) [of ?Q b] b(3) p by auto
    have run: "wake_loop s = Some s'"
      using sq True b(1) s'(1) by (subst wake_loop.simps) (cases ys; simp add: a_def Let_def)
    have eq: "?Q(32 := l) = (Q(32 := l))(?p := Q ?p @ [i])" for l using p by auto
    have req: "core (requeued (pcb b j)) = core (requeued (pcb s j))" if "j \<noteq> i" for j
      using cb [of j] that fb(2) [of j] by (simp add: requeued_def)
    have "env s' = env s" using s'(2) b(2) A(2) by simp
    moreover have "sched_inv s' (wake_into (\<lambda>i. prio_of (pcb s i)) (i # takeWhile (\<lambda>i. wake_time (pcb s i) \<le> current_tick s) ys)
        (Q(32 := dropWhile (\<lambda>i. wake_time (pcb s i) \<le> current_tick s) ys)))"
      using s'(3) p unfolding fb tick eq by (simp add: wake_into_def)
    moreover have "core (pcb s' j) = (if j \<in> set (i # takeWhile (\<lambda>i. wake_time (pcb s i) \<le> current_tick s) ys)
        then core (requeued (pcb s j)) else core (pcb s j))" for j
      using s'(4) [rule_format, of j] cb [of j] req [of j] dist set_takeWhileD [of i _ ys] unfolding fb tick by (cases "j = i") auto
    ultimately show ?thesis using run True q by simp
  qed
qed

end
