(* ===== verification/Scheduler_Props.thy ===== *)
theory Scheduler_Props
  imports Scheduler_Spec
begin

text \<open>
  The sleep queue, and the theorems about the scheduler: what \<open>schedule\<close> hands the processor to, that the
  processes of one priority take turns, that a tick wakes exactly the sleepers that are due and that
  sleepers are kept in the order of their wake times; and three ways in which processes leave the queues
  although they are ready to run.
\<close>

section \<open>Inserting into the sleep queue\<close>

lemma find_pos_last:
  assumes "dlist (nxt s) pv p (map Some (x # xs)) None"
  shows "find_pos s w x = Some (last (x # takeWhile (\<lambda>j. wake_time (pcb s j) \<le> w) xs))"
  using assms
proof (induction xs arbitrary: x p)
  case Nil
  then show ?case by (simp add: find_pos.simps)
next
  case (Cons y ys)
  then have "find_pos s w y = Some (last (y # takeWhile (\<lambda>j. wake_time (pcb s j) \<le> w) ys))" by (intro Cons.IH [of "Some x"]) simp
  then show ?case using Cons.prems by (simp add: find_pos.simps [of s w x])
qed

lemma sleep_insert_run:
  assumes inv: "sched_inv s Q" and i: "i < 64" "unqueued i Q"
  defines "xs \<equiv> takeWhile (\<lambda>j. wake_time (pcb s j) \<le> wake_time (pcb s i)) (Q 32)"
    and "ys \<equiv> dropWhile (\<lambda>j. wake_time (pcb s j) \<le> wake_time (pcb s i)) (Q 32)"
  obtains s' where "sleep_insert i s = Some s'" "env s' = env s" "ready_queues s' = ready_queues s"
    "ready_bitmap s' = ready_bitmap s" "length (processes (sys s')) = 64"
    "sleep_queue s' = (if xs = [] then Some i else sleep_queue s)"
    "\<And>j. pcb s' j = (if j = i then (pcb s i)\<lparr>p_next := first_of (map Some ys) None, p_prev := last_of None (map Some xs)\<rparr>
       else if xs \<noteq> [] \<and> j = last xs then (pcb s j)\<lparr>p_next := Some i\<rparr>
       else if ys \<noteq> [] \<and> j = hd ys then (pcb s j)\<lparr>p_prev := Some i\<rparr> else pcb s j)"
proof -
  note D = sched_invD [OF inv]
  note C = chainsD [OF D(3) order_refl]
  have Q: "Q 32 = xs @ ys" by (simp add: xs_def ys_def)
  have lt: "i < length (processes (sys s))" "j \<in> set (Q 32) \<Longrightarrow> j < length (processes (sys s)) \<and> j \<noteq> i" for j
    using D(1) D(4) [of 32 j] i by (auto simp: unqueued_def)
  have hy: "\<not> wake_time (pcb s (hd ys)) \<le> wake_time (pcb s i)" if "ys \<noteq> []" using hd_dropWhile that unfolding ys_def by blast
  show ?thesis
  proof (cases "xs = []")
    case True
    let ?t = "case ys of [] \<Rightarrow> upd i (\<lambda>p. p\<lparr>p_next := None, p_prev := None\<rparr>) s
      | y # _ \<Rightarrow> upd y (\<lambda>p. p\<lparr>p_prev := Some i\<rparr>) (upd i (\<lambda>p. p\<lparr>p_next := Some y, p_prev := None\<rparr>) s)"
    have "sleep_queue s = first_of (map Some ys) None" using C(1) Q True by (simp add: qhead_def)
    then have "sleep_insert i s = Some (?t\<lparr>sleep_queue := Some i\<rparr>)"
      using hy by (cases ys) (auto simp: sleep_insert_def Let_def not_le)
    then show ?thesis
    proof (rule that)
      have y: "y < length (processes (sys s)) \<and> y \<noteq> i" if "ys = y # zs" for y zs using lt(2) [of y] Q that by simp
      show "pcb (?t\<lparr>sleep_queue := Some i\<rparr>) j = (if j = i then (pcb s i)\<lparr>p_next := first_of (map Some ys) None, p_prev := last_of None (map Some xs)\<rparr>
       else if xs \<noteq> [] \<and> j = last xs then (pcb s j)\<lparr>p_next := Some i\<rparr>
       else if ys \<noteq> [] \<and> j = hd ys then (pcb s j)\<lparr>p_prev := Some i\<rparr> else pcb s j)" for j
        using True lt(1) y by (cases ys) simp_all
    qed (use True D(1) in \<open>cases ys; simp add: env_def\<close>)+
  next
    case False
    then obtain h t where h: "Q 32 = h # t" and le: "wake_time (pcb s h) \<le> wake_time (pcb s i)"
      by (cases "Q 32") (auto simp: xs_def split: if_splits)
    let ?l = "last xs"
    have xs: "xs = h # takeWhile (\<lambda>j. wake_time (pcb s j) \<le> wake_time (pcb s i)) t" using h le by (simp add: xs_def)
    have sq: "sleep_queue s = Some h" using C(1) h by (simp add: qhead_def)
    have fp: "find_pos s (wake_time (pcb s i)) h = Some ?l" using find_pos_last [of s "prv s" None h t] C(2) h xs by simp
    have l: "?l \<in> set (Q 32)" using Q False by simp
    have ln: "p_next (pcb s ?l) = first_of (map Some ys) None"
    proof -
      have "dlist (nxt s) (prv s) None (map Some (butlast xs) @ Some ?l # map Some ys) None"
        using C(2) Q False by (metis append_butlast_last_id list.simps(9) map_append append_Cons append_Nil append_assoc)
      then show ?thesis by (simp add: dlist_append)
    qed
    define a where "a = upd i (\<lambda>p. p\<lparr>p_next := first_of (map Some ys) None, p_prev := Some ?l\<rparr>) s"
    have pa: "pcb a j = (if j = i then (pcb s i)\<lparr>p_next := first_of (map Some ys) None, p_prev := Some ?l\<rparr> else pcb s j)" for j
      using lt(1) by (simp add: a_def)
    define b where "b = (case ys of [] \<Rightarrow> a | y # _ \<Rightarrow> upd y (\<lambda>p. p\<lparr>p_prev := Some i\<rparr>) a)"
    have yl: "y < length (processes (sys a)) \<and> y \<noteq> i \<and> y \<noteq> ?l" if "ys = y # zs" for y zs
      using lt(2) [of y] Q that C(3) last_in_set [OF False] by (auto simp: a_def)
    have pb: "pcb b j = (if ys \<noteq> [] \<and> j = hd ys then (pcb a j)\<lparr>p_prev := Some i\<rparr> else pcb a j)" for j
      using yl by (cases ys) (auto simp: b_def)
    let ?s' = "upd ?l (\<lambda>p. p\<lparr>p_next := Some i\<rparr>) b"
    have fb: "env b = env s" "ready_queues b = ready_queues s" "ready_bitmap b = ready_bitmap s" "sleep_queue b = sleep_queue s"
      "length (processes (sys b)) = 64" using D(1) by (cases ys; simp add: b_def a_def env_def)+
    have "p_next (pcb a ?l) = first_of (map Some ys) None" using ln lt(2) [OF l] by (simp add: pa)
    then have run: "sleep_insert i s = Some ?s'"
      using sq le fp ln by (cases ys) (simp_all add: sleep_insert_def Let_def b_def a_def)
    have ps: "pcb ?s' j = (if j = ?l then (pcb b j)\<lparr>p_next := Some i\<rparr> else pcb b j)" for j
      using lt(2) [OF l] fb(5) D(1) by simp
    show ?thesis
    proof (rule that [OF run])
      show "pcb ?s' j = (if j = i then (pcb s i)\<lparr>p_next := first_of (map Some ys) None, p_prev := last_of None (map Some xs)\<rparr>
       else if xs \<noteq> [] \<and> j = last xs then (pcb s j)\<lparr>p_next := Some i\<rparr>
       else if ys \<noteq> [] \<and> j = hd ys then (pcb s j)\<lparr>p_prev := Some i\<rparr> else pcb s j)" for j
        using False lt(2) [OF l] yl unfolding ps pb pa by (cases ys) (auto simp: last_of_def last_map)
      show "env ?s' = env s" using fb(1) by (simp add: env_def)
    qed (use fb False in simp_all)
  qed
qed


lemma sorted_takeWhile_insert:
  fixes f :: "nat \<Rightarrow> u64"
  assumes "sorted (map f zs)"
  shows "sorted (map f (takeWhile (\<lambda>j. f j \<le> f i) zs @ i # dropWhile (\<lambda>j. f j \<le> f i) zs))"
  using assms
proof (induction zs)
  case (Cons z zs)
  then show ?case by (auto dest!: set_takeWhileD set_dropWhileD)
qed simp

text \<open>The sleep queue with a process inserted behind all that wake no later.\<close>

definition sleep_order :: "sched \<Rightarrow> nat \<Rightarrow> nat list \<Rightarrow> nat list" where
  "sleep_order s i zs = takeWhile (\<lambda>j. wake_time (pcb s j) \<le> wake_time (pcb s i)) zs
     @ i # dropWhile (\<lambda>j. wake_time (pcb s j) \<le> wake_time (pcb s i)) zs"

lemma set_sleep_order [simp]: "set (sleep_order s i zs) = insert i (set zs)"
proof -
  have "set zs = set (takeWhile P zs) \<union> set (dropWhile P zs)" for P by (metis set_append takeWhile_dropWhile_id)
  then show ?thesis by (simp add: sleep_order_def)
qed

lemma sleep_insert_spec:
  assumes inv: "sched_inv s Q" and i: "i < 64" "unqueued i Q" "pstate (pcb s i) = PROC_BLOCKED"
  obtains s' where "sleep_insert i s = Some s'" "env s' = env s" "sched_inv s' (Q(32 := sleep_order s i (Q 32)))"
    "\<And>j. core (pcb s' j) = core (pcb s j)"
proof -
  note D = sched_invD [OF inv]
  define xs where "xs = takeWhile (\<lambda>j. wake_time (pcb s j) \<le> wake_time (pcb s i)) (Q 32)"
  define ys where "ys = dropWhile (\<lambda>j. wake_time (pcb s j) \<le> wake_time (pcb s i)) (Q 32)"
  have Q: "Q 32 = xs @ ys" by (simp add: xs_def ys_def)
  have so: "sleep_order s i (Q 32) = xs @ i # ys" by (simp add: sleep_order_def xs_def ys_def)
  obtain s' where run: "sleep_insert i s = Some s'" "env s' = env s"
    and f: "ready_queues s' = ready_queues s" "ready_bitmap s' = ready_bitmap s" "length (processes (sys s')) = 64"
      "sleep_queue s' = (if xs = [] then Some i else sleep_queue s)"
    and pc: "\<And>j. pcb s' j = (if j = i then (pcb s i)\<lparr>p_next := first_of (map Some ys) None, p_prev := last_of None (map Some xs)\<rparr>
       else if xs \<noteq> [] \<and> j = last xs then (pcb s j)\<lparr>p_next := Some i\<rparr>
       else if ys \<noteq> [] \<and> j = hd ys then (pcb s j)\<lparr>p_prev := Some i\<rparr> else pcb s j)"
    by (rule sleep_insert_run [OF inv i(1,2), folded xs_def ys_def]) blast
  have co: "core (pcb s' j) = core (pcb s j)" for j unfolding pc by simp
  note same = core_fields [OF co]
  have mem: "xs \<noteq> [] \<Longrightarrow> last xs \<noteq> i" "ys \<noteq> [] \<Longrightarrow> hd ys \<noteq> i" "xs \<noteq> [] \<Longrightarrow> ys \<noteq> [] \<Longrightarrow> last xs \<noteq> hd ys"
    using i(2) Q chainsD(3) [OF D(3), of 32] unfolding unqueued_def by (cases xs rule: rev_cases; cases ys; force)+
  have ch: "chains (nxt s') (prv s') (qhead s') (Q(32 := xs @ i # ys))"
    by (rule chains_insert [OF D(3) order_refl Q i(2)])
      (use mem in \<open>cases ys; auto simp: pc f qhead_def\<close>)+
  have "sched_inv s' (Q(32 := xs @ i # ys))" unfolding sched_inv_def same(1,2) f(1-3)
  proof (intro conjI allI ballI impI)
    show "j < 64" if "k \<le> 32" "j \<in> set ((Q(32 := xs @ i # ys)) k)" for j k
      using D(4) [OF that(1), of j] that Q i(1) by (cases "k = 32") auto
    show "sorted (map (\<lambda>j. wake_time (pcb s' j)) ((Q(32 := xs @ i # ys)) 32))"
      using sorted_takeWhile_insert [OF D(8), of i] unfolding same(3) by (simp add: xs_def ys_def)
    show "pstate (pcb s j) = PROC_BLOCKED" if "j \<in> set ((Q(32 := xs @ i # ys)) 32)" for j
      using that D(7) [of j] Q i(3) by auto
    show "p_next (pcb s' j) = None" "p_prev (pcb s' j) = None" if j: "j < 64" "unqueued j (Q(32 := xs @ i # ys))" for j
    proof -
      have nm: "j \<notin> set (xs @ i # ys)" using j(2) unfolding unqueued_def by (metis fun_upd_same order_refl)
      then have "unqueued j Q" using j(2) Q unfolding unqueued_def by (metis Un_iff fun_upd_other list.set_intros(2) set_append)
      moreover have "j \<noteq> i" "xs \<noteq> [] \<Longrightarrow> j \<noteq> last xs" "ys \<noteq> [] \<Longrightarrow> j \<noteq> hd ys" using nm by auto
      ultimately show "p_next (pcb s' j) = None" "p_prev (pcb s' j) = None" using D(9) [OF j(1)] unfolding pc by auto
    qed
  qed (use D ch in auto)
  then show ?thesis using that run co so by simp
qed

section \<open>Leaving the processor\<close>

text \<open>Removing a process that is in no queue takes the whole ready queue of its priority with it.\<close>

lemma scheduler_remove_unqueued:
  assumes "c < length (processes (sys s))" "p_next (pcb s c) = None" "p_prev (pcb s c) = None" "length (ready_queues s) = 32"
  shows "scheduler_remove (Some c) s = (upd c (\<lambda>p. p\<lparr>p_next := None, p_prev := None\<rparr>) s)
    \<lparr>ready_queues := (ready_queues s)[prio_of (pcb s c) := None],
     ready_bitmap := ready_bitmap s AND NOT (push_bit (prio_of (pcb s c)) 1)\<rparr>"
  using assms clamp_range [of "priority (pcb s c)"]
  by (simp add: scheduler_remove_def Let_def upd_def)

text \<open>When no process of its priority is ready, nothing is lost.\<close>

lemma remove_unqueued_inv:
  assumes inv: "sched_inv s Q" and c: "c < 64" "unqueued c Q" "Q (prio_of (pcb s c)) = []"
  shows "sched_inv (scheduler_remove (Some c) s) Q" "env (scheduler_remove (Some c) s) = env s"
    "pcb (scheduler_remove (Some c) s) j = pcb s j"
proof -
  note D = sched_invD [OF inv]
  let ?p = "prio_of (pcb s c)"
  have p: "?p < 32" by (rule clamp_range)
  have n: "p_next (pcb s c) = None" "p_prev (pcb s c) = None" using D(9) [OF c(1,2)] by simp_all
  have len: "c < length (processes (sys s))" using D(1) c(1) by simp
  have "ready_queues s ! ?p = None" using chainsD(1) [OF D(3), of ?p] p c(3) by (simp add: qhead_def)
  then have rq: "(ready_queues s)[?p := None] = ready_queues s" using list_update_id [of "ready_queues s" ?p] by simp
  have "\<not> bit (ready_bitmap s) ?p" using D(6) [OF p] c(3) by simp
  then have bm: "ready_bitmap s AND NOT (push_bit ?p 1) = ready_bitmap s"
    using bitmap_clear [OF p] by (intro bit_word_eqI) auto
  have pu: "pcb (upd c (\<lambda>p. p\<lparr>p_next := None, p_prev := None\<rparr>) s) j = pcb s j" for j using len n by (cases "pcb s c") auto
  note run = scheduler_remove_unqueued [OF len n D(2), unfolded rq bm]
  show pcs: "pcb (scheduler_remove (Some c) s) j = pcb s j" for j unfolding run using pu [of j] by simp
  show "env (scheduler_remove (Some c) s) = env s" unfolding run by (simp add: env_def)
  show "sched_inv (scheduler_remove (Some c) s) Q"
    by (rule sched_inv_cong [OF inv]) (simp_all add: pcs, simp_all add: run)
qed


text \<open>\<open>schedule\<close> called by a process that does not want to run on.\<close>

lemma schedule_off:
  assumes inv: "sched_inv s Q" and cur: "current_process (sys s) = Some c" "c < 64" "pstate (pcb s c) = PROC_BLOCKED"
    and k: "k < 32" "Q k = n # ys" "\<And>j. j < k \<Longrightarrow> Q j = []"
  obtains s' where "schedule s = Some s'" "sched_inv s' (Q(k := ys))" "current_process (sys s') = Some n"
    "core (pcb s' n) = core ((pcb s n)\<lparr>pstate := PROC_RUNNING\<rparr>)" "c \<noteq> n"
    "\<exists>saved. core (pcb s' c) = core ((pcb s c)\<lparr>p_context := saved\<rparr>)"
    "\<And>j. j \<noteq> n \<Longrightarrow> j \<noteq> c \<Longrightarrow> core (pcb s' j) = core (pcb s j)"
proof -
  note D = sched_invD [OF inv]
  have nq: "n \<in> set (Q k)" "n < 64" "pstate (pcb s n) = PROC_READY" using k(1,2) D(4) [of k n] D(5) [of k n] by simp_all
  have cn: "c \<noteq> n" using nq(3) cur(3) by auto
  have k': "Q k = [] @ n # ys" using k(2) by simp
  define d where "d = scheduler_remove (Some n) s"
  note R = scheduler_remove_spec [OF inv k(1) k', folded d_def]
  define s' where "s' = dispatch (Some c) n d"
  note S = dispatch_spec [OF R(2) nq(2) R(4) cur(2) cn, folded s'_def]
  have "find_next_process s = Some n" by (rule find_next_highest [OF inv k])
  then have run: "schedule s = Some s'"
    using cur cn by (simp add: schedule_def process_current_def Let_def s'_def dispatch_def d_def)
  have core_upd: "core (p\<lparr>pstate := x\<rparr>) = (core p)\<lparr>pstate := x\<rparr>" "core (p\<lparr>p_context := y\<rparr>) = (core p)\<lparr>p_context := y\<rparr>" for p x y
    by (simp_all add: core_def)
  show ?thesis
  proof (rule that [OF run])
    show "sched_inv s' (Q(k := ys))" using S(1) by simp
    show "core (pcb s' n) = core ((pcb s n)\<lparr>pstate := PROC_RUNNING\<rparr>)" using S(4) R(3) [of n] by (simp add: core_upd)
    obtain sv where "pcb s' c = (pcb d c)\<lparr>p_context := sv\<rparr>" using S(5) by blast
    then show "\<exists>saved. core (pcb s' c) = core ((pcb s c)\<lparr>p_context := saved\<rparr>)"
      using R(3) [of c] by (intro exI [of _ sv]) (simp add: core_upd)
    show "core (pcb s' j) = core (pcb s j)" if "j \<noteq> n" "j \<noteq> c" for j using S(6) R(3) [of j] that by simp
  qed (use S(2) cn in simp_all)
qed

section \<open>A table with four processes\<close>

text \<open>Process 0 runs with priority \<open>pr\<close>, 1 and 2 are ready with priority 16, and 3 sleeps until tick 5.\<close>

definition demo :: "int \<Rightarrow> sched" where
  "demo pr = \<lparr>sys = proc_bss\<lparr>processes := (replicate 64 proc_zero)
       [0 := proc_zero\<lparr>pid := 1, pstate := PROC_RUNNING, priority := pr, time_slice := 10\<rparr>,
        1 := proc_zero\<lparr>pid := 2, pstate := PROC_READY, priority := 16, p_context := 0x5000, p_next := Some 2\<rparr>,
        2 := proc_zero\<lparr>pid := 3, pstate := PROC_READY, priority := 16, p_context := 0x6000, p_prev := Some 1\<rparr>,
        3 := proc_zero\<lparr>pid := 4, pstate := PROC_BLOCKED, priority := 10, wake_time := 5\<rparr>], current_process := Some 0\<rparr>,
     ready_queues = (replicate 32 None)[16 := Some 1], ready_bitmap = 0x10000, sleep_queue = Some 3,
     scheduler_running = True, current_tick = 4, idle_proc = None, timer_cb = Some Scheduler_tick,
     cpu_regs = \<lparr>rsp = 0x4000, rbp = 0, rbx = 0, r12 = 0, r13 = 0, r14 = 0, r15 = 0, rip = 0x100000\<rparr>\<rparr>"

definition demo_queues :: "nat \<Rightarrow> nat list" where
  "demo_queues k = (if k = 16 then [1, 2] else if k = 32 then [3] else [])"

lemma demo_pcb:
  "pcb (demo pr) 0 = proc_zero\<lparr>pid := 1, pstate := PROC_RUNNING, priority := pr, time_slice := 10\<rparr>"
  "pcb (demo pr) 1 = proc_zero\<lparr>pid := 2, pstate := PROC_READY, priority := 16, p_context := 0x5000, p_next := Some 2\<rparr>"
  "pcb (demo pr) (Suc 0) = proc_zero\<lparr>pid := 2, pstate := PROC_READY, priority := 16, p_context := 0x5000, p_next := Some 2\<rparr>"
  "pcb (demo pr) 2 = proc_zero\<lparr>pid := 3, pstate := PROC_READY, priority := 16, p_context := 0x6000, p_prev := Some 1\<rparr>"
  "pcb (demo pr) 3 = proc_zero\<lparr>pid := 4, pstate := PROC_BLOCKED, priority := 10, wake_time := 5\<rparr>"
  "\<lbrakk>j \<noteq> 0; j \<noteq> 1; j \<noteq> 2; j \<noteq> 3; j < 64\<rbrakk> \<Longrightarrow> pcb (demo pr) j = proc_zero"
  by (simp_all add: demo_def pcb_def proc_bss_def nth_list_update)

lemma demo_inv: "sched_inv (demo pr) demo_queues"
proof -
  have f: "length (processes (sys (demo pr))) = 64" "ready_queues (demo pr) = (replicate 32 None)[16 := Some 1]"
    "ready_bitmap (demo pr) = 0x10000" "sleep_queue (demo pr) = Some 3" by (simp_all add: demo_def)
  have bm: "bit (0x10000 :: u32) k \<longleftrightarrow> demo_queues k \<noteq> []" if "k < 32" for k
    using bitmap_set [of 16 k 0] that by (simp add: demo_queues_def)
  have "chains (nxt (demo pr)) (prv (demo pr)) (qhead (demo pr)) demo_queues"
    unfolding chains_def by (auto simp: demo_queues_def qhead_def f demo_pcb proc_zero_def)
  moreover have "p_next (pcb (demo pr) i) = None \<and> p_prev (pcb (demo pr) i) = None" if "i < 64" "unqueued i demo_queues" for i
  proof -
    have "i \<noteq> 1" "i \<noteq> 2" "i \<noteq> 3"
      using that(2) [unfolded unqueued_def, rule_format, of 16] that(2) [unfolded unqueued_def, rule_format, of 32]
      by (auto simp: demo_queues_def)
    then show ?thesis using that(1) demo_pcb(6) [of i pr] demo_pcb(1) [of pr] by (cases "i = 0") (auto simp: proc_zero_def)
  qed
  moreover have "i < 64 \<and> (k < 32 \<longrightarrow> pstate (pcb (demo pr) i) = PROC_READY \<and> prio_of (pcb (demo pr) i) = k)
      \<and> (k = 32 \<longrightarrow> pstate (pcb (demo pr) i) = PROC_BLOCKED)" if "i \<in> set (demo_queues k)" for i k
    using that by (auto simp: demo_queues_def demo_pcb proc_zero_def clamp_prio_def SCHED_PRIORITY_LEVELS_def split: if_splits)
  moreover have "sorted (map (\<lambda>i. wake_time (pcb (demo pr) i)) (demo_queues 32))" by (simp add: demo_queues_def)
  ultimately show ?thesis unfolding sched_inv_def f using bm by simp
qed


section \<open>Properties\<close>

text \<open>
  C13: when a running process calls \<open>schedule\<close> and ready processes exist, the first process of the first non-empty
  queue (the lowest priority number) gets the processor: it is taken off its queue, runs, and its kernel stack is
  entered in the task state segment; the caller goes to the end of the queue of its own priority with a fresh time
  slice of 37 ticks less its priority; the queues stay well-formed; and the registers of the caller are saved in the
  frame its control block points to while those in the frame of the new process are loaded.
\<close>

theorem schedule_runs_first_ready:
  assumes "sched_inv s Q" "process_current (sys s) = Some c" "c < 64" "pstate (pcb s c) = PROC_RUNNING"
    and "k < 32" "Q k = n # ys" "\<And>j. j < k \<Longrightarrow> Q j = []"
  shows "\<exists>s'. schedule s = Some s' \<and> process_current (sys s') = Some n \<and> pstate (pcb s' n) = PROC_RUNNING
    \<and> tss_stack s' = kernel_stack_top (pcb s n)
    \<and> pstate (pcb s' c) = PROC_READY \<and> time_slice (pcb s' c) = of_nat (37 - prio_of (pcb s c))
    \<and> (let R = Q(prio_of (pcb s c) := Q (prio_of (pcb s c)) @ [c]) in sched_inv s' (R(k := tl (R k))))
    \<and> (aligned 3 (rsp (cpu_regs s)) \<longrightarrow> hand_over s c n s')"
proof -
  have cur: "current_process (sys s) = Some c" using assms(2) by (simp add: process_current_def)
  obtain s' where s': "schedule s = Some s'" "sched_inv s' (rotate_queues (prio_of (pcb s c)) c k Q)"
    "current_process (sys s') = Some n" "tss_stack s' = kernel_stack_top (pcb s n)"
    "core (pcb s' n) = core ((pcb s n)\<lparr>pstate := PROC_RUNNING\<rparr>)"
    "\<exists>saved. core (pcb s' c) = core ((requeued (pcb s c))\<lparr>p_context := saved\<rparr>)"
    "aligned 3 (rsp (cpu_regs s)) \<Longrightarrow> hand_over s c n s'"
    by (rule schedule_spec [OF assms(1) cur assms(3-7)]) (simp_all only:)
  obtain sv where sv: "core (pcb s' c) = core ((requeued (pcb s c))\<lparr>p_context := sv\<rparr>)" using s'(6) by blast
  have "pstate (pcb s' c) = PROC_READY" "time_slice (pcb s' c) = slice_for (prio_of (pcb s c))"
    using core_fields(1) [OF sv] core_fields(4) [OF sv] by (simp_all add: requeued_def)
  moreover have "pstate (pcb s' n) = PROC_RUNNING" using core_fields(1) [OF s'(5)] by simp
  ultimately show ?thesis using s' by (auto simp: process_current_def rotate_queues_def slice_for_def)
qed

theorem schedule_runs_first_ready_witness:
  "\<exists>s'. schedule (demo 3) = Some s' \<and> process_current (sys s') = Some 1 \<and> time_slice (pcb s' 0) = 34"
proof -
  have "process_current (sys (demo 3)) = Some 0" by (simp add: process_current_def demo_def)
  moreover have "pstate (pcb (demo 3) 0) = PROC_RUNNING" "prio_of (pcb (demo 3) 0) = 3"
    by (simp_all add: demo_pcb clamp_prio_def SCHED_PRIORITY_LEVELS_def)
  ultimately show ?thesis
    using schedule_runs_first_ready [OF demo_inv, of 3 0 16 1 "[2]"] by (auto simp: demo_queues_def)
qed

text \<open>
  C14: the processes of one priority take turns. Let one of them run and the others wait in the first non-empty queue:
  then after \<open>m\<close> calls of \<open>schedule\<close> the process that runs is the one at position \<open>m\<close>, counted modulo their number,
  in the order runner first and then the queue; so every one of them runs within that many calls.
\<close>

theorem schedule_round_robin:
  assumes "sched_inv s Q" "process_current (sys s) = Some c" "c < 64" "pstate (pcb s c) = PROC_RUNNING"
    and "Q (prio_of (pcb s c)) = qs" "qs \<noteq> []" "\<And>j. j < prio_of (pcb s c) \<Longrightarrow> Q j = []"
  shows "\<exists>s'. schedule_times m s = Some s' \<and> process_current (sys s') = Some ((c # qs) ! (m mod (1 + length qs)))"
proof -
  have "round_state s (prio_of (pcb s c)) (c # qs)"
    using assms clamp_range unfolding round_state_def process_current_def by auto
  from schedule_times_round [OF this, of m] assms(6)
  obtain s' where "schedule_times m s = Some s'" "round_state s' (prio_of (pcb s c)) (rotate m (c # qs))" by auto
  then show ?thesis by (auto simp: round_state_def process_current_def hd_rotate_conv_nth)
qed

theorem schedule_round_robin_witness:
  "\<exists>s'. schedule_times 5 (demo 16) = Some s' \<and> process_current (sys s') = Some 2"
proof -
  have "process_current (sys (demo 16)) = Some 0" by (simp add: process_current_def demo_def)
  moreover have "pstate (pcb (demo 16) 0) = PROC_RUNNING" "prio_of (pcb (demo 16) 0) = 16"
    by (simp_all add: demo_pcb clamp_prio_def SCHED_PRIORITY_LEVELS_def)
  ultimately show ?thesis
    using schedule_round_robin [OF demo_inv, of 16 0 "[1, 2]" 5] by (simp add: demo_queues_def)
qed

lemma sorted_split:
  assumes "sorted (map f zs)"
  shows "filter (\<lambda>i. t < f i) zs = dropWhile (\<lambda>i. f i \<le> t) zs \<and> filter (\<lambda>i. f i \<le> t) zs = takeWhile (\<lambda>i. f i \<le> t) zs"
  using assms
proof (induction zs)
  case (Cons z zs)
  have up: "t < f i" if "t < f z" "i \<in> set zs" for i using Cons.prems that by (auto intro: order.strict_trans2)
  show ?case using Cons up by (cases "f z \<le> t") (auto simp: not_le filter_empty_conv filter_id_conv simp del: filter_True)
qed simp

text \<open>The queues after a tick has taken the sleepers that are due to the ready queues of their priorities.\<close>

definition woken :: "sched \<Rightarrow> (nat \<Rightarrow> nat list) \<Rightarrow> nat \<Rightarrow> nat list" where
  "woken s Q k =
     (let t = current_tick s + 1
      in if k = 32 then filter (\<lambda>i. t < wake_time (pcb s i)) (Q 32)
         else Q k @ filter (\<lambda>i. wake_time (pcb s i) \<le> t \<and> prio_of (pcb s i) = k) (Q 32))"

lemma tick_woken:
  assumes inv: "sched_inv s Q"
  defines "t \<equiv> current_tick s + 1"
  obtains a where "wake_loop (s\<lparr>current_tick := t\<rparr>) = Some a" "env a = env (s\<lparr>current_tick := t\<rparr>)" "sched_inv a (woken s Q)"
    "\<forall>j. core (pcb a j) = (if j \<in> set (Q 32) \<and> wake_time (pcb s j) \<le> t then core (requeued (pcb s j)) else core (pcb s j))"
proof -
  let ?s = "s\<lparr>current_tick := t\<rparr>"
  let ?due = "takeWhile (\<lambda>i. wake_time (pcb s i) \<le> t) (Q 32)"
  let ?late = "dropWhile (\<lambda>i. wake_time (pcb s i) \<le> t) (Q 32)"
  have f: "filter (\<lambda>i. t < wake_time (pcb s i)) (Q 32) = ?late" "filter (\<lambda>i. wake_time (pcb s i) \<le> t) (Q 32) = ?due"
    using sorted_split [OF sched_invD(8) [OF inv]] by simp_all
  have "sched_inv ?s Q" by (rule sched_inv_cong [OF inv]) simp_all
  then obtain a where a: "wake_loop ?s = Some a" "env a = env ?s"
    "sched_inv a (wake_into (\<lambda>i. prio_of (pcb s i)) ?due (Q(32 := ?late)))"
    "\<forall>j. core (pcb a j) = (if j \<in> set ?due then core (requeued (pcb s j)) else core (pcb s j))"
    using wake_loop_spec [of ?s Q] by auto
  have "wake_into (\<lambda>i. prio_of (pcb s i)) ?due (Q(32 := ?late)) k = woken s Q k" for k
    using clamp_range(3) [THEN less_imp_neq] unfolding wake_into_queue woken_def Let_def t_def [symmetric] f(1) f(2) [symmetric]
    by (simp add: conj_commute)
  then have "wake_into (\<lambda>i. prio_of (pcb s i)) ?due (Q(32 := ?late)) = woken s Q" by (rule ext)
  moreover have "j \<in> set ?due \<longleftrightarrow> j \<in> set (Q 32) \<and> wake_time (pcb s j) \<le> t" for j unfolding f(2) [symmetric] by auto
  ultimately show ?thesis using that [OF a(1,2)] a(3,4) by simp
qed

text \<open>A tick with no process running: only sleepers are woken.\<close>

lemma tick_not_running:
  assumes "sched_inv s Q" "\<And>c. process_current (sys s) = Some c \<Longrightarrow> pstate (pcb s c) \<noteq> PROC_RUNNING"
  obtains a where "scheduler_tick s = Some a" "process_current (sys a) = process_current (sys s)" "current_tick a = current_tick s + 1"
    "sched_inv a (woken s Q)"
proof -
  obtain a where a: "wake_loop (s\<lparr>current_tick := current_tick s + 1\<rparr>) = Some a"
    "env a = env (s\<lparr>current_tick := current_tick s + 1\<rparr>)" "sched_inv a (woken s Q)"
    "\<forall>j. core (pcb a j) = (if j \<in> set (Q 32) \<and> wake_time (pcb s j) \<le> current_tick s + 1 then core (requeued (pcb s j)) else core (pcb s j))"
    by (rule tick_woken [OF assms(1)])
  have ca: "process_current (sys a) = process_current (sys s)" "current_tick a = current_tick s + 1"
    using a(2) by (simp_all add: env_def process_current_def)
  have "pstate (pcb a c) \<noteq> PROC_RUNNING" if "process_current (sys s) = Some c" for c
    using a(4) [THEN spec, of c] assms(2) [OF that] core_fields(1) [of "pcb a c"] by (cases "c \<in> set (Q 32) \<and> wake_time (pcb s c) \<le> current_tick s + 1") (auto simp: requeued_def)
  then have "scheduler_tick s = Some a" using a(1) ca(1) by (simp add: scheduler_tick_def split: option.split)
  then show ?thesis using that ca a(3) by blast
qed

text \<open>A tick on a running process: the charge, and the decision whether to go on.\<close>

lemma tick_charged:
  assumes inv: "sched_inv s Q" and cur: "process_current (sys s) = Some c" "c < 64" "pstate (pcb s c) = PROC_RUNNING"
  obtains b where "scheduler_tick s = (if 1 < time_slice (pcb s c) then Some b else schedule b)" "sched_inv b (woken s Q)"
    "current_process (sys b) = Some c" "current_tick b = current_tick s + 1" "idle_proc b = idle_proc s"
    "pstate (pcb b c) = PROC_RUNNING" "priority (pcb b c) = priority (pcb s c)" "total_time (pcb b c) = total_time (pcb s c) + 1"
    "time_slice (pcb b c) = (if time_slice (pcb s c) = 0 then 0 else time_slice (pcb s c) - 1)"
proof -
  obtain a where a: "wake_loop (s\<lparr>current_tick := current_tick s + 1\<rparr>) = Some a"
    "env a = env (s\<lparr>current_tick := current_tick s + 1\<rparr>)" "sched_inv a (woken s Q)"
    "\<forall>j. core (pcb a j) = (if j \<in> set (Q 32) \<and> wake_time (pcb s j) \<le> current_tick s + 1 then core (requeued (pcb s j)) else core (pcb s j))"
    by (rule tick_woken [OF inv])
  have "c \<notin> set (Q 32)" using running_unqueued [OF inv] cur(3) by (simp add: unqueued_def)
  then have fc: "pstate (pcb a c) = PROC_RUNNING" "priority (pcb a c) = priority (pcb s c)" "time_slice (pcb a c) = time_slice (pcb s c)"
    "total_time (pcb a c) = total_time (pcb s c)" using a(4) [THEN spec, of c] cur(3) core_fields [of "pcb a c" "pcb s c"] by simp_all
  have ca: "current_process (sys a) = Some c" "current_tick a = current_tick s + 1" "idle_proc a = idle_proc s"
    using a(2) cur(1) by (simp_all add: env_def process_current_def)
  have len: "c < length (processes (sys a))" using sched_invD(1) [OF a(3)] cur(2) by simp
  have ua: "unqueued c (woken s Q)" using running_unqueued [OF a(3)] fc(1) by simp
  define a1 where "a1 = upd c (\<lambda>p. p\<lparr>total_time := total_time p + 1\<rparr>) a"
  define b where "b = (if 0 < time_slice (pcb a1 c) then upd c (\<lambda>p. p\<lparr>time_slice := time_slice p - 1\<rparr>) a1 else a1)"
  have "sched_inv a1 (woken s Q)" unfolding a1_def by (rule sched_inv_upd [OF a(3) ua cur(2)]) simp_all
  then have ib: "sched_inv b (woken s Q)" unfolding b_def by (simp add: sched_inv_upd [OF _ ua cur(2)])
  have pb: "pcb b c = (let p = (pcb a c)\<lparr>total_time := total_time (pcb a c) + 1\<rparr>
      in if 0 < time_slice p then p\<lparr>time_slice := time_slice p - 1\<rparr> else p)" using len by (simp add: b_def a1_def Let_def)
  have ts: "time_slice (pcb b c) = (if time_slice (pcb s c) = 0 then 0 else time_slice (pcb s c) - 1)"
    unfolding pb Let_def by (simp add: fc word_neq_0_conv)
  have "time_slice (pcb b c) = 0 \<longleftrightarrow> \<not> 1 < time_slice (pcb s c)"
    unfolding ts by (auto simp: word_nat word_unat_eq_iff not_less unat_minus_one le_Suc_eq)
  then have "scheduler_tick s = (if 1 < time_slice (pcb s c) then Some b else schedule b)"
    using a(1) ca(1) fc(1) by (simp add: scheduler_tick_def process_current_def Let_def a1_def [symmetric] b_def [symmetric])
  moreover have "current_process (sys b) = Some c" "current_tick b = current_tick s + 1" "idle_proc b = idle_proc s"
    using ca by (simp_all add: b_def a1_def)
  ultimately show ?thesis using ib ts by (intro that [of b]) (simp_all add: pb Let_def fc)
qed

lemma upd_total_time: "(\<And>p. total_time (f p) = total_time p) \<Longrightarrow> total_time (pcb (upd i f s) j) = total_time (pcb s j)"
  by (cases "i < length (processes (sys s))") (auto simp: pcb_def upd_def upd_proc_def nth_list_update list_update_beyond)

lemma remove_frame:
  "total_time (pcb (scheduler_remove pr s) j) = total_time (pcb s j)" "current_tick (scheduler_remove pr s) = current_tick s"
  "length (processes (sys (scheduler_remove pr s))) = length (processes (sys s))"
  by (auto simp: scheduler_remove_def upd_total_time Let_def split: option.split)

text \<open>With no process ready the processor goes to the idle process, if there is one; the call returns.\<close>

lemma schedule_without_ready:
  assumes inv: "sched_inv s Q" and cur: "current_process (sys s) = Some c" "c < 64" "pstate (pcb s c) = PROC_RUNNING"
    and none: "\<And>k. k < 32 \<Longrightarrow> Q k = []"
  obtains s' where "schedule s = Some s'" "current_tick s' = current_tick s" "total_time (pcb s' c) = total_time (pcb s c)"
    "current_process (sys s') = (case idle_proc s of None \<Rightarrow> Some c | Some i \<Rightarrow> Some i)" "idle_proc s \<in> {None, Some c} \<Longrightarrow> s' = s"
proof (cases "idle_proc s \<in> {None, Some c}")
  case True
  then have "schedule s = Some s" using find_next_idle [OF inv none] cur(1) by (auto simp: schedule_def process_current_def Let_def)
  then show ?thesis using that [of s] True cur(1) by (auto split: option.split)
next
  case False
  then obtain i where i: "idle_proc s = Some i" "i \<noteq> c" by auto
  let ?a = "upd c (\<lambda>p. p\<lparr>pstate := PROC_READY\<rparr>) s"
  have uc: "unqueued c Q" using running_unqueued [OF inv] cur(3) by simp
  have a: "sched_inv ?a Q" by (rule sched_inv_upd [OF inv uc cur(2)]) simp_all
  have pa: "pcb ?a c = (pcb s c)\<lparr>pstate := PROC_READY\<rparr>" using sched_invD(1) [OF inv] cur(2) by simp
  obtain b where b: "scheduler_add (Some c) ?a = Some b" "env b = env ?a" "sched_inv b (Q(prio_of (pcb ?a c) := Q (prio_of (pcb ?a c)) @ [c]))"
    "core (pcb b c) = core (requeued (pcb ?a c))"
    by (rule scheduler_add_spec [OF a cur(2) uc]) (simp_all add: pa)
  define d where "d = scheduler_remove (Some i) b"
  define e where "e = switch_tables i (set_current (Some i) (upd i (\<lambda>p. p\<lparr>pstate := PROC_RUNNING\<rparr>) d))"
  have le: "c < length (processes (sys e))" using sched_invD(1) [OF b(3)] cur(2) by (simp add: e_def d_def remove_frame)
  note S = switch_to_spec [OF le, of i]
  have run: "schedule s = Some (switch_to (Some c) i e)"
    using find_next_idle [OF inv none] i cur b(1) by (simp add: schedule_def process_current_def Let_def e_def d_def)
  obtain sv where sv: "pcb (switch_to (Some c) i e) c = (pcb e c)\<lparr>p_context := sv\<rparr>" using S(9) by auto
  have "total_time (pcb e c) = total_time (pcb b c)" by (simp add: e_def d_def upd_total_time remove_frame)
  also have "\<dots> = total_time (pcb s c)" using core_fields(9) [OF b(4)] pa by (simp add: requeued_def core_def)
  finally have tt: "total_time (pcb (switch_to (Some c) i e) c) = total_time (pcb s c)" using sv by simp
  have "current_tick e = current_tick s" using b(2) by (simp add: e_def d_def remove_frame env_def)
  then show ?thesis using that [OF run] tt S(5,8) i False by (simp add: e_def)
qed

text \<open>
  C15: a timer tick returns, whenever the queues are well formed and the current process, if any, is one of the 64 slots. It advances the clock, takes exactly the sleepers whose wake
  time has come off the sleep queue, and appends them in the order of their wake times to the ready queues of their
  priorities; the others stay asleep. A process that is not running is left alone. A running one is charged one tick, and
  keeps the processor while more than one tick of its slice was left. When the slice is used up, the first process of the
  first ready queue that is not empty gets the processor, the sleepers just woken included, and the old one goes to the
  end of the queue of its priority with a fresh slice; with nothing ready the idle process runs, or without another idle
  process the old one goes on with no slice left.
\<close>

theorem scheduler_tick_wakes_due:
  assumes "sched_inv s Q" "\<And>c. process_current (sys s) = Some c \<Longrightarrow> c < 64"
  defines "R \<equiv> woken s Q"
  shows "\<exists>s'. scheduler_tick s = Some s' \<and> current_tick s' = current_tick s + 1 \<and>
    (case process_current (sys s) of
       None \<Rightarrow> process_current (sys s') = None \<and> sched_inv s' R
     | Some c \<Rightarrow>
         if pstate (pcb s c) \<noteq> PROC_RUNNING then process_current (sys s') = Some c \<and> sched_inv s' R
         else total_time (pcb s' c) = total_time (pcb s c) + 1 \<and>
           (if 1 < time_slice (pcb s c)
            then process_current (sys s') = Some c \<and> time_slice (pcb s' c) = time_slice (pcb s c) - 1 \<and> sched_inv s' R
            else case find (\<lambda>k. R k \<noteq> []) [0..<32] of
                Some k \<Rightarrow> process_current (sys s') = Some (hd (R k)) \<and> pstate (pcb s' (hd (R k))) = PROC_RUNNING
                  \<and> pstate (pcb s' c) = PROC_READY \<and> time_slice (pcb s' c) = of_nat (37 - prio_of (pcb s c))
                  \<and> sched_inv s' (rotate_queues (prio_of (pcb s c)) c k R)
              | None \<Rightarrow> process_current (sys s') = (case idle_proc s of None \<Rightarrow> Some c | Some i \<Rightarrow> Some i)
                  \<and> (idle_proc s \<in> {None, Some c} \<longrightarrow> time_slice (pcb s' c) = 0 \<and> sched_inv s' R)))"
proof (cases "\<exists>c. process_current (sys s) = Some c \<and> pstate (pcb s c) = PROC_RUNNING")
  case False
  then obtain a where "scheduler_tick s = Some a" "process_current (sys a) = process_current (sys s)" "current_tick a = current_tick s + 1" "sched_inv a R"
    unfolding R_def using tick_not_running [OF assms(1)] by metis
  then show ?thesis using False by (auto split: option.split)
next
  case True
  then obtain c where c: "process_current (sys s) = Some c" "pstate (pcb s c) = PROC_RUNNING" by blast
  then have c64: "c < 64" using assms(2) by blast
  obtain b where b: "scheduler_tick s = (if 1 < time_slice (pcb s c) then Some b else schedule b)" "sched_inv b R"
    "current_process (sys b) = Some c" "current_tick b = current_tick s + 1" "idle_proc b = idle_proc s"
    "pstate (pcb b c) = PROC_RUNNING" "priority (pcb b c) = priority (pcb s c)" "total_time (pcb b c) = total_time (pcb s c) + 1"
    "time_slice (pcb b c) = (if time_slice (pcb s c) = 0 then 0 else time_slice (pcb s c) - 1)"
    unfolding R_def by (rule tick_charged [OF assms(1) c(1) c64 c(2)])
  show ?thesis
  proof (cases "1 < time_slice (pcb s c)")
    case True
    then have "time_slice (pcb s c) \<noteq> 0" by auto
    then show ?thesis using True b c by (simp add: process_current_def)
  next
    case slice: False
    show ?thesis
    proof (cases "find (\<lambda>k. R k \<noteq> []) [0..<32]")
      case None
      then have "R k = []" if "k < 32" for k using that by (auto simp: find_None_iff)
      then obtain s' where s': "schedule b = Some s'" "current_tick s' = current_tick b" "total_time (pcb s' c) = total_time (pcb b c)"
        "current_process (sys s') = (case idle_proc b of None \<Rightarrow> Some c | Some i \<Rightarrow> Some i)" "idle_proc b \<in> {None, Some c} \<Longrightarrow> s' = b"
        using schedule_without_ready [OF b(2,3) c64 b(6)] by metis
      have "time_slice (pcb b c) = 0" unfolding b(9) using slice by (auto simp: word_nat word_unat_eq_iff unat_minus_one)
      then show ?thesis using s' b slice c None by (auto simp: process_current_def)
    next
      case (Some k)
      then have k: "k < 32" "R k \<noteq> []" "\<And>j. j < k \<Longrightarrow> R j = []" by (auto simp: find_Some_iff)
      then have Rk: "R k = hd (R k) # tl (R k)" by simp
      obtain s' where s': "schedule b = Some s'" "sched_inv s' (rotate_queues (prio_of (pcb b c)) c k R)"
        "current_process (sys s') = Some (hd (R k))" "core (pcb s' (hd (R k))) = core ((pcb b (hd (R k)))\<lparr>pstate := PROC_RUNNING\<rparr>)"
        "\<exists>saved. core (pcb s' c) = core ((requeued (pcb b c))\<lparr>p_context := saved\<rparr>)" "current_tick s' = current_tick b"
        by (rule schedule_spec [OF b(2,3) c64 b(6) k(1) Rk k(3)]) (simp_all only:)
      obtain sv where sv: "core (pcb s' c) = core ((requeued (pcb b c))\<lparr>p_context := sv\<rparr>)" using s'(5) by blast
      have "pstate (pcb s' c) = PROC_READY" "time_slice (pcb s' c) = slice_for (prio_of (pcb s c))" "total_time (pcb s' c) = total_time (pcb b c)"
        using core_fields(1,4,9) [OF sv] b(7) by (simp_all add: requeued_def core_def)
      moreover have "pstate (pcb s' (hd (R k))) = PROC_RUNNING" using core_fields(1) [OF s'(4)] by simp
      ultimately show ?thesis using s' b slice c Some by (simp add: process_current_def slice_for_def)
    qed
  qed
qed

lemma demo_running: "process_current (sys (demo pr)) = Some 0" "pstate (pcb (demo pr) 0) = PROC_RUNNING"
  "time_slice (pcb (demo pr) 0) = 10" "current_tick (demo pr) = 4" "wake_time (pcb (demo pr) 3) = 5" "prio_of (pcb (demo pr) 3) = 10"
proof -
  show "process_current (sys (demo pr)) = Some 0" "current_tick (demo pr) = 4" by (simp_all add: process_current_def demo_def)
qed (simp_all add: demo_pcb clamp_prio_def SCHED_PRIORITY_LEVELS_def)

text \<open>A tick that uses up the slice hands over to the sleeper it wakes, which has the better priority.\<close>

theorem scheduler_tick_wakes_due_witness:
  "(\<exists>s'. scheduler_tick (demo 16) = Some s' \<and> process_current (sys s') = Some 0 \<and> time_slice (pcb s' 0) = 9)
   \<and> (\<exists>s'. scheduler_tick (upd 0 (\<lambda>p. p\<lparr>time_slice := 1\<rparr>) (demo 16)) = Some s' \<and> process_current (sys s') = Some 3
        \<and> time_slice (pcb s' 0) = 21 \<and> sched_inv s' (\<lambda>k. if k = 16 then [1, 2, 0] else []))"
proof
  let ?d = "upd 0 (\<lambda>p. p\<lparr>time_slice := 1\<rparr>) (demo 16)"
  show "\<exists>s'. scheduler_tick (demo 16) = Some s' \<and> process_current (sys s') = Some 0 \<and> time_slice (pcb s' 0) = 9"
    using scheduler_tick_wakes_due [OF demo_inv, of 16] by (auto simp: demo_running)
  have len: "0 < length (processes (sys (demo 16)))" using sched_invD(1) [OF demo_inv] by simp
  have inv: "sched_inv ?d demo_queues" by (rule sched_inv_upd [OF demo_inv]) (simp_all add: unqueued_def demo_queues_def)
  have d: "process_current (sys ?d) = Some 0" "current_tick ?d = 4" "pcb ?d 0 = (pcb (demo 16) 0)\<lparr>time_slice := 1\<rparr>" "pcb ?d 3 = pcb (demo 16) 3"
    using len demo_running(1,4) [of 16] by (simp_all add: process_current_def)
  have R: "woken ?d demo_queues = demo_queues(10 := [3], 32 := [])"
    by (rule ext) (simp add: woken_def d demo_running demo_queues_def)
  have f: "find (\<lambda>k. (demo_queues(10 := [3], 32 := [])) k \<noteq> []) [0..<32] = Some 10"
    by (simp add: upt_rec demo_queues_def)
  have p: "prio_of (pcb (demo 16) 0) = 16" by (simp add: demo_pcb clamp_prio_def SCHED_PRIORITY_LEVELS_def)
  have "rotate_queues 16 0 10 (demo_queues(10 := [3], 32 := [])) = (\<lambda>k. if k = 16 then [1, 2, 0] else [])"
    by (rule ext) (simp add: rotate_queues_def demo_queues_def)
  then show "\<exists>s'. scheduler_tick ?d = Some s' \<and> process_current (sys s') = Some 3
      \<and> time_slice (pcb s' 0) = 21 \<and> sched_inv s' (\<lambda>k. if k = 16 then [1, 2, 0] else [])"
    using scheduler_tick_wakes_due [OF inv] unfolding R f by (auto simp: d p demo_running)
qed

text \<open>
  a process that goes to sleep, while no other process of its priority is ready, is inserted into the sleep queue
  behind those that wake no later, so that the queue stays sorted, with the wake time it asked for; and the first
  process of the first non-empty ready queue runs instead.
\<close>

theorem scheduler_sleep_keeps_order:
  fixes ticks :: u64
  assumes "sched_inv s Q" "process_current (sys s) = Some c" "c < 64" "pstate (pcb s c) = PROC_RUNNING"
    and "Q (prio_of (pcb s c)) = []" "k < 32" "Q k = n # ys" "\<And>j. j < k \<Longrightarrow> Q j = []"
  defines "w \<equiv> current_tick s + ticks"
  shows "\<exists>s'. scheduler_sleep ticks s = Some s' \<and> process_current (sys s') = Some n
    \<and> pstate (pcb s' c) = PROC_BLOCKED \<and> wake_time (pcb s' c) = w
    \<and> sched_inv s' (Q(k := ys, 32 := takeWhile (\<lambda>i. wake_time (pcb s i) \<le> w) (Q 32)
        @ c # dropWhile (\<lambda>i. wake_time (pcb s i) \<le> w) (Q 32)))"
proof -
  note D = sched_invD [OF assms(1)]
  have uq: "unqueued c Q" using running_unqueued [OF assms(1)] assms(4) by simp
  have cq: "c \<notin> set (Q 32)" using uq by (simp add: unqueued_def)
  let ?a = "upd c (\<lambda>p. p\<lparr>wake_time := w, pstate := PROC_BLOCKED\<rparr>) s"
  have a: "sched_inv ?a Q" by (rule sched_inv_upd [OF assms(1) uq assms(3)]) simp_all
  have pa: "pcb ?a j = (if j = c then (pcb s c)\<lparr>wake_time := w, pstate := PROC_BLOCKED\<rparr> else pcb s j)" for j
    using D(1) assms(3) by auto
  define b where "b = scheduler_remove (Some c) ?a"
  have "Q (prio_of (pcb ?a c)) = []" using assms(5) by (simp add: pa)
  note b = remove_unqueued_inv [OF a assms(3) uq this, folded b_def]
  have pb: "pcb b j = pcb ?a j" for j by (rule b(3))
  have "pstate (pcb b c) = PROC_BLOCKED" by (simp add: pb pa)
  from sleep_insert_spec [OF b(1) assms(3) uq this]
  obtain d where d: "sleep_insert c b = Some d" "env d = env b" "sched_inv d (Q(32 := sleep_order b c (Q 32)))"
    "\<And>j. core (pcb d j) = core (pcb b j)" by metis
  have so: "sleep_order b c (Q 32) = takeWhile (\<lambda>i. wake_time (pcb s i) \<le> w) (Q 32)
      @ c # dropWhile (\<lambda>i. wake_time (pcb s i) \<le> w) (Q 32)"
  proof -
    have eq: "wake_time (pcb b j) \<le> wake_time (pcb b c) \<longleftrightarrow> wake_time (pcb s j) \<le> w" if "j \<in> set (Q 32)" for j
      using that cq unfolding pb pa by auto
    show ?thesis unfolding sleep_order_def by (simp add: eq cong: takeWhile_cong dropWhile_cong)
  qed
  have dc: "current_process (sys d) = Some c" using d(2) b(2) assms(2) by (simp add: env_def process_current_def)
  have ds: "pstate (pcb d c) = PROC_BLOCKED" "wake_time (pcb d c) = w" using core_fields(1,3) [OF d(4)] by (simp_all add: pb pa)
  let ?Q = "Q(32 := sleep_order b c (Q 32))"
  have Qk: "?Q k = n # ys" "\<And>j. j < k \<Longrightarrow> ?Q j = []" using assms(6-8) by auto
  obtain s' where s': "schedule d = Some s'" "sched_inv s' (?Q(k := ys))" "current_process (sys s') = Some n"
    "\<exists>saved. core (pcb s' c) = core ((pcb d c)\<lparr>p_context := saved\<rparr>)"
    by (rule schedule_off [OF d(3) dc assms(3) ds(1) assms(6) Qk]) (simp_all only:)
  obtain sv where sv: "core (pcb s' c) = core ((pcb d c)\<lparr>p_context := sv\<rparr>)" using s'(4) by blast
  have "scheduler_sleep ticks s = Some s'"
    using assms(2) d(1) s'(1) by (simp add: scheduler_sleep_def Let_def w_def b_def)
  moreover have "?Q(k := ys) = Q(k := ys, 32 := sleep_order b c (Q 32))" using assms(6) by auto
  ultimately show ?thesis using s'(2,3) core_fields(1,3) [OF sv] ds so by (simp add: process_current_def)
qed

theorem scheduler_sleep_keeps_order_witness:
  "\<exists>s'. scheduler_sleep 7 (demo 3) = Some s' \<and> process_current (sys s') = Some 1 \<and> wake_time (pcb s' 0) = 11
    \<and> sched_inv s' (demo_queues(16 := [2], 32 := [3, 0]))"
proof -
  have "prio_of (pcb (demo 3) 0) = 3" by (simp add: demo_pcb clamp_prio_def SCHED_PRIORITY_LEVELS_def)
  then show ?thesis
    using scheduler_sleep_keeps_order [OF demo_inv demo_running(1) _ demo_running(2), of 3 16 1 "[2]" 7]
    by (auto simp: demo_queues_def demo_running)
qed

text \<open>
  C16: blocking the running process loses every ready process of the same priority. The running process is in no queue,
  so \<open>scheduler_remove\<close> takes its null \<open>prev\<close> pointer to mean that it heads the queue of its priority and makes its
  null \<open>next\<close> pointer the new head: the processes that waited there are still marked ready but in no queue, and when
  \<open>scheduler_block\<close> goes on to \<open>schedule\<close> the bitmap no longer shows them.
\<close>

theorem scheduler_block_drops_queue:
  assumes "sched_inv s Q" "process_current (sys s) = Some c" "c < 64" "pstate (pcb s c) = PROC_RUNNING"
  defines "p \<equiv> prio_of (pcb s c)"
  shows "\<exists>a. scheduler_block None s = schedule a \<and> ready_queues a ! p = None \<and> \<not> bit (ready_bitmap a) p
    \<and> (\<forall>i \<in> set (Q p). pstate (pcb a i) = PROC_READY)
    \<and> (\<forall>k < 32. k \<noteq> p \<longrightarrow> ready_queues a ! k = ready_queues s ! k)"
proof -
  note D = sched_invD [OF assms(1)]
  have uq: "unqueued c Q" using running_unqueued [OF assms(1)] assms(4) by simp
  let ?a = "upd c (\<lambda>p. p\<lparr>pstate := PROC_BLOCKED\<rparr>) s"
  have p: "p < 32" by (simp add: p_def clamp_range)
  have len: "c < length (processes (sys ?a))" using D(1) assms(3) by simp
  have pa: "pcb ?a j = (if j = c then (pcb s c)\<lparr>pstate := PROC_BLOCKED\<rparr> else pcb s j)" for j using D(1) assms(3) by auto
  have n: "p_next (pcb ?a c) = None" "p_prev (pcb ?a c) = None" "prio_of (pcb ?a c) = p"
    using D(9) [OF assms(3) uq] by (simp_all add: pa p_def)
  define a where "a = scheduler_remove (Some c) ?a"
  have a: "a = (upd c (\<lambda>p. p\<lparr>p_next := None, p_prev := None\<rparr>) ?a)\<lparr>ready_queues := (ready_queues s)[p := None],
      ready_bitmap := ready_bitmap s AND NOT (push_bit p 1)\<rparr>"
    using scheduler_remove_unqueued [OF len n(1,2)] D(2) n(3) by (simp add: a_def)
  have "current_process (sys a) = Some c" using assms(2) by (simp add: a process_current_def)
  then have "scheduler_block None s = schedule a"
    using assms(2) by (simp add: scheduler_block_def Let_def a_def [symmetric] process_current_def)
  moreover have "pstate (pcb a i) = PROC_READY" if "i \<in> set (Q p)" for i
  proof -
    have "i \<noteq> c" using that uq p by (auto simp: unqueued_def)
    then have "pcb a i = pcb s i" using len D(1) by (simp add: a pa)
    then show ?thesis using D(5) [OF p that] by simp
  qed
  moreover have "ready_queues a ! p = None" using p D(2) by (simp add: a)
  moreover have "\<not> bit (ready_bitmap a) p" using bitmap_clear [OF p p] by (simp add: a)
  ultimately show ?thesis by (auto simp: a)
qed

theorem scheduler_block_drops_queue_witness:
  "\<exists>a. scheduler_block None (demo 16) = schedule a \<and> ready_queues a ! 16 = None
    \<and> pstate (pcb a 1) = PROC_READY \<and> pstate (pcb a 2) = PROC_READY"
proof -
  have "prio_of (pcb (demo 16) 0) = 16" by (simp add: demo_pcb clamp_prio_def SCHED_PRIORITY_LEVELS_def)
  then show ?thesis
    using scheduler_block_drops_queue [OF demo_inv demo_running(1) _ demo_running(2), of 16]
    by (auto simp: demo_queues_def)
qed


text \<open>
  when no process is ready, a running process that calls \<open>schedule\<close> does not keep the processor: the idle process
  is chosen before the caller is queued again. And if the caller has the lowest priority, that of the idle process,
  it is lost: removing the idle process, which is in no queue, empties the queue the caller was just put in, and it
  stays ready in no queue, with the bitmap empty.
\<close>

theorem schedule_idle_drops_caller:
  assumes "sched_inv s Q" "process_current (sys s) = Some c" "c < 64" "pstate (pcb s c) = PROC_RUNNING"
    and "\<And>k. k < 32 \<Longrightarrow> Q k = []" "idle_proc s = Some i" "i < 64" "i \<noteq> c" "unqueued i Q"
    and "31 \<le> priority (pcb s c)" "31 \<le> priority (pcb s i)"
  shows "\<exists>s'. schedule s = Some s' \<and> process_current (sys s') = Some i \<and> pstate (pcb s' c) = PROC_READY
    \<and> ready_bitmap s' = 0 \<and> (\<forall>k < 32. ready_queues s' ! k = None)"
proof -
  note D = sched_invD [OF assms(1)]
  have cur: "current_process (sys s) = Some c" using assms(2) by (simp add: process_current_def)
  have uc: "unqueued c Q" using running_unqueued [OF assms(1)] assms(4) by simp
  have p31: "clamp_prio p = 31" if "31 \<le> p" for p using that by (simp add: clamp_prio_def SCHED_PRIORITY_LEVELS_def)
  let ?a = "upd c (\<lambda>p. p\<lparr>pstate := PROC_READY\<rparr>) s"
  have a: "sched_inv ?a Q" by (rule sched_inv_upd [OF assms(1) uc assms(3)]) simp_all
  have pa: "pcb ?a j = (if j = c then (pcb s c)\<lparr>pstate := PROC_READY\<rparr> else pcb s j)" for j using D(1) assms(3) by auto
  have un: "pstate (pcb ?a c) \<noteq> PROC_UNUSED" by (simp add: pa)
  obtain b where b: "scheduler_add (Some c) ?a = Some b" "sched_inv b (Q(31 := [c]))"
    "\<And>j. core (pcb b j) = (if j = c then core (requeued (pcb ?a c)) else core (pcb ?a j))"
    by (rule scheduler_add_spec [OF a assms(3) uc un]) (simp_all add: pa p31 assms(5,10))
  note B = sched_invD [OF b(2)]
  have ui: "unqueued i (Q(31 := [c]))" using assms(8,9) by (simp add: unqueued_def)
  have n: "p_next (pcb b i) = None" "p_prev (pcb b i) = None" using B(9) [OF assms(7) ui] by simp_all
  have pi: "prio_of (pcb b i) = 31"
    using core_fields(2) [of "pcb b i" "pcb s i"] b(3) [of i] assms(8,11) p31 by (simp add: pa)
  have len: "i < length (processes (sys b))" using B(1) assms(7) by simp
  define d where "d = scheduler_remove (Some i) b"
  have d: "d = (upd i (\<lambda>p. p\<lparr>p_next := None, p_prev := None\<rparr>) b)\<lparr>ready_queues := (ready_queues b)[31 := None],
      ready_bitmap := ready_bitmap b AND NOT (push_bit 31 1)\<rparr>"
    using scheduler_remove_unqueued [OF len n B(2)] pi by (simp add: d_def)
  define e where "e = switch_tables i (set_current (Some i) (upd i (\<lambda>p. p\<lparr>pstate := PROC_RUNNING\<rparr>) d))"
  have le: "c < length (processes (sys e))" "i < length (processes (sys d))" using B(1) assms(3,7) by (simp_all add: e_def d)
  note S = switch_to_spec [OF le(1), of i]
  have fn: "find_next_process s = Some i" using find_next_idle [OF assms(1,5)] assms(6) by simp
  have run: "schedule s = Some (switch_to (Some c) i e)"
    using cur assms(4,8) b(1) by (simp add: schedule_def fn process_current_def Let_def e_def d_def)
  have bm: "ready_bitmap b AND NOT (push_bit 31 1) = 0"
  proof (rule bit_word_eqI)
    fix j assume "j < LENGTH(32)"
    then show "bit (ready_bitmap b AND NOT (push_bit 31 1)) j = bit 0 j"
      using bitmap_clear [of 31 j "ready_bitmap b"] B(6) [of j] assms(5) [of j] by auto
  qed
  have rq: "(ready_queues b)[31 := None] ! k = None" if "k < 32" for k
    using chainsD(1) [OF B(3), of k] assms(5) [OF that] that B(2) by (cases "k = 31") (simp_all add: qhead_def)
  have pe: "pcb e c = pcb b c" using le assms(8) len by (simp add: e_def d)
  have "pstate (pcb b c) = PROC_READY" using core_fields(1) [of "pcb b c" "requeued (pcb ?a c)"] b(3) [of c] by (simp add: requeued_def)
  then have "pstate (pcb (switch_to (Some c) i e) c) = PROC_READY" using S(9) pe by auto
  moreover have "ready_bitmap e = 0" "\<forall>k < 32. ready_queues e ! k = None" "current_process (sys e) = Some i"
    using bm rq by (simp_all add: e_def d)
  ultimately show ?thesis using run S(1,2,5) by (auto simp: process_current_def)
qed

definition demo_idle :: sched where
  "demo_idle = (demo 31)\<lparr>sys := proc_bss\<lparr>processes := (replicate 64 proc_zero)
       [0 := proc_zero\<lparr>pid := 1, pstate := PROC_READY, priority := 31, p_context := 0x5000\<rparr>,
        1 := proc_zero\<lparr>pid := 2, pstate := PROC_RUNNING, priority := 31\<rparr>], current_process := Some 1\<rparr>,
     ready_queues := replicate 32 None, ready_bitmap := 0, sleep_queue := None, idle_proc := Some 0\<rparr>"

lemma demo_idle_inv: "sched_inv demo_idle (\<lambda>_. [])"
proof -
  have "p_next (pcb demo_idle j) = None \<and> p_prev (pcb demo_idle j) = None" if "j < 64" for j
    using that by (simp add: demo_idle_def pcb_def nth_list_update proc_zero_def)
  then show ?thesis by (auto simp: sched_inv_def chains_def qhead_def demo_idle_def)
qed

theorem schedule_idle_drops_caller_witness:
  "\<exists>s'. schedule demo_idle = Some s' \<and> process_current (sys s') = Some 0 \<and> pstate (pcb s' 1) = PROC_READY
    \<and> ready_bitmap s' = 0"
proof -
  have "process_current (sys demo_idle) = Some 1" "idle_proc demo_idle = Some 0" "pstate (pcb demo_idle 1) = PROC_RUNNING"
    "31 \<le> priority (pcb demo_idle 1)" "31 \<le> priority (pcb demo_idle 0)" "unqueued 0 (\<lambda>_. [])"
    by (simp_all add: demo_idle_def process_current_def pcb_def proc_bss_def unqueued_def)
  then show ?thesis using schedule_idle_drops_caller [OF demo_idle_inv, of 1 0] by auto
qed

end
