(* ===== verification/Idt.thy ===== *)
theory Idt
  imports Prelude
begin

text \<open>
  The interrupt descriptor table, \<open>src/kernel/cpu/idt.c\<close> and \<open>idt.h\<close>. The addresses of the assembly entry
  points are a parameter \<open>isr\<close>, indexed by interrupt number (\<open>isr.S\<close> makes \<open>irq0\<close> an alias of \<open>isr32\<close> and so
  on), and so is the address of the table itself. The dispatch of interrupts is in \<open>Interrupts\<close>.
\<close>

record idt_entry =
  offset_low :: u16
  idt_selector :: u16
  idt_ist :: u8
  type_attr :: u8
  offset_mid :: u16
  offset_high :: u32
  idt_reserved :: u32

record idt_ptr =
  idt_limit :: u16
  idt_base :: u64

record idt_state =
  idt :: "idt_entry list"
  idtr :: idt_ptr

definition IDT_TYPE_INTERRUPT :: u8 where "IDT_TYPE_INTERRUPT = 0x8E"
definition IDT_TYPE_TRAP :: u8 where "IDT_TYPE_TRAP = 0x8F"
definition IDT_PRESENT :: u8 where "IDT_PRESENT = 0x80"
definition IDT_DPL0 :: u8 where "IDT_DPL0 = 0x00"
definition IDT_DPL3 :: u8 where "IDT_DPL3 = 0x60"

definition EXCEPTION_DE :: u8 where "EXCEPTION_DE = 0"
definition EXCEPTION_DB :: u8 where "EXCEPTION_DB = 1"
definition EXCEPTION_NMI :: u8 where "EXCEPTION_NMI = 2"
definition EXCEPTION_BP :: u8 where "EXCEPTION_BP = 3"
definition EXCEPTION_OF :: u8 where "EXCEPTION_OF = 4"
definition EXCEPTION_BR :: u8 where "EXCEPTION_BR = 5"
definition EXCEPTION_UD :: u8 where "EXCEPTION_UD = 6"
definition EXCEPTION_NM :: u8 where "EXCEPTION_NM = 7"
definition EXCEPTION_DF :: u8 where "EXCEPTION_DF = 8"
definition EXCEPTION_TS :: u8 where "EXCEPTION_TS = 10"
definition EXCEPTION_NP :: u8 where "EXCEPTION_NP = 11"
definition EXCEPTION_SS :: u8 where "EXCEPTION_SS = 12"
definition EXCEPTION_GP :: u8 where "EXCEPTION_GP = 13"
definition EXCEPTION_PF :: u8 where "EXCEPTION_PF = 14"
definition EXCEPTION_MF :: u8 where "EXCEPTION_MF = 16"
definition EXCEPTION_AC :: u8 where "EXCEPTION_AC = 17"
definition EXCEPTION_MC :: u8 where "EXCEPTION_MC = 18"
definition EXCEPTION_XM :: u8 where "EXCEPTION_XM = 19"
definition EXCEPTION_VE :: u8 where "EXCEPTION_VE = 20"
definition IRQ_TIMER :: u8 where "IRQ_TIMER = 0"
definition IRQ_KEYBOARD :: u8 where "IRQ_KEYBOARD = 1"

lemmas idt_numbers = EXCEPTION_DE_def EXCEPTION_DB_def EXCEPTION_NMI_def EXCEPTION_BP_def EXCEPTION_OF_def EXCEPTION_BR_def
  EXCEPTION_UD_def EXCEPTION_NM_def EXCEPTION_DF_def EXCEPTION_TS_def EXCEPTION_NP_def EXCEPTION_SS_def EXCEPTION_GP_def
  EXCEPTION_PF_def EXCEPTION_MF_def EXCEPTION_AC_def EXCEPTION_MC_def EXCEPTION_XM_def EXCEPTION_VE_def IRQ_TIMER_def
  IRQ_KEYBOARD_def IDT_TYPE_INTERRUPT_def IDT_TYPE_TRAP_def IDT_PRESENT_def IDT_DPL0_def IDT_DPL3_def

definition idt_set_entry :: "u8 \<Rightarrow> u64 \<Rightarrow> u16 \<Rightarrow> u8 \<Rightarrow> idt_state \<Rightarrow> idt_state" where
  "idt_set_entry num handler sel attr s =
     s\<lparr>idt := (idt s)[unat num := \<lparr>offset_low = ucast (handler AND 0xFFFF), idt_selector = sel, idt_ist = 0,
         type_attr = attr, offset_mid = ucast (drop_bit 16 handler AND 0xFFFF),
         offset_high = ucast (drop_bit 32 handler AND 0xFFFFFFFF), idt_reserved = 0\<rparr>]\<rparr>"

text \<open>\<open>sizeof(idt)\<close> is 256 entries of 16 bytes.\<close>

definition SIZEOF_IDT :: nat where "SIZEOF_IDT = 256 * 16"

definition idt_load :: "u64 \<Rightarrow> idt_state \<Rightarrow> idt_state" where
  "idt_load idt_addr s = s\<lparr>idtr := \<lparr>idt_limit = of_nat (SIZEOF_IDT - 1), idt_base = idt_addr\<rparr>\<rparr>"

abbreviation gate0 :: u8 where "gate0 \<equiv> IDT_TYPE_INTERRUPT OR IDT_PRESENT OR IDT_DPL0"
abbreviation gate3 :: u8 where "gate3 \<equiv> IDT_TYPE_TRAP OR IDT_PRESENT OR IDT_DPL3"

definition idt_init :: "(nat \<Rightarrow> u64) \<Rightarrow> u64 \<Rightarrow> idt_state \<Rightarrow> idt_state" where
  "idt_init isr idt_addr s =
     (let s = fold (\<lambda>i. idt_set_entry (of_nat i) 0 0 0) [0..<256] s;
          s = idt_set_entry EXCEPTION_DE (isr 0) 0x08 gate0 s;
          s = idt_set_entry EXCEPTION_DB (isr 1) 0x08 gate0 s;
          s = idt_set_entry EXCEPTION_NMI (isr 2) 0x08 gate0 s;
          s = idt_set_entry EXCEPTION_BP (isr 3) 0x08 gate3 s;
          s = idt_set_entry EXCEPTION_OF (isr 4) 0x08 gate3 s;
          s = idt_set_entry EXCEPTION_BR (isr 5) 0x08 gate0 s;
          s = idt_set_entry EXCEPTION_UD (isr 6) 0x08 gate0 s;
          s = idt_set_entry EXCEPTION_NM (isr 7) 0x08 gate0 s;
          s = idt_set_entry EXCEPTION_DF (isr 8) 0x08 gate0 s;
          s = idt_set_entry EXCEPTION_TS (isr 10) 0x08 gate0 s;
          s = idt_set_entry EXCEPTION_NP (isr 11) 0x08 gate0 s;
          s = idt_set_entry EXCEPTION_SS (isr 12) 0x08 gate0 s;
          s = idt_set_entry EXCEPTION_GP (isr 13) 0x08 gate0 s;
          s = idt_set_entry EXCEPTION_PF (isr 14) 0x08 gate0 s;
          s = idt_set_entry EXCEPTION_MF (isr 16) 0x08 gate0 s;
          s = idt_set_entry EXCEPTION_AC (isr 17) 0x08 gate0 s;
          s = idt_set_entry EXCEPTION_MC (isr 18) 0x08 gate0 s;
          s = idt_set_entry EXCEPTION_XM (isr 19) 0x08 gate0 s;
          s = idt_set_entry EXCEPTION_VE (isr 20) 0x08 gate0 s;
          s = idt_set_entry (32 + IRQ_TIMER) (isr 32) 0x08 gate0 s;
          s = idt_set_entry (32 + IRQ_KEYBOARD) (isr 33) 0x08 gate0 s;
          s = idt_set_entry (32 + 2) (isr 34) 0x08 gate0 s;
          s = idt_set_entry (32 + 3) (isr 35) 0x08 gate0 s;
          s = idt_set_entry (32 + 4) (isr 36) 0x08 gate0 s;
          s = idt_set_entry (32 + 5) (isr 37) 0x08 gate0 s;
          s = idt_set_entry (32 + 6) (isr 38) 0x08 gate0 s;
          s = idt_set_entry (32 + 7) (isr 39) 0x08 gate0 s;
          s = idt_set_entry (40 + 0) (isr 40) 0x08 gate0 s;
          s = idt_set_entry (40 + 1) (isr 41) 0x08 gate0 s;
          s = idt_set_entry (40 + 2) (isr 42) 0x08 gate0 s;
          s = idt_set_entry (40 + 3) (isr 43) 0x08 gate0 s;
          s = idt_set_entry (40 + 4) (isr 44) 0x08 gate0 s;
          s = idt_set_entry (40 + 5) (isr 45) 0x08 gate0 s;
          s = idt_set_entry (40 + 6) (isr 46) 0x08 gate0 s;
          s = idt_set_entry (40 + 7) (isr 47) 0x08 gate0 s
      in idt_load idt_addr s)"

section \<open>The table as the processor reads it\<close>

definition gate_target :: "idt_entry \<Rightarrow> u64" where
  "gate_target e = ucast (offset_low e) OR push_bit 16 (ucast (offset_mid e)) OR push_bit 32 (ucast (offset_high e))"

definition vectors :: "nat set" where
  "vectors = {0..8} \<union> {10..14} \<union> {16..20} \<union> {32..47}"

text \<open>One gate, as \<open>idt_set_entry\<close> writes it; its three offset fields put together are the handler's address.\<close>

definition gate :: "u64 \<Rightarrow> u16 \<Rightarrow> u8 \<Rightarrow> idt_entry" where
  "gate handler sel attr = \<lparr>offset_low = ucast (handler AND 0xFFFF), idt_selector = sel, idt_ist = 0,
     type_attr = attr, offset_mid = ucast (drop_bit 16 handler AND 0xFFFF),
     offset_high = ucast (drop_bit 32 handler AND 0xFFFFFFFF), idt_reserved = 0\<rparr>"

lemma gate_target_gate: "gate_target (gate h sel attr) = h"
proof -
  have m: "(0xFFFF :: u64) = mask 16" "(0xFFFFFFFF :: u64) = mask 32" by (simp_all add: mask_eq_exp_minus_1)
  have "ucast (ucast (h AND mask 16) :: u16) = bit_field 0 16 h" using bit_field_cast [where 'b = 16, of 16 0 h] by simp
  then have "gate_target (gate h sel attr) = bit_field 0 16 h OR bit_field 16 16 h OR bit_field 32 32 h"
    using bit_field_cast [where 'b = 16, of 16 16 h] bit_field_cast [where 'b = 32, of 32 32 h]
    unfolding gate_target_def gate_def m by simp
  also have "\<dots> = bit_field 0 64 h"
    using bit_field_join [of 0 16 h 16] bit_field_join [of 0 32 h 32] by (simp flip: or.assoc)
  finally show ?thesis by (simp add: bit_field_all)
qed

lemma idt_set_entry_gate: "idt_set_entry num h sel attr s = s\<lparr>idt := (idt s)[unat num := gate h sel attr]\<rparr>"
  by (simp add: idt_set_entry_def gate_def)

lemma idt_set_entry_upd: "idt_set_entry num h sel attr s = idt_update (\<lambda>t. t[unat num := gate h sel attr]) s"
  by (cases s) (simp add: idt_set_entry_gate)

lemma clear_gates:
  assumes "length (idt s) = 256"
  shows "fold (\<lambda>i. idt_set_entry (of_nat i) 0 0 0) [0..<256] s = s\<lparr>idt := replicate 256 (gate 0 0 0)\<rparr>"
proof -
  have step: "fold (\<lambda>i. idt_set_entry (of_nat i) 0 0 0) [0..<n] s = s\<lparr>idt := replicate n (gate 0 0 0) @ drop n (idt s)\<rparr>" if "n \<le> 256" for n
    using that
  proof (induction n)
    case (Suc n)
    then have "unat (of_nat n :: u8) = n" "n < length (idt s)" using assms by (simp_all add: unat_of_nat)
    then show ?case using Suc
      by (simp add: idt_set_entry_gate list_update_append Cons_nth_drop_Suc [symmetric] replicate_append_same flip: replicate_Suc)
  qed simp
  show ?thesis using step [of 256] assms by simp
qed


text \<open>The writes of \<open>idt_init\<close> after the clearing loop, as a list of vectors with their attributes.\<close>

definition installed :: "(nat \<times> u8) list" where
  "installed = map (\<lambda>n. (n, if n = 3 \<or> n = 4 then 0xEF else 0x8E)) ([0..<9] @ [10..<15] @ [16..<21] @ [32..<48])"

definition install :: "(nat \<Rightarrow> u64) \<Rightarrow> idt_entry list \<Rightarrow> idt_entry list" where
  "install isr = fold (\<lambda>(n, a) t. t[n := gate (isr n) 8 a]) installed"

lemma install_nth:
  assumes "length t = 256" "n < 256"
  shows "install isr t ! n = (if n \<in> vectors then gate (isr n) 8 (if n = 3 \<or> n = 4 then 0xEF else 0x8E) else t ! n)"
proof -
  have gen: "fold (\<lambda>(n, a) t. t[n := gate (isr n) 8 a]) (map (\<lambda>n. (n, f n)) ns) t ! n
      = (if n \<in> set ns then gate (isr n) 8 (f n) else t ! n)" if "length t = 256" for f ns and t :: "idt_entry list"
    using that
  proof (induction ns arbitrary: t)
    case (Cons k ks)
    then show ?case using Cons.IH [of "t[k := gate (isr k) 8 (f k)]"] assms(2) by (auto simp: nth_list_update)
  qed simp
  have "n \<in> set ([0..<9] @ [10..<15] @ [16..<21] @ [32..<48]) \<longleftrightarrow> n \<in> vectors"
    unfolding set_append set_upt vectors_def Un_iff atLeastLessThan_iff atLeastAtMost_iff by presburger
  then show ?thesis unfolding install_def installed_def gen [OF assms(1)] by simp
qed

lemma idt_init_install:
  assumes "length (idt s) = 256"
  shows "idt_init isr a s = \<lparr>idt = install isr (replicate 256 (gate 0 0 0)), idtr = \<lparr>idt_limit = 0xFFF, idt_base = a\<rparr>\<rparr>"
proof -
  have u: "[0..<9] = [0,1,2,3,4,5,6,7,8::nat]" "[10..<15] = [10,11,12,13,14::nat]" "[16..<21] = [16,17,18,19,20::nat]"
    "[32..<48] = [32,33,34,35,36,37,38,39,40,41,42,43,44,45,46,47::nat]" by (simp_all add: upt_rec)
  have g: "gate0 = 0x8E" "gate3 = 0xEF" by (simp_all add: idt_numbers)
  show ?thesis
    unfolding idt_init_def clear_gates [OF assms] Let_def idt_set_entry_upd g
    by (cases s) (simp add: install_def installed_def u idt_load_def SIZEOF_IDT_def idt_numbers)
qed

text \<open>
  after \<open>idt_init\<close> every exception and interrupt line the kernel handles has a present gate in the kernel code
  segment whose three offset fields recombine to the address of its own entry point, for every 64-bit address;
  breakpoint and overflow are trap gates user code may invoke, all others are ring 0 interrupt gates; every other
  vector has an empty gate; and the table register covers all 256 vectors.
\<close>

theorem idt_init_gates:
  assumes "length (idt s) = 256" "n < 256"
  shows "let s' = idt_init isr idt_addr s; e = idt s' ! n in
    (n \<in> vectors \<longrightarrow> gate_target e = isr n \<and> idt_selector e = 8 \<and> idt_ist e = 0 \<and> type_attr e = (if n = 3 \<or> n = 4 then 0xEF else 0x8E))
    \<and> (n \<notin> vectors \<longrightarrow> gate_target e = 0 \<and> type_attr e = 0) \<and> idtr s' = \<lparr>idt_limit = 4095, idt_base = idt_addr\<rparr>"
proof -
  have g: "gate_target (gate h sel a) = h" "idt_selector (gate h sel a) = sel" "idt_ist (gate h sel a) = 0" "type_attr (gate h sel a) = a" for h sel a
    by (rule gate_target_gate) (simp_all add: gate_def)
  show ?thesis
    using install_nth [of "replicate 256 (gate 0 0 0)" n isr] assms(2)
    unfolding idt_init_install [OF assms(1)] Let_def by (simp add: g)
qed

theorem idt_init_gates_witness:
  "let s' = idt_init (\<lambda>n. 0xFFFFFFFF80100000 + of_nat n * 16) 0x7000 \<lparr>idt = replicate 256 (gate 1 1 1), idtr = \<lparr>idt_limit = 0, idt_base = 0\<rparr>\<rparr>
   in gate_target (idt s' ! 33) = 0xFFFFFFFF80100210"
  using idt_init_gates [of "\<lparr>idt = replicate 256 (gate 1 1 1), idtr = \<lparr>idt_limit = 0, idt_base = 0\<rparr>\<rparr>" 33
      "\<lambda>n. 0xFFFFFFFF80100000 + of_nat n * 16" "0x7000"]
  by (simp add: Let_def vectors_def)

end
