(* ===== verification/Interrupts.thy ===== *)
theory Interrupts
  imports Scheduler_Props Keyboard Idt
begin

text \<open>
  The timer driver, \<open>src/kernel/drivers/timer.c\<close>, and the interrupt dispatcher of \<open>src/kernel/cpu/idt.c\<close>, which
  bring the other components together: the state is that of the scheduler (with the timer callback), of the
  keyboard (with the ports) and the tick counter. A timer interrupt may switch threads in the middle of the
  handler; what is left of the handler then runs when the interrupted thread is resumed.
\<close>

section \<open>Timer\<close>

definition PIT_CHANNEL0 :: u16 where "PIT_CHANNEL0 = 0x40"
definition PIT_COMMAND :: u16 where "PIT_COMMAND = 0x43"
definition PIT_CHANNEL0_SEL :: u8 where "PIT_CHANNEL0_SEL = 0x00"
definition PIT_ACCESS_LOHI :: u8 where "PIT_ACCESS_LOHI = 0x30"
definition PIT_MODE2 :: u8 where "PIT_MODE2 = 0x04"
definition PIT_BINARY :: u8 where "PIT_BINARY = 0x00"
definition PIT_FREQUENCY :: u32 where "PIT_FREQUENCY = 1193182"
definition TIMER_FREQUENCY :: u32 where "TIMER_FREQUENCY = 100"

text \<open>\<open>None\<close> is the divide error a frequency of zero raises.\<close>

definition timer_init :: "u32 \<Rightarrow> io \<Rightarrow> io option" where
  "timer_init frequency s =
     (if frequency = 0 then None
      else
        let divisor = PIT_FREQUENCY div frequency;
            s = outb PIT_COMMAND (PIT_CHANNEL0_SEL OR PIT_ACCESS_LOHI OR PIT_MODE2 OR PIT_BINARY) s;
            s = outb PIT_CHANNEL0 (ucast (divisor AND 0xFF)) s;
            s = outb PIT_CHANNEL0 (ucast (drop_bit 8 divisor AND 0xFF)) s
        in Some (pic_enable_irq 0 s))"

record kernel =
  k_sched :: sched
  k_keyboard :: keyboard
  timer_ticks :: u64

definition timer_handler :: "kernel \<Rightarrow> kernel option" where
  "timer_handler s =
     (let s = s\<lparr>timer_ticks := timer_ticks s + 1\<rparr> in
      case timer_cb (k_sched s) of
        None \<Rightarrow> Some s
      | Some Scheduler_tick \<Rightarrow>
          (case scheduler_tick (k_sched s) of None \<Rightarrow> None | Some t \<Rightarrow> Some (s\<lparr>k_sched := t\<rparr>)))"

definition timer_get_ticks :: "kernel \<Rightarrow> u64" where
  "timer_get_ticks s = timer_ticks s"

definition timer_set_callback :: "timer_callback option \<Rightarrow> kernel \<Rightarrow> kernel" where
  "timer_set_callback cb s = s\<lparr>k_sched := (k_sched s)\<lparr>timer_cb := cb\<rparr>\<rparr>"

section \<open>Dispatch\<close>

text \<open>
  How a call of the handler ends: it returns, it halts the machine, or the processor has gone to another thread
  and the end-of-interrupt command for the line is still to be sent.
\<close>

datatype 'a handled = Done 'a | Halted 'a | Switched u8 'a

definition send_eoi :: "u8 \<Rightarrow> kernel \<Rightarrow> kernel" where
  "send_eoi irq s = s\<lparr>k_keyboard := (k_keyboard s)\<lparr>kb_io := pic_eoi irq (kb_io (k_keyboard s))\<rparr>\<rparr>"

definition interrupt_handler :: "u64 \<Rightarrow> kernel \<Rightarrow> kernel handled option" where
  "interrupt_handler interrupt_number s =
     (if interrupt_number < 32 then Some (Halted s)
      else if interrupt_number \<ge> 32 \<and> interrupt_number < 48
      then
        let irq = ucast (interrupt_number - 32) in
        if irq = IRQ_TIMER
        then (case timer_handler s of
                None \<Rightarrow> None
              | Some t \<Rightarrow>
                  if process_current (sys (k_sched t)) \<noteq> process_current (sys (k_sched s)) then Some (Switched irq t)
                  else Some (Done (send_eoi irq t)))
        else if irq = IRQ_KEYBOARD
        then Some (Done (send_eoi irq (s\<lparr>k_keyboard := keyboard_handler (k_keyboard s)\<rparr>)))
        else Some (Done (send_eoi irq s))
      else Some (Done s))"

section \<open>Preemption\<close>

lemma first_nonempty:
  fixes Q :: "nat \<Rightarrow> 'a list"
  assumes "k < 32" "Q k \<noteq> []"
  obtains l where "l < 32" "Q l \<noteq> []" "\<And>j. j < l \<Longrightarrow> Q j = []"
proof -
  define l where "l = (LEAST j. Q j \<noteq> [])"
  have "Q l \<noteq> []" "l \<le> k" unfolding l_def using LeastI [of "\<lambda>j. Q j \<noteq> []" k] Least_le [of "\<lambda>j. Q j \<noteq> []" k] assms(2) by blast+
  moreover have "Q j = []" if "j < l" for j using that not_less_Least unfolding l_def by blast
  ultimately show ?thesis using assms(1) by (intro that [of l]) auto
qed

lemma tick_preempts:
  assumes inv: "sched_inv s Q" and cur: "current_process (sys s) = Some c" "c < 64" "pstate (pcb s c) = PROC_RUNNING"
    and "time_slice (pcb s c) \<le> 1" "k < 32" "Q k \<noteq> []"
  obtains s' n where "scheduler_tick s = Some s'" "current_process (sys s') = Some n" "n \<noteq> c"
proof -
  have "process_current (sys s) = Some c" using cur(1) by (simp add: process_current_def)
  then obtain b where b: "scheduler_tick s = (if 1 < time_slice (pcb s c) then Some b else schedule b)" "sched_inv b (woken s Q)"
    "current_process (sys b) = Some c" "pstate (pcb b c) = PROC_RUNNING"
    by (rule tick_charged [OF inv _ cur(2,3)])
  obtain l where l: "l < 32" "woken s Q l \<noteq> []" "\<And>j. j < l \<Longrightarrow> woken s Q j = []"
    by (rule first_nonempty [of k "woken s Q"]) (use assms(6,7) in \<open>auto simp: woken_def\<close>)
  then obtain n ys where n: "woken s Q l = n # ys" by (cases "woken s Q l") auto
  obtain s' where "schedule b = Some s'" "current_process (sys s') = Some n" "c \<noteq> n"
    by (rule schedule_spec [OF b(2,3) cur(2) b(4) l(1) n l(3)]) blast
  moreover have "scheduler_tick s = schedule b" using b(1) leD [OF assms(5)] by simp
  ultimately show ?thesis using that by metis
qed


section \<open>Properties\<close>

text \<open>
  \<open>timer_init\<close> programs the interval timer: for every frequency from 19 Hz up to the base frequency it sends the
  command byte for a binary rate generator and then the quotient of the two frequencies, low byte first, and
  unmasks line 0. A frequency of zero is a divide error; below 19 Hz the quotient does not fit and its upper bits are
  cut off, so the timer runs faster than asked.
\<close>

theorem timer_init_programs_divisor:
  assumes "port_in s 0x21 = m"
  shows "(f = 0 \<longrightarrow> timer_init f s = None)
    \<and> (f \<noteq> 0 \<longrightarrow> (\<exists>s' lo hi. timer_init f s = Some s'
        \<and> pic_writes s' = pic_writes s @ [(0x43, 0x34), (0x40, lo), (0x40, hi), (0x21, m AND 0xFE)]
        \<and> unat lo + 256 * unat hi = (1193182 div unat f) mod 65536))"
proof (intro conjI impI)
  assume f: "f \<noteq> 0"
  let ?d = "PIT_FREQUENCY div f"
  let ?lo = "ucast (?d AND 0xFF) :: u8" and ?hi = "ucast (drop_bit 8 ?d AND 0xFF) :: u8"
  have "unat ?d = 1193182 div unat f" by (simp add: PIT_FREQUENCY_def unat_div_distrib)
  moreover have "unat ?lo = unat ?d mod 256"
    by (simp add: unsigned_ucast_eq unat_and_mask [of _ 8, simplified mask_eq_exp_minus_1, simplified] take_bit_eq_mod)
  moreover have "unat ?hi = unat ?d div 256 mod 256"
    by (simp add: unsigned_ucast_eq unat_and_mask [of _ 8, simplified mask_eq_exp_minus_1, simplified] take_bit_eq_mod drop_bit_eq_div unat_div_distrib)
  ultimately have "unat ?lo + 256 * unat ?hi = (1193182 div unat f) mod 65536"
    by (simp add: mod_mult2_eq [of _ 256 256, simplified])
  moreover have m2: "m AND - 2 = m AND 0xFE" by (rule arg_cong [where f = "\<lambda>x. m AND x"]) simp
  moreover have "\<exists>s'. timer_init f s = Some s'
      \<and> pic_writes s' = pic_writes s @ [(0x43, 0x34), (0x40, ?lo), (0x40, ?hi), (0x21, m AND 0xFE)]"
    using f assms by (simp add: m2 timer_init_def Let_def pic_enable_irq_def pic_line_def pic_ports inb_def PIT_COMMAND_def PIT_CHANNEL0_def
        PIT_CHANNEL0_SEL_def PIT_ACCESS_LOHI_def PIT_MODE2_def PIT_BINARY_def)
  ultimately show "\<exists>s' lo hi. timer_init f s = Some s'
        \<and> pic_writes s' = pic_writes s @ [(0x43, 0x34), (0x40, lo), (0x40, hi), (0x21, m AND 0xFE)]
        \<and> unat lo + 256 * unat hi = (1193182 div unat f) mod 65536" by blast
qed (simp add: timer_init_def)


definition io_bss :: io where
  "io_bss = \<lparr>port_in = (\<lambda>_. 0xFF), port_out = []\<rparr>"

theorem timer_init_programs_divisor_witness:
  "\<exists>s' lo hi. timer_init TIMER_FREQUENCY io_bss = Some s' \<and> pic_writes s' = [(0x43, 0x34), (0x40, lo), (0x40, hi), (0x21, 0xFE)]
    \<and> unat lo + 256 * unat hi = 11931"
proof -
  have "pic_writes io_bss = []" "port_in io_bss 0x21 = 0xFF" by (simp_all add: io_bss_def pic_writes_def)
  then show ?thesis using timer_init_programs_divisor [of io_bss "0xFF" 100] by (simp add: TIMER_FREQUENCY_def)
qed

text \<open>
  dispatch. An exception (vector below 32) halts the machine. A keyboard interrupt runs the keyboard handler and
  then acknowledges its line to the first controller; lines without a handler are only acknowledged, those of the
  second controller to it first and then to the first; a timer interrupt that does not preempt counts a tick and is
  acknowledged; any other vector does nothing. Nothing else is sent to the controllers.
\<close>

theorem interrupt_handler_dispatch:
  defines "io s \<equiv> pic_writes (kb_io (k_keyboard s))"
  shows "(n < 32 \<longrightarrow> interrupt_handler n s = Some (Halted s))
    \<and> (48 \<le> n \<longrightarrow> interrupt_handler n s = Some (Done s))
    \<and> (n = 33 \<longrightarrow> (\<exists>s'. interrupt_handler n s = Some (Done s') \<and> queued (k_keyboard s') = queued (keyboard_handler (k_keyboard s))
        \<and> io s' = io (s\<lparr>k_keyboard := keyboard_handler (k_keyboard s)\<rparr>) @ [(0x20, 0x20)]))
    \<and> (33 < n \<and> n < 48 \<longrightarrow> (\<exists>s'. interrupt_handler n s = Some (Done s') \<and> queued (k_keyboard s') = queued (k_keyboard s)
        \<and> k_sched s' = k_sched s \<and> io s' = io s @ (if n < 40 then [(0x20, 0x20)] else [(0xA0, 0x20), (0x20, 0x20)])))
    \<and> (n = 32 \<and> timer_cb (k_sched s) = None \<longrightarrow> (\<exists>s'. interrupt_handler n s = Some (Done s') \<and> timer_get_ticks s' = timer_get_ticks s + 1
        \<and> io s' = io s @ [(0x20, 0x20)]))"
proof (intro conjI impI)
  have eoi: "io (send_eoi irq t) = io t @ (if irq < 8 then [(0x20, 0x20)] else [(0xA0, 0x20), (0x20, 0x20)])" for irq t
    using pic_eoi_writes [of irq "kb_io (k_keyboard t)"] by (simp add: io_def send_eoi_def flip: not_less)
  have q: "queued (k_keyboard (send_eoi irq t)) = queued (k_keyboard t)" "k_sched (send_eoi irq t) = k_sched t"
    "timer_ticks (send_eoi irq t) = timer_ticks t" for irq t by (simp_all add: send_eoi_def)
  show "interrupt_handler n s = Some (Halted s)" if "n < 32" using that by (simp add: interrupt_handler_def)
  show "interrupt_handler n s = Some (Done s)" if "48 \<le> n" using that by (auto simp: interrupt_handler_def word_nat)
  show "\<exists>s'. interrupt_handler n s = Some (Done s') \<and> queued (k_keyboard s') = queued (keyboard_handler (k_keyboard s))
        \<and> io s' = io (s\<lparr>k_keyboard := keyboard_handler (k_keyboard s)\<rparr>) @ [(0x20, 0x20)]" if "n = 33"
    using that eoi q by (simp add: interrupt_handler_def idt_numbers)
  show "\<exists>s'. interrupt_handler n s = Some (Done s') \<and> timer_get_ticks s' = timer_get_ticks s + 1 \<and> io s' = io s @ [(0x20, 0x20)]"
    if "n = 32 \<and> timer_cb (k_sched s) = None"
    using that eoi q by (simp add: interrupt_handler_def timer_handler_def idt_numbers timer_get_ticks_def Let_def io_def)
  assume n: "33 < n \<and> n < 48"
  have un: "unat (n - 32) = unat n - 32" using n by (simp add: word_nat unat_sub)
  have u: "unat (ucast (n - 32) :: u8) = unat n - 32" using n unat_below [of n] by (auto simp: un unsigned_ucast_eq take_bit_eq_mod word_nat)
  have "ucast (n - 32) \<noteq> IRQ_TIMER" "ucast (n - 32) \<noteq> IRQ_KEYBOARD"
    using u n by (auto simp: idt_numbers word_unat_eq_iff word_nat)
  then have "interrupt_handler n s = Some (Done (send_eoi (ucast (n - 32)) s))"
    using n by (auto simp: interrupt_handler_def word_nat)
  moreover have "(ucast (n - 32) :: u8) < 8 \<longleftrightarrow> n < 40" using u n by (auto simp: word_nat)
  ultimately show "\<exists>s'. interrupt_handler n s = Some (Done s') \<and> queued (k_keyboard s') = queued (k_keyboard s)
        \<and> k_sched s' = k_sched s \<and> io s' = io s @ (if n < 40 then [(0x20, 0x20)] else [(0xA0, 0x20), (0x20, 0x20)])"
    using eoi [of "ucast (n - 32)" s] q by simp
qed

definition demo_kernel :: "sched \<Rightarrow> kernel" where
  "demo_kernel s = \<lparr>k_sched = s, k_keyboard = keyboard_bss, timer_ticks = 7\<rparr>"

theorem interrupt_handler_dispatch_witness:
  "\<exists>s'. interrupt_handler 44 (demo_kernel (demo 3)) = Some (Done s')
    \<and> pic_writes (kb_io (k_keyboard s')) = [(0xA0, 0x20), (0x20, 0x20)]"
proof -
  have "pic_writes (kb_io (k_keyboard (demo_kernel (demo 3)))) = []" by (simp add: demo_kernel_def keyboard_bss_def pic_writes_def)
  then show ?thesis using interrupt_handler_dispatch [of 44 "demo_kernel (demo 3)"] by auto
qed

text \<open>
  preemption leaves the interrupt unacknowledged. When the time slice of the running process ends at a timer
  interrupt and another process is ready, the handler switches to that process before it sends the end-of-interrupt
  command: the new process runs with nothing written to the controller, which holds back every further timer
  interrupt until the old process is resumed.
\<close>

theorem timer_preemption_defers_eoi:
  assumes "sched_inv (k_sched s) Q" "process_current (sys (k_sched s)) = Some c" "c < 64"
    and "pstate (pcb (k_sched s) c) = PROC_RUNNING" "time_slice (pcb (k_sched s) c) \<le> 1" "k < 32" "Q k \<noteq> []"
    and "timer_cb (k_sched s) = Some Scheduler_tick"
  shows "\<exists>s' n. interrupt_handler 32 s = Some (Switched 0 s') \<and> process_current (sys (k_sched s')) = Some n \<and> n \<noteq> c
    \<and> port_out (kb_io (k_keyboard s')) = port_out (kb_io (k_keyboard s))"
proof -
  have cur: "current_process (sys (k_sched s)) = Some c" using assms(2) by (simp add: process_current_def)
  obtain t n where t: "scheduler_tick (k_sched s) = Some t" "current_process (sys t) = Some n" "n \<noteq> c"
    by (rule tick_preempts [OF assms(1) cur assms(3-7)])
  then have "timer_handler s = Some (s\<lparr>timer_ticks := timer_ticks s + 1, k_sched := t\<rparr>)"
    using assms(8) by (simp add: timer_handler_def Let_def)
  then show ?thesis using t cur by (simp add: interrupt_handler_def idt_numbers process_current_def)
qed

theorem timer_preemption_defers_eoi_witness:
  "\<exists>s' n. interrupt_handler 32 (demo_kernel (upd 0 (\<lambda>p. p\<lparr>time_slice := 1\<rparr>) (demo 16))) = Some (Switched 0 s')
    \<and> process_current (sys (k_sched s')) = Some n \<and> n \<noteq> 0 \<and> port_out (kb_io (k_keyboard s')) = []"
proof -
  let ?d = "upd 0 (\<lambda>p. p\<lparr>time_slice := 1\<rparr>) (demo 16)"
  have uq: "unqueued 0 demo_queues" by (simp add: unqueued_def demo_queues_def)
  have inv: "sched_inv (k_sched (demo_kernel ?d)) demo_queues"
    using sched_inv_upd [OF demo_inv uq, of "\<lambda>p. p\<lparr>time_slice := 1\<rparr>" 16] by (simp add: demo_kernel_def)
  have len: "0 < length (processes (sys (demo 16)))" using sched_invD(1) [OF demo_inv] by simp
  have "pstate (pcb ?d 0) = PROC_RUNNING" "time_slice (pcb ?d 0) = 1" "process_current (sys ?d) = Some 0"
    using len demo_running(1) [of 16] by (simp_all add: demo_running process_current_def)
  moreover have "timer_cb ?d = Some Scheduler_tick" by (simp add: demo_def)
  ultimately show ?thesis
    using timer_preemption_defers_eoi [OF inv, of 0 16] by (simp add: demo_kernel_def demo_queues_def keyboard_bss_def)
qed

end
