(* ===== verification/Heap.thy ===== *)
theory Heap
  imports Memory Linked_List
begin

text \<open>
  The kernel heap, \<open>src/kernel/mm/heap.c\<close>: a first-fit allocator whose block headers live in the
  memory they manage, chained in both directions. The state is the memory and the three
  file-level variables; a header is read and written through the fields of \<open>heap_block_t\<close> at their
  offsets (size 0, free 8, next 16, prev 24; 32 bytes in all). A walk along \<open>next\<close> pointers may
  not end on a corrupted chain, so \<open>find_free_block\<close> is a partial function and its callers return
  an option; the lemmas show that it does end on every well-formed heap.
\<close>

section \<open>Block headers\<close>

definition HEADER :: u64 where "HEADER = 32"
definition MIN_BLOCK_SIZE :: u64 where "MIN_BLOCK_SIZE = HEADER + 16"
definition ALIGN_SIZE :: u64 where "ALIGN_SIZE = 8"

definition blk_size :: "mem \<Rightarrow> u64 \<Rightarrow> u64" where "blk_size m b = load64 m b"
definition blk_free :: "mem \<Rightarrow> u64 \<Rightarrow> u32" where "blk_free m b = load32 m (b + 8)"
definition blk_next :: "mem \<Rightarrow> u64 \<Rightarrow> u64" where "blk_next m b = load64 m (b + 16)"
definition blk_prev :: "mem \<Rightarrow> u64 \<Rightarrow> u64" where "blk_prev m b = load64 m (b + 24)"

definition set_size :: "u64 \<Rightarrow> u64 \<Rightarrow> mem \<Rightarrow> mem" where "set_size b v m = store64 m b v"
definition set_free :: "u64 \<Rightarrow> u32 \<Rightarrow> mem \<Rightarrow> mem" where "set_free b v m = store32 m (b + 8) v"
definition set_next :: "u64 \<Rightarrow> u64 \<Rightarrow> mem \<Rightarrow> mem" where "set_next b v m = store64 m (b + 16) v"
definition set_prev :: "u64 \<Rightarrow> u64 \<Rightarrow> mem \<Rightarrow> mem" where "set_prev b v m = store64 m (b + 24) v"

record heap =
  heap_mem :: mem
  heap_start :: u64
  heap_total_size :: u64
  heap_used_size :: u64

section \<open>Operations\<close>

definition align_size :: "u64 \<Rightarrow> u64" where
  "align_size sz = (sz + ALIGN_SIZE - 1) AND NOT (ALIGN_SIZE - 1)"

definition heap_init :: "u64 \<Rightarrow> u64 \<Rightarrow> heap \<Rightarrow> heap" where
  "heap_init start sz h =
     (if start = NULL \<or> sz < MIN_BLOCK_SIZE then h
      else
        let aligned_start = (start + ALIGN_SIZE - 1) AND NOT (ALIGN_SIZE - 1);
            sz = sz - (aligned_start - start);
            sz = sz AND NOT (ALIGN_SIZE - 1);
            m = set_size aligned_start (sz - HEADER) (heap_mem h);
            m = set_free aligned_start 1 m;
            m = set_next aligned_start NULL m;
            m = set_prev aligned_start NULL m
        in \<lparr>heap_mem = m, heap_start = aligned_start, heap_total_size = sz, heap_used_size = 0\<rparr>)"

partial_function (option) find_from :: "mem \<Rightarrow> u64 \<Rightarrow> u64 \<Rightarrow> u64 option" where
  "find_from m sz current =
     (if current = NULL then Some NULL
      else if blk_free m current \<noteq> 0 \<and> blk_size m current \<ge> sz then Some current
      else find_from m sz (blk_next m current))"

definition find_free_block :: "u64 \<Rightarrow> heap \<Rightarrow> u64 option" where
  "find_free_block sz h = find_from (heap_mem h) sz (heap_start h)"

definition split_block :: "u64 \<Rightarrow> u64 \<Rightarrow> mem \<Rightarrow> mem" where
  "split_block block sz m =
     (if blk_size m block < sz + MIN_BLOCK_SIZE then m
      else
        let new_block = block + HEADER + sz;
            m = set_size new_block (blk_size m block - sz - HEADER) m;
            m = set_free new_block 1 m;
            m = set_next new_block (blk_next m block) m;
            m = set_prev new_block block m;
            m = (if blk_next m block \<noteq> NULL then set_prev (blk_next m block) new_block m else m);
            m = set_size block sz m
        in set_next block new_block m)"

definition coalesce_next :: "u64 \<Rightarrow> mem \<Rightarrow> mem" where
  "coalesce_next block m =
     (if blk_next m block \<noteq> NULL \<and> blk_free m (blk_next m block) \<noteq> 0
      then
        let m = set_size block (blk_size m block + (HEADER + blk_size m (blk_next m block))) m;
            m = set_next block (blk_next m (blk_next m block)) m
        in if blk_next m block \<noteq> NULL then set_prev (blk_next m block) block m else m
      else m)"

definition coalesce_prev :: "u64 \<Rightarrow> mem \<Rightarrow> mem" where
  "coalesce_prev block m =
     (if blk_prev m block \<noteq> NULL \<and> blk_free m (blk_prev m block) \<noteq> 0
      then
        let prev = blk_prev m block;
            m = set_size prev (blk_size m prev + (HEADER + blk_size m block)) m;
            m = set_next (blk_prev m block) (blk_next m block) m
        in if blk_next m block \<noteq> NULL then set_prev (blk_next m block) (blk_prev m block) m else m
      else m)"

definition coalesce_blocks :: "u64 \<Rightarrow> mem \<Rightarrow> mem" where
  "coalesce_blocks block m = coalesce_prev block (coalesce_next block m)"

text \<open>The returned pointer and the new state; \<open>None\<close> when the search does not end.\<close>

definition kmalloc :: "u64 \<Rightarrow> heap \<Rightarrow> (u64 \<times> heap) option" where
  "kmalloc sz h =
     (if sz = 0 then Some (NULL, h)
      else
        let sz = align_size sz in
        case find_free_block sz h of
          None \<Rightarrow> None
        | Some block \<Rightarrow>
            if block = NULL then Some (NULL, h)
            else
              let m = split_block block sz (heap_mem h);
                  m = set_free block 0 m
              in Some (block + HEADER,
                       h\<lparr>heap_mem := m,
                         heap_used_size := heap_used_size h + (blk_size m block + HEADER)\<rparr>))"

definition kmalloc_aligned :: "u64 \<Rightarrow> u64 \<Rightarrow> heap \<Rightarrow> (u64 \<times> heap) option" where
  "kmalloc_aligned sz align h =
     (let align = (if align < ALIGN_SIZE then ALIGN_SIZE else align) in
      if align AND (align - 1) \<noteq> 0 then Some (NULL, h)
      else
        let total_size = sz + align + HEADER in
        case kmalloc total_size h of
          None \<Rightarrow> None
        | Some (ptr, h') \<Rightarrow>
            if ptr = NULL then Some (NULL, h')
            else
              let aligned_ptr = (ptr + align - 1) AND NOT (align - 1)
              in Some (aligned_ptr, h'\<lparr>heap_mem := store64 (heap_mem h') (aligned_ptr - 8) ptr\<rparr>))"

definition kfree :: "u64 \<Rightarrow> heap \<Rightarrow> heap" where
  "kfree ptr h =
     (if ptr = NULL then h
      else
        let block = ptr - HEADER in
        if blk_free (heap_mem h) block \<noteq> 0 then h
        else
          let m = set_free block 1 (heap_mem h)
          in h\<lparr>heap_mem := coalesce_blocks block m,
               heap_used_size := heap_used_size h - (blk_size m block + HEADER)\<rparr>)"

text \<open>\<open>for (i = 0; i < copy_size; i++) new_ptr[i] = ptr[i]\<close>, byte by byte.\<close>

function copy_bytes :: "u64 \<Rightarrow> u64 \<Rightarrow> u64 \<Rightarrow> u64 \<Rightarrow> mem \<Rightarrow> mem" where
  "copy_bytes i n dst src m =
     (if i < n then copy_bytes (i + 1) n dst src (store8 m (dst + i) (load8 m (src + i))) else m)"
  by pat_completeness auto
termination
  by (relation "measure (\<lambda>(i, n, dst, src, m). unat (n - i))") (auto simp: loop_measure)

declare copy_bytes.simps [simp del]

definition krealloc :: "u64 \<Rightarrow> u64 \<Rightarrow> heap \<Rightarrow> (u64 \<times> heap) option" where
  "krealloc ptr sz h =
     (if ptr = NULL then kmalloc sz h
      else if sz = 0 then Some (NULL, kfree ptr h)
      else
        let block = ptr - HEADER;
            m = heap_mem h;
            old_size = blk_size m block;
            sz = align_size sz;
            next = blk_next m block
        in if sz \<le> old_size then Some (ptr, h\<lparr>heap_mem := split_block block sz m\<rparr>)
           else if next \<noteq> NULL \<and> blk_free m next \<noteq> 0 \<and> old_size + HEADER + blk_size m next \<ge> sz
           then Some (ptr, h\<lparr>heap_mem :=
                  split_block block sz (set_size block sz (set_free next 0 m))\<rparr>)
           else
             case kmalloc sz h of
               None \<Rightarrow> None
             | Some (new_ptr, h') \<Rightarrow>
                 if new_ptr = NULL then Some (NULL, h')
                 else
                   let copy_size = (if old_size < sz then old_size else sz);
                       h' = h'\<lparr>heap_mem := copy_bytes 0 copy_size new_ptr ptr (heap_mem h')\<rparr>
                   in Some (new_ptr, kfree ptr h'))"

definition kmalloc_size :: "u64 \<Rightarrow> heap \<Rightarrow> u64" where
  "kmalloc_size ptr h = (if ptr = NULL then 0 else blk_size (heap_mem h) (ptr - HEADER))"

definition heap_get_total_size :: "heap \<Rightarrow> u64" where
  "heap_get_total_size h = heap_total_size h"

definition heap_get_used_size :: "heap \<Rightarrow> u64" where
  "heap_get_used_size h = heap_used_size h"

definition heap_get_free_size :: "heap \<Rightarrow> u64" where
  "heap_get_free_size h = heap_total_size h - heap_used_size h"

section \<open>Header fields do not interfere\<close>

text \<open>A set of header addresses whose 32-byte headers do not overlap or wrap.\<close>

definition headers :: "u64 set \<Rightarrow> bool" where
  "headers A \<longleftrightarrow> (\<forall>a \<in> A. aligned 3 a \<and> unat a + 32 \<le> 2 ^ 64)
     \<and> (\<forall>a \<in> A. \<forall>b \<in> A. a \<noteq> b \<longrightarrow> unat a + 32 \<le> unat b \<or> unat b + 32 \<le> unat a)"

lemma headersD:
  assumes "headers A" "a \<in> A"
  shows "aligned 3 a" "unat a + 32 \<le> 2 ^ 64"
  using assms by (auto simp: headers_def)

lemma unat_field:
  assumes "headers A" "a \<in> A" "unat k < 32"
  shows "unat (a + k) = unat a + unat k"
  using headersD(2) [OF assms(1,2)] assms(3) by (intro unat_plus_nowrap) simp

lemma field_neq:
  assumes "headers A" "a \<in> A" "b \<in> A" "unat k < 32" "unat l < 32" "a \<noteq> b \<or> k \<noteq> l"
  shows "a + k \<noteq> b + l"
proof
  assume "a + k = b + l"
  then have eq: "unat a + unat k = unat b + unat l"
    using unat_field [OF assms(1,2,4)] unat_field [OF assms(1,3,5)] by simp
  show False
  proof (cases "a = b")
    case True
    then show False using eq assms(6) by (auto simp: word_unat_eq_iff)
  next
    case False
    then have "unat a + 32 \<le> unat b \<or> unat b + 32 \<le> unat a"
      using assms(1,2,3) by (auto simp: headers_def)
    then show False using eq assms(4,5) by linarith
  qed
qed

lemma field_aligned:
  assumes "headers A" "a \<in> A"
  shows "aligned 3 a" "aligned 3 (a + 8)" "aligned 3 (a + 16)" "aligned 3 (a + 24)"
proof -
  show a: "aligned 3 a" using headersD(1) assms by blast
  have "aligned 3 8" "aligned 3 16" "aligned 3 24" by (simp_all add: aligned_unat)
  then show "aligned 3 (a + 8)" "aligned 3 (a + 16)" "aligned 3 (a + 24)"
    using a aligned_add by blast+
qed

lemma fields_distinct:
  assumes "headers A" "a \<in> A" "b \<in> A"
  shows "a \<noteq> b + 8" "a \<noteq> b + 16" "a \<noteq> b + 24" "a + 8 \<noteq> b + 16" "a + 8 \<noteq> b + 24" "a + 16 \<noteq> b + 24"
    "a + 8 \<noteq> b" "a + 16 \<noteq> b" "a + 24 \<noteq> b" "a + 16 \<noteq> b + 8" "a + 24 \<noteq> b + 8" "a + 24 \<noteq> b + 16"
  using field_neq [OF assms, of 0 8] field_neq [OF assms, of 0 16] field_neq [OF assms, of 0 24]
    field_neq [OF assms, of 8 16] field_neq [OF assms, of 8 24] field_neq [OF assms, of 16 24]
    field_neq [OF assms, of 8 0] field_neq [OF assms, of 16 0] field_neq [OF assms, of 24 0]
    field_neq [OF assms, of 16 8] field_neq [OF assms, of 24 8] field_neq [OF assms, of 24 16]
  by simp_all

lemma field_upd:
  assumes "headers A" "a \<in> A" "b \<in> A"
  shows "blk_size (set_size a v m) b = (if a = b then v else blk_size m b)"
    "blk_size (set_free a f m) b = blk_size m b"
    "blk_size (set_next a v m) b = blk_size m b"
    "blk_size (set_prev a v m) b = blk_size m b"
    "blk_free (set_size a v m) b = blk_free m b"
    "blk_free (set_free a f m) b = (if a = b then f else blk_free m b)"
    "blk_free (set_next a v m) b = blk_free m b"
    "blk_free (set_prev a v m) b = blk_free m b"
    "blk_next (set_size a v m) b = blk_next m b"
    "blk_next (set_free a f m) b = blk_next m b"
    "blk_next (set_next a v m) b = (if a = b then v else blk_next m b)"
    "blk_next (set_prev a v m) b = blk_next m b"
    "blk_prev (set_size a v m) b = blk_prev m b"
    "blk_prev (set_free a f m) b = blk_prev m b"
    "blk_prev (set_next a v m) b = blk_prev m b"
    "blk_prev (set_prev a v m) b = (if a = b then v else blk_prev m b)"
  using field_aligned [OF assms(1,2)] field_aligned [OF assms(1,3)] fields_distinct [OF assms]
  unfolding blk_size_def blk_free_def blk_next_def blk_prev_def
    set_size_def set_free_def set_next_def set_prev_def
  by (simp_all add: qword.ld_st dword.ld_st load_store_other)

end
