(* ===== verification/Heap_Spec.thy ===== *)
theory Heap_Spec
  imports Heap
begin

text \<open>
  What the heap promises, stated over the list of its blocks (address, payload size, free or not)
  in address order, and the proof that the pointer code of \<open>heap.c\<close> implements it. The abstract
  operations are \<open>ff_alloc\<close> (first fit with splitting) and \<open>ff_free\<close> (free with merging on both
  sides); \<open>heap_wf\<close> relates a state to its block list: the blocks tile the heap area without gaps,
  the headers in memory chain them in both directions, and the used-size counter is the sum over
  the allocated blocks.
\<close>

section \<open>Block lists\<close>

type_synonym blk = "u64 \<times> u64 \<times> bool"

text \<open>The blocks tile the bytes from \<open>a\<close> to \<open>e\<close>: header, payload, header, payload, \<open>\<dots>\<close>\<close>

fun tiles :: "nat \<Rightarrow> blk list \<Rightarrow> nat \<Rightarrow> bool" where
  "tiles a [] e = (a = e)"
| "tiles a ((b, sz, f) # bs) e \<longleftrightarrow> unat b = a \<and> unat sz mod 8 = 0 \<and> tiles (a + 32 + unat sz) bs e"

fun coalesced :: "blk list \<Rightarrow> bool" where
  "coalesced ((b, sz, f) # (c, tz, g) # bs) \<longleftrightarrow> \<not> (f \<and> g) \<and> coalesced ((c, tz, g) # bs)"
| "coalesced _ = True"

definition used_bytes :: "blk list \<Rightarrow> nat" where
  "used_bytes bs = sum_list (map (\<lambda>(b, sz, f). if f then 0 else unat sz + 32) bs)"

definition carve :: "u64 \<Rightarrow> u64 \<Rightarrow> u64 \<Rightarrow> blk list" where
  "carve n b sz = (if unat sz < unat n + 48 then [(b, sz, False)]
     else [(b, n, False), (b + 32 + n, sz - n - 32, True)])"

fun ff_alloc :: "u64 \<Rightarrow> blk list \<Rightarrow> (u64 \<times> blk list) option" where
  "ff_alloc n [] = None"
| "ff_alloc n ((b, sz, f) # bs) =
     (if f \<and> n \<le> sz then Some (b + 32, carve n b sz @ bs)
      else map_option (\<lambda>(p, cs). (p, (b, sz, f) # cs)) (ff_alloc n bs))"

fun merge_right :: "u64 \<Rightarrow> u64 \<Rightarrow> blk list \<Rightarrow> blk list" where
  "merge_right b sz ((c, tz, True) # ys) = (b, sz + (32 + tz), True) # ys"
| "merge_right b sz ys = (b, sz, True) # ys"

fun merge_left :: "blk list \<Rightarrow> blk list \<Rightarrow> blk list" where
  "merge_left ((a, rz, True) # rxs) ((b, sz, True) # ys) = rev rxs @ (a, rz + (32 + sz), True) # ys"
| "merge_left rxs ys = rev rxs @ ys"

definition ff_free :: "u64 \<Rightarrow> blk list \<Rightarrow> blk list" where
  "ff_free p bs =
     (let xs = takeWhile (\<lambda>x. fst x + 32 \<noteq> p) bs in
      case dropWhile (\<lambda>x. fst x + 32 \<noteq> p) bs of
        (b, sz, False) # ys \<Rightarrow> merge_left (rev xs) (merge_right b sz ys)
      | _ \<Rightarrow> bs)"

section \<open>The representation\<close>

definition holds :: "mem \<Rightarrow> blk \<Rightarrow> bool" where
  "holds m x = (case x of (b, sz, f) \<Rightarrow> blk_size m b = sz \<and> (blk_free m b \<noteq> 0) = f)"

text \<open>The heap area lies below \<open>2 ^ 52\<close>, the physical address space of the processor.\<close>

definition heap_rep :: "heap \<Rightarrow> blk list \<Rightarrow> bool" where
  "heap_rep h bs \<longleftrightarrow> bs \<noteq> [] \<and> heap_start h \<noteq> NULL \<and> heap_start h = fst (hd bs)
     \<and> aligned 3 (heap_start h)
     \<and> tiles (unat (heap_start h)) bs (unat (heap_start h) + unat (heap_total_size h))
     \<and> unat (heap_start h) + unat (heap_total_size h) \<le> 2 ^ 52
     \<and> dlist (blk_next (heap_mem h)) (blk_prev (heap_mem h)) NULL (map fst bs) NULL
     \<and> list_all (holds (heap_mem h)) bs"

definition heap_wf :: "heap \<Rightarrow> blk list \<Rightarrow> bool" where
  "heap_wf h bs \<longleftrightarrow> heap_rep h bs \<and> unat (heap_used_size h) = used_bytes bs"

lemma heap_repD:
  assumes "heap_rep h bs"
  shows "bs \<noteq> []" "heap_start h \<noteq> NULL" "heap_start h = fst (hd bs)" "aligned 3 (heap_start h)"
    "tiles (unat (heap_start h)) bs (unat (heap_start h) + unat (heap_total_size h))"
    "unat (heap_start h) + unat (heap_total_size h) \<le> 2 ^ 52"
    "dlist (blk_next (heap_mem h)) (blk_prev (heap_mem h)) NULL (map fst bs) NULL"
    "list_all (holds (heap_mem h)) bs"
  using assms unfolding heap_rep_def by blast+

lemma tiles_append: "tiles a (xs @ ys) e \<longleftrightarrow> (\<exists>c. tiles a xs c \<and> tiles c ys e)"
  by (induction a xs e rule: tiles.induct) auto

lemma tiles_le: "tiles a bs e \<Longrightarrow> a \<le> e"
  by (induction a bs e rule: tiles.induct) auto

lemma tiles_block:
  assumes "tiles a bs e" "(b, sz, f) \<in> set bs"
  shows "a \<le> unat b" "unat b + 32 + unat sz \<le> e"
  using assms by (induction a bs e rule: tiles.induct) (auto dest: tiles_le)

lemma tiles_addr:
  assumes "tiles a bs e" "c \<in> fst ` set bs"
  shows "a \<le> unat c" "unat c + 32 \<le> e"
  using assms(2) tiles_block [OF assms(1)] by fastforce+

lemma tiles_distinct: "tiles a bs e \<Longrightarrow> distinct (map fst bs)"
proof (induction a bs e rule: tiles.induct)
  case (2 a b sz f bs e)
  then have "\<forall>c \<in> fst ` set bs. a + 32 + unat sz \<le> unat c"
    using tiles_addr(1) by (metis tiles.simps(2))
  then show ?case using "2" by auto
qed simp

lemma tiles_headers:
  assumes "tiles a bs e" "a mod 8 = 0" "e \<le> 2 ^ 64"
  shows "headers (fst ` set bs)"
  using assms
proof (induction a bs e rule: tiles.induct)
  case (1 a e)
  then show ?case by (simp add: headers_def)
next
  case (2 a b sz f bs e)
  then have tail: "tiles (a + 32 + unat sz) bs e" and b: "unat b = a" by simp_all
  have "(a + 32 + unat sz) mod 8 = 0" using "2.prems"(1,2) by (simp add: mod_eq_0_iff_dvd)
  from "2.IH" [OF tail this "2.prems"(3)] have IH: "headers (fst ` set bs)" .
  have "a + 32 + unat sz \<le> e" using tail by (rule tiles_le)
  moreover have "a + 32 + unat sz \<le> unat c" if "c \<in> fst ` set bs" for c
    using tiles_addr(1) [OF tail that] .
  ultimately show ?case using IH b "2.prems"(2,3)
    by (fastforce simp: headers_def aligned_unat)
qed

lemma used_bytes_simps [simp]:
  "used_bytes [] = 0"
  "used_bytes ((b, sz, f) # bs) = (if f then 0 else unat sz + 32) + used_bytes bs"
  "used_bytes (xs @ ys) = used_bytes xs + used_bytes ys"
  "used_bytes (rev xs) = used_bytes xs"
  by (simp_all add: used_bytes_def flip: rev_map)

lemma used_bytes_le: "tiles a bs e \<Longrightarrow> a + used_bytes bs \<le> e"
  by (induction a bs e rule: tiles.induct) auto

lemma heap_rep_headers: "heap_rep h bs \<Longrightarrow> headers (fst ` set bs)"
  by (rule tiles_headers [where e = "unat (heap_start h) + unat (heap_total_size h)"])
    (auto simp: heap_rep_def aligned_unat)

lemma heap_rep_nonnull:
  assumes "heap_rep h bs" "b \<in> fst ` set bs"
  shows "b \<noteq> NULL"
proof -
  have "unat (heap_start h) \<le> unat b"
    by (rule tiles_addr(1) [OF heap_repD(5) [OF assms(1)] assms(2)])
  moreover have "unat (heap_start h) \<noteq> 0" using heap_repD(2) [OF assms(1)] by (simp add: unat_eq_zero)
  ultimately show ?thesis by auto
qed

text \<open>A well-formed heap has one block list only.\<close>

lemma chain_unique:
  assumes "dlist nx pv p (map fst bs) 0" "dlist nx pv q (map fst cs) 0"
    "first_of (map fst bs) 0 = first_of (map fst cs) 0"
    "0 \<notin> fst ` set bs" "0 \<notin> fst ` set cs" "list_all (holds m) bs" "list_all (holds m) cs"
  shows "bs = cs"
  using assms
proof (induction bs arbitrary: cs p q)
  case Nil
  then show ?case by (cases cs) auto
next
  case (Cons x bs)
  then obtain y cs' where cs: "cs = y # cs'" by (cases cs) auto
  have xy: "fst x = fst y" using Cons.prems(3) cs by simp
  then have "x = y" using Cons.prems(6,7) cs by (cases x; cases y) (simp add: holds_def)
  moreover have "bs = cs'"
  proof (rule Cons.IH)
    show "dlist nx pv (fst x) (map fst bs) 0" "dlist nx pv (fst y) (map fst cs') 0"
      "first_of (map fst bs) 0 = first_of (map fst cs') 0"
      using Cons.prems(1,2) xy cs by auto
  qed (use Cons.prems cs in auto)
  ultimately show ?case using cs by simp
qed

lemma heap_rep_unique:
  assumes "heap_rep h bs" "heap_rep h cs"
  shows "bs = cs"
proof (rule chain_unique)
  show "first_of (map fst bs) 0 = first_of (map fst cs) 0"
    using assms by (cases bs; cases cs) (auto simp: heap_rep_def)
  show "0 \<notin> fst ` set bs" "0 \<notin> fst ` set cs" using assms heap_rep_nonnull by blast+
qed (use assms in \<open>auto simp: heap_rep_def\<close>)

section \<open>The search\<close>

lemma find_from_chain:
  assumes "dlist (blk_next m) (blk_prev m) p (map fst bs) 0" "0 \<notin> fst ` set bs" "list_all (holds m) bs"
  shows "find_from m n (first_of (map fst bs) 0) =
    Some (case find (\<lambda>(b, sz, f). f \<and> n \<le> sz) bs of None \<Rightarrow> 0 | Some x \<Rightarrow> fst x)"
  using assms
proof (induction bs arbitrary: p)
  case Nil
  then show ?case by (simp add: find_from.simps)
next
  case (Cons x bs)
  obtain b sz f where x: "x = (b, sz, f)" by (cases x) auto
  have "find_from m n (first_of (map fst bs) 0) =
      Some (case find (\<lambda>(b, sz, f). f \<and> n \<le> sz) bs of None \<Rightarrow> 0 | Some x \<Rightarrow> fst x)"
    using Cons.prems by (intro Cons.IH [of "fst x"]) auto
  moreover have "b \<noteq> 0" "blk_size m b = sz" "(blk_free m b \<noteq> 0) = f" "blk_next m b = first_of (map fst bs) 0"
    using Cons.prems x by (auto simp: holds_def)
  ultimately show ?case using x by (auto simp: find_from.simps [of m n b])
qed

lemma ff_alloc_None: "ff_alloc n bs = None \<longleftrightarrow> find (\<lambda>(b, sz, f). f \<and> n \<le> sz) bs = None"
  by (induction n bs rule: ff_alloc.induct) auto

lemma ff_alloc_split:
  assumes "find (\<lambda>(b, sz, f). f \<and> n \<le> sz) bs = Some x"
  obtains b sz xs ys where "x = (b, sz, True)" "bs = xs @ (b, sz, True) # ys" "n \<le> sz"
    "ff_alloc n bs = Some (b + 32, xs @ carve n b sz @ ys)"
  using assms
proof (induction n bs arbitrary: thesis rule: ff_alloc.induct)
  case (2 n b sz f bs)
  show ?case
  proof (cases "f \<and> n \<le> sz")
    case True
    then show ?thesis using "2.prems" by (intro "2.prems"(1) [of b sz "[]" bs]) auto
  next
    case False
    then have "find (\<lambda>(b, sz, f). f \<and> n \<le> sz) bs = Some x" using "2.prems"(2) by auto
    then obtain c tz xs ys where "x = (c, tz, True)" "bs = xs @ (c, tz, True) # ys" "n \<le> tz"
      "ff_alloc n bs = Some (c + 32, xs @ carve n c tz @ ys)"
      using "2.IH" False by blast
    then show ?thesis using False by (intro "2.prems"(1) [of c tz "(b, sz, f) # xs" ys]) auto
  qed
qed simp

section \<open>Splitting a block\<close>

lemma split_block_fields:
  assumes H: "headers A" and mem: "b \<in> A" "nb \<in> A" "y \<in> A" "0 \<notin> A"
    and nb: "nb = b + 32 + n" "b \<noteq> nb"
    and nx: "blk_next m b \<in> insert 0 A" "blk_next m b \<noteq> b" "blk_next m b \<noteq> nb"
    and big: "\<not> blk_size m b < n + 48"
  shows "blk_size (split_block b n m) y =
      (if y = b then n else if y = nb then blk_size m b - n - 32 else blk_size m y)"
    "blk_free (split_block b n m) y = (if y = nb then 1 else blk_free m y)"
    "blk_next (split_block b n m) y =
      (if y = b then nb else if y = nb then blk_next m b else blk_next m y)"
    "blk_prev (split_block b n m) y =
      (if y = nb then b else if y = blk_next m b then nb else blk_prev m y)"
proof -
  note upd = field_upd [OF H]
  have run: "split_block b n m = set_next b nb (set_size b n
      (if blk_next m b \<noteq> 0 then set_prev (blk_next m b) nb (set_prev nb b (set_next nb (blk_next m b)
          (set_free nb 1 (set_size nb (blk_size m b - n - 32) m))))
       else set_prev nb b (set_next nb (blk_next m b) (set_free nb 1 (set_size nb (blk_size m b - n - 32) m)))))"
    using big mem nb(2) unfolding split_block_def Let_def HEADER_def MIN_BLOCK_SIZE_def nb(1) [symmetric]
    by (simp add: upd)
  show "blk_size (split_block b n m) y =
      (if y = b then n else if y = nb then blk_size m b - n - 32 else blk_size m y)"
    "blk_free (split_block b n m) y = (if y = nb then 1 else blk_free m y)"
    "blk_next (split_block b n m) y =
      (if y = b then nb else if y = nb then blk_next m b else blk_next m y)"
    "blk_prev (split_block b n m) y =
      (if y = nb then b else if y = blk_next m b then nb else blk_prev m y)"
    using mem nx nb(2) unfolding run by (auto simp: upd)
qed

lemma tiles_carve:
  assumes "tiles a (xs @ (b, sz, True) # ys) e" "e \<le> 2 ^ 52" "n \<le> sz" "unat n mod 8 = 0"
  shows "tiles a (xs @ carve n b sz @ ys) e"
proof (cases "unat sz < unat n + 48")
  case True
  then show ?thesis using assms(1) by (auto simp: carve_def tiles_append)
next
  case False
  obtain c where c: "tiles a xs c" "unat b = c" "unat sz mod 8 = 0" "tiles (c + 32 + unat sz) ys e"
    using assms(1) by (auto simp: tiles_append)
  have bound: "unat b + 32 + unat sz \<le> 2 ^ 52" using tiles_le [OF c(4)] c(2) assms(2) by simp
  have n: "unat n \<le> unat sz" using assms(3) by (simp add: word_nat)
  have b32: "unat (b + 32) = unat b + 32" using bound unat_plus_nowrap [of b 32] by simp
  have nb: "unat (b + 32 + n) = unat b + 32 + unat n"
    using bound n b32 unat_plus_nowrap [of "b + 32" n] by simp
  have d: "unat (sz - n) = unat sz - unat n" using assms(3) by (rule unat_sub)
  have r: "unat (sz - n - 32) = unat sz - unat n - 32"
    using False d unat_sub [of 32 "sz - n"] by (simp add: word_nat)
  have "(unat sz - unat n - 32) mod 8 = 0"
    using c(3) assms(4) False by (simp add: mod_eq_0_iff_dvd)
  moreover have "c + 32 + unat n + 32 + (unat sz - unat n - 32) = c + 32 + unat sz" using False by simp
  ultimately have "tiles c (carve n b sz @ ys) e"
    using c False assms(4) nb r by (simp add: carve_def ac_simps)
  then show ?thesis using c(1) by (auto simp: tiles_append)
qed

text \<open>The word guard of \<open>split_block\<close> does not wrap on a well-formed heap.\<close>

lemma guard_no_wrap:
  assumes "unat sz \<le> 2 ^ 52" "(n :: u64) \<le> sz"
  shows "sz < n + 48 \<longleftrightarrow> unat sz < unat n + 48"
  using assms unat_plus_nowrap [of n 48] by (simp add: word_nat)

lemma align_size_eq: "align_size n = (n + 7) AND NOT (mask 3)"
  by (simp add: align_size_def ALIGN_SIZE_def mask_eq_exp_minus_1 add.commute)

lemma align_size_unat:
  assumes "unat n + 7 < 2 ^ 64"
  shows "unat (align_size n) = (unat n + 7) div 8 * 8"
proof -
  have "unat (n + 7) = unat n + 7" using assms unat_plus_nowrap [of n 7] by simp
  then show ?thesis unfolding align_size_eq by (subst unat_and_not_mask) simp_all
qed

lemma align_size_mod: "unat (align_size n) mod 8 = 0"
  unfolding align_size_eq by (subst unat_and_not_mask) simp_all

section \<open>Allocation refines first fit\<close>

lemma heap_rep_update:
  assumes "heap_rep h bs" "bs' \<noteq> []" "fst (hd bs') = fst (hd bs)"
    "tiles (unat (heap_start h)) bs' (unat (heap_start h) + unat (heap_total_size h))"
    "dlist (blk_next m') (blk_prev m') 0 (map fst bs') 0" "list_all (holds m') bs'"
  shows "heap_rep (h\<lparr>heap_mem := m', heap_used_size := u\<rparr>) bs'"
  using assms heap_repD [OF assms(1)] by (simp add: heap_rep_def)

lemma heap_rep_block:
  assumes "heap_rep h (xs @ (b, sz, f) # ys)"
  shows "blk_size (heap_mem h) b = sz" "(blk_free (heap_mem h) b \<noteq> 0) = f"
    "blk_next (heap_mem h) b = first_of (map fst ys) 0" "blk_prev (heap_mem h) b = last_of 0 (map fst xs)"
    "unat b + 32 + unat sz \<le> 2 ^ 52"
  using heap_repD(7,8) [OF assms] tiles_block(2) [OF heap_repD(5) [OF assms], of b sz f] heap_repD(6) [OF assms]
  by (simp_all add: holds_def dlist_append)

lemma heap_ptr_nonnull:
  assumes "heap_rep h (xs @ (b, sz, f) # ys)"
  shows "b + 32 \<noteq> 0"
proof
  assume "b + 32 = 0"
  then have "unat (b + 32) = 0" by simp
  then show False using heap_rep_block(5) [OF assms] unat_plus_nowrap [of b 32] by simp
qed

lemma rep_distinct: "heap_rep h bs \<Longrightarrow> distinct (map fst bs)"
  by (rule tiles_distinct) (rule heap_repD(5))

lemma mark_used_rep:
  assumes rep: "heap_rep h (xs @ (b, sz, f) # ys)"
  shows "heap_rep (h\<lparr>heap_mem := set_free b v (heap_mem h), heap_used_size := u\<rparr>) (xs @ (b, sz, v \<noteq> 0) # ys)"
proof (rule heap_rep_update [OF rep])
  let ?m = "heap_mem h" and ?A = "fst ` set (xs @ (b, sz, f) # ys)"
  note H = heap_rep_headers [OF rep]
  have upd: "blk_next (set_free b v ?m) y = blk_next ?m y" "blk_prev (set_free b v ?m) y = blk_prev ?m y"
    "blk_size (set_free b v ?m) y = blk_size ?m y"
    "blk_free (set_free b v ?m) y = (if b = y then v else blk_free ?m y)" if "y \<in> ?A" for y
    using field_upd [OF H _ that, of b] by simp_all
  have same: "map fst (xs @ (b, sz, v \<noteq> 0) # ys) = map fst (xs @ (b, sz, f) # ys)" by simp
  have "dlist (blk_next (set_free b v ?m)) (blk_prev (set_free b v ?m)) 0 (map fst (xs @ (b, sz, f) # ys)) 0
      = dlist (blk_next ?m) (blk_prev ?m) 0 (map fst (xs @ (b, sz, f) # ys)) 0"
    by (rule dlist_cong) (use upd in auto)
  then show "dlist (blk_next (set_free b v ?m)) (blk_prev (set_free b v ?m)) 0
      (map fst (xs @ (b, sz, v \<noteq> 0) # ys)) 0"
    unfolding same using heap_repD(7) [OF rep] by (rule iffD2)
  have "holds (set_free b v ?m) (c, tz, g)" if "(c, tz, g) \<in> set xs \<union> set ys" for c tz g
  proof -
    have "holds ?m (c, tz, g)" using heap_repD(8) [OF rep] that by (auto simp: list_all_iff)
    moreover have "c \<noteq> b" "c \<in> ?A" using rep_distinct [OF rep] that by force+
    ultimately show ?thesis using upd(3,4) [of c] by (simp add: holds_def)
  qed
  moreover have "holds (set_free b v ?m) (b, sz, v \<noteq> 0)"
    using upd(3,4) [of b] heap_rep_block(1) [OF rep] by (simp add: holds_def)
  ultimately show "list_all (holds (set_free b v ?m)) (xs @ (b, sz, v \<noteq> 0) # ys)"
    by (auto simp: list_all_iff)
  show "tiles (unat (heap_start h)) (xs @ (b, sz, v \<noteq> 0) # ys)
      (unat (heap_start h) + unat (heap_total_size h))"
    using heap_repD(5) [OF rep] by (auto simp: tiles_append)
  show "fst (hd (xs @ (b, sz, v \<noteq> 0) # ys)) = fst (hd (xs @ (b, sz, f) # ys))" by (cases xs) auto
qed simp

lemma split_rep:
  assumes rep: "heap_rep h (xs @ (b, sz, f) # ys)" and n: "n \<le> sz" "unat n mod 8 = 0"
    and big: "\<not> unat sz < unat n + 48"
  shows "heap_rep (h\<lparr>heap_mem := split_block b n (heap_mem h), heap_used_size := u\<rparr>)
    (xs @ (b, n, f) # (b + 32 + n, sz - n - 32, True) # ys)"
proof (rule heap_rep_update [OF rep])
  let ?m = "heap_mem h" and ?m' = "split_block b n (heap_mem h)" and ?nb = "b + 32 + n"
  let ?bs = "xs @ (b, n, f) # (?nb, sz - n - 32, True) # ys"
  let ?A = "fst ` set ?bs"
  note blk = heap_rep_block [OF rep]
  have "tiles (unat (heap_start h)) (xs @ (b, sz, True) # ys)
      (unat (heap_start h) + unat (heap_total_size h))"
    using heap_repD(5) [OF rep] by (auto simp: tiles_append)
  from tiles_carve [OF this heap_repD(6) [OF rep] n] big
  show T: "tiles (unat (heap_start h)) ?bs (unat (heap_start h) + unat (heap_total_size h))"
    by (auto simp: carve_def tiles_append)
  have H: "headers ?A"
    by (rule tiles_headers [OF T]) (use heap_repD(4,6) [OF rep] in \<open>simp_all add: aligned_unat\<close>)
  have D: "distinct (map fst ?bs)" by (rule tiles_distinct [OF T])
  have zero: "0 \<notin> ?A"
  proof
    assume "0 \<in> ?A"
    from tiles_addr(1) [OF T this] show False using heap_repD(2) [OF rep] by (simp add: unat_eq_zero)
  qed
  have nx: "blk_next ?m b \<in> insert 0 ?A" "blk_next ?m b \<noteq> b" "blk_next ?m b \<noteq> ?nb"
    unfolding blk(3) using D zero by (cases ys; force)+
  have guard: "\<not> blk_size ?m b < n + 48" using guard_no_wrap [of sz n] n(1) big blk(1,5) by simp
  note F = split_block_fields [OF H _ _ _ zero refl _ nx guard]
  have F': "blk_size ?m' y = (if y = b then n else if y = ?nb then sz - n - 32 else blk_size ?m y)"
    "blk_free ?m' y = (if y = ?nb then 1 else blk_free ?m y)"
    "blk_next ?m' y = (if y = b then ?nb else if y = ?nb then blk_next ?m b else blk_next ?m y)"
    "blk_prev ?m' y = (if y = ?nb then b else if y = blk_next ?m b then ?nb else blk_prev ?m y)"
    if "y \<in> ?A" for y
    using F [of y] that D blk(1) by simp_all
  have dl: "dlist (blk_next ?m) (blk_prev ?m) 0 ((map fst xs @ [b]) @ map fst ys) 0"
    using heap_repD(7) [OF rep] by simp
  have "dlist (blk_next ?m') (blk_prev ?m') 0 ((map fst xs @ [b]) @ ?nb # map fst ys) 0"
  proof (rule dlist_insert [OF dl])
    show "blk_prev ?m' x = blk_prev ?m x"
      if "x \<in> set ((map fst xs @ [b]) @ map fst ys)" "x \<noteq> first_of (map fst ys) 0 \<or> map fst ys = []" for x
    proof -
      have "x \<in> ?A" "x \<noteq> ?nb" using that(1) D by auto
      moreover have "x \<noteq> first_of (map fst ys) 0" using that(2) \<open>x \<in> ?A\<close> zero by (cases ys) auto
      ultimately show ?thesis using F'(4) blk(3) by simp
    qed
    show "blk_prev ?m' (hd (map fst ys)) = ?nb" if "map fst ys \<noteq> []"
      using that F'(4) [of "hd (map fst ys)"] D blk(3) by (cases ys) auto
    show "blk_next ?m' x = blk_next ?m x"
      if "x \<in> set ((map fst xs @ [b]) @ map fst ys)"
        "x \<noteq> last_of 0 (map fst xs @ [b]) \<or> map fst xs @ [b] = []" for x
    proof -
      have "x \<in> ?A" "x \<noteq> ?nb" "x \<noteq> b" using that D by auto
      then show ?thesis using F'(3) by simp
    qed
    show "blk_next ?m' (last (map fst xs @ [b])) = ?nb" using F'(3) [of b] by simp
    show "blk_next ?m' ?nb = first_of (map fst ys) 0" using F'(3) [of ?nb] D blk(3) by simp
    show "blk_prev ?m' ?nb = last_of 0 (map fst xs @ [b])" using F'(4) [of ?nb] by simp
    show "distinct ((map fst xs @ [b]) @ map fst ys)" "?nb \<notin> set ((map fst xs @ [b]) @ map fst ys)"
      using D by auto
  qed
  then show "dlist (blk_next ?m') (blk_prev ?m') 0 (map fst ?bs) 0" by simp
  show "list_all (holds ?m') ?bs"
  proof -
    have "b \<notin> fst ` set xs \<union> fst ` set ys" "?nb \<notin> fst ` set xs \<union> fst ` set ys" using D by simp_all
    then have ne: "x \<noteq> b" "x \<noteq> ?nb" if "x \<in> fst ` set xs \<union> fst ` set ys" for x
      using that by blast+
    have "holds ?m' (c, tz, g)" if "(c, tz, g) \<in> set xs \<union> set ys" for c tz g
    proof -
      have "holds ?m (c, tz, g)" using heap_repD(8) [OF rep] that by (auto simp: list_all_iff)
      moreover have "c \<in> fst ` set xs \<union> fst ` set ys" using that by (force simp: image_iff)
      then have "c \<noteq> b" "c \<noteq> ?nb" "c \<in> ?A" using ne [of c] by auto
      ultimately show ?thesis using F'(1,2) [of c] by (simp add: holds_def)
    qed
    moreover have "holds ?m' (b, n, f)" using F'(1,2) [of b] D blk(2) by (simp add: holds_def)
    moreover have "holds ?m' (?nb, sz - n - 32, True)" using F'(1,2) [of ?nb] D by (simp add: holds_def)
    ultimately show ?thesis by (auto simp: list_all_iff)
  qed
  show "fst (hd ?bs) = fst (hd (xs @ (b, sz, f) # ys))" by (cases xs) auto
qed simp


text \<open>Marking the block that was found, split or not, gives the block list of first fit.\<close>

lemma carve_rep:
  assumes rep: "heap_rep h (xs @ (b, sz, f) # ys)" and n: "n \<le> sz" "unat n mod 8 = 0"
  shows "heap_rep (h\<lparr>heap_mem := set_free b 0 (split_block b n (heap_mem h)), heap_used_size := u\<rparr>)
      (xs @ carve n b sz @ ys)"
    "blk_size (set_free b 0 (split_block b n (heap_mem h))) b = fst (snd (hd (carve n b sz)))"
proof -
  note blk = heap_rep_block [OF rep]
  let ?m = "split_block b n (heap_mem h)"
  have *: "heap_rep (h\<lparr>heap_mem := set_free b 0 ?m, heap_used_size := u\<rparr>) (xs @ carve n b sz @ ys)"
  proof (cases "unat sz < unat n + 48")
    case True
    then have "?m = heap_mem h"
      using guard_no_wrap [of sz n] n(1) blk(1,5) by (simp add: split_block_def MIN_BLOCK_SIZE_def HEADER_def)
    then show ?thesis using mark_used_rep [OF rep, where v = 0 and u = u] True by (simp add: carve_def)
  next
    case False
    from mark_used_rep [OF split_rep [OF rep n False, where u = u], where v = 0 and u = u] False
    show ?thesis by (simp add: carve_def)
  qed
  then show "heap_rep (h\<lparr>heap_mem := set_free b 0 ?m, heap_used_size := u\<rparr>) (xs @ carve n b sz @ ys)" .
  obtain zs where zs: "carve n b sz @ ys = (b, fst (snd (hd (carve n b sz))), False) # zs"
    by (cases "unat sz < unat n + 48") (simp_all add: carve_def)
  show "blk_size (set_free b 0 ?m) b = fst (snd (hd (carve n b sz)))"
    using heap_rep_block(1) [OF * [unfolded zs]] by simp
qed

lemma used_bytes_bound: "heap_rep h bs \<Longrightarrow> used_bytes bs \<le> 2 ^ 52"
  using used_bytes_le [OF heap_repD(5)] heap_repD(6) by (metis add_leD2 le_trans)

theorem kmalloc_refines:
  assumes wf: "heap_wf h bs" and n: "n \<noteq> 0"
  shows "case ff_alloc (align_size n) bs of
      None \<Rightarrow> kmalloc n h = Some (NULL, h)
    | Some (p, bs') \<Rightarrow> p \<noteq> NULL \<and> (\<exists>h'. kmalloc n h = Some (p, h') \<and> heap_wf h' bs'
        \<and> heap_start h' = heap_start h \<and> heap_total_size h' = heap_total_size h)"
proof -
  let ?n = "align_size n"
  have rep: "heap_rep h bs" using wf by (simp add: heap_wf_def)
  have zero: "0 \<notin> fst ` set bs" using heap_rep_nonnull [OF rep] by blast
  have start: "heap_start h = first_of (map fst bs) 0"
    using heap_repD(1,3) [OF rep] by (cases bs) auto
  have search: "find_free_block ?n h =
      Some (case find (\<lambda>(b, sz, f). f \<and> ?n \<le> sz) bs of None \<Rightarrow> 0 | Some x \<Rightarrow> fst x)"
    unfolding find_free_block_def start by (rule find_from_chain [OF heap_repD(7) [OF rep] zero heap_repD(8) [OF rep]])
  show ?thesis
  proof (cases "find (\<lambda>(b, sz, f). f \<and> ?n \<le> sz) bs")
    case None
    then have "ff_alloc ?n bs = None" by (simp add: ff_alloc_None)
    then show ?thesis using search None n by (simp add: kmalloc_def Let_def)
  next
    case (Some x)
    then obtain b sz xs ys where x: "x = (b, sz, True)" and bs: "bs = xs @ (b, sz, True) # ys"
      and fits: "?n \<le> sz" and ff: "ff_alloc ?n bs = Some (b + 32, xs @ carve ?n b sz @ ys)"
      by (rule ff_alloc_split)
    note blk = heap_rep_block [OF rep [unfolded bs]]
    have b0: "b \<noteq> 0" using zero bs by auto
    let ?m = "set_free b 0 (split_block b ?n (heap_mem h))"
    let ?h = "h\<lparr>heap_mem := ?m, heap_used_size := heap_used_size h + (blk_size ?m b + HEADER)\<rparr>"
    have run: "kmalloc n h = Some (b + 32, ?h)"
      using n search Some x b0 by (simp add: kmalloc_def Let_def HEADER_def)
    note cr = carve_rep [OF rep [unfolded bs] fits align_size_mod]
    have "heap_rep ?h (xs @ carve ?n b sz @ ys)" by (rule cr(1))
    moreover have "unat (heap_used_size ?h) = used_bytes (xs @ carve ?n b sz @ ys)"
    proof -
      let ?s = "fst (snd (hd (carve ?n b sz)))"
      have u: "unat (heap_used_size h) = used_bytes bs" using wf by (simp add: heap_wf_def)
      have "unat ?s \<le> unat sz" using fits by (auto simp: carve_def word_nat)
      then have "unat (?s + 32) = unat ?s + 32" using blk(5) unat_plus_nowrap [of ?s 32] by simp
      moreover have "unat ?s \<le> 2 ^ 52" using \<open>unat ?s \<le> unat sz\<close> blk(5) by simp
      moreover note used_bytes_bound [OF rep]
      ultimately have "unat (heap_used_size ?h) = used_bytes bs + (unat ?s + 32)"
        using u cr(2) unat_plus_nowrap [of "heap_used_size h" "?s + 32"] by (simp add: HEADER_def)
      then show ?thesis using bs by (auto simp: carve_def)
    qed
    ultimately have "heap_wf ?h (xs @ carve ?n b sz @ ys)" by (simp add: heap_wf_def)
    moreover have "b + 32 \<noteq> 0" by (rule heap_ptr_nonnull [OF rep [unfolded bs]])
    ultimately show ?thesis using ff run by simp
  qed
qed


section \<open>Freeing refines merging\<close>

lemma tiles_merge:
  assumes "tiles a (xs @ (b, sz, f) # (c, tz, g) # ys) e" "e \<le> 2 ^ 52"
  shows "tiles a (xs @ (b, sz + (32 + tz), f) # ys) e"
proof -
  have t: "unat c = unat b + 32 + unat sz" "unat c + 32 + unat tz \<le> 2 ^ 52"
    using assms tiles_block(2) [OF assms(1), of c tz g] by (auto simp: tiles_append)
  then have "unat (32 + tz) = 32 + unat tz" using unat_plus_nowrap [of 32 tz] by simp
  then have "unat (sz + (32 + tz)) = unat sz + 32 + unat tz"
    using t unat_plus_nowrap [of sz "32 + tz"] by simp
  then show ?thesis using assms(1) by (auto simp: tiles_append mod_eq_0_iff_dvd ac_simps)
qed

lemma merge_rep:
  assumes rep: "heap_rep h (xs @ (b, sz, f) # (c, tz, g) # ys)"
    and fields: "\<And>y. y \<in> fst ` set (xs @ (b, sz, f) # (c, tz, g) # ys) \<Longrightarrow>
      blk_size m' y = (if y = b then sz + (32 + tz) else blk_size (heap_mem h) y)
      \<and> blk_free m' y = blk_free (heap_mem h) y
      \<and> blk_next m' y = (if y = b then blk_next (heap_mem h) c else blk_next (heap_mem h) y)
      \<and> blk_prev m' y = (if y = blk_next (heap_mem h) c then b else blk_prev (heap_mem h) y)"
  shows "heap_rep (h\<lparr>heap_mem := m', heap_used_size := u\<rparr>) (xs @ (b, sz + (32 + tz), f) # ys)"
proof (rule heap_rep_update [OF rep])
  let ?m = "heap_mem h" and ?bs = "xs @ (b, sz, f) # (c, tz, g) # ys"
  let ?A = "fst ` set ?bs"
  note D = rep_distinct [OF rep]
  have zero: "0 \<notin> ?A" using heap_rep_nonnull [OF rep] by blast
  have nc: "blk_next ?m c = first_of (map fst ys) 0"
    using heap_rep_block(3) [of h "xs @ [(b, sz, f)]" c tz g ys] rep by simp
  have dl: "dlist (blk_next ?m) (blk_prev ?m) 0 ((map fst xs @ [b]) @ c # map fst ys) 0"
    using heap_repD(7) [OF rep] by simp
  have "dlist (blk_next m') (blk_prev m') 0 ((map fst xs @ [b]) @ map fst ys) 0"
  proof (rule dlist_unlink [OF dl])
    show "distinct ((map fst xs @ [b]) @ c # map fst ys)" using D by simp
    show "blk_next m' (last (map fst xs @ [b])) = first_of (map fst ys) 0" using fields [of b] nc by simp
    show "blk_prev m' (hd (map fst ys)) = last_of 0 (map fst xs @ [b])" if "map fst ys \<noteq> []"
      using that fields [of "hd (map fst ys)"] nc by (cases ys) auto
    show "blk_next m' x = blk_next ?m x"
      if "x \<in> set ((map fst xs @ [b]) @ map fst ys)"
        "x \<noteq> last_of 0 (map fst xs @ [b]) \<or> map fst xs @ [b] = []" for x
      using that fields [of x] by auto
    show "blk_prev m' x = blk_prev ?m x"
      if "x \<in> set ((map fst xs @ [b]) @ map fst ys)" "x \<noteq> first_of (map fst ys) 0 \<or> map fst ys = []" for x
    proof -
      have "x \<in> ?A" using that(1) by auto
      moreover have "x \<noteq> first_of (map fst ys) 0" using that(2) calculation zero by (cases ys) auto
      ultimately show ?thesis using fields [of x] nc by simp
    qed
  qed
  then show "dlist (blk_next m') (blk_prev m') 0 (map fst (xs @ (b, sz + (32 + tz), f) # ys)) 0" by simp
  have "holds m' (d, uz, k)" if "(d, uz, k) \<in> set xs \<union> set ys" for d uz k
  proof -
    have "holds ?m (d, uz, k)" using heap_repD(8) [OF rep] that by (auto simp: list_all_iff)
    moreover have "d \<in> fst ` set xs \<union> fst ` set ys" using that by (force simp: image_iff)
    then have "d \<noteq> b" "d \<in> ?A" using D by auto
    ultimately show ?thesis using fields [of d] by (simp add: holds_def)
  qed
  moreover have "holds m' (b, sz + (32 + tz), f)"
    using fields [of b] heap_rep_block(2) [OF rep] by (simp add: holds_def)
  ultimately show "list_all (holds m') (xs @ (b, sz + (32 + tz), f) # ys)" by (auto simp: list_all_iff)
  show "tiles (unat (heap_start h)) (xs @ (b, sz + (32 + tz), f) # ys)
      (unat (heap_start h) + unat (heap_total_size h))"
    by (rule tiles_merge [OF heap_repD(5,6) [OF rep]])
  show "fst (hd (xs @ (b, sz + (32 + tz), f) # ys)) = fst (hd ?bs)" by (cases xs) auto
qed simp

lemma heap_rep_used: "heap_rep h bs \<Longrightarrow> heap_rep (h\<lparr>heap_used_size := u\<rparr>) bs"
  by (cases h) (auto simp: heap_rep_def)

lemma coalesce_next_rep:
  assumes rep: "heap_rep h (xs @ (b, sz, True) # ys)"
  shows "heap_rep (h\<lparr>heap_mem := coalesce_next b (heap_mem h), heap_used_size := u\<rparr>) (xs @ merge_right b sz ys)"
proof (cases "\<exists>c tz zs. ys = (c, tz, True) # zs")
  case False
  have "coalesce_next b (heap_mem h) = heap_mem h"
  proof (cases ys)
    case Nil
    then show ?thesis using heap_rep_block(3) [OF rep] by (simp add: coalesce_next_def)
  next
    case (Cons y zs)
    then obtain c tz where y: "y = (c, tz, False)" using False by (cases y) auto
    then have "blk_free (heap_mem h) c = 0"
      using heap_rep_block(2) [of h "xs @ [(b, sz, True)]" c tz False zs] rep Cons by simp
    then show ?thesis using heap_rep_block(3) [OF rep] Cons y by (simp add: coalesce_next_def)
  qed
  moreover have "merge_right b sz ys = (b, sz, True) # ys" using False by (cases "(b, sz, ys)" rule: merge_right.cases) auto
  ultimately show ?thesis using heap_rep_used [OF rep] by simp
next
  case True
  then obtain c tz zs where ys: "ys = (c, tz, True) # zs" by blast
  let ?m = "heap_mem h"
  define A where "A = fst ` set (xs @ (b, sz, True) # (c, tz, True) # zs)"
  have rep': "heap_rep h (xs @ (b, sz, True) # (c, tz, True) # zs)" using rep ys by simp
  have rep'': "heap_rep h ((xs @ [(b, sz, True)]) @ (c, tz, True) # zs)" using rep' by simp
  note bb = heap_rep_block [OF rep'] and cc = heap_rep_block [OF rep'']
  note upd = field_upd [OF heap_rep_headers [OF rep', folded A_def]]
  have zero: "0 \<notin> A" using heap_rep_nonnull [OF rep'] by (auto simp: A_def)
  have cb: "c \<noteq> b" "c \<noteq> 0" "b \<in> A" "c \<in> A" using rep_distinct [OF rep'] zero by (auto simp: A_def)
  have nx: "blk_next ?m b = c" "blk_free ?m c \<noteq> 0" "blk_size ?m b = sz" "blk_size ?m c = tz" using bb cc by simp_all
  have d: "blk_next ?m c \<in> insert 0 A" using cc(3) by (cases zs) (auto simp: A_def)
  have "heap_rep (h\<lparr>heap_mem := coalesce_next b ?m, heap_used_size := u\<rparr>) (xs @ (b, sz + (32 + tz), True) # zs)"
  proof (rule merge_rep [OF rep'])
    fix y
    assume "y \<in> fst ` set (xs @ (b, sz, True) # (c, tz, True) # zs)"
    then have y: "y \<in> A" by (simp only: A_def)
    have "y \<noteq> 0" using y zero by blast
    then show "blk_size (coalesce_next b ?m) y = (if y = b then sz + (32 + tz) else blk_size ?m y)
      \<and> blk_free (coalesce_next b ?m) y = blk_free ?m y
      \<and> blk_next (coalesce_next b ?m) y = (if y = b then blk_next ?m c else blk_next ?m y)
      \<and> blk_prev (coalesce_next b ?m) y = (if y = blk_next ?m c then b else blk_prev ?m y)"
      using y cb nx d by (cases "blk_next ?m c = 0") (simp_all add: coalesce_next_def Let_def HEADER_def upd)
  qed
  then show ?thesis using ys by simp
qed

lemma coalesce_prev_rep:
  assumes rep: "heap_rep h (xs @ (b, sz, True) # ys)"
  shows "heap_rep (h\<lparr>heap_mem := coalesce_prev b (heap_mem h), heap_used_size := u\<rparr>)
    (merge_left (rev xs) ((b, sz, True) # ys))"
proof (cases "\<exists>a rz zs. xs = zs @ [(a, rz, True)]")
  case False
  have "coalesce_prev b (heap_mem h) = heap_mem h"
  proof (cases xs rule: rev_cases)
    case Nil
    then show ?thesis using heap_rep_block(4) [OF rep] by (simp add: coalesce_prev_def)
  next
    case (snoc zs y)
    then obtain a rz where y: "y = (a, rz, False)" using False by (cases y) auto
    then have "blk_free (heap_mem h) a = 0"
      using heap_rep_block(2) [of h zs a rz False "(b, sz, True) # ys"] rep snoc by simp
    then show ?thesis using heap_rep_block(4) [OF rep] snoc y by (simp add: coalesce_prev_def)
  qed
  moreover have "merge_left (rev xs) ((b, sz, True) # ys) = xs @ (b, sz, True) # ys"
    using False by (cases xs rule: rev_cases) auto
  ultimately show ?thesis using heap_rep_used [OF rep] by simp
next
  case True
  then obtain a rz zs where xs: "xs = zs @ [(a, rz, True)]" by blast
  let ?m = "heap_mem h"
  define A where "A = fst ` set (zs @ (a, rz, True) # (b, sz, True) # ys)"
  have rep': "heap_rep h (zs @ (a, rz, True) # (b, sz, True) # ys)" using rep xs by simp
  have rep'': "heap_rep h ((zs @ [(a, rz, True)]) @ (b, sz, True) # ys)" using rep' by simp
  note aa = heap_rep_block [OF rep'] and bb = heap_rep_block [OF rep'']
  note upd = field_upd [OF heap_rep_headers [OF rep', folded A_def]]
  have zero: "0 \<notin> A" using heap_rep_nonnull [OF rep'] by (auto simp: A_def)
  have ab: "b \<noteq> a" "a \<noteq> 0" "a \<in> A" "b \<in> A" using rep_distinct [OF rep'] zero by (auto simp: A_def)
  have pv: "blk_prev ?m b = a" "blk_free ?m a \<noteq> 0" "blk_size ?m a = rz" "blk_size ?m b = sz" using aa bb by simp_all
  have d: "blk_next ?m b \<in> insert 0 A" using bb(3) by (cases ys) (auto simp: A_def)
  have "heap_rep (h\<lparr>heap_mem := coalesce_prev b ?m, heap_used_size := u\<rparr>) (zs @ (a, rz + (32 + sz), True) # ys)"
  proof (rule merge_rep [OF rep'])
    fix y
    assume "y \<in> fst ` set (zs @ (a, rz, True) # (b, sz, True) # ys)"
    then have y: "y \<in> A" by (simp only: A_def)
    have "y \<noteq> 0" using y zero by blast
    then show "blk_size (coalesce_prev b ?m) y = (if y = a then rz + (32 + sz) else blk_size ?m y)
      \<and> blk_free (coalesce_prev b ?m) y = blk_free ?m y
      \<and> blk_next (coalesce_prev b ?m) y = (if y = a then blk_next ?m b else blk_next ?m y)
      \<and> blk_prev (coalesce_prev b ?m) y = (if y = blk_next ?m b then a else blk_prev ?m y)"
      using y ab pv d by (cases "blk_next ?m b = 0") (simp_all add: coalesce_prev_def Let_def HEADER_def upd)
  qed
  then show ?thesis using xs by simp
qed


lemma ff_free_split:
  assumes "distinct (map fst (xs @ (b, sz, f) # ys))"
  shows "ff_free (b + 32) (xs @ (b, sz, f) # ys) =
    (if f then xs @ (b, sz, f) # ys else merge_left (rev xs) (merge_right b sz ys))"
proof -
  have "takeWhile (\<lambda>x. fst x + 32 \<noteq> b + 32) (xs @ (b, sz, f) # ys) = xs"
    using assms by (subst takeWhile_append2) (auto simp: image_iff)
  moreover have "dropWhile (\<lambda>x. fst x + 32 \<noteq> b + 32) (xs @ (b, sz, f) # ys) = (b, sz, f) # ys"
    using assms by (subst dropWhile_append2) (auto simp: image_iff)
  ultimately show ?thesis by (cases f) (simp_all add: ff_free_def)
qed

lemma merge_right_head:
  obtains s zs where "merge_right b sz ys = (b, s, True) # zs" "used_bytes zs = used_bytes ys"
  by (cases "(b, sz, ys)" rule: merge_right.cases) auto

lemma used_bytes_merge_left:
  "used_bytes (merge_left rxs ((b, s, True) # zs)) = used_bytes rxs + used_bytes zs"
  by (cases "(rxs, (b, s, True) # zs)" rule: merge_left.cases) auto

theorem kfree_refines:
  assumes wf: "heap_wf h bs" and mem: "(b, sz, f) \<in> set bs"
  shows "heap_wf (kfree (b + 32) h) (ff_free (b + 32) bs)"
    "heap_start (kfree (b + 32) h) = heap_start h" "heap_total_size (kfree (b + 32) h) = heap_total_size h"
proof -
  show "heap_start (kfree (b + 32) h) = heap_start h" "heap_total_size (kfree (b + 32) h) = heap_total_size h"
    by (simp_all add: kfree_def Let_def)
  obtain xs ys where bs: "bs = xs @ (b, sz, f) # ys" using mem by (meson split_list)
  have rep: "heap_rep h (xs @ (b, sz, f) # ys)" using wf bs by (simp add: heap_wf_def)
  note blk = heap_rep_block [OF rep] and ff = ff_free_split [OF rep_distinct [OF rep]]
  have p: "b + 32 \<noteq> 0" by (rule heap_ptr_nonnull [OF rep])
  show "heap_wf (kfree (b + 32) h) (ff_free (b + 32) bs)"
  proof (cases f)
    case True
    then show ?thesis using wf bs ff blk(2) p by (simp add: kfree_def HEADER_def)
  next
    case False
    let ?m = "set_free b 1 (heap_mem h)" and ?u = "heap_used_size h - (sz + 32)"
    have "b \<in> fst ` set (xs @ (b, sz, f) # ys)" by simp
    from field_upd(2) [OF heap_rep_headers [OF rep] this this] blk(1) have "blk_size ?m b = sz" by simp
    then have run: "kfree (b + 32) h = h\<lparr>heap_mem := coalesce_blocks b ?m, heap_used_size := ?u\<rparr>"
      using False blk(2) p by (simp add: kfree_def HEADER_def Let_def)
    obtain s zs where mr: "merge_right b sz ys = (b, s, True) # zs" "used_bytes zs = used_bytes ys"
      by (rule merge_right_head)
    have "heap_rep (h\<lparr>heap_mem := ?m, heap_used_size := 0\<rparr>) (xs @ (b, sz, True) # ys)"
      using mark_used_rep [OF rep, where v = 1] by simp
    from coalesce_next_rep [OF this, where u = 0] mr(1)
    have "heap_rep (h\<lparr>heap_mem := coalesce_next b ?m, heap_used_size := 0\<rparr>) (xs @ (b, s, True) # zs)" by simp
    from coalesce_prev_rep [OF this, where u = ?u] mr(1)
    have "heap_rep (kfree (b + 32) h) (merge_left (rev xs) (merge_right b sz ys))"
      using run by (simp add: coalesce_blocks_def)
    moreover have "unat (heap_used_size (kfree (b + 32) h)) = used_bytes (merge_left (rev xs) (merge_right b sz ys))"
    proof -
      have u: "unat (heap_used_size h) = used_bytes xs + (unat sz + 32) + used_bytes ys"
        using wf bs False by (simp add: heap_wf_def)
      have s: "unat (sz + 32) = unat sz + 32" using blk(5) unat_plus_nowrap [of sz 32] by simp
      then have "unat ?u = used_bytes xs + used_bytes ys"
        using u unat_sub [of "sz + 32" "heap_used_size h"] by (simp add: word_nat)
      then show ?thesis using run mr by (simp add: used_bytes_merge_left)
    qed
    ultimately show ?thesis using ff False bs by (simp add: heap_wf_def)
  qed
qed

section \<open>Initialisation\<close>

lemma heap_init_rep:
  assumes "start \<noteq> 0" "48 \<le> unat sz" "unat start + unat sz \<le> 2 ^ 52"
  shows "let a = (unat start + 7) div 8 * 8; e = (unat start + unat sz) div 8 * 8; h' = heap_init start sz h
    in unat (heap_start h') = a \<and> a + unat (heap_total_size h') = e
      \<and> heap_wf h' [(heap_start h', heap_total_size h' - 32, True)] \<and> 40 \<le> unat (heap_total_size h')"
proof -
  define a where "a = align_size start"
  define t where "t = (sz - (a - start)) AND NOT (mask 3)"
  have ua: "unat a = (unat start + 7) div 8 * 8" using assms(3) by (simp add: a_def align_size_unat)
  have le: "start \<le> a" using ua by (simp add: word_nat)
  have off: "unat (a - start) = unat a - unat start" using le by (rule unat_sub)
  have small: "unat (a - start) < 8" using off ua by linarith
  have "unat (sz - (a - start)) = unat sz - unat (a - start)"
    using small assms(2) by (intro unat_sub) (simp add: word_nat)
  then have ut: "unat t = (unat sz - (unat a - unat start)) div 8 * 8"
    unfolding t_def by (subst unat_and_not_mask) (simp_all add: off)
  have t40: "40 \<le> unat t" using ut small off assms(2) by simp
  have e: "unat a + unat t = (unat start + unat sz) div 8 * 8"
  proof -
    define x where "x = unat sz - (unat a - unat start)"
    define k where "k = (unat start + 7) div 8"
    have k: "unat a = 8 * k" using ua by (simp add: k_def)
    have "unat start \<le> unat a" using le by (simp add: word_nat)
    then have "unat start + unat sz = 8 * k + x" using k small off assms(2) by (simp add: x_def)
    moreover have "unat t = x div 8 * 8" using ut by (simp only: x_def)
    ultimately show ?thesis using k by simp
  qed
  let ?m = "set_prev a 0 (set_next a 0 (set_free a 1 (set_size a (t - 32) (heap_mem h))))"
  have "sz - (a - start) AND NOT 7 = t" by (simp add: t_def mask_eq_exp_minus_1)
  then have run: "heap_init start sz h = \<lparr>heap_mem = ?m, heap_start = a, heap_total_size = t, heap_used_size = 0\<rparr>"
    using assms(1,2) unfolding heap_init_def
    by (simp add: Let_def a_def align_size_def ALIGN_SIZE_def MIN_BLOCK_SIZE_def HEADER_def word_nat)
  have al: "aligned 3 a" using ua by (simp add: aligned_unat)
  have bnd: "unat a + unat t \<le> 2 ^ 52" using e assms(3) by simp
  have "headers {a}" using al bnd t40 by (simp add: headers_def)
  note upd = field_upd [OF this, simplified]
  have r: "unat (t - 32) = unat t - 32" using t40 unat_sub [of 32 t] by (simp add: word_nat)
  have "unat a \<noteq> 0" using le assms(1) by (auto simp: word_nat unat_eq_zero)
  then have "a \<noteq> 0" by auto
  moreover have "(unat t - 32) mod 8 = 0" using ut by (simp add: mod_eq_0_iff_dvd)
  ultimately have "heap_rep (heap_init start sz h) [(a, t - 32, True)]"
    using run al bnd r t40 by (simp add: heap_rep_def holds_def upd)
  then show ?thesis using run ua e t40 by (simp add: heap_wf_def Let_def)
qed

end
