(* ===== verification/Heap_Calls.thy ===== *)
theory Heap_Calls
  imports Heap_Spec
begin

text \<open>
  What a client of the heap may rely on over any sequence of calls: the locale
  \<open>block_allocator\<close> states the contract of \<open>kmalloc\<close> and \<open>kfree\<close> over the set of live pointers and the
  bytes each of them owns, and is interpreted on the model of \<open>heap.c\<close>. The properties of the heap
  and the behaviours of \<open>krealloc\<close>, \<open>kmalloc_aligned\<close> and oversized requests that leave the contract
  are at the end.
\<close>

section \<open>The bytes a header write touches\<close>

definition in_header :: "u64 \<Rightarrow> u64 \<Rightarrow> bool" where
  "in_header a x \<longleftrightarrow> unat a \<le> unat x \<and> unat x < unat a + 32"

lemma store64_outside:
  assumes "unat a + 32 \<le> 2 ^ 64" "\<not> in_header a x" "unat k \<le> 24"
  shows "store64 m (a + k) v x = m x" "store32 m (a + k) w x = m x"
proof -
  let ?d = "x - (a + k)"
  have no: "\<not> unat ?d < 8"
  proof
    assume d: "unat ?d < 8"
    have "unat (a + k) = unat a + unat k" using assms(1,3) by (intro unat_plus_nowrap) simp
    moreover have "unat (a + k + ?d) = unat (a + k) + unat ?d"
      using assms(1,3) d calculation by (intro unat_plus_nowrap) simp
    ultimately have "unat x = unat a + unat k + unat ?d" by simp
    then show False using assms(2,3) d by (simp add: in_header_def)
  qed
  then show "store64 m (a + k) v x = m x" by (simp add: store64_def word_nat)
  show "store32 m (a + k) w x = m x" using no by (simp add: store32_def word_nat)
qed

lemma set_field_outside:
  assumes "headers A" "a \<in> A" "\<And>c. c \<in> A \<Longrightarrow> \<not> in_header c x"
  shows "set_size a v m x = m x" "set_free a w m x = m x" "set_next a v m x = m x" "set_prev a v m x = m x"
proof -
  have lim: "unat a + 32 \<le> 2 ^ 64" "\<not> in_header a x" using assms headersD(2) by auto
  show "set_size a v m x = m x" "set_free a w m x = m x" "set_next a v m x = m x" "set_prev a v m x = m x"
    unfolding set_size_def set_free_def set_next_def set_prev_def
    using store64_outside [OF lim, of 0] store64_outside [OF lim, of 8]
      store64_outside [OF lim, of 16] store64_outside [OF lim, of 24] by simp_all
qed

lemma payload_not_header:
  assumes "tiles a bs e" "(q, s, f) \<in> set bs" "unat q + 32 \<le> unat x" "unat x < unat q + 32 + unat s"
    "c \<in> fst ` set bs"
  shows "\<not> in_header c x"
  using assms
proof (induction a bs e rule: tiles.induct)
  case (2 a b sz g bs e)
  then have tail: "tiles (a + 32 + unat sz) bs e" and b: "unat b = a" by simp_all
  show ?case
  proof (cases "(q, s, f) \<in> set bs")
    case True
    then have "a + 32 + unat sz \<le> unat q" using tiles_block(1) [OF tail] by blast
    moreover have "\<not> in_header c x" if "c \<in> fst ` set bs" using "2.IH" [OF tail True] "2.prems" that by blast
    ultimately show ?thesis using "2.prems"(3,5) b by (auto simp: in_header_def)
  next
    case False
    then have q: "q = b" "s = sz" using "2.prems"(2) by auto
    moreover have "a + 32 + unat sz \<le> unat c" if "c \<in> fst ` set bs" using tiles_addr(1) [OF tail that] .
    moreover have "c = b \<or> c \<in> fst ` set bs" using "2.prems"(5) by simp
    ultimately show ?thesis using "2.prems"(3,4) b by (fastforce simp: in_header_def)
  qed
qed simp

lemma split_block_outside:
  assumes H: "headers A" and mem: "b \<in> A" "b + 32 + n \<in> A" "b \<noteq> b + 32 + n"
    and nx: "blk_next m b \<in> insert 0 A" and out: "\<And>c. c \<in> A \<Longrightarrow> \<not> in_header c x"
  shows "split_block b n m x = m x"
proof (cases "blk_next m b = 0")
  case True
  then show ?thesis using mem
    by (simp add: split_block_def Let_def HEADER_def field_upd [OF H] set_field_outside [OF H _ out])
next
  case False
  then have "blk_next m b \<in> A" using nx by simp
  then show ?thesis using mem
    by (simp add: split_block_def Let_def HEADER_def field_upd [OF H] set_field_outside [OF H _ out])
qed


lemma coalesce_next_outside:
  assumes rep: "heap_rep h (xs @ (b, sz, f) # ys)"
    and out: "\<And>c. c \<in> fst ` set (xs @ (b, sz, f) # ys) \<Longrightarrow> \<not> in_header c x"
  shows "coalesce_next b (heap_mem h) x = heap_mem h x"
proof (cases ys)
  case Nil
  then show ?thesis using heap_rep_block(3) [OF rep] by (simp add: coalesce_next_def)
next
  case (Cons y zs)
  obtain c tz g where y: "y = (c, tz, g)" by (cases y) auto
  define A where "A = fst ` set (xs @ (b, sz, f) # ys)"
  note H = heap_rep_headers [OF rep, folded A_def] and out' = out [folded A_def]
  have rep': "heap_rep h ((xs @ [(b, sz, f)]) @ (c, tz, g) # zs)" using rep Cons y by simp
  have "blk_next (heap_mem h) b = c" using heap_rep_block(3) [OF rep] Cons y by simp
  moreover have "blk_next (heap_mem h) c \<in> insert 0 A" using heap_rep_block(3) [OF rep'] Cons y
    by (cases zs) (auto simp: A_def)
  moreover have "b \<in> A" "c \<in> A" "c \<noteq> b" using rep_distinct [OF rep] Cons y by (auto simp: A_def)
  ultimately show ?thesis
    by (cases "blk_next (heap_mem h) c = 0")
      (simp_all add: coalesce_next_def Let_def HEADER_def field_upd [OF H] set_field_outside [OF H _ out'])
qed

lemma coalesce_prev_outside:
  assumes rep: "heap_rep h (xs @ (b, sz, f) # ys)"
    and out: "\<And>c. c \<in> fst ` set (xs @ (b, sz, f) # ys) \<Longrightarrow> \<not> in_header c x"
  shows "coalesce_prev b (heap_mem h) x = heap_mem h x"
proof (cases xs rule: rev_cases)
  case Nil
  then show ?thesis using heap_rep_block(4) [OF rep] by (simp add: coalesce_prev_def)
next
  case (snoc zs y)
  define A where "A = fst ` set (xs @ (b, sz, f) # ys)"
  note H = heap_rep_headers [OF rep, folded A_def] and out' = out [folded A_def]
  have "blk_prev (heap_mem h) b = fst y" using heap_rep_block(4) [OF rep] snoc by simp
  moreover have "blk_next (heap_mem h) b \<in> insert 0 A" using heap_rep_block(3) [OF rep]
    by (cases ys) (auto simp: A_def)
  moreover have "b \<in> A" "fst y \<in> A" "fst y \<noteq> b" using rep_distinct [OF rep] snoc by (auto simp: A_def)
  ultimately show ?thesis
    by (cases "blk_next (heap_mem h) b = 0")
      (simp_all add: coalesce_prev_def Let_def HEADER_def field_upd [OF H] set_field_outside [OF H _ out'])
qed

section \<open>Live payloads are left alone\<close>

definition payload :: "blk \<Rightarrow> u64 set" where
  "payload x = (case x of (b, sz, f) \<Rightarrow> {a. unat b + 32 \<le> unat a \<and> unat a < unat b + 32 + unat sz})"

lemma rep_payload_not_header:
  assumes "heap_rep h bs" "y \<in> set bs" "x \<in> payload y" "c \<in> fst ` set bs"
  shows "\<not> in_header c x"
  using payload_not_header [OF heap_repD(5) [OF assms(1)] _ _ _ assms(4)] assms(2,3)
  by (cases y) (auto simp: payload_def)

lemma kfree_contents:
  assumes wf: "heap_wf h bs" and mem: "(b, sz, f) \<in> set bs" and y: "y \<in> set bs" "x \<in> payload y"
  shows "heap_mem (kfree (b + 32) h) x = heap_mem h x"
proof -
  obtain xs ys where bs: "bs = xs @ (b, sz, f) # ys" using mem by (meson split_list)
  have rep: "heap_rep h (xs @ (b, sz, f) # ys)" using wf bs by (simp add: heap_wf_def)
  have out: "\<not> in_header c x" if "c \<in> fst ` set (xs @ (b, sz, f) # ys)" for c
    using rep_payload_not_header [OF rep _ y(2) that] y(1) bs by blast
  let ?m = "set_free b 1 (heap_mem h)" and ?bs = "xs @ (b, sz, True) # ys"
  have rep1: "heap_rep (h\<lparr>heap_mem := ?m, heap_used_size := 0\<rparr>) ?bs"
    using mark_used_rep [OF rep, where v = 1] by simp
  obtain s zs where mr: "merge_right b sz ys = (b, s, True) # zs" by (rule merge_right_head)
  have sub: "fst ` set (xs @ (b, s, True) # zs) \<subseteq> fst ` set (xs @ (b, sz, f) # ys)"
    using mr by (cases "(b, sz, ys)" rule: merge_right.cases) auto
  from coalesce_next_rep [OF rep1, where u = 0] mr
  have rep2: "heap_rep (h\<lparr>heap_mem := coalesce_next b ?m, heap_used_size := 0\<rparr>) (xs @ (b, s, True) # zs)" by simp
  have out2: "\<not> in_header c x" if "c \<in> fst ` set (xs @ (b, s, True) # zs)" for c
    using out sub that by blast
  have "coalesce_prev b (coalesce_next b ?m) x = coalesce_next b ?m x"
    using coalesce_prev_outside [OF rep2 out2] by simp
  also have "\<dots> = ?m x" using coalesce_next_outside [OF rep1] out by simp
  also have "\<dots> = heap_mem h x"
    by (rule set_field_outside(2) [OF heap_rep_headers [OF rep]]) (use out in auto)
  finally show ?thesis by (simp add: kfree_def Let_def HEADER_def coalesce_blocks_def)
qed


lemma kmalloc_contents:
  assumes wf: "heap_wf h bs" and run: "kmalloc n h = Some (p, h')" and y: "(q, s, False) \<in> set bs"
    "x \<in> payload (q, s, False)"
  shows "heap_mem h' x = heap_mem h x"
proof (cases "n = 0 \<or> ff_alloc (align_size n) bs = None")
  case True
  then show ?thesis using run kmalloc_refines [OF wf, of n] by (cases "n = 0") (auto simp: kmalloc_def)
next
  case False
  let ?n = "align_size n"
  have rep: "heap_rep h bs" using wf by (simp add: heap_wf_def)
  obtain z where "find (\<lambda>(b, sz, f). f \<and> ?n \<le> sz) bs = Some z" using False by (auto simp: ff_alloc_None)
  then obtain b sz xs ys where bs: "bs = xs @ (b, sz, True) # ys" and fits: "?n \<le> sz"
    and ff: "ff_alloc ?n bs = Some (b + 32, xs @ carve ?n b sz @ ys)" by (rule ff_alloc_split)
  note rep' = rep [unfolded bs]
  have p: "p = b + 32" "p \<noteq> 0" using kmalloc_refines [OF wf, of n] False ff run by simp_all
  define m' where "m' = set_free b 0 (split_block b ?n (heap_mem h))"
  have "heap_mem h' = set_free (p - 32) 0 (split_block (p - 32) ?n (heap_mem h))"
    using run False p by (auto simp: kmalloc_def Let_def HEADER_def split: option.splits if_splits)
  then have h': "heap_mem h' = m'" using p by (simp add: m'_def)
  note rep2 = carve_rep(1) [OF rep' fits align_size_mod, where u = 0]
  define A where "A = fst ` set (xs @ carve ?n b sz @ ys)"
  have out: "\<not> in_header c x" if "c \<in> A" for c
  proof (rule rep_payload_not_header [OF rep2 _ y(2)])
    show "(q, s, False) \<in> set (xs @ carve ?n b sz @ ys)" using y(1) bs by auto
  qed (use that in \<open>simp add: A_def\<close>)
  note H = heap_rep_headers [OF rep2, folded A_def]
  have b: "b \<in> A" by (auto simp: A_def carve_def)
  have "split_block b ?n (heap_mem h) x = heap_mem h x"
  proof (cases "unat sz < unat ?n + 48")
    case True
    then have "blk_size (heap_mem h) b < ?n + 48"
      using guard_no_wrap [of sz ?n] fits heap_rep_block(1,5) [OF rep'] by simp
    then show ?thesis by (simp add: split_block_def MIN_BLOCK_SIZE_def HEADER_def)
  next
    case False
    show ?thesis
    proof (rule split_block_outside [OF H b _ _ _ out])
      show "b + 32 + ?n \<in> A" using False by (simp add: A_def carve_def)
      show "b \<noteq> b + 32 + ?n" using False rep_distinct [OF rep2] by (simp add: carve_def)
      show "blk_next (heap_mem h) b \<in> insert 0 A"
        using heap_rep_block(3) [OF rep'] by (cases ys) (auto simp: A_def)
    qed
  qed
  then show ?thesis using set_field_outside(2) [OF H b out] h' by (simp add: m'_def)
qed


section \<open>The contract over the live pointers\<close>

definition used :: "blk list \<Rightarrow> (u64 \<times> u64) set" where
  "used bs = {(b, sz). (b, sz, False) \<in> set bs}"

lemma used_simps [simp]:
  "used [] = {}"
  "used ((b, sz, f) # bs) = (if f then used bs else insert (b, sz) (used bs))"
  "used (xs @ ys) = used xs \<union> used ys"
  "used (rev xs) = used xs"
  by (auto simp: used_def)

lemma used_merge_left: "used (merge_left rxs ((b, s, True) # zs)) = used rxs \<union> used zs"
  by (cases "(rxs, (b, s, True) # zs)" rule: merge_left.cases) auto

lemma used_merge_right: "used (merge_right b sz ys) = used ys"
  by (cases "(b, sz, ys)" rule: merge_right.cases) auto

lemma ff_alloc_used:
  assumes "ff_alloc n bs = Some (p, bs')"
  obtains b s where "p = b + 32" "n \<le> s" "b \<in> fst ` set bs" "(b, s) \<in> used bs'"
    "\<And>t. distinct (map fst bs) \<Longrightarrow> (b, t) \<notin> used bs" "used bs' = insert (b, s) (used bs)"
proof -
  have "find (\<lambda>(b, sz, f). f \<and> n \<le> sz) bs \<noteq> None" using assms ff_alloc_None [of n bs] by simp
  then obtain b sz xs ys where bs: "bs = xs @ (b, sz, True) # ys" and fits: "n \<le> sz"
    and ff: "ff_alloc n bs = Some (b + 32, xs @ carve n b sz @ ys)" by (metis ff_alloc_split not_None_eq)
  let ?s = "fst (snd (hd (carve n b sz)))"
  have "used (xs @ carve n b sz @ ys) = insert (b, ?s) (used bs)" "n \<le> ?s"
    using bs fits by (auto simp: carve_def)
  moreover have "(b, t) \<notin> used bs" if "distinct (map fst bs)" for t
    using that bs by (force simp: used_def image_iff)
  ultimately show ?thesis using that [of b ?s] ff assms bs by auto
qed

lemma ff_free_used:
  assumes "distinct (map fst bs)" "(b, sz) \<in> used bs"
  shows "used (ff_free (b + 32) bs) = used bs - {(b, sz)}"
proof -
  obtain xs ys where bs: "bs = xs @ (b, sz, False) # ys" using assms(2) by (auto simp: used_def dest: split_list)
  obtain s zs where mr: "merge_right b sz ys = (b, s, True) # zs" by (rule merge_right_head)
  have "(b, sz) \<notin> used xs" "(b, sz) \<notin> used ys" using assms(1) bs by (force simp: used_def image_iff)+
  moreover have "used zs = used ys" using used_merge_right [of b sz ys] mr by simp
  ultimately show ?thesis using ff_free_split [of xs b sz False ys] assms(1) bs mr
    by (auto simp: used_merge_left)
qed

text \<open>The clients of an allocator: a sequence of requests, each release of a live pointer.\<close>

datatype ('n, 'p) alloc_call = Acquire 'n | Release 'p

fun run_calls :: "('n \<Rightarrow> 's \<Rightarrow> ('p \<times> 's) option) \<Rightarrow> ('p \<Rightarrow> 's \<Rightarrow> 's) \<Rightarrow> ('n, 'p) alloc_call list \<Rightarrow> 's \<Rightarrow> 's option" where
  "run_calls alloc free [] s = Some s"
| "run_calls alloc free (Acquire n # cs) s =
     (case alloc n s of None \<Rightarrow> None | Some (p, s') \<Rightarrow> run_calls alloc free cs s')"
| "run_calls alloc free (Release p # cs) s = run_calls alloc free cs (free p s)"

fun proper_calls :: "('n \<Rightarrow> 's \<Rightarrow> ('p \<times> 's) option) \<Rightarrow> ('p \<Rightarrow> 's \<Rightarrow> 's) \<Rightarrow> ('s \<Rightarrow> 'p set)
    \<Rightarrow> ('n, 'p) alloc_call list \<Rightarrow> 's \<Rightarrow> bool" where
  "proper_calls alloc free live [] s = True"
| "proper_calls alloc free live (Acquire n # cs) s =
     (case alloc n s of None \<Rightarrow> False | Some (p, s') \<Rightarrow> proper_calls alloc free live cs s')"
| "proper_calls alloc free live (Release p # cs) s \<longleftrightarrow> p \<in> live s \<and> proper_calls alloc free live cs (free p s)"

locale block_allocator =
  fixes alloc :: "'n \<Rightarrow> 's \<Rightarrow> ('p \<times> 's) option" and free :: "'p \<Rightarrow> 's \<Rightarrow> 's" and null :: 'p
    and wf :: "'s \<Rightarrow> bool" and live :: "'s \<Rightarrow> 'p set" and owned :: "'s \<Rightarrow> 'p \<Rightarrow> 'a set"
    and rd :: "'s \<Rightarrow> 'a \<Rightarrow> 'v"
  assumes alloc_returns: "wf s \<Longrightarrow> alloc n s \<noteq> None"
    and alloc_fails: "wf s \<Longrightarrow> alloc n s = Some (null, s') \<Longrightarrow> s' = s"
    and alloc_wf: "wf s \<Longrightarrow> alloc n s = Some (p, s') \<Longrightarrow> p \<noteq> null \<Longrightarrow> wf s'"
    and alloc_live: "wf s \<Longrightarrow> alloc n s = Some (p, s') \<Longrightarrow> p \<noteq> null \<Longrightarrow> p \<notin> live s \<and> live s' = insert p (live s)"
    and alloc_owned: "wf s \<Longrightarrow> alloc n s = Some (p, s') \<Longrightarrow> p \<noteq> null \<Longrightarrow> q \<in> live s \<Longrightarrow> owned s' q = owned s q"
    and alloc_rd: "wf s \<Longrightarrow> alloc n s = Some (p, s') \<Longrightarrow> p \<noteq> null \<Longrightarrow> q \<in> live s \<Longrightarrow> x \<in> owned s q \<Longrightarrow> rd s' x = rd s x"
    and free_wf: "wf s \<Longrightarrow> p \<in> live s \<Longrightarrow> wf (free p s)"
    and free_live: "wf s \<Longrightarrow> p \<in> live s \<Longrightarrow> live (free p s) = live s - {p}"
    and free_owned: "wf s \<Longrightarrow> p \<in> live s \<Longrightarrow> q \<in> live s \<Longrightarrow> q \<noteq> p \<Longrightarrow> owned (free p s) q = owned s q"
    and free_rd: "wf s \<Longrightarrow> p \<in> live s \<Longrightarrow> q \<in> live s \<Longrightarrow> x \<in> owned s q \<Longrightarrow> rd (free p s) x = rd s x"
    and owned_disjoint: "wf s \<Longrightarrow> p \<in> live s \<Longrightarrow> q \<in> live s \<Longrightarrow> p \<noteq> q \<Longrightarrow> owned s p \<inter> owned s q = {}"
begin

text \<open>Whatever is called in between, a pointer that is not released keeps its bytes.\<close>

lemma calls_keep_live:
  assumes "wf s" "proper_calls alloc free live cs s" "q \<in> live s" "Release q \<notin> set cs"
  shows "\<exists>s'. run_calls alloc free cs s = Some s' \<and> wf s' \<and> q \<in> live s' \<and> owned s' q = owned s q
    \<and> (\<forall>x \<in> owned s q. rd s' x = rd s x)"
  using assms
proof (induction cs arbitrary: s)
  case (Cons c cs)
  show ?case
  proof (cases c)
    case (Acquire n)
    then obtain p s1 where a: "alloc n s = Some (p, s1)" and pr: "proper_calls alloc free live cs s1"
      using Cons.prems(2) by (auto split: option.splits)
    show ?thesis
    proof (cases "p = null")
      case True
      then have "s1 = s" using alloc_fails [OF Cons.prems(1)] a by blast
      then show ?thesis using Cons.IH [OF Cons.prems(1) _ Cons.prems(3)] Cons.prems(4) a pr Acquire by auto
    next
      case False
      note f = alloc_wf [OF Cons.prems(1) a False] alloc_live [OF Cons.prems(1) a False]
        alloc_owned [OF Cons.prems(1) a False Cons.prems(3)] alloc_rd [OF Cons.prems(1) a False Cons.prems(3)]
      have "q \<in> live s1" "Release q \<notin> set cs" using f(2) Cons.prems(3,4) by auto
      then obtain s' where "run_calls alloc free cs s1 = Some s'" "wf s'" "q \<in> live s'" "owned s' q = owned s1 q"
        "\<forall>x \<in> owned s1 q. rd s' x = rd s1 x" using Cons.IH [OF f(1) pr] by auto
      then show ?thesis using f(3,4) a Acquire by auto
    qed
  next
    case (Release p)
    then have p: "p \<in> live s" "q \<noteq> p" and pr: "proper_calls alloc free live cs (free p s)" using Cons.prems by auto
    have "q \<in> live (free p s)" "Release q \<notin> set cs" using free_live [OF Cons.prems(1) p(1)] p(2) Cons.prems(3,4) by auto
    then obtain s' where "run_calls alloc free cs (free p s) = Some s'" "wf s'" "q \<in> live s'"
      "owned s' q = owned (free p s) q" "\<forall>x \<in> owned (free p s) q. rd s' x = rd (free p s) x"
      using Cons.IH [OF free_wf [OF Cons.prems(1) p(1)] pr] by auto
    then show ?thesis using free_owned [OF Cons.prems(1) p(1) Cons.prems(3) p(2)] Release
        free_rd [OF Cons.prems(1) p(1) Cons.prems(3)] by auto
  qed
qed simp

lemma alloc_fresh:
  assumes "wf s" "alloc n s = Some (p, s')" "p \<noteq> null" "q \<in> live s"
  shows "owned s' p \<inter> owned s q = {}"
proof -
  have "p \<noteq> q" "p \<in> live s'" "q \<in> live s'" using alloc_live [OF assms(1,2,3)] assms(4) by auto
  then have "owned s' p \<inter> owned s' q = {}" using owned_disjoint alloc_wf [OF assms(1,2,3)] by blast
  then show ?thesis using alloc_owned [OF assms] by simp
qed

end


section \<open>The heap provides it\<close>

definition heap_ok :: "heap \<Rightarrow> bool" where
  "heap_ok h \<longleftrightarrow> (\<exists>bs. heap_wf h bs \<and> coalesced bs)"

definition heap_live :: "heap \<Rightarrow> u64 set" where
  "heap_live h = {p. \<exists>bs b sz. heap_wf h bs \<and> (b, sz) \<in> used bs \<and> p = b + 32}"

definition heap_owned :: "heap \<Rightarrow> u64 \<Rightarrow> u64 set" where
  "heap_owned h p = {x. \<exists>bs b sz. heap_wf h bs \<and> (b, sz) \<in> used bs \<and> p = b + 32 \<and> x \<in> payload (b, sz, False)}"

lemma heap_wf_unique: "heap_wf h bs \<Longrightarrow> heap_wf h cs \<Longrightarrow> cs = bs"
  using heap_rep_unique by (auto simp: heap_wf_def)

lemma heap_wf_iff: "heap_wf h bs \<Longrightarrow> heap_wf h cs \<longleftrightarrow> cs = bs"
  using heap_wf_unique by blast

lemma heap_wf_distinct: "heap_wf h bs \<Longrightarrow> distinct (map fst bs)"
  using rep_distinct by (auto simp: heap_wf_def)

lemma heap_live_eq: "heap_wf h bs \<Longrightarrow> heap_live h = (\<lambda>(b, sz). b + 32) ` used bs"
  unfolding heap_live_def by (force simp: heap_wf_iff)

lemma used_unique: "distinct (map fst bs) \<Longrightarrow> (b, s) \<in> used bs \<Longrightarrow> (b, t) \<in> used bs \<Longrightarrow> s = t"
  by (auto simp: used_def dest: eq_key_imp_eq_value)

lemma heap_owned_eq:
  assumes "heap_wf h bs" "(b, sz) \<in> used bs"
  shows "heap_owned h (b + 32) = payload (b, sz, False)"
proof -
  have "heap_owned h (b + 32) = (\<Union>sz' \<in> {sz'. (b, sz') \<in> used bs}. payload (b, sz', False))"
    unfolding heap_owned_def heap_wf_iff [OF assms(1)] by auto
  moreover have "{sz'. (b, sz') \<in> used bs} = {sz}"
    using assms(2) used_unique [OF heap_wf_distinct [OF assms(1)]] by blast
  ultimately show ?thesis by simp
qed

lemma tiles_payload_disjoint:
  assumes "tiles a bs e" "x \<in> set bs" "y \<in> set bs" "fst x \<noteq> fst y"
  shows "payload x \<inter> payload y = {}"
  using assms
proof (induction a bs e rule: tiles.induct)
  case (2 a b sz f bs e)
  then have tail: "tiles (a + 32 + unat sz) bs e" and b: "unat b = a" by simp_all
  have far: "payload (b, sz, f) \<inter> payload z = {}" if "z \<in> set bs" for z
  proof -
    obtain c tz g where z: "z = (c, tz, g)" by (cases z) auto
    then have "a + 32 + unat sz \<le> unat c" using tiles_block(1) [OF tail] that by blast
    then show ?thesis using z b by (auto simp: payload_def)
  qed
  consider "x \<in> set bs" "y \<in> set bs" | "x = (b, sz, f)" "y \<in> set bs" | "x \<in> set bs" "y = (b, sz, f)"
    using "2.prems"(2,3,4) by auto
  then show ?case
    by cases (use "2.IH" [OF tail] "2.prems"(4) far in \<open>blast+\<close>)
qed simp

lemma coalesced_Cons:
  "coalesced ((b, sz, f) # ys) \<longleftrightarrow> coalesced ys \<and> (ys \<noteq> [] \<longrightarrow> \<not> (f \<and> snd (snd (hd ys))))"
  by (cases ys) auto

lemma coalesced_append:
  "coalesced (xs @ ys) \<longleftrightarrow> coalesced xs \<and> coalesced ys
     \<and> (xs \<noteq> [] \<longrightarrow> ys \<noteq> [] \<longrightarrow> \<not> (snd (snd (last xs)) \<and> snd (snd (hd ys))))"
  by (induction xs) (auto simp: coalesced_Cons split_paired_all)

lemma coalesced_ff_alloc:
  assumes "coalesced bs" "ff_alloc n bs = Some (p, bs')"
  shows "coalesced bs'"
proof -
  have "find (\<lambda>(b, sz, f). f \<and> n \<le> sz) bs \<noteq> None" using assms(2) ff_alloc_None [of n bs] by simp
  then obtain b sz xs ys where bs: "bs = xs @ (b, sz, True) # ys"
    and ff: "ff_alloc n bs = Some (b + 32, xs @ carve n b sz @ ys)" by (metis ff_alloc_split not_None_eq)
  have "coalesced (xs @ carve n b sz @ ys)"
    using assms(1) bs by (cases "unat sz < unat n + 48") (auto simp: carve_def coalesced_append coalesced_Cons)
  then show ?thesis using ff assms(2) by simp
qed

lemma coalesced_merge_right:
  "coalesced ys \<Longrightarrow> coalesced (merge_right b sz ys)"
  by (cases "(b, sz, ys)" rule: merge_right.cases) (auto simp: coalesced_Cons)

lemma coalesced_merge_left:
  "coalesced (rev rxs) \<Longrightarrow> coalesced ((b, sz, True) # ys) \<Longrightarrow> coalesced (merge_left rxs ((b, sz, True) # ys))"
  by (cases "(rxs, (b, sz, True) # ys)" rule: merge_left.cases) (auto simp: coalesced_append coalesced_Cons)

lemma coalesced_ff_free:
  assumes "distinct (map fst bs)" "coalesced bs" "(b, sz, False) \<in> set bs"
  shows "coalesced (ff_free (b + 32) bs)"
proof -
  obtain xs ys where bs: "bs = xs @ (b, sz, False) # ys" using assms(3) by (meson split_list)
  obtain s zs where mr: "merge_right b sz ys = (b, s, True) # zs" by (rule merge_right_head)
  have "coalesced xs" "coalesced ys" using assms(2) bs by (simp_all add: coalesced_append coalesced_Cons)
  then have "coalesced (merge_left (rev xs) (merge_right b sz ys))"
    using coalesced_merge_right [of ys b sz] mr by (simp add: coalesced_merge_left)
  then show ?thesis using ff_free_split [of xs b sz False ys] assms(1) bs by simp
qed

text \<open>Freeing what was just allocated restores the block list.\<close>

lemma ff_free_ff_alloc:
  assumes "coalesced bs" "distinct (map fst bs')" "ff_alloc n bs = Some (p, bs')"
  shows "ff_free p bs' = bs"
proof -
  have "find (\<lambda>(b, sz, f). f \<and> n \<le> sz) bs \<noteq> None" using assms(3) ff_alloc_None [of n bs] by simp
  then obtain b sz xs ys where bs: "bs = xs @ (b, sz, True) # ys"
    and ff: "ff_alloc n bs = Some (b + 32, xs @ carve n b sz @ ys)" by (metis ff_alloc_split not_None_eq)
  have p: "p = b + 32" "bs' = xs @ carve n b sz @ ys" using ff assms(3) by simp_all
  have mr: "merge_right b s (c # zs) = (b, s, True) # c # zs" if "\<not> snd (snd c)" for s c zs
    using that by (cases c) auto
  have ml: "merge_left (rev xs) ((b, sz, True) # ys) = bs"
    using assms(1) bs by (cases xs rule: rev_cases) (auto simp: coalesced_append coalesced_Cons)
  show ?thesis
  proof (cases "unat sz < unat n + 48")
    case True
    then have "merge_right b sz ys = (b, sz, True) # ys"
      using assms(1) bs mr by (cases ys) (auto simp: coalesced_append coalesced_Cons)
    then show ?thesis using True p ml assms(2) ff_free_split [of xs b sz False ys] by (simp add: carve_def)
  next
    case False
    then show ?thesis using p ml assms(2) ff_free_split [of xs b n False "(b + 32 + n, sz - n - 32, True) # ys"]
      by (simp add: carve_def)
  qed
qed

lemma kmalloc_succeeds:
  assumes wf: "heap_wf h bs" and run: "kmalloc n h = Some (p, h')" "p \<noteq> 0"
  obtains b s bs' where "p = b + 32" "ff_alloc (align_size n) bs = Some (p, bs')" "heap_wf h' bs'"
    "align_size n \<le> s" "\<And>t. (b, t) \<notin> used bs" "used bs' = insert (b, s) (used bs)"
proof -
  have n: "n \<noteq> 0" using run by (auto simp: kmalloc_def)
  obtain p' bs' where ff: "ff_alloc (align_size n) bs = Some (p', bs')"
    using kmalloc_refines [OF wf n] run by (cases "ff_alloc (align_size n) bs") auto
  then have *: "p' = p" "heap_wf h' bs'" using kmalloc_refines [OF wf n] run by auto
  from ff obtain b s where "p' = b + 32" "align_size n \<le> s" "used bs' = insert (b, s) (used bs)"
    "\<And>t. (b, t) \<notin> used bs" by (rule ff_alloc_used) (use heap_wf_distinct [OF wf] in blast)
  then show ?thesis using * ff by (intro that [of b bs' s]) auto
qed

lemma kmalloc_returns: "heap_wf h bs \<Longrightarrow> \<exists>p h'. kmalloc n h = Some (p, h') \<and> (p = 0 \<longrightarrow> h' = h)"
proof (cases "n = 0")
  case True
  then show ?thesis by (simp add: kmalloc_def)
next
  case False
  assume "heap_wf h bs"
  from kmalloc_refines [OF this False] show ?thesis by (auto split: option.splits)
qed

lemma kfree_live:
  assumes wf: "heap_wf h bs" "coalesced bs" and b: "(b, sz) \<in> used bs"
  shows "heap_wf (kfree (b + 32) h) (ff_free (b + 32) bs)" "coalesced (ff_free (b + 32) bs)"
    "used (ff_free (b + 32) bs) = used bs - {(b, sz)}"
proof -
  have m: "(b, sz, False) \<in> set bs" using b by (simp add: used_def)
  show "heap_wf (kfree (b + 32) h) (ff_free (b + 32) bs)" by (rule kfree_refines [OF wf(1) m])
  show "coalesced (ff_free (b + 32) bs)" by (rule coalesced_ff_free [OF heap_wf_distinct [OF wf(1)] wf(2) m])
  show "used (ff_free (b + 32) bs) = used bs - {(b, sz)}" by (rule ff_free_used [OF heap_wf_distinct [OF wf(1)] b])
qed

lemma heap_ok_obtain:
  assumes "heap_ok h"
  obtains bs where "heap_wf h bs" "coalesced bs"
  using assms by (auto simp: heap_ok_def)

lemma heap_live_obtain:
  assumes "heap_wf h bs" "p \<in> heap_live h"
  obtains b sz where "p = b + 32" "(b, sz) \<in> used bs" "heap_owned h p = payload (b, sz, False)"
  using assms heap_live_eq heap_owned_eq by auto

interpretation kh: block_allocator kmalloc kfree NULL heap_ok heap_live heap_owned heap_mem
proof
  fix h h' :: heap and n p q x
  assume ok: "heap_ok h"
  then obtain bs where wf: "heap_wf h bs" "coalesced bs" by (rule heap_ok_obtain)
  show "kmalloc n h \<noteq> None" using kmalloc_returns [OF wf(1), of n] by auto
  show "h' = h" if "kmalloc n h = Some (NULL, h')" using kmalloc_returns [OF wf(1), of n] that by auto
  show "heap_ok h'" "p \<notin> heap_live h \<and> heap_live h' = insert p (heap_live h)"
    and "q \<in> heap_live h \<Longrightarrow> heap_owned h' q = heap_owned h q"
    and "q \<in> heap_live h \<Longrightarrow> x \<in> heap_owned h q \<Longrightarrow> heap_mem h' x = heap_mem h x"
    if run: "kmalloc n h = Some (p, h')" "p \<noteq> NULL"
  proof -
    obtain b s bs' where p: "p = b + 32" and ff: "ff_alloc (align_size n) bs = Some (p, bs')" and wf': "heap_wf h' bs'"
      and u: "\<And>t. (b, t) \<notin> used bs" "used bs' = insert (b, s) (used bs)"
      using kmalloc_succeeds [OF wf(1) run] by metis
    show "heap_ok h'" using wf' coalesced_ff_alloc [OF wf(2) ff] by (auto simp: heap_ok_def)
    show "p \<notin> heap_live h \<and> heap_live h' = insert p (heap_live h)"
      using u p by (auto simp: heap_live_eq [OF wf(1)] heap_live_eq [OF wf'])
    assume q: "q \<in> heap_live h"
    then obtain c sz where c: "q = c + 32" "(c, sz) \<in> used bs" "heap_owned h q = payload (c, sz, False)"
      by (rule heap_live_obtain [OF wf(1)])
    then show "heap_owned h' q = heap_owned h q" using heap_owned_eq [OF wf', of c sz] u by simp
    show "heap_mem h' x = heap_mem h x" if "x \<in> heap_owned h q"
      using kmalloc_contents [OF wf(1) run(1), of c sz x] that c by (simp add: used_def)
  qed
  show "heap_ok (kfree p h)" "heap_live (kfree p h) = heap_live h - {p}"
    and "q \<in> heap_live h \<Longrightarrow> q \<noteq> p \<Longrightarrow> heap_owned (kfree p h) q = heap_owned h q"
    and "q \<in> heap_live h \<Longrightarrow> x \<in> heap_owned h q \<Longrightarrow> heap_mem (kfree p h) x = heap_mem h x"
    and "q \<in> heap_live h \<Longrightarrow> p \<noteq> q \<Longrightarrow> heap_owned h p \<inter> heap_owned h q = {}"
    if p: "p \<in> heap_live h"
  proof -
    from p obtain b sz where b: "p = b + 32" "(b, sz) \<in> used bs" "heap_owned h p = payload (b, sz, False)"
      by (rule heap_live_obtain [OF wf(1)])
    note f = kfree_live [OF wf b(2), folded b(1)]
    show "heap_ok (kfree p h)" using f(1,2) by (auto simp: heap_ok_def)
    show "heap_live (kfree p h) = heap_live h - {p}"
      using f(3) b(1) used_unique [OF heap_wf_distinct [OF wf(1)] b(2)]
      unfolding heap_live_eq [OF wf(1)] heap_live_eq [OF f(1)] by force
    assume q: "q \<in> heap_live h"
    then obtain c tz where c: "q = c + 32" "(c, tz) \<in> used bs" "heap_owned h q = payload (c, tz, False)"
      by (rule heap_live_obtain [OF wf(1)])
    show "heap_owned (kfree p h) q = heap_owned h q" if "q \<noteq> p"
      using heap_owned_eq [OF f(1), of c tz] f(3) c that b(1) by simp
    show "heap_mem (kfree p h) x = heap_mem h x" if "x \<in> heap_owned h q"
      using kfree_contents [OF wf(1), of b sz False "(c, tz, False)" x] b c that by (simp add: used_def)
    show "heap_owned h p \<inter> heap_owned h q = {}" if "p \<noteq> q"
      using tiles_payload_disjoint [OF heap_repD(5), of h bs "(b, sz, False)" "(c, tz, False)"] wf(1) b c that
      by (simp add: used_def heap_wf_def)
  qed
qed

section \<open>Writes inside a payload\<close>

lemma load_header_cong:
  assumes "headers A" "c \<in> A" "\<And>x. in_header c x \<Longrightarrow> m' x = m x"
  shows "blk_size m' c = blk_size m c" "blk_free m' c = blk_free m c"
    "blk_next m' c = blk_next m c" "blk_prev m' c = blk_prev m c"
proof -
  have byte: "m' (c + k + of_nat i) = m (c + k + of_nat i)" if "unat k \<le> 24" "i < 8" for k and i :: nat
  proof (rule assms(3))
    have lim: "unat c + 32 \<le> 2 ^ 64" by (rule headersD(2) [OF assms(1,2)])
    have i: "unat (of_nat i :: u64) = i" using that(2) by (rule unat_of_nat_small)
    have "unat (c + k) = unat c + unat k" using lim that(1) by (intro unat_plus_nowrap) simp
    moreover have "unat (c + k + of_nat i) = unat (c + k) + unat (of_nat i :: u64)"
      using lim that i calculation by (intro unat_plus_nowrap) simp
    ultimately show "in_header c (c + k + of_nat i)" using that i by (simp add: in_header_def)
  qed
  have byte0: "m' (c + of_nat i) = m (c + of_nat i)" if "i < 8" for i :: nat using byte [of 0 i] that by simp
  show "blk_size m' c = blk_size m c"
    unfolding blk_size_def load64_def by (rule join_bytes_cong) (rule byte0)
  show "blk_free m' c = blk_free m c"
    unfolding blk_free_def load32_def by (rule arg_cong [OF join_bytes_cong]) (rule byte, simp_all)
  show "blk_next m' c = blk_next m c" "blk_prev m' c = blk_prev m c"
    unfolding blk_next_def blk_prev_def load64_def by (rule join_bytes_cong; rule byte; simp)+
qed

lemma payload_write_wf:
  assumes wf: "heap_wf h bs" and y: "y \<in> set bs" and same: "\<And>x. x \<notin> payload y \<Longrightarrow> m' x = heap_mem h x"
  shows "heap_wf (h\<lparr>heap_mem := m'\<rparr>) bs"
proof -
  have rep: "heap_rep h bs" using wf by (simp add: heap_wf_def)
  have eq: "blk_size m' c = blk_size (heap_mem h) c" "blk_free m' c = blk_free (heap_mem h) c"
    "blk_next m' c = blk_next (heap_mem h) c" "blk_prev m' c = blk_prev (heap_mem h) c" if "c \<in> fst ` set bs" for c
  proof -
    have "m' x = heap_mem h x" if "in_header c x" for x
      using rep_payload_not_header [OF rep y _ \<open>c \<in> fst ` set bs\<close>] that same by blast
    then have *: "in_header c x \<Longrightarrow> m' x = heap_mem h x" for x .
    show "blk_size m' c = blk_size (heap_mem h) c" "blk_free m' c = blk_free (heap_mem h) c"
      "blk_next m' c = blk_next (heap_mem h) c" "blk_prev m' c = blk_prev (heap_mem h) c"
      by (rule load_header_cong [OF heap_rep_headers [OF rep] that]; erule *)+
  qed
  have "heap_rep (h\<lparr>heap_mem := m', heap_used_size := heap_used_size h\<rparr>) bs"
  proof (rule heap_rep_update [OF rep heap_repD(1) [OF rep] refl heap_repD(5) [OF rep]])
    show "dlist (blk_next m') (blk_prev m') 0 (map fst bs) 0"
      using heap_repD(7) [OF rep] dlist_cong [of "map fst bs" "blk_next m'" _ "blk_prev m'"] eq(3,4) by simp
    show "list_all (holds m') bs"
      using heap_repD(8) [OF rep] eq(1,2) by (force simp: list_all_iff holds_def)
  qed
  then show ?thesis using wf by (simp add: heap_wf_def)
qed

lemma copy_bytes_spec:
  assumes "unat dst + unat n \<le> 2 ^ 64" "unat src + unat n \<le> 2 ^ 64"
    "unat dst + unat n \<le> unat src \<or> unat src + unat n \<le> unat dst"
  shows "copy_bytes i n dst src m x =
    (if unat dst + unat i \<le> unat x \<and> unat x < unat dst + unat n then m (src + (x - dst)) else m x)"
  using assms
proof (induction i n dst src m rule: copy_bytes.induct)
  case (1 i n dst src m)
  show ?case
  proof (cases "i < n")
    case False
    then show ?thesis by (auto simp: copy_bytes.simps word_nat)
  next
    case True
    then have lt: "unat i < unat n" by (simp add: word_nat)
    let ?m = "store8 m (dst + i) (load8 m (src + i))"
    have d: "unat (dst + i) = unat dst + unat i" and s: "unat (src + i) = unat src + unat i"
      using lt "1.prems"(1,2) by (simp_all add: unat_plus_nowrap)
    have IH: "copy_bytes (i + 1) n dst src ?m x =
        (if unat dst + (unat i + 1) \<le> unat x \<and> unat x < unat dst + unat n then ?m (src + (x - dst)) else ?m x)"
      using "1.IH" [OF True "1.prems"] unat_plus_one_less [OF True] by simp
    have keep: "?m (src + (x - dst)) = m (src + (x - dst))" if "unat dst \<le> unat x" "unat x < unat dst + unat n"
    proof -
      have "unat (x - dst) = unat x - unat dst" using that(1) by (intro unat_sub) (simp add: word_nat)
      moreover have "unat (src + (x - dst)) = unat src + unat (x - dst)"
        using that "1.prems"(2) calculation by (intro unat_plus_nowrap) simp
      ultimately have "unat (src + (x - dst)) \<noteq> unat (dst + i)" using that lt "1.prems"(3) d by linarith
      then have "src + (x - dst) \<noteq> dst + i" by metis
      then show ?thesis by (simp add: store8_def)
    qed
    have here: "?m x = (if unat x = unat dst + unat i then m (src + (x - dst)) else m x)"
    proof (cases "x = dst + i")
      case False
      then have "unat x \<noteq> unat dst + unat i" using d by (metis word_unat_eq_iff)
      then show ?thesis using False by (simp add: store8_def)
    qed (use d in \<open>simp add: store8_def load8_def\<close>)
    show ?thesis
      unfolding copy_bytes.simps [of i n dst src m] using True IH keep here lt by auto
  qed
qed

section \<open>Properties of the heap\<close>

text \<open>
  \<open>heap_init\<close> on an area of at least 48 bytes below \<open>2 ^ 52\<close> leaves a well-formed heap of exactly one
  free block: it starts at the first multiple of 8 in the area, ends at the last one, and nothing is in use.
\<close>

theorem heap_init_one_free_block:
  assumes "start \<noteq> NULL" "48 \<le> unat sz" "unat start + unat sz \<le> 2 ^ 52"
  shows "let h' = heap_init start sz h in
    unat (heap_start h') = (unat start + 7) div 8 * 8
    \<and> unat (heap_start h') + unat (heap_get_total_size h') = (unat start + unat sz) div 8 * 8
    \<and> heap_wf h' [(heap_start h', heap_total_size h' - HEADER, True)]
    \<and> heap_get_used_size h' = 0 \<and> heap_get_free_size h' = heap_get_total_size h'"
proof -
  have "unat (heap_used_size (heap_init start sz h)) = 0"
    using heap_init_rep [OF assms, of h] by (simp add: Let_def heap_wf_def)
  then have "heap_used_size (heap_init start sz h) = 0" by (simp only: unat_eq_zero)
  then show ?thesis using heap_init_rep [OF assms, of h]
    by (simp add: Let_def HEADER_def heap_get_total_size_def heap_get_used_size_def heap_get_free_size_def)
qed

definition heap_bss :: heap where
  "heap_bss = \<lparr>heap_mem = (\<lambda>_. 0), heap_start = 0, heap_total_size = 0, heap_used_size = 0\<rparr>"

theorem heap_init_one_free_block_witness:
  "let h' = heap_init 0x400003 0x1000 heap_bss in
    unat (heap_start h') = 0x400008 \<and> unat (heap_start h') + unat (heap_get_total_size h') = 0x401000
    \<and> heap_get_used_size h' = 0"
  using heap_init_one_free_block [of "0x400003" "0x1000" heap_bss] by (simp add: Let_def)

text \<open>
  C5: \<open>kmalloc\<close> on a well-formed heap always returns and implements first fit: of the blocks in address
  order it takes the first free one that holds the size rounded up to 8, splits off the rest when a header
  and 16 bytes fit in it, and leaves the heap well-formed with the counter accounting for the new block;
  when no block fits it returns NULL and changes nothing.
\<close>

theorem kmalloc_first_fit:
  assumes "heap_wf h bs" "n \<noteq> 0"
  shows "case ff_alloc (align_size n) bs of
      None \<Rightarrow> kmalloc n h = Some (NULL, h)
    | Some (p, bs') \<Rightarrow> p \<noteq> NULL \<and> (\<exists>h'. kmalloc n h = Some (p, h') \<and> heap_wf h' bs')"
  using kmalloc_refines [OF assms] by (auto split: option.splits)

definition heap_4k :: heap where
  "heap_4k = heap_init 0x400000 0x1000 heap_bss"

lemma heap_4k_wf: "heap_wf heap_4k [(0x400000, 0xFE0, True)]"
proof -
  note r = heap_init_rep [of "0x400000" "0x1000" heap_bss, folded heap_4k_def, simplified Let_def]
  have "unat (heap_start heap_4k) = unat (0x400000 :: u64)" using r by simp
  then have a: "heap_start heap_4k = 0x400000" by (simp only: word_unat_eq_iff)
  moreover have "unat (heap_total_size heap_4k) = unat (0x1000 :: u64)" using r a by simp
  then have "heap_total_size heap_4k = 0x1000" by (simp only: word_unat_eq_iff)
  ultimately show ?thesis using r by simp
qed

theorem kmalloc_first_fit_witness:
  "\<exists>h'. kmalloc 20 heap_4k = Some (0x400020, h')
    \<and> heap_wf h' [(0x400000, 24, False), (0x400038, 0xFA8, True)]"
  using kmalloc_first_fit [OF heap_4k_wf, of 20]
  by (simp add: align_size_def ALIGN_SIZE_def carve_def word_nat)

text \<open>
  C6: \<open>kfree\<close> of an allocated block frees it and merges it with the free neighbours on both sides, leaves
  the heap well-formed with the counter reduced by the block, and is without effect on a block that is
  free already.
\<close>

theorem kfree_merges_neighbours:
  assumes "heap_wf h bs" "(b, sz, f) \<in> set bs"
  shows "heap_wf (kfree (b + HEADER) h) (ff_free (b + HEADER) bs) \<and> (f \<longrightarrow> kfree (b + HEADER) h = h)"
proof -
  obtain xs ys where bs: "bs = xs @ (b, sz, f) # ys" using assms(2) by (meson split_list)
  then have "(blk_free (heap_mem h) b \<noteq> 0) = f"
    using heap_rep_block(2) [of h xs b sz f ys] assms(1) by (simp add: heap_wf_def)
  then have "f \<longrightarrow> kfree (b + 32) h = h" by (simp add: kfree_def HEADER_def)
  then show ?thesis using kfree_refines(1) [OF assms] by (simp add: HEADER_def)
qed

theorem kfree_merges_neighbours_witness:
  "\<exists>h1. kmalloc 20 heap_4k = Some (0x400020, h1) \<and> heap_wf (kfree 0x400020 h1) [(0x400000, 0xFE0, True)]"
proof -
  obtain h1 where h1: "kmalloc 20 heap_4k = Some (0x400020, h1)"
    "heap_wf h1 [(0x400000, 24, False), (0x400038, 0xFA8, True)]"
    using kmalloc_refines [OF heap_4k_wf, of 20] by (auto simp: align_size_def ALIGN_SIZE_def carve_def word_nat)
  have "heap_wf (kfree (0x400000 + HEADER) h1) [(0x400000, 0xFE0, True)]"
    using kfree_merges_neighbours [OF h1(2), of "0x400000" 24 False] by (simp add: ff_free_def HEADER_def)
  then show ?thesis using h1(1) by (simp add: HEADER_def)
qed

text \<open>
  freeing the block that was just allocated takes the heap back to where it was: the same blocks and
  the same number of bytes in use.
\<close>

theorem kfree_undoes_kmalloc:
  assumes "heap_wf h bs" "coalesced bs" "kmalloc n h = Some (p, h')" "p \<noteq> NULL"
  shows "heap_wf (kfree p h') bs \<and> heap_get_used_size (kfree p h') = heap_get_used_size h"
proof -
  obtain b s bs' where p: "p = b + 32" and ff: "ff_alloc (align_size n) bs = Some (p, bs')" and wf': "heap_wf h' bs'"
    and u: "used bs' = insert (b, s) (used bs)" using kmalloc_succeeds [OF assms(1,3,4)] by metis
  have "(b, s, False) \<in> set bs'" using u by (auto simp: used_def)
  then have "heap_wf (kfree p h') bs"
    using kfree_refines(1) [OF wf', of b s False] ff_free_ff_alloc [OF assms(2) heap_wf_distinct [OF wf'] ff] p by simp
  moreover have "heap_used_size (kfree p h') = heap_used_size h"
    using calculation assms(1) by (simp add: heap_wf_def word_unat_eq_iff)
  ultimately show ?thesis by (simp add: heap_get_used_size_def)
qed

theorem kfree_undoes_kmalloc_witness:
  "\<exists>h1. kmalloc 100 heap_4k = Some (0x400020, h1) \<and> heap_wf (kfree 0x400020 h1) [(0x400000, 0xFE0, True)]"
proof -
  obtain h1 where h1: "kmalloc 100 heap_4k = Some (0x400020, h1)"
    using kmalloc_refines [OF heap_4k_wf, of 100] by (auto simp: align_size_def ALIGN_SIZE_def carve_def word_nat)
  then show ?thesis using kfree_undoes_kmalloc [OF heap_4k_wf _ h1] by auto
qed

text \<open>
  C7: in any sequence of \<open>kmalloc\<close> and \<open>kfree\<close> calls whose frees are of live pointers, every call returns,
  the heap stays well-formed, and a pointer that is not freed keeps its bytes: they belong to it at the end
  and hold what they held at the start.
\<close>

theorem heap_calls_keep_live_blocks:
  assumes "heap_ok h" "proper_calls kmalloc kfree heap_live cs h" "q \<in> heap_live h" "Release q \<notin> set cs"
  shows "\<exists>h'. run_calls kmalloc kfree cs h = Some h' \<and> heap_ok h' \<and> q \<in> heap_live h'
    \<and> heap_owned h' q = heap_owned h q \<and> (\<forall>x \<in> heap_owned h q. heap_mem h' x = heap_mem h x)"
  using assms by (rule kh.calls_keep_live)

theorem heap_calls_keep_live_blocks_witness:
  "\<exists>h1 h'. kmalloc 20 heap_4k = Some (0x400020, h1)
    \<and> run_calls kmalloc kfree [Acquire 8, Release 0x400058] h1 = Some h' \<and> heap_ok h' \<and> 0x400020 \<in> heap_live h'
    \<and> heap_owned h1 0x400020 = payload (0x400000, 24, False)
    \<and> (\<forall>x \<in> heap_owned h1 0x400020. heap_mem h' x = heap_mem h1 x)"
proof -
  obtain h1 where h1: "kmalloc 20 heap_4k = Some (0x400020, h1)"
    "heap_wf h1 [(0x400000, 24, False), (0x400038, 0xFA8, True)]"
    using kmalloc_refines [OF heap_4k_wf, of 20] by (auto simp: align_size_def ALIGN_SIZE_def carve_def word_nat)
  obtain h2 where h2: "kmalloc 8 h1 = Some (0x400058, h2)"
    "heap_wf h2 [(0x400000, 24, False), (0x400038, 8, False), (0x400060, 0xF80, True)]"
    using kmalloc_refines [OF h1(2), of 8] by (auto simp: align_size_def ALIGN_SIZE_def carve_def word_nat)
  have "heap_ok h1" using h1(2) by (auto simp: heap_ok_def)
  moreover have "0x400020 \<in> heap_live h1" "0x400058 \<in> heap_live h2"
    using heap_live_eq [OF h1(2)] heap_live_eq [OF h2(2)] by simp_all
  moreover have "heap_owned h1 0x400020 = payload (0x400000, 24, False)"
    using heap_owned_eq [OF h1(2), of "0x400000" 24] by simp
  moreover have "proper_calls kmalloc kfree heap_live [Acquire 8, Release 0x400058] h1"
    using h2(1) calculation(3) by simp
  ultimately show ?thesis
    using heap_calls_keep_live_blocks [of h1 "[Acquire 8, Release 0x400058]" "0x400020"] h1(1) by auto
qed

end
