(* ===== verification/Heap_Realloc.thy ===== *)
theory Heap_Realloc
  imports Heap_Calls
begin

text \<open>
  \<open>krealloc\<close>, \<open>kmalloc_aligned\<close> and the size computation of \<open>kmalloc\<close>: the path of \<open>krealloc\<close> that moves the
  block is correct; the paths that stay in place break the well-formedness that \<open>kmalloc\<close> and \<open>kfree\<close>
  keep, each in its own way.
\<close>

section \<open>Moving\<close>

lemma align_size_idem: "align_size (align_size n) = align_size n"
proof -
  have "unat (align_size n) < 2 ^ 64" using unat_below [of "align_size n"] by simp
  then have "unat (align_size n) + 7 < 2 ^ 64" using align_size_mod [of n] by simp presburger
  then have "unat (align_size (align_size n)) = unat (align_size n)"
    using align_size_unat [of "align_size n"] align_size_mod [of n] by simp presburger
  then show ?thesis by (simp only: word_unat_eq_iff)
qed

lemma payloads_apart:
  assumes "payload (b, sz, False) \<inter> payload (c, s, False) = {}" "n \<le> sz" "n \<le> s"
    "unat (b + 32) = unat b + 32" "unat (c + 32) = unat c + 32"
  shows "unat (c + 32) + unat n \<le> unat (b + 32) \<or> unat (b + 32) + unat n \<le> unat (c + 32)"
proof (rule ccontr)
  assume no: "\<not> ?thesis"
  have le: "unat n \<le> unat sz" "unat n \<le> unat s" using assms(2,3) by (simp_all add: word_nat)
  have "b + 32 \<in> payload (c, s, False) \<and> b + 32 \<in> payload (b, sz, False)
      \<or> c + 32 \<in> payload (c, s, False) \<and> c + 32 \<in> payload (b, sz, False)"
    using no le assms(4,5) by (auto simp: payload_def)
  then show False using assms(1) by blast
qed

lemma copy_into_block:
  assumes wf: "heap_wf h bs" and mem: "(b, sz) \<in> used bs" "(c, s) \<in> used bs" "b \<noteq> c" and le: "sz \<le> s"
  defines "h' \<equiv> h\<lparr>heap_mem := copy_bytes 0 sz (c + 32) (b + 32) (heap_mem h)\<rparr>"
  shows "heap_wf h' bs" "\<And>i. i < sz \<Longrightarrow> heap_mem h' (c + 32 + i) = heap_mem h (b + 32 + i)"
    "\<And>x. x \<notin> payload (c, s, False) \<Longrightarrow> heap_mem h' x = heap_mem h x"
proof -
  have rep: "heap_rep h bs" using wf by (simp add: heap_wf_def)
  have inb: "(b, sz, False) \<in> set bs" "(c, s, False) \<in> set bs" using mem by (simp_all add: used_def)
  note t = heap_repD(5,6) [OF rep]
  have lim: "unat b + 32 + unat sz \<le> 2 ^ 52" "unat c + 32 + unat s \<le> 2 ^ 52"
    using tiles_block(2) [OF t(1)] inb t(2) by (meson le_trans)+
  have u: "unat (b + 32) = unat b + 32" "unat (c + 32) = unat c + 32"
    using lim unat_plus_nowrap [of b 32] unat_plus_nowrap [of c 32] by simp_all
  have sz: "unat sz \<le> unat s" using le by (simp add: word_nat)
  have "payload (b, sz, False) \<inter> payload (c, s, False) = {}"
    using tiles_payload_disjoint [OF t(1) inb] mem(3) by simp
  then have apart: "unat (c + 32) + unat sz \<le> unat (b + 32) \<or> unat (b + 32) + unat sz \<le> unat (c + 32)"
    by (rule payloads_apart [OF _ order_refl le u])
  have spec: "copy_bytes 0 sz (c + 32) (b + 32) (heap_mem h) x =
      (if unat (c + 32) + unat (0 :: u64) \<le> unat x \<and> unat x < unat (c + 32) + unat sz
       then heap_mem h (b + 32 + (x - (c + 32))) else heap_mem h x)" for x
    by (rule copy_bytes_spec) (use u lim sz apart in auto)
  show out: "heap_mem h' x = heap_mem h x" if "x \<notin> payload (c, s, False)" for x
    using that spec [of x] u sz by (auto simp: h'_def payload_def)
  show "heap_wf h' bs"
    unfolding h'_def by (rule payload_write_wf [OF wf inb(2)]) (use out in \<open>simp add: h'_def\<close>)
  show "heap_mem h' (c + 32 + i) = heap_mem h (b + 32 + i)" if "i < sz" for i
  proof -
    have i: "unat i < unat sz" using that by (simp add: word_nat)
    have "unat (c + 32 + i) = unat (c + 32) + unat i" using i u lim sz by (intro unat_plus_nowrap) simp
    then show ?thesis using spec [of "c + 32 + i"] i by (simp add: h'_def)
  qed
qed

lemma block_offset:
  assumes "heap_wf h bs" "(b, sz) \<in> used bs" "i < sz"
  shows "b + 32 + i \<in> payload (b, sz, False)"
proof -
  have "heap_rep h bs" "(b, sz, False) \<in> set bs" using assms(1,2) by (simp_all add: heap_wf_def used_def)
  then have lim: "unat b + 32 + unat sz \<le> 2 ^ 52"
    using tiles_block(2) [OF heap_repD(5)] heap_repD(6) by (meson le_trans)
  have i: "unat i < unat sz" using assms(3) by (simp add: word_nat)
  have "unat (b + 32) = unat b + 32" using lim unat_plus_nowrap [of b 32] by simp
  moreover have "unat (b + 32 + i) = unat (b + 32) + unat i"
    using calculation lim i by (intro unat_plus_nowrap) simp
  ultimately show ?thesis using i by (simp add: payload_def)
qed

lemma krealloc_move_run:
  assumes wf: "heap_wf h bs" and b: "(b, sz) \<in> used bs" and n: "n \<noteq> 0" "sz < align_size n"
    and next_used: "\<And>xs c tz ys. bs = xs @ (b, sz, False) # (c, tz, True) # ys \<Longrightarrow> sz + HEADER + tz < align_size n"
    and run: "krealloc (b + HEADER) n h = Some (q, h')" "q \<noteq> 0"
  obtains h1 where "kmalloc (align_size n) h = Some (q, h1)"
    "h' = kfree (b + 32) (h1\<lparr>heap_mem := copy_bytes 0 sz q (b + 32) (heap_mem h1)\<rparr>)"
proof -
  let ?m = "heap_mem h"
  obtain xs ys where bs: "bs = xs @ (b, sz, False) # ys" using b by (auto simp: used_def dest: split_list)
  have rep: "heap_rep h (xs @ (b, sz, False) # ys)" using wf bs by (simp add: heap_wf_def)
  note blk = heap_rep_block [OF rep]
  have p0: "b + 32 \<noteq> 0" by (rule heap_ptr_nonnull [OF rep])
  have "\<not> (blk_next ?m b \<noteq> 0 \<and> blk_free ?m (blk_next ?m b) \<noteq> 0
      \<and> sz + HEADER + blk_size ?m (blk_next ?m b) \<ge> align_size n)"
  proof (cases ys)
    case (Cons y zs)
    obtain c tz g where y: "y = (c, tz, g)" by (cases y) auto
    note cc = heap_rep_block [of h "xs @ [(b, sz, False)]" c tz g zs]
    show ?thesis using cc(1,2) rep next_used [of xs c tz zs] bs blk(3) Cons y by (cases g) auto
  qed (use blk(3) in simp)
  then show ?thesis using run p0 n blk(1) that
    by (auto simp: krealloc_def Let_def HEADER_def split: option.splits if_splits)
qed

text \<open>The state after the copy: both blocks are live, and only the new one was written.\<close>

lemma krealloc_copied:
  assumes wf: "heap_wf h bs" "coalesced bs" and b: "(b, sz) \<in> used bs" "sz < align_size n"
    and km: "kmalloc (align_size n) h = Some (q, h1)" "q \<noteq> 0"
  defines "h2 \<equiv> h1\<lparr>heap_mem := copy_bytes 0 sz q (b + 32) (heap_mem h1)\<rparr>"
  shows "heap_ok h2" "heap_live h2 = insert q (heap_live h)" "q \<notin> heap_live h"
    "\<And>p. p \<in> heap_live h \<Longrightarrow> heap_owned h2 p = heap_owned h p"
    "\<And>p x. p \<in> heap_live h \<Longrightarrow> x \<in> heap_owned h p \<Longrightarrow> heap_mem h2 x = heap_mem h x"
    "\<And>i. i < sz \<Longrightarrow> heap_mem h2 (q + i) = heap_mem h (b + 32 + i)"
    "\<And>i. i < sz \<Longrightarrow> q + i \<in> heap_owned h2 q"
proof -
  have ok: "heap_ok h" using wf by (auto simp: heap_ok_def)
  obtain c s bs1 where q: "q = c + 32" and wf1: "heap_wf h1 bs1" and s: "align_size n \<le> s"
    and ff: "ff_alloc (align_size n) bs = Some (q, bs1)"
    and c: "\<And>t. (c, t) \<notin> used bs" and u1: "used bs1 = insert (c, s) (used bs)"
    using kmalloc_succeeds [OF wf(1) km] by (metis align_size_idem)
  have b1: "(b, sz) \<in> used bs1" "(c, s) \<in> used bs1" "b \<noteq> c" and le: "sz \<le> s" using b c u1 s by auto
  note cp = copy_into_block [OF wf1 b1 le, folded q, folded h2_def]
  show ok2: "heap_ok h2" using cp(1) coalesced_ff_alloc [OF wf(2) ff] by (auto simp: heap_ok_def)
  show live2: "heap_live h2 = insert q (heap_live h)"
    using u1 q by (simp add: heap_live_eq [OF cp(1)] heap_live_eq [OF wf(1)])
  show fresh: "q \<notin> heap_live h" using kh.alloc_live [OF ok km] by simp
  show own2: "heap_owned h2 p = heap_owned h p" if "p \<in> heap_live h" for p
    using heap_live_obtain [OF wf(1) that] heap_owned_eq [OF cp(1)] u1 by (metis insertI2)
  have ownq: "heap_owned h2 q = payload (c, s, False)" using heap_owned_eq [OF cp(1) b1(2)] q by simp
  show "heap_mem h2 x = heap_mem h x" if "p \<in> heap_live h" "x \<in> heap_owned h p" for p x
  proof -
    have "p \<noteq> q" using that(1) fresh by blast
    then have "heap_owned h2 p \<inter> heap_owned h2 q = {}" using kh.owned_disjoint [OF ok2] live2 that(1) by simp
    then have "x \<notin> payload (c, s, False)" using that own2 [OF that(1)] ownq by blast
    then show ?thesis using cp(3) kh.alloc_rd [OF ok km that] by simp
  qed
  have live: "b + 32 \<in> heap_live h" using b by (auto simp: heap_live_eq [OF wf(1)])
  show "heap_mem h2 (q + i) = heap_mem h (b + 32 + i)" if "i < sz" for i
    using cp(2) [OF that] kh.alloc_rd [OF ok km live] block_offset [OF wf(1) b(1) that] heap_owned_eq [OF wf(1) b(1)]
    by simp
  show "q + i \<in> heap_owned h2 q" if "i < sz" for i
    using block_offset [OF wf1 b1(2), of i] that le ownq q by simp
qed

text \<open>
  C8: when \<open>krealloc\<close> has to move a live block (the new size is larger and the next block cannot be used)
  and the new allocation succeeds, the new block is live, the old one is not, every other pointer stays live with
  its bytes, and the new block starts with the bytes of the old one.
\<close>

theorem krealloc_moves_contents:
  assumes wf: "heap_wf h bs" "coalesced bs" and b: "(b, sz) \<in> used bs" and n: "n \<noteq> 0" "sz < align_size n"
    and next_used: "\<And>xs c tz ys. bs = xs @ (b, sz, False) # (c, tz, True) # ys \<Longrightarrow> sz + HEADER + tz < align_size n"
    and run: "krealloc (b + HEADER) n h = Some (q, h')" "q \<noteq> NULL"
  shows "heap_ok h' \<and> heap_live h' = insert q (heap_live h - {b + HEADER}) \<and> q \<notin> heap_live h
    \<and> (\<forall>i < sz. heap_mem h' (q + i) = heap_mem h (b + HEADER + i))
    \<and> (\<forall>p \<in> heap_live h - {b + HEADER}. heap_owned h' p = heap_owned h p
        \<and> (\<forall>x \<in> heap_owned h p. heap_mem h' x = heap_mem h x))"
proof -
  obtain h1 where km: "kmalloc (align_size n) h = Some (q, h1)"
    and h': "h' = kfree (b + 32) (h1\<lparr>heap_mem := copy_bytes 0 sz q (b + 32) (heap_mem h1)\<rparr>)"
    by (rule krealloc_move_run [OF wf(1) b n next_used run])
  define h2 where "h2 = h1\<lparr>heap_mem := copy_bytes 0 sz q (b + 32) (heap_mem h1)\<rparr>"
  note cp = krealloc_copied [OF wf b n(2) km run(2), folded h2_def]
  have live: "b + 32 \<in> heap_live h" using b by (auto simp: heap_live_eq [OF wf(1)])
  then have p2: "b + 32 \<in> heap_live h2" and q2: "q \<in> heap_live h2" and pq: "b + 32 \<noteq> q" using cp(2,3) by auto
  have h'2: "h' = kfree (b + 32) h2" using h' by (simp add: h2_def)
  have "heap_ok h'" unfolding h'2 by (rule kh.free_wf [OF cp(1) p2])
  moreover have "heap_live h' = insert q (heap_live h - {b + 32})"
    using kh.free_live [OF cp(1) p2] cp(2) pq h'2 by auto
  moreover have "heap_owned h' p = heap_owned h p \<and> (\<forall>x \<in> heap_owned h p. heap_mem h' x = heap_mem h x)"
    if "p \<in> heap_live h - {b + 32}" for p
    using kh.free_owned [OF cp(1) p2, of p] kh.free_rd [OF cp(1) p2, of p] that cp(2) cp(4,5) [of p] h'2 by auto
  moreover have "heap_mem h' (q + i) = heap_mem h (b + 32 + i)" if "i < sz" for i
    using kh.free_rd [OF cp(1) p2 q2 cp(7) [OF that]] cp(6) [OF that] h'2 by simp
  ultimately show ?thesis using cp(3) by (simp add: HEADER_def)
qed

lemma two_small_blocks:
  obtains h2 where "heap_wf h2 [(0x400000, 24, False), (0x400038, 8, False), (0x400060, 0xF80, True)]"
proof -
  obtain h1 where h1: "heap_wf h1 [(0x400000, 24, False), (0x400038, 0xFA8, True)]"
    using kmalloc_refines [OF heap_4k_wf, of 20] by (auto simp: align_size_def ALIGN_SIZE_def carve_def word_nat)
  then show ?thesis using kmalloc_refines [OF h1, of 8] that
    by (auto simp: align_size_def ALIGN_SIZE_def carve_def word_nat)
qed

theorem krealloc_moves_contents_witness:
  "\<exists>h h'. krealloc 0x400020 100 h = Some (0x400080, h') \<and> heap_live h = {0x400020, 0x400058}
    \<and> heap_live h' = {0x400080, 0x400058} \<and> heap_mem h' (0x400080 + 23) = heap_mem h (0x400020 + 23)"
proof -
  let ?bs = "[(0x400000, 24, False), (0x400038, 8, False), (0x400060, 0xF80, True)] :: blk list"
  obtain h where wf: "heap_wf h ?bs" by (rule two_small_blocks)
  have rep: "heap_rep h ([] @ (0x400000, 24, False) # (0x400038, 8, False) # [(0x400060, 0xF80, True)])"
    "heap_rep h ([(0x400000, 24, False)] @ (0x400038, 8, False) # [(0x400060, 0xF80, True)])"
    using wf by (simp_all add: heap_wf_def)
  note f = heap_rep_block [OF rep(1)] heap_rep_block [OF rep(2)]
  have al: "align_size 100 = 104" "align_size 104 = 104" by (simp_all add: align_size_def ALIGN_SIZE_def)
  have "\<exists>h1. kmalloc 104 h = Some (0x400080, h1)"
    using kmalloc_refines [OF wf, of 104] al by (auto simp: carve_def word_nat)
  then obtain h' where run: "krealloc (0x400000 + HEADER) 100 h = Some (0x400080, h')"
    using f al by (auto simp: krealloc_def HEADER_def Let_def)
  have live: "heap_live h = {0x400020, 0x400058}" using heap_live_eq [OF wf] by simp
  have nu: "24 + HEADER + tz < align_size 100" if "?bs = xs @ (0x400000, 24, False) # (c, tz, True) # ys" for xs c tz ys
    using that by (cases xs) (auto simp: Cons_eq_append_conv)
  have "heap_live h' = insert 0x400080 (heap_live h - {0x400000 + HEADER})
      \<and> (\<forall>i < 24. heap_mem h' (0x400080 + i) = heap_mem h (0x400000 + HEADER + i))"
    using krealloc_moves_contents [OF wf _ _ _ _ nu run] al(1) by simp
  moreover have "(23 :: u64) < 24" by simp
  ultimately have "heap_live h' = {0x400080, 0x400058}"
    "heap_mem h' (0x400080 + 23) = heap_mem h (0x400020 + 23)"
    using live by (auto simp: HEADER_def dest: spec [of _ "23 :: u64"])
  then show ?thesis using run live by (auto simp: HEADER_def)
qed

section \<open>Staying in place\<close>

lemma chain_addrs:
  assumes "dlist nx pv p xs 0" "dlist nx pv' q ys 0" "first_of xs 0 = first_of ys 0" "0 \<notin> set xs" "0 \<notin> set ys"
  shows "xs = ys"
  using assms
proof (induction xs arbitrary: ys p q)
  case Nil
  then show ?case by (cases ys) auto
next
  case (Cons x xs)
  then obtain ys' where ys: "ys = x # ys'" by (cases ys) auto
  have "xs = ys'" by (rule Cons.IH [where p = x and q = x]) (use Cons.prems ys in auto)
  then show ?case using ys by simp
qed

text \<open>A header whose size does not reach the next header is not part of a well-formed heap.\<close>

lemma wrong_size_no_rep:
  assumes rep: "heap_rep h (xs @ (b, sz, f) # (c, tz, g) # ys)"
    and start: "heap_start h' = heap_start h"
    and nx: "\<And>y. y \<in> fst ` set (xs @ (b, sz, f) # (c, tz, g) # ys) \<Longrightarrow>
      blk_next (heap_mem h') y = blk_next (heap_mem h) y"
    and size: "blk_size (heap_mem h') b \<noteq> sz"
  shows "\<not> heap_rep h' cs"
proof
  assume rep': "heap_rep h' cs"
  let ?bs = "xs @ (b, sz, f) # (c, tz, g) # ys"
  have "dlist (blk_next (heap_mem h')) (blk_prev (heap_mem h)) 0 (map fst ?bs) 0
      = dlist (blk_next (heap_mem h)) (blk_prev (heap_mem h)) 0 (map fst ?bs) 0"
    by (rule dlist_cong) (use nx in auto)
  then have "dlist (blk_next (heap_mem h')) (blk_prev (heap_mem h)) 0 (map fst ?bs) 0"
    using heap_repD(7) [OF rep] by (rule iffD2)
  then have "map fst ?bs = map fst cs"
  proof (rule chain_addrs [OF _ heap_repD(7) [OF rep']])
    show "first_of (map fst ?bs) 0 = first_of (map fst cs) 0"
      using heap_repD(1,3) [OF rep] heap_repD(1,3) [OF rep'] start by (cases xs; cases cs) auto
    show "0 \<notin> set (map fst ?bs)" "0 \<notin> set (map fst cs)"
      using heap_rep_nonnull [OF rep] heap_rep_nonnull [OF rep'] by auto
  qed
  then obtain xs' sz' f' tz' g' ys' where cs: "cs = xs' @ (b, sz', f') # (c, tz', g') # ys'"
    by (auto simp: append_eq_map_conv Cons_eq_map_conv)
  have "unat c = unat b + 32 + unat sz'" "unat c = unat b + 32 + unat sz"
    using heap_repD(5) [OF rep'] heap_repD(5) [OF rep] cs by (auto simp: tiles_append)
  then have "sz' = sz" by (simp add: word_unat_eq_iff)
  then show False using size heap_rep_block(1) [OF rep' [unfolded cs]] by simp
qed

text \<open>
  C9: growing a live block into the free block behind it destroys the heap: \<open>krealloc\<close> returns the old pointer,
  but its header says the new size while the next pointer still leads to the absorbed header (the block is
  enlarged before \<open>split_block\<close>, which then never splits, and the absorbed block is not unlinked), so
  that header lies inside the payload handed out and no block list describes the heap any more.
\<close>

theorem krealloc_grow_breaks_heap:
  assumes wf: "heap_wf h (xs @ (b, sz, False) # (c, tz, True) # ys)"
    and n: "n \<noteq> 0" "sz < align_size n" "align_size n \<le> sz + HEADER + tz"
  shows "\<exists>h'. krealloc (b + HEADER) n h = Some (b + HEADER, h') \<and> kmalloc_size (b + HEADER) h' = align_size n
    \<and> blk_next (heap_mem h') b = c \<and> c \<in> payload (b, align_size n, False) \<and> (\<forall>cs. \<not> heap_rep h' cs)"
proof -
  let ?m = "heap_mem h" and ?N = "align_size n" and ?bs = "xs @ (b, sz, False) # (c, tz, True) # ys"
  have rep: "heap_rep h ?bs" using wf by (simp add: heap_wf_def)
  have rep2: "heap_rep h ((xs @ [(b, sz, False)]) @ (c, tz, True) # ys)" using rep by simp
  note bb = heap_rep_block [OF rep] and cc = heap_rep_block [OF rep2]
  define A where "A = fst ` set ?bs"
  note upd = field_upd [OF heap_rep_headers [OF rep, folded A_def]]
  have mem: "b \<in> A" "c \<in> A" "c \<noteq> b" "c \<noteq> 0" and b0: "b \<noteq> 0"
    using rep_distinct [OF rep] heap_rep_nonnull [OF rep] by (auto simp: A_def)
  have cb: "unat c = unat b + 32 + unat sz" using heap_repD(5) [OF rep] by (auto simp: tiles_append)
  have p0: "b + 32 \<noteq> 0" by (rule heap_ptr_nonnull [OF rep])
  define m' where "m' = set_size b ?N (set_free c 0 ?m)"
  have f': "blk_size m' b = ?N" "\<And>y. y \<in> A \<Longrightarrow> blk_next m' y = blk_next ?m y" using mem by (simp_all add: m'_def upd)
  have sum: "unat (sz + HEADER + tz) = unat sz + 32 + unat tz"
    using cc(5) cb unat_plus_nowrap [of sz 32] unat_plus_nowrap [of "sz + 32" tz] by (simp add: HEADER_def)
  then have "unat ?N \<le> 2 ^ 52" using n(3) cc(5) cb by (simp add: word_nat)
  then have "?N < ?N + 48" using guard_no_wrap [of ?N ?N] by simp
  then have nosplit: "split_block b ?N m' = m'" using f'(1) by (simp add: split_block_def MIN_BLOCK_SIZE_def HEADER_def)
  have grow: "sz < ?N" "\<not> ?N \<le> sz" using n(2) by auto
  have run: "krealloc (b + HEADER) n h = Some (b + HEADER, h\<lparr>heap_mem := m'\<rparr>)"
    using p0 n(1,3) grow nosplit bb(1,3) cc(1,2) mem by (simp add: krealloc_def Let_def HEADER_def m'_def)
  have no: "\<not> heap_rep (h\<lparr>heap_mem := m'\<rparr>) cs" for cs
    by (rule wrong_size_no_rep [OF rep]) (use f' grow in \<open>auto simp: A_def\<close>)
  have "unat sz < unat ?N" using grow(1) by (simp add: word_nat)
  then have "c \<in> payload (b, ?N, False)" using cb by (simp add: payload_def)
  moreover have "blk_next m' b = c" using f'(2) [OF mem(1)] bb(3) by simp
  ultimately show ?thesis using run no f'(1) p0 by (simp add: kmalloc_size_def HEADER_def)
qed

theorem krealloc_grow_breaks_heap_witness:
  "\<exists>h h'. heap_wf h [(0x400000, 24, False), (0x400038, 0xFA8, True)]
    \<and> krealloc 0x400020 64 h = Some (0x400020, h') \<and> (\<forall>cs. \<not> heap_rep h' cs)"
proof -
  obtain h where h: "heap_wf h [(0x400000, 24, False), (0x400038, 0xFA8, True)]"
    using kmalloc_refines [OF heap_4k_wf, of 20] by (auto simp: align_size_def ALIGN_SIZE_def carve_def word_nat)
  have "\<exists>h'. krealloc (0x400000 + HEADER) 64 h = Some (0x400000 + HEADER, h') \<and> (\<forall>cs. \<not> heap_rep h' cs)"
    using krealloc_grow_breaks_heap [of h "[]" "0x400000" 24 "0x400038" "0xFA8" "[]" 64] h
    by (auto simp: align_size_def ALIGN_SIZE_def HEADER_def)
  then show ?thesis using h by (auto simp: HEADER_def)
qed

text \<open>
  shrinking a live block in place splits it but does not give the bytes back in the used-size counter:
  the block list is the split one, and the counter exceeds its true value by the bytes cut off.
\<close>

theorem krealloc_shrink_leaves_counter:
  assumes wf: "heap_wf h (xs @ (b, sz, False) # ys)" and n: "n \<noteq> 0" "unat (align_size n) + 48 \<le> unat sz"
  shows "\<exists>h' bs'. krealloc (b + HEADER) n h = Some (b + HEADER, h') \<and> heap_rep h' bs'
    \<and> bs' = xs @ (b, align_size n, False) # (b + HEADER + align_size n, sz - align_size n - HEADER, True) # ys
    \<and> unat (heap_get_used_size h') = used_bytes bs' + (unat sz - unat (align_size n))"
proof -
  let ?N = "align_size n" and ?h = "h\<lparr>heap_mem := split_block b (align_size n) (heap_mem h)\<rparr>"
  have rep: "heap_rep h (xs @ (b, sz, False) # ys)" using wf by (simp add: heap_wf_def)
  have le: "?N \<le> sz" using n(2) by (simp add: word_nat)
  have run: "krealloc (b + HEADER) n h = Some (b + HEADER, ?h)"
    using heap_ptr_nonnull [OF rep] heap_rep_block(1) [OF rep] n(1) le by (simp add: krealloc_def Let_def HEADER_def)
  have "heap_rep ?h (xs @ (b, ?N, False) # (b + HEADER + ?N, sz - ?N - HEADER, True) # ys)"
    using split_rep [OF rep le align_size_mod, where u = "heap_used_size h"] n(2) by (simp add: HEADER_def)
  then show ?thesis using run wf n(2) by (simp add: heap_wf_def heap_get_used_size_def)
qed

theorem krealloc_shrink_leaves_counter_witness:
  "\<exists>h h' bs'. krealloc 0x400020 8 h = Some (0x400020, h') \<and> heap_rep h' bs' \<and> used_bytes bs' = 40
    \<and> unat (heap_get_used_size h') = 40 + 96"
proof -
  obtain h where h: "heap_wf h [(0x400000, 104, False), (0x400088, 0xF58, True)]"
    using kmalloc_refines [OF heap_4k_wf, of 100] by (auto simp: align_size_def ALIGN_SIZE_def carve_def word_nat)
  obtain h' where "krealloc 0x400020 8 h = Some (0x400020, h')" "unat (heap_get_used_size h') = 40 + 96"
    "heap_rep h' [(0x400000, 8, False), (0x400028, 64, True), (0x400088, 0xF58, True)]"
    using krealloc_shrink_leaves_counter [of h "[]" "0x400000" 104 "[(0x400088, 0xF58, True)]" 8] h
    by (auto simp: align_size_def ALIGN_SIZE_def HEADER_def)
  moreover have "used_bytes [(0x400000, 8, False), (0x400028, 64, True), (0x400088, 0xF58, True)] = 40" by simp
  ultimately show ?thesis by blast
qed

section \<open>Sizes at the edge\<close>

text \<open>
  rounding a request up to 8 wraps for the seven largest sizes: \<open>kmalloc\<close> then looks for a block of size 0
  and hands out the first free block of the heap, however small, as if it held almost \<open>2 ^ 64\<close> bytes.
\<close>

theorem kmalloc_huge_request_succeeds:
  assumes wf: "heap_wf h (xs @ (b, sz, True) # ys)" and first: "\<forall>x \<in> set xs. \<not> snd (snd x)"
    and n: "2 ^ 64 - 8 < unat n"
  shows "\<exists>h'. kmalloc n h = Some (b + HEADER, h') \<and> unat (kmalloc_size (b + HEADER) h') < 48"
proof -
  define k where "k = unat n - (2 ^ 64 - 7)"
  have k: "k \<le> 6" "n = of_nat k + (- 7)"
    using n unat_below [of n] by (simp_all add: k_def of_nat_diff)
  then have "n + 7 = of_nat k" by simp
  then have "unat (n + 7) = k" using k(1) by (simp add: unat_of_nat)
  then have "unat (align_size n) = 0" unfolding align_size_eq using k(1) by (subst unat_and_not_mask) simp_all
  then have al: "align_size n = 0" by (simp only: unat_eq_zero)
  have n0: "n \<noteq> 0" using n by auto
  have ff: "ff_alloc 0 (xs @ (b, sz, True) # ys) = Some (b + 32, xs @ carve 0 b sz @ ys)"
    using first by (induction xs) auto
  obtain h' where km: "kmalloc n h = Some (b + 32, h')" and wf': "heap_wf h' (xs @ carve 0 b sz @ ys)"
    using kmalloc_refines [OF wf n0] al ff by auto
  have p0: "b + 32 \<noteq> 0" using heap_ptr_nonnull [of h xs b sz True ys] wf by (simp add: heap_wf_def)
  have "unat (blk_size (heap_mem h') b) < 48"
    using wf' heap_rep_block(1) [of h' xs b] by (auto simp: carve_def heap_wf_def split: if_splits)
  then show ?thesis using km p0 by (simp add: kmalloc_size_def HEADER_def)
qed

theorem kmalloc_huge_request_succeeds_witness:
  "\<exists>h'. kmalloc 0xFFFFFFFFFFFFFFFF heap_4k = Some (0x400020, h') \<and> unat (kmalloc_size 0x400020 h') < 48"
  using kmalloc_huge_request_succeeds [of heap_4k "[]" "0x400000" "0xFE0" "[]" "0xFFFFFFFFFFFFFFFF"] heap_4k_wf
  by (auto simp: HEADER_def)

text \<open>
  \<open>kmalloc_aligned\<close> with an alignment of at most 8 writes its back pointer over the header of the block it
  returns: every pointer of \<open>kmalloc\<close> is a multiple of 8 already, so the 8 bytes below it are the \<open>prev\<close> field,
  which then points at the block's own payload.
\<close>

theorem kmalloc_aligned_overwrites_header:
  assumes wf: "heap_wf h bs" and al: "align \<le> 8" and run: "kmalloc_aligned n align h = Some (p, h')" "p \<noteq> NULL"
  shows "blk_prev (heap_mem h') (p - HEADER) = p \<and> (\<forall>cs. heap_rep h' cs \<longrightarrow> p - HEADER \<notin> fst ` set cs)"
proof -
  have align: "(if align < 8 then 8 else align) = 8" using al by (auto simp: not_less intro: antisym)
  let ?n = "n + 8 + HEADER"
  obtain q h1 where km: "kmalloc ?n h = Some (q, h1)" and q0: "q \<noteq> 0" and p: "p = align_size q"
    and h': "h' = h1\<lparr>heap_mem := store64 (heap_mem h1) (p - 8) q\<rparr>"
    using run align
    by (auto simp: kmalloc_aligned_def ALIGN_SIZE_def align_size_def Let_def split: option.splits if_splits)
  obtain b s bs' where q: "q = b + 32" and wf1: "heap_wf h1 bs'" and b: "(b, s, False) \<in> set bs'"
    using kmalloc_succeeds [OF wf km q0] by (metis (no_types, lifting) insertI1 mem_Collect_eq prod.case used_def)
  have rep1: "heap_rep h1 bs'" using wf1 by (simp add: heap_wf_def)
  obtain xs ys where bs': "bs' = xs @ (b, s, False) # ys" using b by (meson split_list)
  have "b \<in> fst ` set bs'" using b by force
  then have a: "aligned 3 b" using headersD(1) [OF heap_rep_headers [OF rep1]] by blast
  have lim: "unat b + 32 + unat s \<le> 2 ^ 52" using heap_rep_block(5) [OF rep1 [unfolded bs']] .
  then have uq: "unat q = unat b + 32" using q unat_plus_nowrap [of b 32] by simp
  have "unat q mod 8 = 0" using a uq by (simp add: aligned_unat mod_eq_0_iff_dvd)
  then have "unat (align_size q) = unat q" using align_size_unat [of q] lim uq by simp presburger
  then have pq: "p = q" using p by (simp only: word_unat_eq_iff)
  have pv: "blk_prev (heap_mem h') b = q"
    using h' pq q by (simp add: blk_prev_def load64_store64_same add.commute [of 24 b])
  have "p - HEADER \<notin> fst ` set cs" if "heap_rep h' cs" for cs
  proof
    assume "p - HEADER \<in> fst ` set cs"
    then obtain sz f where "(b, sz, f) \<in> set cs" using pq q by (auto simp: HEADER_def)
    then obtain us vs where cs: "cs = us @ (b, sz, f) # vs" by (meson split_list)
    have T: "tiles (unat (heap_start h')) (us @ (b, sz, f) # vs) (unat (heap_start h') + unat (heap_total_size h'))"
      using heap_repD(5) [OF that] cs by simp
    have "q = last_of 0 (map fst us)" using heap_rep_block(4) [OF that [unfolded cs]] pv by simp
    moreover have "tiles (unat (heap_start h')) us (unat b)" using T by (auto simp: tiles_append)
    then have "unat c \<le> unat b" if "c \<in> fst ` set us" for c using tiles_addr(2) [OF _ that] by fastforce
    ultimately show False using uq q0 last_of_mem [of "map fst us" 0] by (cases "us = []") fastforce+
  qed
  then show ?thesis using pv pq q by (simp add: HEADER_def)
qed

theorem kmalloc_aligned_overwrites_header_witness:
  "\<exists>h'. kmalloc_aligned 16 8 heap_4k = Some (0x400020, h') \<and> blk_prev (heap_mem h') 0x400000 = 0x400020"
proof -
  obtain h1 where h1: "kmalloc 56 heap_4k = Some (0x400020, h1)"
    using kmalloc_refines [OF heap_4k_wf, of 56] by (auto simp: align_size_def ALIGN_SIZE_def carve_def word_nat)
  then obtain h' where r: "kmalloc_aligned 16 8 heap_4k = Some (0x400020, h')"
    by (simp add: kmalloc_aligned_def ALIGN_SIZE_def HEADER_def Let_def)
  then show ?thesis using kmalloc_aligned_overwrites_header [OF heap_4k_wf _ r] by (simp add: HEADER_def)
qed

end
