(* ===== verification/Shell.thy ===== *)
theory Shell
  imports Shell_Text History Interrupts Heap_Realloc
begin

text \<open>
  The shell, \<open>src/kernel/shell/shell.c\<close>: its commands, the line editor and the command loop. What a call does to the
  outside is the list of console calls and port writes it makes, in order. The shell reads the keyboard, the
  history, the process table, the memory managers and the tick counter of the other theories; memory contents
  (for \<open>hexdump\<close>) are a function from addresses to bytes.
\<close>

section \<open>Effects\<close>

datatype effect = Con con_op | Outb u16 u8 | Outw u16 u16

type_synonym trace = "effect list"

definition con_print :: "u8 list \<Rightarrow> trace" where
  "con_print s = map (Con \<circ> Put) s"

definition con_char :: "u8 \<Rightarrow> trace" where
  "con_char c = [Con (Put c)]"

definition con_color :: "u32 \<Rightarrow> trace" where
  "con_color v = [Con (Color v)]"

text \<open>A string literal of the source.\<close>

definition con_text :: "string \<Rightarrow> trace" where
  "con_text s = con_print (map of_char s)"

abbreviation (input) NL :: string where "NL \<equiv> [CHR 0x0A]"

definition con_dec :: "u64 \<Rightarrow> trace" where
  "con_dec n = con_print (dec_digits n)"

definition con_hex :: "u64 \<Rightarrow> trace" where
  "con_hex n = con_print (hex_digits n)"

text \<open>What the trace does to the screen.\<close>

fun con_effect :: "effect \<Rightarrow> console \<Rightarrow> console" where
  "con_effect (Con op) c = con_step op c"
| "con_effect _ c = c"

lemma con_print_effect: "fold con_effect (con_print s) = console_print s"
  by (rule ext, induction s) (simp_all add: con_print_def console_print_def fold_map comp_def)

section \<open>State\<close>

record shell =
  sh_kernel :: kernel
  sh_heap :: heap
  sh_history :: history
  sh_mem :: mem

abbreviation sh_procs :: "shell \<Rightarrow> proc_sys" where "sh_procs s \<equiv> sys (k_sched (sh_kernel s))"
abbreviation sh_pmm :: "shell \<Rightarrow> pmm" where "sh_pmm s \<equiv> vm_pmm (ps_vmm (sh_procs s))"

section \<open>Output helpers\<close>

definition print_bytes_human :: "u64 \<Rightarrow> trace" where
  "print_bytes_human bytes =
     (let unit = 1024;
          (suffix, whole, frac) =
            (if bytes \<ge> unit * unit * unit
             then (''GB'', bytes div (unit * unit * unit), (bytes mod (unit * unit * unit)) * 10 div (unit * unit * unit))
             else if bytes \<ge> unit * unit
             then (''MB'', bytes div (unit * unit), (bytes mod (unit * unit)) * 10 div (unit * unit))
             else if bytes \<ge> unit
             then (''KB'', bytes div unit, (bytes mod unit) * 10 div unit)
             else (''B'', bytes, 0))
      in con_text '' ('' @ con_dec whole
         @ (if suffix ! 0 \<noteq> CHR ''B'' then con_char 46 @ con_dec frac @ con_char 32 else con_char 32)
         @ con_text suffix @ con_text '')'')"

definition shell_print_banner :: trace where
  "shell_print_banner =
     con_color COLOR_CYAN @ con_text (''========================================'' @ NL)
     @ con_color COLOR_GREEN @ con_text (''            SimpleOS Shell'' @ NL)
     @ con_color COLOR_CYAN @ con_text (''========================================'' @ NL)
     @ con_color COLOR_WHITE @ con_text (''Type '' @ [CHR 0x27] @ ''help'' @ [CHR 0x27] @ '' to list commands.'' @ NL @ NL)"

definition shell_prompt :: trace where
  "shell_prompt =
     con_color COLOR_GREEN @ con_text ''simpleos'' @ con_color COLOR_CYAN @ con_text ''> '' @ con_color COLOR_WHITE"

definition shell_init :: "shell \<Rightarrow> trace \<times> shell" where
  "shell_init s = (shell_print_banner, s\<lparr>sh_history := history_init (sh_history s)\<rparr>)"

section \<open>Line editor\<close>

text \<open>The buffer, the length of the input and the new text; \<open>None\<close> is a null pointer.\<close>

definition replace_input :: "u8 list \<Rightarrow> nat \<Rightarrow> nat \<Rightarrow> u8 list option \<Rightarrow> trace \<times> u8 list \<times> nat" where
  "replace_input buf sz len new_text =
     (let t = concat (replicate len (con_char 8));
          buf = buf[0 := 0]
      in case new_text of
           Some txt \<Rightarrow>
             if txt \<noteq> []
             then let buf = str_copy buf txt sz in (t @ con_print (cstr buf), buf, str_len (cstr buf))
             else (t, buf, 0)
         | None \<Rightarrow> (t, buf, 0))"

text \<open>
  The state of the editor: the line buffer, the length, the saved line and whether it is valid, and what the loop has
  written to the screen. An entry of the history is the string in its slot.
\<close>

record editor =
  ed_buf :: "u8 list"
  ed_len :: nat
  ed_saved :: "u8 list"
  ed_valid :: bool
  ed_out :: trace

definition history_key :: "u8 \<Rightarrow> editor \<times> history \<Rightarrow> editor \<times> history" where
  "history_key c st =
     (let (e, h) = st;
          e = (if \<not> ed_valid e then e\<lparr>ed_saved := str_copy (ed_saved e) (cstr (ed_buf e)) SHELL_MAX_LINE, ed_valid := True\<rparr> else e);
          (entry, h) = (if c = KEY_UP then history_prev h else history_next h);
          new_text = (case entry of
                        Some i \<Rightarrow> Some (cstr (history_entries h ! i))
                      | None \<Rightarrow> Some (if ed_valid e then cstr (ed_saved e) else []));
          (t, buf, len) = replace_input (ed_buf e) SHELL_MAX_LINE (ed_len e) new_text
      in (e\<lparr>ed_buf := buf, ed_len := len, ed_out := ed_out e @ t\<rparr>, h))"

text \<open>The body of the loop for a key other than the line feed.\<close>

definition edit_key :: "u8 \<Rightarrow> editor \<times> history \<Rightarrow> editor \<times> history" where
  "edit_key c st =
     (if c = KEY_UP \<or> c = KEY_DOWN then history_key c st
      else
        let (e, h) = st in
        if c = 8
        then
          let e = (if ed_len e > 0
                   then e\<lparr>ed_len := ed_len e - 1, ed_buf := (ed_buf e)[ed_len e - 1 := 0], ed_out := ed_out e @ con_char 8\<rparr>
                   else e)
          in (e\<lparr>ed_valid := False\<rparr>, h)
        else if c \<ge> 32 \<and> c < 127
        then
          let e = (if ed_len e < SHELL_MAX_LINE - 1
                   then e\<lparr>ed_buf := (ed_buf e)[ed_len e := c, ed_len e + 1 := 0], ed_len := ed_len e + 1, ed_out := ed_out e @ con_char c\<rparr>
                   else e)
          in (e\<lparr>ed_valid := False\<rparr>, h)
        else st)"

text \<open>The loop of \<open>shell_readline\<close>; \<open>None\<close> means that it is still waiting for a key when the scan codes run out.\<close>

partial_function (option) readline_loop :: "u8 list \<Rightarrow> keyboard \<Rightarrow> editor \<times> history \<Rightarrow> (u8 list \<times> keyboard \<times> editor \<times> history) option" where
  "readline_loop ks kb st =
     (case keyboard_getchar ks kb of
        None \<Rightarrow> None
      | Some (c, ks, kb) \<Rightarrow>
          if c = 10
          then (case st of (e, h) \<Rightarrow>
                  Some (ks, kb, e\<lparr>ed_buf := (ed_buf e)[ed_len e := 0], ed_out := ed_out e @ con_char 10\<rparr>, h))
          else readline_loop ks kb (edit_key c st))"

text \<open>
  The arrays on the stack have arbitrary contents, the arguments \<open>buf\<close> and \<open>saved\<close>. The result is the line buffer,
  the trace, the scan codes not used and the new state.
\<close>

definition shell_readline :: "u8 list \<Rightarrow> u8 list \<Rightarrow> u8 list \<Rightarrow> shell \<Rightarrow> (u8 list \<times> trace \<times> u8 list \<times> shell) option" where
  "shell_readline buf saved ks s =
     (case readline_loop ks (k_keyboard (sh_kernel s))
             (\<lparr>ed_buf = buf[0 := 0], ed_len = 0, ed_saved = saved, ed_valid = False, ed_out = []\<rparr>, history_reset_nav (sh_history s)) of
        None \<Rightarrow> None
      | Some (ks, kb, e, h) \<Rightarrow>
          Some (ed_buf e, ed_out e, ks, s\<lparr>sh_kernel := (sh_kernel s)\<lparr>k_keyboard := kb\<rparr>, sh_history := h\<rparr>))"

section \<open>Commands\<close>

definition cmd_help :: trace where
  "cmd_help =
     con_color COLOR_CYAN @ con_text (''Available commands:'' @ NL) @ con_color COLOR_WHITE
     @ con_text (''  help        - Show this help'' @ NL)
     @ con_text (''  clear       - Clear the screen'' @ NL)
     @ con_text (''  echo [text] - Echo text'' @ NL)
     @ con_text (''  version     - Show kernel version'' @ NL)
     @ con_text (''  uptime      - Show system uptime'' @ NL)
     @ con_text (''  meminfo     - Show memory usage'' @ NL)
     @ con_text (''  ps          - List processes'' @ NL)
     @ con_text (''  hexdump a l - Dump memory at address'' @ NL)
     @ con_text (''  reboot      - Reboot the machine'' @ NL)
     @ con_text (''  shutdown    - Power off the machine'' @ NL)"

definition cmd_clear :: trace where
  "cmd_clear = [Con Clear]"

text \<open>The loop of \<open>cmd_echo\<close> over the arguments after the first.\<close>

fun echo_args :: "u8 list list \<Rightarrow> trace" where
  "echo_args [] = []"
| "echo_args [a] = con_print a"
| "echo_args (a # b # rest) = con_print a @ con_char 32 @ echo_args (b # rest)"

definition cmd_echo :: "u8 list list \<Rightarrow> trace" where
  "cmd_echo argv = echo_args (tl argv) @ con_char 10"

definition cmd_version :: trace where
  "cmd_version = con_color COLOR_GREEN @ con_text (''SimpleOS Kernel v0.2'' @ NL) @ con_color COLOR_WHITE"

definition cmd_uptime :: "kernel \<Rightarrow> trace" where
  "cmd_uptime k =
     (let ticks = timer_get_ticks k; seconds = ticks div ucast TIMER_FREQUENCY
      in con_text ''Uptime: '' @ con_dec seconds @ con_text (''s'' @ NL))"

fun state_to_str :: "proc_state \<Rightarrow> string" where
  "state_to_str PROC_READY = ''READY''"
| "state_to_str PROC_RUNNING = ''RUN''"
| "state_to_str PROC_BLOCKED = ''BLOCK''"
| "state_to_str PROC_ZOMBIE = ''ZOMBIE''"
| "state_to_str _ = ''UNUSED''"

text \<open>One line of the process list; the priority is converted to an unsigned 64-bit number.\<close>

definition ps_line :: "process \<Rightarrow> trace" where
  "ps_line p =
     (if pstate p = PROC_UNUSED then []
      else con_dec (pid p) @ con_text ''   '' @ con_text (state_to_str (pstate p)) @ con_text ''   ''
        @ con_dec (of_int (priority p)) @ con_text ''    '' @ con_print (cstr (p_name p)) @ con_char 10)"

definition cmd_ps :: "proc_sys \<Rightarrow> trace" where
  "cmd_ps s =
     (let (table, count) = process_get_table s
      in con_color COLOR_CYAN @ con_text (''PID   STATE   PRIO  NAME'' @ NL) @ con_color COLOR_WHITE
         @ concat (map (\<lambda>i. ps_line (table ! i)) [0..<count]))"

definition cmd_meminfo :: "pmm \<Rightarrow> heap \<Rightarrow> trace" where
  "cmd_meminfo p h =
     (let total_pages = pmm_get_total_pages p;
          free_pages = pmm_get_free_pages p;
          used_pages = pmm_get_used_pages p;
          total_bytes = total_pages * 4096;
          free_bytes = free_pages * 4096;
          used_bytes = used_pages * 4096;
          heap_total = heap_get_total_size h;
          heap_free = heap_get_free_size h;
          heap_used = heap_get_used_size h
      in con_color COLOR_CYAN @ con_text (''Memory (pages):'' @ NL) @ con_color COLOR_WHITE
         @ con_text ''  total: '' @ con_dec total_pages @ print_bytes_human total_bytes
         @ con_text (NL @ ''  free:  '') @ con_dec free_pages @ print_bytes_human free_bytes
         @ con_text (NL @ ''  used:  '') @ con_dec used_pages @ print_bytes_human used_bytes @ con_text NL
         @ con_color COLOR_CYAN @ con_text (''Heap (bytes):'' @ NL) @ con_color COLOR_WHITE
         @ con_text ''  total: '' @ con_dec heap_total @ print_bytes_human heap_total
         @ con_text (NL @ ''  free:  '') @ con_dec heap_free @ print_bytes_human heap_free
         @ con_text (NL @ ''  used:  '') @ con_dec heap_used @ print_bytes_human heap_used @ con_text NL)"

text \<open>The bytes of one line of a dump: the inner loop from column \<open>i\<close> on.\<close>

definition dump_byte :: "u8 \<Rightarrow> trace" where
  "dump_byte b = con_print [hex_digit (ucast (drop_bit 4 b AND 0xF)), hex_digit (ucast (b AND 0xF))] @ con_char 32"

function dump_row :: "mem \<Rightarrow> u64 \<Rightarrow> u64 \<Rightarrow> u64 \<Rightarrow> nat \<Rightarrow> trace" where
  "dump_row m addr off len i =
     (if i < 16 \<and> off + of_nat i < len then dump_byte (m (addr + (off + of_nat i))) @ dump_row m addr off len (i + 1) else [])"
  by pat_completeness auto
termination
  by (relation "measure (\<lambda>(m, addr, off, len, i). 16 - i)") auto

declare dump_row.simps [simp del]

text \<open>The outer loop; \<open>None\<close> means that it does not end.\<close>

partial_function (option) dump_loop :: "mem \<Rightarrow> u64 \<Rightarrow> u64 \<Rightarrow> u64 \<Rightarrow> trace \<Rightarrow> trace option" where
  "dump_loop m addr len off t =
     (if off < len
      then dump_loop m addr len (off + 16) (t @ con_hex (addr + off) @ con_text '': '' @ dump_row m addr off len 0 @ con_char 10)
      else Some t)"

definition cmd_hexdump :: "mem \<Rightarrow> u8 list list \<Rightarrow> trace option" where
  "cmd_hexdump m argv =
     (if length argv < 3 then Some (con_text (''Usage: hexdump <addr> <len>'' @ NL))
      else
        let (addr, ok_addr) = parse_uint (Some (argv ! 1));
            (len, ok_len) = parse_uint (Some (argv ! 2))
        in if \<not> ok_addr \<or> \<not> ok_len \<or> len = 0 then Some (con_text (''Invalid arguments.'' @ NL))
           else dump_loop m addr len 0 [])"

definition cmd_reboot :: "trace outcome" where
  "cmd_reboot =
     Halts (con_color COLOR_YELLOW @ con_text (''Rebooting...'' @ NL) @ con_color COLOR_WHITE @ [Outb 0x64 0xFE])"

definition cmd_shutdown :: "trace outcome" where
  "cmd_shutdown =
     Halts (con_color COLOR_YELLOW @ con_text (''Shutting down...'' @ NL) @ con_color COLOR_WHITE
       @ [Outw 0x604 0x2000, Outw 0xB004 0x2000])"

definition unknown_command :: "u8 list \<Rightarrow> trace" where
  "unknown_command name =
     con_color COLOR_RED @ con_text ''Unknown command: '' @ con_color COLOR_WHITE @ con_print name @ con_char 10"

section \<open>Dispatch\<close>

text \<open>A command name of the source.\<close>

definition is_cmd :: "u8 list \<Rightarrow> string \<Rightarrow> bool" where
  "is_cmd a name = shell_str_equal a (map of_char name)"

definition run_command :: "u8 list list \<Rightarrow> shell \<Rightarrow> trace outcome option" where
  "run_command argv s =
     (if is_cmd (argv ! 0) ''help'' then Some (Returns cmd_help)
      else if is_cmd (argv ! 0) ''clear'' then Some (Returns cmd_clear)
      else if is_cmd (argv ! 0) ''echo'' then Some (Returns (cmd_echo argv))
      else if is_cmd (argv ! 0) ''version'' then Some (Returns cmd_version)
      else if is_cmd (argv ! 0) ''uptime'' then Some (Returns (cmd_uptime (sh_kernel s)))
      else if is_cmd (argv ! 0) ''meminfo'' then Some (Returns (cmd_meminfo (sh_pmm s) (sh_heap s)))
      else if is_cmd (argv ! 0) ''ps'' then Some (Returns (cmd_ps (sh_procs s)))
      else if is_cmd (argv ! 0) ''hexdump'' then map_option Returns (cmd_hexdump (sh_mem s) argv)
      else if is_cmd (argv ! 0) ''reboot'' then Some cmd_reboot
      else if is_cmd (argv ! 0) ''shutdown'' then Some cmd_shutdown
      else Some (Returns (unknown_command (argv ! 0))))"

text \<open>The second component is the line as the splitting leaves it.\<close>

definition shell_execute :: "u8 list \<Rightarrow> shell \<Rightarrow> trace outcome option \<times> u8 list" where
  "shell_execute line s =
     (let (argv, line) = split_args 0 [] line
      in (if argv = [] then Some (Returns []) else run_command (map (\<lambda>p. cstr (drop p line)) argv) s, line))"

text \<open>
  One round of the command loop: prompt, line, history, command. The result is the trace, the line array, the scan
  codes left and the state, or that the machine was halted; \<open>None\<close> means that the round does not end.
\<close>

definition shell_round :: "u8 list \<Rightarrow> u8 list \<Rightarrow> u8 list \<Rightarrow> shell \<Rightarrow> (trace \<times> u8 list \<times> u8 list \<times> shell) outcome option" where
  "shell_round buf saved ks s =
     (case shell_readline buf saved ks s of
        None \<Rightarrow> None
      | Some (line, t, ks, s) \<Rightarrow>
          if line ! 0 = 0 then Some (Returns (shell_prompt @ t, line, ks, s))
          else
            (case history_add (Some (\<lambda>i. line ! i)) (sh_history s) of
               None \<Rightarrow> None
             | Some h \<Rightarrow>
                 let s = s\<lparr>sh_history := h\<rparr> in
                 (case shell_execute line s of
                    (None, line) \<Rightarrow> None
                  | (Some (Returns t'), line) \<Rightarrow> Some (Returns (shell_prompt @ t @ t', line, ks, s))
                  | (Some (Halts t'), line) \<Rightarrow> Some (Halts (shell_prompt @ t @ t', line, ks, s)))))"

text \<open>
  The endless loop of \<open>shell_run\<close>, \<open>n\<close> rounds of it. The line array is reused; the array of the saved line is new in
  every round.
\<close>

fun shell_run :: "nat \<Rightarrow> (nat \<Rightarrow> u8 list) \<Rightarrow> u8 list \<Rightarrow> u8 list \<Rightarrow> shell \<Rightarrow> (trace \<times> u8 list \<times> u8 list \<times> shell) outcome option" where
  "shell_run 0 saved line ks s = Some (Returns ([], line, ks, s))"
| "shell_run (Suc n) saved line ks s =
     (case shell_round line (saved n) ks s of
        None \<Rightarrow> None
      | Some (Halts r) \<Rightarrow> Some (Halts r)
      | Some (Returns (t, line, ks, s)) \<Rightarrow>
          (case shell_run n saved line ks s of
             None \<Rightarrow> None
           | Some (Returns (t', r)) \<Rightarrow> Some (Returns (t @ t', r))
           | Some (Halts (t', r)) \<Rightarrow> Some (Halts (t @ t', r))))"

end
