(* ===== verification/Shell_Spec.thy ===== *)
theory Shell_Spec
  imports Shell
begin

text \<open>
  What the shell promises: the line editor returns the text a reference editor makes of the keys, commands are
  found by the first word of the line, \<open>hexdump\<close> prints every byte it was asked for or never returns, and a round of
  the command loop brings keyboard, history, splitting and dispatch together.
\<close>

section \<open>The stream of typed characters\<close>

text \<open>What the keyboard will deliver: the characters queued and those the scan codes to come decode to.\<close>

definition typed :: "u8 list \<Rightarrow> keyboard \<Rightarrow> u8 list" where
  "typed ks kb = queued kb @ decode (mods_of kb) ks"

lemma decode1_short: "length (snd (decode1 k m)) \<le> 1"
  by (auto simp: decode1_def arrow_def Let_def split: if_splits)

lemma key_interrupt_typed:
  assumes "kb_inv kb" "queued kb = []"
  shows "kb_inv (key_interrupt k kb)" "typed ks (key_interrupt k kb) = typed (k # ks) kb"
  using key_interrupt_decode1 [OF assms(1), of k] decode1_short [of k "mods_of kb"] assms(2)
  by (auto simp: typed_def split_beta)

lemma getchar_available:
  assumes "keyboard_available kb"
  shows "keyboard_getchar ks kb = (let (c, kb) = buffer_get kb in Some (c, ks, kb))"
  using assms by (cases ks) (simp_all add: split_beta)

lemma mods_of_get [simp]: "mods_of (snd (buffer_get kb)) = mods_of kb"
  by (simp add: mods_of_def buffer_get_def)

lemma keyboard_getchar_typed:
  assumes "kb_inv kb" "typed ks kb = c # cs"
  shows "\<exists>ks' kb'. keyboard_getchar ks kb = Some (c, ks', kb') \<and> kb_inv kb' \<and> typed ks' kb' = cs"
  using assms
proof (induction ks kb rule: keyboard_getchar.induct)
  case (1 kb)
  then have q: "queued kb = c # cs" by (simp add: typed_def)
  then have "keyboard_available kb" using available_iff [OF 1(1)] by simp
  then show ?case using kq.get [OF 1(1) q] by (auto simp: typed_def split_beta)
next
  case (2 k ks kb)
  show ?case
  proof (cases "queued kb")
    case Nil
    then have "\<not> keyboard_available kb" using available_iff [OF 2(2)] by simp
    then show ?thesis using 2(1) key_interrupt_typed [OF 2(2) Nil] 2(3) by simp
  next
    case (Cons d ds)
    then have "keyboard_available kb" using available_iff [OF 2(2)] by simp
    then show ?thesis using kq.get [OF 2(2) Cons] 2(3) Cons by (auto simp: typed_def split_beta)
  qed
qed

section \<open>Hex dump\<close>

lemma dump_row_spec:
  assumes "i \<le> 16" "unat off + 16 \<le> 2 ^ 64"
  shows "dump_row m addr off len i = concat (map (\<lambda>i. dump_byte (m (addr + (off + of_nat i)))) [i..<max i (min 16 (unat len - unat off))])"
  using assms
proof (induction m addr off len i rule: dump_row.induct)
  case (1 m addr off len i)
  have u: "off + of_nat i < len \<longleftrightarrow> i < unat len - unat off" if "i < 16"
    using that 1(3) unat_plus_nowrap [of off "of_nat i"] by (auto simp: word_nat unat_of_nat)
  show ?case
  proof (cases "i < min 16 (unat len - unat off)")
    case True
    then have "i < 16 \<and> off + of_nat i < len" using u by simp
    moreover have "[i..<min 16 (unat len - unat off)] = i # [i + 1..<min 16 (unat len - unat off)]" using True by (simp add: upt_conv_Cons)
    ultimately show ?thesis using 1 True by (subst dump_row.simps) (simp add: max_absorb2)
  next
    case False
    then have "\<not> (i < 16 \<and> off + of_nat i < len)" using u by auto
    moreover have "max i (min 16 (unat len - unat off)) = i" using False by linarith
    ultimately show ?thesis by (subst dump_row.simps) auto
  qed
qed

definition dump_line :: "mem \<Rightarrow> u64 \<Rightarrow> nat \<Rightarrow> nat \<Rightarrow> trace" where
  "dump_line m addr len r =
     con_hex (addr + of_nat (16 * r)) @ con_text '': ''
     @ concat (map (\<lambda>i. dump_byte (m (addr + of_nat (16 * r + i)))) [0..<min 16 (len - 16 * r)]) @ con_char 10"

lemma dump_loop_ends:
  assumes "unat len \<le> 2 ^ 64 - 16" "off = of_nat (16 * r)" "16 * r \<le> unat len + 15"
  shows "dump_loop m addr len off t = Some (t @ concat (map (dump_line m addr (unat len)) [r..<(unat len + 15) div 16]))"
  using assms(2,3)
proof (induction "(unat len + 15) div 16 - r" arbitrary: r off t)
  case 0
  have "16 * r < 2 ^ 64" using 0(3) assms(1) by simp
  then have u: "unat off = 16 * r" unfolding 0(2) unat_of_nat by simp
  have "(unat len + 15) div 16 \<le> r" using 0(1) by simp
  then have "unat len \<le> 16 * r" by linarith
  then have "\<not> off < len" using u by (simp add: word_nat)
  then show ?case using \<open>(unat len + 15) div 16 \<le> r\<close> by (subst dump_loop.simps) simp
next
  case (Suc n)
  have lt: "16 * r < unat len" using Suc(2) by linarith
  then have u: "unat off = 16 * r" unfolding Suc(3) unat_of_nat using unat_below [of len] by simp
  have more: "off < len" using lt u by (simp add: word_nat)
  have le: "unat off + 16 \<le> 2 ^ 64" using lt u assms(1) by simp
  have line: "con_hex (addr + off) @ con_text '': '' @ dump_row m addr off len 0 @ con_char 10 = dump_line m addr (unat len) r"
    using dump_row_spec [of 0 off m addr len] le u Suc(3) by (simp add: dump_line_def add.assoc)
  have "off + 16 = of_nat (16 * Suc r)" "16 * Suc r \<le> unat len + 15" "n = (unat len + 15) div 16 - Suc r" using Suc(2,3) lt by simp_all
  then have "dump_loop m addr len (off + 16) (t @ dump_line m addr (unat len) r)
      = Some ((t @ dump_line m addr (unat len) r) @ concat (map (dump_line m addr (unat len)) [Suc r..<(unat len + 15) div 16]))"
    using Suc(1) by blast
  moreover have "[r..<(unat len + 15) div 16] = r # [Suc r..<(unat len + 15) div 16]" using Suc(2) by (simp add: upt_conv_Cons)
  ultimately show ?case using more line by (subst dump_loop.simps) (simp only: if_True append_assoc list.map concat.simps)
qed

lemma dump_loop_diverges:
  assumes "2 ^ 64 - 16 < unat len" "unat off mod 16 = 0"
  shows "dump_loop m addr len off t = None"
proof -
  have step: "off < len" "unat (off + 16) mod 16 = 0" if m: "unat off mod 16 = 0" for off
  proof -
    have "unat off < 2 ^ 64" using unat_below [of off] by simp
    moreover obtain q where "unat off = 16 * q" using m by (auto simp: mod_eq_0_iff_dvd elim: dvdE)
    ultimately have "unat off \<le> 2 ^ 64 - 16" by simp
    then show "off < len" using assms(1) by (simp add: word_nat)
    have "unat (off + 16) = (unat off + 16) mod 2 ^ 64" by (simp add: unat_word_ariths)
    moreover have "(unat off + 16) mod 2 ^ 64 mod 16 = (unat off + 16) mod 16" by (rule mod_mod_cancel) simp
    ultimately show "unat (off + 16) mod 16 = 0" using that by simp
  qed
  have never: "\<not> (unat off mod 16 = 0 \<and> l = len)" if "dump_loop m addr l off t = Some y" for m addr l off t y
  proof (rule dump_loop.raw_induct [OF _ that])
    fix loop m addr l off t y
    assume IH: "\<And>m addr l off t y. loop m addr l off t = Some y \<Longrightarrow> \<not> (unat off mod 16 = 0 \<and> l = len)"
      and "(if off < l then loop m addr l (off + 16) (t @ con_hex (addr + off) @ con_text '': '' @ dump_row m addr off l 0 @ con_char 10)
            else Some t) = Some y"
    then show "\<not> (unat off mod 16 = 0 \<and> l = len)" using step [of off] by (auto split: if_splits dest: IH)
  qed
  show ?thesis
  proof (cases "dump_loop m addr len off t")
    case (Some y)
    then show ?thesis using never [OF Some] assms(2) by simp
  qed
qed

section \<open>The line editor\<close>

text \<open>
  The reference editor works on a text, the text saved when the history was entered (if the line has not been edited
  since) and the position in the history, \<open>-1\<close> outside it.
\<close>

record line =
  l_text :: "u8 list"
  l_saved :: "u8 list option"
  l_nav :: int

definition go_to :: "u8 list list \<Rightarrow> int \<Rightarrow> line \<Rightarrow> line" where
  "go_to hs n l =
     (let saved = (case l_saved l of None \<Rightarrow> l_text l | Some t \<Rightarrow> t)
      in \<lparr>l_text = (if n < 0 then saved else hs ! (length hs - 1 - nat n)), l_saved = Some saved, l_nav = n\<rparr>)"

definition line_key :: "u8 list list \<Rightarrow> u8 \<Rightarrow> line \<Rightarrow> line" where
  "line_key hs c l =
     (if c = 0x80 then go_to hs (min (l_nav l + 1) (int (length hs) - 1)) l
      else if c = 0x81 then go_to hs (max (l_nav l - 1) (-1)) l
      else if c = 8 then l\<lparr>l_text := butlast (l_text l), l_saved := None\<rparr>
      else if 32 \<le> c \<and> c < 127 then l\<lparr>l_text := (if length (l_text l) < 127 then l_text l @ [c] else l_text l), l_saved := None\<rparr>
      else l)"

text \<open>A line array that holds a text.\<close>

definition buf_rep :: "u8 list \<Rightarrow> u8 list \<Rightarrow> bool" where
  "buf_rep buf t \<longleftrightarrow> length buf = 128 \<and> 0 \<in> set buf \<and> cstr buf = t"

lemma buf_repD:
  assumes "buf_rep buf t"
  shows "buf = t @ 0 # drop (Suc (length t)) buf" "length t \<le> 127" "0 \<notin> set t" "length buf = 128"
proof -
  show "buf = t @ 0 # drop (Suc (length t)) buf" using assms cstr_split [of buf] by (simp add: buf_rep_def)
  then have "length (t @ 0 # drop (Suc (length t)) buf) = 128" using assms by (simp add: buf_rep_def)
  then show "length t \<le> 127" by simp
  show "0 \<notin> set t" "length buf = 128" using assms cstr_no_zero [of buf] by (auto simp: buf_rep_def)
qed

lemma buf_repI: "length buf = 128 \<Longrightarrow> buf = t @ 0 # rest \<Longrightarrow> 0 \<notin> set t \<Longrightarrow> buf_rep buf t"
  by (auto simp: buf_rep_def cstr_append)

lemma buf_rep_clear: "length buf = 128 \<Longrightarrow> buf_rep (buf[0 := 0]) []"
  by (cases buf) (auto intro: buf_repI)

lemma buf_rep_terminate:
  assumes "buf_rep buf t"
  shows "buf[length t := 0] = buf"
proof -
  have "buf ! length t = 0" by (subst buf_repD(1) [OF assms]) simp
  then show ?thesis by (metis list_update_id)
qed

lemma buf_rep_backspace:
  assumes "buf_rep buf t" "t \<noteq> []"
  shows "buf_rep (buf[length t - 1 := 0]) (butlast t)"
proof -
  obtain u c where t: "t = u @ [c]" using assms(2) by (cases t rule: rev_cases) auto
  note D = buf_repD [OF assms(1)]
  show ?thesis
  proof (rule buf_repI)
    show "buf[length t - 1 := 0] = butlast t @ 0 # 0 # drop (Suc (length t)) buf" by (subst D(1)) (simp add: t list_update_append)
  qed (use D t in auto)
qed

lemma buf_rep_append:
  assumes "buf_rep buf t" "length t < 127" "c \<noteq> 0"
  shows "buf_rep (buf[length t := c, length t + 1 := 0]) (t @ [c])"
proof -
  note D = buf_repD [OF assms(1)]
  have "drop (Suc (length t)) buf \<noteq> []" using D(4) assms(2) by simp
  then obtain x rest where r: "drop (Suc (length t)) buf = x # rest" by (cases "drop (Suc (length t)) buf") auto
  show ?thesis
  proof (rule buf_repI)
    show "buf[length t := c, length t + 1 := 0] = (t @ [c]) @ 0 # rest" by (subst D(1)) (simp add: r list_update_append)
  qed (use D assms(3) in auto)
qed

lemma buf_rep_copy:
  assumes "length dst = 128" "length src \<le> 127" "0 \<notin> set src"
  shows "buf_rep (str_copy dst src 128) src"
proof -
  have c: "cstr (str_copy dst src 128) = src" "length (str_copy dst src 128) = 128"
    using str_copy_spec [of 128 dst src] assms by simp_all
  have "0 \<in> set (str_copy dst src 128)"
  proof (rule ccontr)
    assume "0 \<notin> set (str_copy dst src 128)"
    then have "cstr (str_copy dst src 128) = str_copy dst src 128" unfolding cstr_def by (subst takeWhile_eq_all_conv) metis
    then show False using c assms(2) by simp
  qed
  then show ?thesis using c by (simp add: buf_rep_def)
qed

lemma buf_rep_entry:
  assumes "length e = 128" "is_str (\<lambda>j. e ! j) t" "length t \<le> 127"
  shows "buf_rep e t"
proof (rule buf_repI)
  show "e = t @ 0 # drop (Suc (length t)) e"
  proof -
    have "take (length t) e = t" using assms by (intro nth_equalityI) (auto simp: is_str_def)
    moreover have "drop (length t) e = 0 # drop (Suc (length t)) e" using assms by (simp add: is_str_def Cons_nth_drop_Suc [symmetric])
    ultimately show ?thesis by (metis append_take_drop_id)
  qed
  show "0 \<notin> set t" using assms(2) by (auto simp: is_str_def in_set_conv_nth)
qed (use assms in simp)

lemma replace_input_rep:
  assumes "length buf = 128" "length t \<le> 127" "0 \<notin> set t"
  shows "\<exists>o' buf'. replace_input buf SHELL_MAX_LINE len (Some t) = (o', buf', length t) \<and> buf_rep buf' t"
proof (cases "t = []")
  case True
  then show ?thesis using buf_rep_clear [OF assms(1)] by (simp add: replace_input_def Let_def)
next
  case False
  have "buf_rep (str_copy (buf[0 := 0]) t 128) t" using buf_rep_copy [of "buf[0 := 0]" t] assms by simp
  then show ?thesis using False by (simp add: replace_input_def Let_def SHELL_MAX_LINE_def) (simp add: buf_rep_def)
qed

text \<open>An editor and a history that represent a line; the lines of the history fit the buffer.\<close>

definition editor_rep :: "u8 list list \<Rightarrow> editor \<times> history \<Rightarrow> line \<Rightarrow> bool" where
  "editor_rep hs st l \<longleftrightarrow>
     (case st of (e, h) \<Rightarrow>
        buf_rep (ed_buf e) (l_text l) \<and> ed_len e = length (l_text l) \<and> length (ed_saved e) = 128
        \<and> (case l_saved l of None \<Rightarrow> \<not> ed_valid e | Some t \<Rightarrow> ed_valid e \<and> buf_rep (ed_saved e) t)
        \<and> history_rep h hs \<and> (\<forall>t \<in> set hs. length t \<le> 127) \<and> nav_pos h = l_nav l)"

lemma editor_rep_replace:
  assumes "length (ed_buf e) = 128" "length t \<le> 127" "0 \<notin> set t" "buf_rep (ed_saved e) u" "ed_valid e"
    "history_rep h hs" "\<forall>t \<in> set hs. length t \<le> 127" "nav_pos h = n"
    and r: "replace_input (ed_buf e) SHELL_MAX_LINE (ed_len e) (Some t) = (o', buf', len')"
  shows "editor_rep hs (e\<lparr>ed_buf := buf', ed_len := len', ed_out := ed_out e @ o'\<rparr>, h) \<lparr>l_text = t, l_saved = Some u, l_nav = n\<rparr>"
  using replace_input_rep [OF assms(1-3), of "ed_len e"] r assms(4-8) by (auto simp: editor_rep_def buf_rep_def)

lemma entry_rep:
  assumes "history_rep h hs" "\<forall>t \<in> set hs. length t \<le> 127" "i < 16" "k < length hs" "is_str (\<lambda>j. history_entries h ! i ! j) (hs ! k)"
  shows "cstr (history_entries h ! i) = hs ! k" "length (hs ! k) \<le> 127" "0 \<notin> set (hs ! k)"
proof -
  have "length (history_entries h ! i) = 128" using assms(1,3) by (simp add: history_rep_def)
  moreover show "length (hs ! k) \<le> 127" using assms(2,4) by simp
  ultimately have "buf_rep (history_entries h ! i) (hs ! k)" using buf_rep_entry assms(5) by blast
  then show "cstr (history_entries h ! i) = hs ! k" "0 \<notin> set (hs ! k)" using buf_repD(3) [of "history_entries h ! i"] by (simp_all add: buf_rep_def)
qed

text \<open>Saving the line when the history is entered.\<close>

definition saved_editor :: "editor \<Rightarrow> editor" where
  "saved_editor e =
     (if \<not> ed_valid e then e\<lparr>ed_saved := str_copy (ed_saved e) (cstr (ed_buf e)) SHELL_MAX_LINE, ed_valid := True\<rparr> else e)"

lemma saved_editor_rep:
  assumes "editor_rep hs (e, h) l" "u = (case l_saved l of None \<Rightarrow> l_text l | Some t \<Rightarrow> t)"
  shows "ed_valid (saved_editor e)" "buf_rep (ed_saved (saved_editor e)) u" "ed_buf (saved_editor e) = ed_buf e"
    "ed_len (saved_editor e) = ed_len e" "length u \<le> 127" "0 \<notin> set u"
proof -
  have b: "buf_rep (ed_buf e) (l_text l)" using assms(1) by (simp add: editor_rep_def)
  show v: "ed_valid (saved_editor e)" "ed_buf (saved_editor e) = ed_buf e" "ed_len (saved_editor e) = ed_len e" by (simp_all add: saved_editor_def)
  show r: "buf_rep (ed_saved (saved_editor e)) u"
  proof (cases "l_saved l")
    case None
    then have "\<not> ed_valid e" "length (ed_saved e) = 128" using assms(1) by (simp_all add: editor_rep_def)
    moreover have "cstr (ed_buf e) = l_text l" using b by (simp add: buf_rep_def)
    ultimately show ?thesis using None assms(2) buf_rep_copy [of "ed_saved e" "l_text l"] buf_repD [OF b]
      by (simp add: saved_editor_def SHELL_MAX_LINE_def)
  next
    case (Some t)
    then show ?thesis using assms by (simp add: editor_rep_def saved_editor_def)
  qed
  show "length u \<le> 127" "0 \<notin> set u" using buf_repD [OF r] by simp_all
qed

text \<open>What an arrow key brings up: a line of the history, or the saved text.\<close>

lemma history_move:
  assumes R: "history_rep h hs" "\<forall>t \<in> set hs. length t \<le> 127" and u: "length u \<le> 127" "0 \<notin> set u"
    and mv: "(if c = KEY_UP then history_prev h else history_next h) = (entry, h')"
    and n: "n = (if c = KEY_UP then min (nav_pos h + 1) (int (length hs) - 1) else max (nav_pos h - 1) (-1))"
    and t: "t = (case entry of Some i \<Rightarrow> cstr (history_entries h' ! i) | None \<Rightarrow> u)"
  shows "history_rep h' hs \<and> nav_pos h' = n \<and> t = (if n < 0 then u else hs ! (length hs - 1 - nat n)) \<and> length t \<le> 127 \<and> 0 \<notin> set t"
proof -
  have nav: "-1 \<le> nav_pos h" "nav_pos h < int (length hs)" using R(1) history_repD(3) [OF R(1)] by (simp_all add: history_rep_def)
  consider "c = KEY_UP" "hs = []" | "c = KEY_UP" "hs \<noteq> []" | "c \<noteq> KEY_UP" "0 < nav_pos h" | "c \<noteq> KEY_UP" "nav_pos h \<le> 0" by linarith
  then show ?thesis
  proof cases
    case 1
    then have "(entry, h') = (None, h)" using mv history_repD(3) [OF R(1)] by (simp add: history_prev_def)
    then show ?thesis using 1 nav R(1) u n t by simp
  next
    case 2
    then have n': "n = min (nav_pos h + 1) (int (length hs) - 1)" using n by simp
    obtain i s' where p: "history_prev h = (Some i, s')" "i < 16" "history_rep s' hs" "nav_pos s' = n"
      "is_str (\<lambda>j. history_entries s' ! i ! j) (hs ! (length hs - 1 - nat n))"
      using history_prev_step [OF R(1) 2(2) n'] by blast
    then have "entry = Some i" "h' = s'" using mv 2 by simp_all
    moreover have "0 \<le> n" "length hs - 1 - nat n < length hs" using n' nav 2 by (auto simp: min_def)
    ultimately show ?thesis using p entry_rep [OF p(3) R(2) p(2) _ p(5)] t by simp
  next
    case 3
    obtain i s' where p: "history_next h = (Some i, s')" "i < 16" "history_rep s' hs" "nav_pos s' = nav_pos h - 1"
      "is_str (\<lambda>j. history_entries s' ! i ! j) (hs ! (length hs - nat (nav_pos h)))"
      using history_next_step [OF R(1) 3(2)] by blast
    then have "entry = Some i" "h' = s'" using mv 3 by simp_all
    moreover have "n = nav_pos h - 1" "0 \<le> n" "length hs - nat (nav_pos h) = length hs - 1 - nat n" "length hs - 1 - nat n < length hs"
      using 3 nav n by auto
    ultimately show ?thesis using p entry_rep [OF p(3) R(2) p(2) _ p(5)] t by simp
  next
    case 4
    then obtain s' where "history_next h = (None, s')" "history_rep s' hs" "nav_pos s' = -1"
      using history_next_leave [OF R(1)] by blast
    moreover have "n = -1" using 4 n by simp
    ultimately show ?thesis using mv 4 u t by simp
  qed
qed

lemma history_key_rep:
  assumes rep: "editor_rep hs (e, h) l" and c: "c = KEY_UP \<or> c = KEY_DOWN"
  shows "editor_rep hs (history_key c (e, h)) (line_key hs c l)"
proof -
  define u where "u = (case l_saved l of None \<Rightarrow> l_text l | Some t \<Rightarrow> t)"
  let ?e = "saved_editor e"
  note S = saved_editor_rep [OF rep u_def]
  have R: "history_rep h hs" "\<forall>t \<in> set hs. length t \<le> 127" "nav_pos h = l_nav l" "length (ed_buf ?e) = 128"
    using rep S(3) by (simp_all add: editor_rep_def buf_rep_def)
  define n where "n = (if c = KEY_UP then min (nav_pos h + 1) (int (length hs) - 1) else max (nav_pos h - 1) (-1))"
  obtain entry h' where mv: "(if c = KEY_UP then history_prev h else history_next h) = (entry, h')" by fastforce
  define t where "t = (case entry of Some i \<Rightarrow> cstr (history_entries h' ! i) | None \<Rightarrow> u)"
  have fact: "history_rep h' hs \<and> nav_pos h' = n \<and> t = (if n < 0 then u else hs ! (length hs - 1 - nat n)) \<and> length t \<le> 127 \<and> 0 \<notin> set t"
    by (rule history_move [OF R(1,2) S(5,6) mv n_def t_def])
  have "cstr (ed_saved ?e) = u" using S(2) by (simp add: buf_rep_def)
  then have key: "history_key c (e, h) = (case replace_input (ed_buf ?e) SHELL_MAX_LINE (ed_len ?e) (Some t) of
      (o', buf', len') \<Rightarrow> (?e\<lparr>ed_buf := buf', ed_len := len', ed_out := ed_out ?e @ o'\<rparr>, h'))"
    using mv S(1) unfolding history_key_def saved_editor_def [symmetric] t_def Let_def
    by (cases entry) (simp_all split: prod.splits)
  obtain o' buf' len' where r: "replace_input (ed_buf ?e) SHELL_MAX_LINE (ed_len ?e) (Some t) = (o', buf', len')" by (metis prod_cases3)
  have "editor_rep hs (?e\<lparr>ed_buf := buf', ed_len := len', ed_out := ed_out ?e @ o'\<rparr>, h') \<lparr>l_text = t, l_saved = Some u, l_nav = n\<rparr>"
    using editor_rep_replace [OF R(4) _ _ S(2,1) _ R(2) _ r] fact by blast
  moreover have "line_key hs c l = go_to hs n l" using c R(3) by (auto simp: line_key_def n_def KEY_UP_def KEY_DOWN_def)
  moreover have "go_to hs n l = \<lparr>l_text = t, l_saved = Some u, l_nav = n\<rparr>" using fact by (simp add: go_to_def u_def Let_def)
  ultimately show ?thesis using key r by simp
qed

lemma edit_key_rep:
  assumes "editor_rep hs st l"
  shows "editor_rep hs (edit_key c st) (line_key hs c l)"
proof -
  obtain e h where st: "st = (e, h)" by (cases st)
  have b: "buf_rep (ed_buf e) (l_text l)" "ed_len e = length (l_text l)" using assms by (simp_all add: editor_rep_def st)
  consider "c = KEY_UP \<or> c = KEY_DOWN" | "c = 8" | "32 \<le> c" "c < 127" | "c \<noteq> KEY_UP" "c \<noteq> KEY_DOWN" "c \<noteq> 8" "\<not> (32 \<le> c \<and> c < 127)"
    by blast
  then show ?thesis
  proof cases
    case 1
    then show ?thesis using history_key_rep [of hs e h l c] assms by (simp add: edit_key_def st)
  next
    case 2
    then show ?thesis using assms b buf_rep_backspace [OF b(1)]
      by (auto simp: edit_key_def line_key_def st editor_rep_def KEY_UP_def KEY_DOWN_def)
  next
    case 3
    then have "c \<noteq> KEY_UP" "c \<noteq> KEY_DOWN" "c \<noteq> 8" "c \<noteq> 0" by (auto simp: KEY_UP_def KEY_DOWN_def)
    then show ?thesis using 3 assms b buf_rep_append [OF b(1), of c]
      by (auto simp: edit_key_def line_key_def st editor_rep_def KEY_UP_def KEY_DOWN_def SHELL_MAX_LINE_def)
  next
    case 4
    then show ?thesis using assms by (auto simp: edit_key_def line_key_def st KEY_UP_def KEY_DOWN_def)
  qed
qed

lemma fold_edit_key_rep: "editor_rep hs st l \<Longrightarrow> editor_rep hs (fold edit_key cs st) (fold (line_key hs) cs l)"
  by (induction cs arbitrary: st l) (simp_all add: edit_key_rep)

text \<open>The loop reads up to the line feed and applies every key before it.\<close>

lemma readline_loop_typed:
  assumes "kb_inv kb" "typed ks kb = pre @ 10 # rest" "10 \<notin> set pre" "fold edit_key pre st = (e, h)"
  shows "\<exists>ks' kb'. readline_loop ks kb st = Some (ks', kb', e\<lparr>ed_buf := (ed_buf e)[ed_len e := 0], ed_out := ed_out e @ con_char 10\<rparr>, h)
      \<and> kb_inv kb' \<and> typed ks' kb' = rest"
  using assms
proof (induction pre arbitrary: ks kb st)
  case Nil
  then obtain ks' kb' where "keyboard_getchar ks kb = Some (10, ks', kb')" "kb_inv kb'" "typed ks' kb' = rest"
    using keyboard_getchar_typed [of kb ks 10 rest] by auto
  then show ?case using Nil by (subst readline_loop.simps) simp
next
  case (Cons c pre)
  then obtain ks' kb' where g: "keyboard_getchar ks kb = Some (c, ks', kb')" "kb_inv kb'" "typed ks' kb' = pre @ 10 # rest"
    using keyboard_getchar_typed [of kb ks c "pre @ 10 # rest"] by auto
  then show ?case using Cons.IH [OF g(2,3)] Cons.prems(3,4) by (subst readline_loop.simps) simp
qed

lemma start_rep:
  assumes "length buf = 128" "length saved = 128" "history_rep h hs" "\<forall>t \<in> set hs. length t \<le> 127"
  shows "editor_rep hs (\<lparr>ed_buf = buf[0 := 0], ed_len = 0, ed_saved = saved, ed_valid = False, ed_out = []\<rparr>, history_reset_nav h)
      \<lparr>l_text = [], l_saved = None, l_nav = -1\<rparr>"
  using assms buf_rep_clear [OF assms(1)] history_rep_nav [OF assms(3), of "-1"] by (simp add: editor_rep_def history_reset_nav_def)

lemma shell_readline_typed:
  assumes kb: "kb_inv (k_keyboard (sh_kernel s))" and h: "history_rep (sh_history s) hs" "\<forall>t \<in> set hs. length t \<le> 127"
    and buf: "length buf = 128" "length saved = 128"
    and ty: "typed ks (k_keyboard (sh_kernel s)) = pre @ 10 # rest" "10 \<notin> set pre"
    and e: "fold edit_key pre (\<lparr>ed_buf = buf[0 := 0], ed_len = 0, ed_saved = saved, ed_valid = False, ed_out = []\<rparr>, history_reset_nav (sh_history s)) = (e, h')"
  shows "\<exists>ks' kb'. shell_readline buf saved ks s = Some (ed_buf e, ed_out e @ con_char 10, ks',
        s\<lparr>sh_kernel := (sh_kernel s)\<lparr>k_keyboard := kb'\<rparr>, sh_history := h'\<rparr>)
      \<and> buf_rep (ed_buf e) (l_text (fold (line_key hs) pre \<lparr>l_text = [], l_saved = None, l_nav = -1\<rparr>))
      \<and> kb_inv kb' \<and> typed ks' kb' = rest \<and> history_rep h' hs"
proof -
  have rep: "editor_rep hs (e, h') (fold (line_key hs) pre \<lparr>l_text = [], l_saved = None, l_nav = -1\<rparr>)"
    using fold_edit_key_rep [OF start_rep [OF buf h], of pre] e by simp
  then have b: "buf_rep (ed_buf e) (l_text (fold (line_key hs) pre \<lparr>l_text = [], l_saved = None, l_nav = -1\<rparr>))"
    "ed_len e = length (l_text (fold (line_key hs) pre \<lparr>l_text = [], l_saved = None, l_nav = -1\<rparr>))" "history_rep h' hs"
    by (simp_all add: editor_rep_def)
  then have "(ed_buf e)[ed_len e := 0] = ed_buf e" using buf_rep_terminate by simp
  then show ?thesis using readline_loop_typed [OF kb ty e] b by (auto simp: shell_readline_def)
qed

section \<open>Properties\<close>

text \<open>
  C24: The line editor: when the keyboard is going to deliver the keys \<open>pre\<close> and then Enter, \<open>shell_readline\<close> returns
  with exactly the text the reference editor makes of \<open>pre\<close> (printable keys are appended up to 127 characters,
  backspace removes the last one, the arrow keys walk through the history and back to the text saved on entering
  it), terminated inside the array; the keys after Enter are still to be read and the history is unchanged.
\<close>

theorem shell_readline_edits:
  assumes "kb_inv (k_keyboard (sh_kernel s))" "history_rep (sh_history s) hs" "\<forall>t \<in> set hs. length t \<le> 127"
    and "length buf = 128" "length saved = 128"
    and "typed ks (k_keyboard (sh_kernel s)) = pre @ 10 # rest" "10 \<notin> set pre"
  shows "\<exists>line t ks' s'. shell_readline buf saved ks s = Some (line, t, ks', s') \<and> length line = 128 \<and> 0 \<in> set line
      \<and> cstr line = l_text (fold (line_key hs) pre \<lparr>l_text = [], l_saved = None, l_nav = -1\<rparr>)
      \<and> typed ks' (k_keyboard (sh_kernel s')) = rest \<and> history_rep (sh_history s') hs"
proof -
  obtain e h' where "fold edit_key pre (\<lparr>ed_buf = buf[0 := 0], ed_len = 0, ed_saved = saved, ed_valid = False, ed_out = []\<rparr>,
      history_reset_nav (sh_history s)) = (e, h')" by fastforce
  then show ?thesis using shell_readline_typed [OF assms] unfolding buf_rep_def by fastforce
qed

definition demo_shell :: shell where
  "demo_shell = \<lparr>sh_kernel = demo_kernel (demo 3), sh_heap = \<lparr>heap_mem = (\<lambda>_. 0), heap_start = 0, heap_total_size = 0, heap_used_size = 0\<rparr>,
     sh_history = history_bss, sh_mem = (\<lambda>_. 0)\<rparr>"

lemma demo_shell_rep: "kb_inv (k_keyboard (sh_kernel demo_shell))" "history_rep (sh_history demo_shell) []"
  "typed ks (k_keyboard (sh_kernel demo_shell)) = decode \<lparr>m_shift = False, m_ctrl = False, m_caps = False, m_prefix = False\<rparr> ks"
  by (simp_all add: demo_shell_def demo_kernel_def keyboard_bss_inv history_bss_rep typed_def)

text \<open>The keys l, x, Backspace, s, Enter.\<close>

theorem shell_readline_edits_witness:
  "\<exists>line t ks' s'. shell_readline (replicate 128 7) (replicate 128 9) [0x26, 0x2D, 0x0E, 0x1F, 0x1C] demo_shell = Some (line, t, ks', s')
     \<and> cstr line = [108, 115]"
proof -
  have "typed [0x26, 0x2D, 0x0E, 0x1F, 0x1C] (k_keyboard (sh_kernel demo_shell)) = [108, 120, 8, 115] @ 10 # []"
    unfolding demo_shell_rep by code_simp
  moreover have "l_text (fold (line_key []) [108, 120, 8, 115] \<lparr>l_text = [], l_saved = None, l_nav = -1\<rparr>) = [108, 115]"
    by (simp add: line_key_def)
  ultimately show ?thesis
    using shell_readline_edits [OF demo_shell_rep(1,2), of "replicate 128 7" "replicate 128 9" "[0x26, 0x2D, 0x0E, 0x1F, 0x1C]" "[108, 120, 8, 115]" "[]"]
    by auto
qed

lemma line_key_printable:
  assumes "32 \<le> c" "c < 127"
  shows "line_key hs c l = l\<lparr>l_text := (if length (l_text l) < 127 then l_text l @ [c] else l_text l), l_saved := None\<rparr>"
  using assms by (auto simp: line_key_def)

lemma fold_line_key_printable:
  assumes "\<forall>c \<in> set cs. 32 \<le> c \<and> c < 127" "length (l_text l) + length cs \<le> 127"
  shows "l_text (fold (line_key hs) cs l) = l_text l @ cs"
  using assms by (induction cs arbitrary: l) (simp_all add: line_key_printable)

lemma edit_key_printable:
  assumes "32 \<le> c" "c < 127" "ed_len e < 127"
  shows "edit_key c (e, h) = (e\<lparr>ed_buf := (ed_buf e)[ed_len e := c, ed_len e + 1 := 0], ed_len := ed_len e + 1, ed_out := ed_out e @ con_char c, ed_valid := False\<rparr>, h)"
proof -
  have "c \<noteq> KEY_UP" "c \<noteq> KEY_DOWN" "c \<noteq> 8" using assms(1,2) by (auto simp: KEY_UP_def KEY_DOWN_def)
  then show ?thesis using assms by (simp add: edit_key_def SHELL_MAX_LINE_def)
qed

lemma fold_edit_printable:
  assumes "\<forall>c \<in> set cs. 32 \<le> c \<and> c < 127" "ed_len e + length cs \<le> 127"
  shows "\<exists>e'. fold edit_key cs (e, h) = (e', h) \<and> ed_out e' = ed_out e @ con_print cs"
  using assms
proof (induction cs arbitrary: e)
  case (Cons c cs)
  let ?e = "e\<lparr>ed_buf := (ed_buf e)[ed_len e := c, ed_len e + 1 := 0], ed_len := ed_len e + 1, ed_out := ed_out e @ con_char c, ed_valid := False\<rparr>"
  have step: "edit_key c (e, h) = (?e, h)" using edit_key_printable [of c e h] Cons.prems by simp
  obtain e' where "fold edit_key cs (?e, h) = (e', h)" "ed_out e' = ed_out ?e @ con_print cs" using Cons.IH [of ?e] Cons.prems by auto
  then show ?case unfolding fold_simps step by (simp add: con_char_def con_print_def)
qed (simp add: con_print_def)

text \<open>
  C25: A round of the command loop, from the keys to the command: when the keyboard is going to deliver a non-empty line of
  at most 127 printable characters and then Enter, the shell prints its prompt and echoes the line, remembers it in
  the history, and runs the command with the first eight words of the line as arguments; if the command returns,
  so does the round, with the output of the command behind the echo. A line of blanks runs no command.
\<close>

theorem shell_round_runs_words:
  assumes "kb_inv (k_keyboard (sh_kernel s))" "history_rep (sh_history s) hs" "\<forall>t \<in> set hs. length t \<le> 127"
    and "length buf = 128" "length saved = 128"
    and "typed ks (k_keyboard (sh_kernel s)) = pre @ 10 # rest"
    and "\<forall>c \<in> set pre. 32 \<le> c \<and> c < 127" "pre \<noteq> []" "length pre \<le> 127"
  shows "\<exists>ks' kb h line'. typed ks' kb = rest \<and> history_rep h (if hs \<noteq> [] \<and> last hs = pre then hs else (if length hs = 16 then tl hs else hs) @ [pre])
      \<and> (let s' = s\<lparr>sh_kernel := (sh_kernel s)\<lparr>k_keyboard := kb\<rparr>, sh_history := h\<rparr> in
         shell_round buf saved ks s =
           (case (if words pre = [] then Some (Returns []) else run_command (take 8 (words pre)) s') of
              None \<Rightarrow> None
            | Some (Returns t) \<Rightarrow> Some (Returns (shell_prompt @ con_print pre @ con_char 10 @ t, line', ks', s'))
            | Some (Halts t) \<Rightarrow> Some (Halts (shell_prompt @ con_print pre @ con_char 10 @ t, line', ks', s'))))"
proof -
  have no10: "10 \<notin> set pre" using assms(7) by auto
  let ?e = "\<lparr>ed_buf = buf[0 := 0], ed_len = 0, ed_saved = saved, ed_valid = False, ed_out = []\<rparr>"
  obtain e' where e': "fold edit_key pre (?e, history_reset_nav (sh_history s)) = (e', history_reset_nav (sh_history s))" "ed_out e' = con_print pre"
    using fold_edit_printable [of pre ?e "history_reset_nav (sh_history s)"] assms(7,9) by auto
  have tx: "l_text (fold (line_key hs) pre \<lparr>l_text = [], l_saved = None, l_nav = -1\<rparr>) = pre"
    using fold_line_key_printable [of pre "\<lparr>l_text = [], l_saved = None, l_nav = -1\<rparr>" hs] assms(7,9) by simp
  obtain ks' kb where r: "shell_readline buf saved ks s = Some (ed_buf e', ed_out e' @ con_char 10, ks',
        s\<lparr>sh_kernel := (sh_kernel s)\<lparr>k_keyboard := kb\<rparr>, sh_history := history_reset_nav (sh_history s)\<rparr>)"
    "buf_rep (ed_buf e') pre" "typed ks' kb = rest" "history_rep (history_reset_nav (sh_history s)) hs"
    using shell_readline_typed [OF assms(1-6) no10 e'(1)] tx by auto
  note D = buf_repD [OF r(2)]
  have line: "is_str (\<lambda>i. ed_buf e' ! i) pre"
    unfolding is_str_def by (subst (1 2 3) D(1)) (use D(3) in \<open>auto simp: nth_append in_set_conv_nth\<close>)
  then have ne: "ed_buf e' ! 0 \<noteq> 0" using assms(8) unfolding is_str_def by (metis length_greater_0_conv)
  obtain h where h: "history_add (Some (\<lambda>i. ed_buf e' ! i)) (history_reset_nav (sh_history s)) = Some h" "history_rep h (add_line pre hs)"
    using history_add_rep [OF r(4) line] by blast
  obtain argv line' where sp: "split_args 0 [] (ed_buf e') = (argv, line')" "map (\<lambda>p. cstr (drop p line')) argv = take 8 (words pre)"
    using split_args_line [of "ed_buf e'"] r(2) by (auto simp: buf_rep_def)
  have "argv = [] \<longleftrightarrow> words pre = []" using sp(2) by (metis Nil_is_map_conv take_eq_Nil zero_neq_numeral)
  then have ex: "shell_execute (ed_buf e') s' = (if words pre = [] then Some (Returns []) else run_command (take 8 (words pre)) s', line')" for s'
    using sp by (simp add: shell_execute_def)
  have hist: "add_line pre hs = (if hs \<noteq> [] \<and> last hs = pre then hs else (if length hs = 16 then tl hs else hs) @ [pre])"
    using assms(8,9) by (simp add: add_line_def)
  show ?thesis
  proof (intro exI conjI)
    show "typed ks' kb = rest" by (rule r(3))
    show "history_rep h (if hs \<noteq> [] \<and> last hs = pre then hs else (if length hs = 16 then tl hs else hs) @ [pre])" using h(2) hist by simp
    show "let s' = s\<lparr>sh_kernel := (sh_kernel s)\<lparr>k_keyboard := kb\<rparr>, sh_history := h\<rparr> in
         shell_round buf saved ks s =
           (case (if words pre = [] then Some (Returns []) else run_command (take 8 (words pre)) s') of
              None \<Rightarrow> None
            | Some (Returns t) \<Rightarrow> Some (Returns (shell_prompt @ con_print pre @ con_char 10 @ t, line', ks', s'))
            | Some (Halts t) \<Rightarrow> Some (Halts (shell_prompt @ con_print pre @ con_char 10 @ t, line', ks', s')))"
      unfolding Let_def shell_round_def r(1) using ne h(1) ex e'(2) by (simp split: option.split outcome.split)
  qed
qed

text \<open>The keys of ``echo hi'' and Enter.\<close>

theorem shell_round_runs_words_witness:
  "\<exists>line' ks' s'. shell_round (replicate 128 7) (replicate 128 9) [0x12, 0x2E, 0x23, 0x18, 0x39, 0x23, 0x17, 0x1C] demo_shell
     = Some (Returns (shell_prompt @ con_print [101, 99, 104, 111, 32, 104, 105] @ con_char 10 @ con_print [104, 105] @ con_char 10, line', ks', s'))"
proof -
  let ?ks = "[0x12, 0x2E, 0x23, 0x18, 0x39, 0x23, 0x17, 0x1C]" and ?pre = "[101, 99, 104, 111, 32, 104, 105]"
  have "typed ?ks (k_keyboard (sh_kernel demo_shell)) = ?pre @ 10 # []" unfolding demo_shell_rep by code_simp
  moreover have "words ?pre = [[101, 99, 104, 111], [104, 105]]" by (simp add: words.simps is_space_def)
  moreover have "run_command [[101, 99, 104, 111], [104, 105]] s' = Some (Returns (con_print [104, 105] @ con_char 10))" for s'
    by (simp add: run_command_def is_cmd_def shell_str_equal_iff of_char_def cmd_echo_def)
  ultimately show ?thesis
    using shell_round_runs_words [OF demo_shell_rep(1,2), of "replicate 128 7" "replicate 128 9" ?ks ?pre "[]"] by (auto simp: Let_def)
qed

text \<open>
  C26: The hex dump: for accepted arguments with a length up to \<open>2 ^ 64 - 16\<close> the command returns and prints, sixteen to a
  line behind the address of the first of them, exactly the bytes of the range; for a longer range the offset wraps
  around to zero and the command never returns.
\<close>

theorem cmd_hexdump_prints_or_hangs:
  assumes "parse_uint (Some a) = (addr, True)" "parse_uint (Some l) = (len, True)" "len \<noteq> 0"
  shows "cmd_hexdump m [name, a, l] =
    (if unat len \<le> 2 ^ 64 - 16
     then Some (concat (map (\<lambda>r. con_hex (addr + of_nat (16 * r)) @ con_text '': ''
            @ concat (map (\<lambda>i. dump_byte (m (addr + of_nat (16 * r + i)))) [0..<min 16 (unat len - 16 * r)]) @ con_char 10)
            [0..<(unat len + 15) div 16]))
     else None)"
proof -
  have "cmd_hexdump m [name, a, l] = dump_loop m addr len 0 []" using assms by (simp add: cmd_hexdump_def)
  also have "\<dots> = (if unat len \<le> 2 ^ 64 - 16 then Some (concat (map (dump_line m addr (unat len)) [0..<(unat len + 15) div 16])) else None)"
    using dump_loop_ends [of len 0 0 m addr "[]"] dump_loop_diverges [of len 0 m addr "[]"] by simp
  finally show ?thesis by (simp add: dump_line_def [abs_def])
qed

theorem cmd_hexdump_prints_or_hangs_witness:
  "cmd_hexdump (\<lambda>a. ucast a) [[], [48, 120, 49, 48], [50]] =
     Some (con_hex 16 @ con_text '': '' @ dump_byte 16 @ dump_byte 17 @ con_char 10)
   \<and> cmd_hexdump (\<lambda>_. 0) [[], [48], dec_digits 0xFFFFFFFFFFFFFFFF] = None"
proof
  have p: "parse_uint (Some [48, 120, 49, 48]) = (16, True)" "parse_uint (Some [50]) = (2, True)" "parse_uint (Some [48]) = (0, True)"
    by (simp_all add: parse_uint_def byte_at_def digit_of_def in_range_def)
  show "cmd_hexdump (\<lambda>a. ucast a) [[], [48, 120, 49, 48], [50]] = Some (con_hex 16 @ con_text '': '' @ dump_byte 16 @ dump_byte 17 @ con_char 10)"
    using cmd_hexdump_prints_or_hangs [OF p(1,2), of "\<lambda>a. ucast a" "[]"] by (simp add: upt_rec)
  have "parse_uint (Some (dec_digits 0xFFFFFFFFFFFFFFFF)) = (0xFFFFFFFFFFFFFFFF, True)" by (rule parse_dec_digits)
  then show "cmd_hexdump (\<lambda>_. 0) [[], [48], dec_digits 0xFFFFFFFFFFFFFFFF] = None"
    using cmd_hexdump_prints_or_hangs [OF p(3), of "dec_digits 0xFFFFFFFFFFFFFFFF" "0xFFFFFFFFFFFFFFFF" "\<lambda>_. 0" "[]"] by simp
qed

end
