(* ===== verification/Boot_Info.thy ===== *)
theory Boot_Info
  imports Prelude
begin

text \<open>
  What the boot loader hands to the kernel, \<open>src/include/bootinfo.h\<close>: the structure both sides share.
\<close>

definition BOOTINFO_MAGIC :: u64 where "BOOTINFO_MAGIC = 0x53494D504C454F53"

record framebuffer_info =
  fbi_base :: u64
  fbi_size :: u64
  fbi_width :: u32
  fbi_height :: u32
  fbi_pitch :: u32
  fbi_bpp :: u32
  red_mask_size :: u8
  red_mask_shift :: u8
  green_mask_size :: u8
  green_mask_shift :: u8
  blue_mask_size :: u8
  blue_mask_shift :: u8
  fbi_reserved :: "u8 list"

record boot_info =
  bi_magic :: u64
  bi_version :: u64
  bi_framebuffer :: framebuffer_info
  bi_mmap_entries :: u64
  bi_mmap_entry_size :: u64
  bi_mmap :: u64
  bi_acpi_rsdp :: u64
  bi_kernel_physical_base :: u64
  bi_kernel_virtual_base :: u64
  bi_kernel_size :: u64
  bi_reserved :: "u64 list"

end
