(* ===== verification/Kernel_Main.thy ===== *)
theory Kernel_Main
  imports Shell_Spec Boot_Info
begin

text \<open>
  The entry point of the kernel, \<open>kernel_main\<close> of \<open>src/kernel/kernel.c\<close>: the order in which the components are
  initialised, the messages in between, and the hand-over to the shell. The machine state is the union of the states
  of the components.
\<close>

section \<open>Machine state\<close>

record machine =
  m_shell :: shell
  m_console :: console
  m_idt :: idt_state
  m_interrupts :: bool

text \<open>Where the linker put the tables and the assembly stubs, and the stack pointer at the call.\<close>

record layout =
  at_gdt :: u64
  at_tss :: u64
  at_idt :: u64
  at_stubs :: "nat \<Rightarrow> u64"
  at_rsp :: u64

abbreviation m_kernel :: "machine \<Rightarrow> kernel" where "m_kernel mc \<equiv> sh_kernel (m_shell mc)"
abbreviation m_sys :: "machine \<Rightarrow> proc_sys" where "m_sys mc \<equiv> sys (k_sched (m_kernel mc))"
abbreviation m_pmm :: "machine \<Rightarrow> pmm" where "m_pmm mc \<equiv> vm_pmm (ps_vmm (m_sys mc))"
abbreviation m_keyboard :: "machine \<Rightarrow> keyboard" where "m_keyboard mc \<equiv> k_keyboard (m_kernel mc)"
abbreviation m_heap :: "machine \<Rightarrow> heap" where "m_heap mc \<equiv> sh_heap (m_shell mc)"

definition on_console :: "(console \<Rightarrow> console) \<Rightarrow> machine \<Rightarrow> machine" where
  "on_console f mc = mc\<lparr>m_console := f (m_console mc)\<rparr>"

definition on_kernel :: "(kernel \<Rightarrow> kernel) \<Rightarrow> machine \<Rightarrow> machine" where
  "on_kernel f mc = mc\<lparr>m_shell := (m_shell mc)\<lparr>sh_kernel := f (m_kernel mc)\<rparr>\<rparr>"

definition on_sys :: "(proc_sys \<Rightarrow> proc_sys) \<Rightarrow> machine \<Rightarrow> machine" where
  "on_sys f = on_kernel (\<lambda>k. k\<lparr>k_sched := (k_sched k)\<lparr>sys := f (sys (k_sched k))\<rparr>\<rparr>)"

definition on_keyboard :: "(keyboard \<Rightarrow> keyboard) \<Rightarrow> machine \<Rightarrow> machine" where
  "on_keyboard f = on_kernel (\<lambda>k. k\<lparr>k_keyboard := f (k_keyboard k)\<rparr>)"

definition on_io :: "(io \<Rightarrow> io) \<Rightarrow> machine \<Rightarrow> machine" where
  "on_io f = on_keyboard (\<lambda>kb. kb\<lparr>kb_io := f (kb_io kb)\<rparr>)"

text \<open>Console calls of the source, as a trace that is run at once.\<close>

definition say :: "trace \<Rightarrow> machine \<Rightarrow> machine" where
  "say t = on_console (fold con_effect t)"

definition heading :: "string \<Rightarrow> trace" where
  "heading title = con_color COLOR_YELLOW @ con_text (title @ NL) @ con_color COLOR_WHITE"

definition ok_mark :: trace where
  "ok_mark = con_color COLOR_GREEN @ con_text ''  [OK] '' @ con_color COLOR_WHITE"

definition ruler :: string where
  "ruler = replicate 80 (CHR ''='')"

section \<open>The phases\<close>

definition boot_screen :: "boot_info \<Rightarrow> machine \<Rightarrow> machine" where
  "boot_screen bi mc =
     (let f = bi_framebuffer bi;
          mc = on_console (\<lambda>c. c\<lparr>fb_width := fbi_width f, fb_height := fbi_height f, fb_pitch := fbi_pitch f div 4\<rparr>) mc;
          mc = on_console (clear_screen COLOR_DARK_BG) mc;
          mc = on_console (\<lambda>c. draw_logo (fb_width c div 2 - 30) 20 c) mc;
          mc = on_console (\<lambda>c. c\<lparr>cursor_x := 0, cursor_y := 90\<rparr>) mc
      in say (con_color COLOR_CYAN @ con_text (ruler @ NL) @ con_color COLOR_WHITE
           @ con_text (''                      SimpleOS Kernel v0.2 - Full Featured'' @ NL)
           @ con_color COLOR_CYAN @ con_text (ruler @ NL @ NL)) mc)"

definition boot_interrupts :: "layout \<Rightarrow> machine \<Rightarrow> machine" where
  "boot_interrupts l mc =
     (let mc = say (heading ''Phase 1: Interrupt Handling'') mc;
          mc = on_sys (\<lambda>s. s\<lparr>ps_gdt := gdt_set_tss_stack (at_rsp l) (gdt_init (at_gdt l) (at_tss l) (ps_gdt s))\<rparr>) mc;
          mc = say (ok_mark @ con_text (''GDT initialized (kernel segments + TSS)'' @ NL)) mc;
          mc = on_io (pic_disable \<circ> pic_init) mc;
          mc = say (ok_mark @ con_text (''PIC initialized (IRQs remapped to INT 32-47)'' @ NL)) mc;
          mc = mc\<lparr>m_idt := idt_init (at_stubs l) (at_idt l) (m_idt mc)\<rparr>
      in say (ok_mark @ con_text (''IDT initialized (256 interrupt vectors)'' @ NL @ NL)) mc)"

definition HEAP_START :: u64 where "HEAP_START = 0x400000"
definition HEAP_SIZE :: u64 where "HEAP_SIZE = 1024 * 1024"

definition boot_memory :: "boot_info \<Rightarrow> machine \<Rightarrow> machine" where
  "boot_memory bi mc =
     (let mc = say (heading ''Phase 2: Memory Management'') mc;
          mc = on_sys (\<lambda>s. s\<lparr>ps_vmm := (ps_vmm s)\<lparr>vm_pmm :=
                 pmm_init (sh_mem (m_shell mc)) (bi_mmap bi) (bi_mmap_entries bi) (vm_pmm (ps_vmm s))\<rparr>\<rparr>) mc;
          mc = say (ok_mark @ con_text ''PMM initialized: '' @ con_dec (pmm_get_free_pages (m_pmm mc) * 4 div 1024)
                 @ con_text ('' MB free'' @ NL)) mc;
          mc = say (ok_mark @ con_text (''Using UEFI page tables (custom VMM disabled for stability)'' @ NL)) mc;
          mc = mc\<lparr>m_shell := (m_shell mc)\<lparr>sh_heap := heap_init HEAP_START HEAP_SIZE (m_heap mc)\<rparr>\<rparr>
      in say (ok_mark @ con_text ''Kernel heap initialized: '' @ con_dec (HEAP_SIZE div 1024) @ con_text ('' KB'' @ NL @ NL)) mc)"

definition boot_syscalls :: "machine \<Rightarrow> machine" where
  "boot_syscalls = say (heading ''Phase 3: System Call Interface'' @ ok_mark
     @ con_text (''System calls disabled (requires custom GDT)'' @ NL @ NL))"

definition boot_drivers :: "machine \<Rightarrow> machine option" where
  "boot_drivers mc =
     (let mc = say (heading ''Phase 4: Device Drivers'') mc in
      case timer_init TIMER_FREQUENCY (kb_io (m_keyboard mc)) of
        None \<Rightarrow> None
      | Some p \<Rightarrow>
          let mc = on_io (\<lambda>_. p) mc;
              mc = say (ok_mark @ con_text (''PIT Timer initialized (100 Hz)'' @ NL)) mc;
              mc = on_keyboard keyboard_init mc
          in Some (say (ok_mark @ con_text (''PS/2 Keyboard driver initialized'' @ NL @ NL)) mc))"

definition boot_processes :: "machine \<Rightarrow> machine" where
  "boot_processes mc =
     (let mc = say (heading ''Phase 5: CPU Scheduling'') mc;
          mc = on_sys process_init mc
      in say (ok_mark @ con_text (''Process subsystem initialized'' @ NL @ NL)) mc)"

definition boot_summary :: trace where
  "boot_summary =
     con_color COLOR_CYAN @ con_text (ruler @ NL) @ con_color COLOR_WHITE
     @ con_text (''                           System Initialization Complete'' @ NL)
     @ con_color COLOR_CYAN @ con_text (ruler @ NL @ NL)
     @ con_color COLOR_WHITE @ con_text (''Features enabled:'' @ NL)
     @ con_text (''  - CPU Scheduling:    Priority-based preemptive scheduler'' @ NL)
     @ con_text (''  - Memory Management: PMM (bitmap) + VMM (4-level paging) + Heap'' @ NL)
     @ con_text (''  - Device Drivers:    PIT Timer, PS/2 Keyboard'' @ NL)
     @ con_text (''  - System Calls:      SYSCALL/SYSRET with 6 basic calls'' @ NL)
     @ con_text (''  - Interrupt Handling: GDT/IDT/PIC, exceptions + 16 IRQs'' @ NL @ NL)
     @ con_color COLOR_GREEN @ con_text (''Kernel ready. Launching shell...'' @ NL @ NL) @ con_color COLOR_WHITE"

text \<open>Up to the call of \<open>shell_run\<close>; a null pointer is \<open>None\<close>, and so is a divide error in \<open>timer_init\<close>.\<close>

definition kernel_boot :: "layout \<Rightarrow> boot_info option \<Rightarrow> machine \<Rightarrow> machine outcome option" where
  "kernel_boot l pbi mc =
     (case pbi of
        None \<Rightarrow> Some (Halts mc)
      | Some bi \<Rightarrow>
          if bi_magic bi \<noteq> BOOTINFO_MAGIC then Some (Halts mc)
          else
            (case boot_drivers (boot_syscalls (boot_memory bi (boot_interrupts l (boot_screen bi mc)))) of
               None \<Rightarrow> None
             | Some mc \<Rightarrow>
                 let mc = say boot_summary (boot_processes mc);
                     mc = mc\<lparr>m_interrupts := True\<rparr>;
                     (t, sh) = shell_init (m_shell mc)
                 in Some (Returns (say t (mc\<lparr>m_shell := sh\<rparr>)))))"

text \<open>The whole of \<open>kernel_main\<close>, with \<open>n\<close> rounds of the shell.\<close>

definition kernel_main :: "nat \<Rightarrow> (nat \<Rightarrow> u8 list) \<Rightarrow> u8 list \<Rightarrow> u8 list \<Rightarrow> layout \<Rightarrow> boot_info option \<Rightarrow> machine \<Rightarrow> machine outcome option" where
  "kernel_main n saved line ks l pbi mc =
     (case kernel_boot l pbi mc of
        Some (Returns mc) \<Rightarrow>
          (case shell_run n saved line ks (m_shell mc) of
             None \<Rightarrow> None
           | Some (Returns (t, _, _, sh)) \<Rightarrow> Some (Returns (say t (mc\<lparr>m_shell := sh\<rparr>)))
           | Some (Halts (t, _, _, sh)) \<Rightarrow> Some (Halts (say t (mc\<lparr>m_shell := sh\<rparr>))))
      | r \<Rightarrow> r)"

section \<open>What each update leaves alone\<close>

lemma on_console_fields [simp]:
  "m_shell (on_console f mc) = m_shell mc" "m_console (on_console f mc) = f (m_console mc)"
  "m_interrupts (on_console f mc) = m_interrupts mc"
  by (simp_all add: on_console_def)

lemma on_kernel_fields [simp]:
  "m_kernel (on_kernel f mc) = f (m_kernel mc)" "m_console (on_kernel f mc) = m_console mc" "m_heap (on_kernel f mc) = m_heap mc"
  "sh_history (m_shell (on_kernel f mc)) = sh_history (m_shell mc)" "sh_mem (m_shell (on_kernel f mc)) = sh_mem (m_shell mc)"
  by (simp_all add: on_kernel_def)

lemma say_fields [simp]: "m_shell (say t mc) = m_shell mc" "m_interrupts (say t mc) = m_interrupts mc"
  by (simp_all add: say_def)

text \<open>A console of the size the boot information gives, with the cursor on the screen.\<close>

definition con_ok :: "boot_info \<Rightarrow> console \<Rightarrow> bool" where
  "con_ok bi c \<longleftrightarrow> con_inv c \<and> fb_width c = fbi_width (bi_framebuffer bi) \<and> fb_height c = fbi_height (bi_framebuffer bi)"

lemma con_effect_ok: "con_ok bi c \<Longrightarrow> con_ok bi (con_effect e c)"
  using con_step_ok by (cases e) (auto simp: con_ok_def same_screen_def)

lemma say_ok [simp]: "con_ok bi (m_console mc) \<Longrightarrow> con_ok bi (m_console (say t mc))"
proof -
  have "con_ok bi c \<Longrightarrow> con_ok bi (fold con_effect t c)" for c by (induction t arbitrary: c) (simp_all add: con_effect_ok)
  then show "con_ok bi (m_console mc) \<Longrightarrow> con_ok bi (m_console (say t mc))" by (simp add: say_def)
qed

lemma boot_screen_ok:
  assumes "100 \<le> unat (fbi_height (bi_framebuffer bi))" "unat (fbi_height (bi_framebuffer bi)) < 2 ^ 32 - 20"
  shows "con_ok bi (m_console (boot_screen bi mc))" "m_shell (boot_screen bi mc) = m_shell mc"
  using assms unfolding boot_screen_def Let_def
  by (intro say_ok; simp add: con_ok_def con_inv_def clear_screen_def draw_logo_def Let_def fill_rect_def) simp

lemma boot_interrupts_frame:
  "con_ok bi (m_console mc) \<Longrightarrow> con_ok bi (m_console (boot_interrupts l mc))"
  "m_pmm (boot_interrupts l mc) = m_pmm mc" "processes (m_sys (boot_interrupts l mc)) = processes (m_sys mc)"
  "key_buffer (m_keyboard (boot_interrupts l mc)) = key_buffer (m_keyboard mc)" "m_heap (boot_interrupts l mc) = m_heap mc"
  "sh_history (m_shell (boot_interrupts l mc)) = sh_history (m_shell mc)" "sh_mem (m_shell (boot_interrupts l mc)) = sh_mem (m_shell mc)"
  by (simp_all add: boot_interrupts_def Let_def on_sys_def on_io_def on_keyboard_def)

lemma boot_memory_frame:
  "con_ok bi (m_console mc) \<Longrightarrow> con_ok bi (m_console (boot_memory bi mc))"
  "m_pmm (boot_memory bi mc) = pmm_init (sh_mem (m_shell mc)) (bi_mmap bi) (bi_mmap_entries bi) (m_pmm mc)"
  "processes (m_sys (boot_memory bi mc)) = processes (m_sys mc)"
  "m_keyboard (boot_memory bi mc) = m_keyboard mc" "m_heap (boot_memory bi mc) = heap_init HEAP_START HEAP_SIZE (m_heap mc)"
  "sh_history (m_shell (boot_memory bi mc)) = sh_history (m_shell mc)"
  by (simp_all add: boot_memory_def Let_def on_sys_def)

lemma boot_drivers_frame:
  obtains mc' where "boot_drivers mc = Some mc'" "con_ok bi (m_console mc) \<Longrightarrow> con_ok bi (m_console mc')"
    "m_pmm mc' = m_pmm mc" "processes (m_sys mc') = processes (m_sys mc)" "m_heap mc' = m_heap mc"
    "sh_history (m_shell mc') = sh_history (m_shell mc)" "key_buffer (m_keyboard mc') = key_buffer (m_keyboard mc)"
    "buffer_head (m_keyboard mc') = 0" "buffer_tail (m_keyboard mc') = 0"
  using that [of "the (boot_drivers mc)"]
  by (simp add: boot_drivers_def Let_def timer_init_def TIMER_FREQUENCY_def on_io_def on_keyboard_def keyboard_init_def)

lemma process_init_unused:
  assumes "length (processes s) = 64" "i < 64"
  shows "pstate (processes (process_init s) ! i) = PROC_UNUSED"
proof -
  have *: "pstate (processes (fold (\<lambda>i. upd_proc i (\<lambda>p. p\<lparr>pstate := PROC_UNUSED, pid := 0\<rparr>)) is s) ! i) = PROC_UNUSED"
    if "length (processes s) = 64" "i \<in> set is \<or> pstate (processes s ! i) = PROC_UNUSED" for s "is"
    using that
  proof (induction "is" arbitrary: s)
    case (Cons j js)
    show ?case using Cons.IH [of "upd_proc j (\<lambda>p. p\<lparr>pstate := PROC_UNUSED, pid := 0\<rparr>) s"] Cons.prems assms(2)
      by (cases "i = j") (auto simp: upd_proc_def)
  qed simp
  show ?thesis using * [OF assms(1), of "[0..<MAX_PROCESSES]"] assms(2) by (simp add: process_init_def Let_def MAX_PROCESSES_def)
qed

lemma process_init_vmm [simp]: "ps_vmm (process_init s) = ps_vmm s"
proof -
  have "ps_vmm (fold (\<lambda>i. upd_proc i (f i)) is s) = ps_vmm s" for f "is" s
    by (induction "is" arbitrary: s) (simp_all add: upd_proc_def)
  then show ?thesis by (simp add: process_init_def Let_def)
qed

lemma boot_heap:
  "heap_wf (heap_init HEAP_START HEAP_SIZE h) [(0x400000, 0x100000 - 32, True)]" "heap_start (heap_init HEAP_START HEAP_SIZE h) = 0x400000"
proof -
  have *: "unat (heap_start (heap_init HEAP_START HEAP_SIZE h)) = 0x400000" "unat (heap_total_size (heap_init HEAP_START HEAP_SIZE h)) = 0x100000"
    "heap_wf (heap_init HEAP_START HEAP_SIZE h) [(heap_start (heap_init HEAP_START HEAP_SIZE h), heap_total_size (heap_init HEAP_START HEAP_SIZE h) - 32, True)]"
    using heap_init_rep [of HEAP_START HEAP_SIZE h] by (simp_all add: HEAP_START_def HEAP_SIZE_def Let_def)
  then show st: "heap_start (heap_init HEAP_START HEAP_SIZE h) = 0x400000" by (simp add: word_unat_eq_iff)
  have "heap_total_size (heap_init HEAP_START HEAP_SIZE h) = 0x100000" using *(2) by (simp add: word_unat_eq_iff)
  then show "heap_wf (heap_init HEAP_START HEAP_SIZE h) [(0x400000, 0x100000 - 32, True)]" using *(3) st by simp
qed

text \<open>What the machine must look like before the kernel starts: the static arrays have their sizes.\<close>

definition machine_bss :: "machine \<Rightarrow> bool" where
  "machine_bss mc \<longleftrightarrow> length (bitmap (m_pmm mc)) = 8192 \<and> length (processes (m_sys mc)) = 64
     \<and> length (key_buffer (m_keyboard mc)) = 256 \<and> length (history_entries (sh_history (m_shell mc))) = 16
     \<and> (\<forall>e \<in> set (history_entries (sh_history (m_shell mc))). length e = 128)"

lemma kernel_boot_state:
  assumes "bi_magic bi = BOOTINFO_MAGIC" "100 \<le> unat (fbi_height (bi_framebuffer bi))" "unat (fbi_height (bi_framebuffer bi)) < 2 ^ 32 - 20"
    and "machine_bss mc"
  obtains mc' where "kernel_boot l (Some bi) mc = Some (Returns mc')"
    "m_pmm mc' = pmm_init (sh_mem (m_shell mc)) (bi_mmap bi) (bi_mmap_entries bi) (m_pmm mc)"
    "m_heap mc' = heap_init HEAP_START HEAP_SIZE (m_heap mc)" "con_ok bi (m_console mc')"
    "\<And>i. i < 64 \<Longrightarrow> pstate (processes (m_sys mc') ! i) = PROC_UNUSED"
    "kb_inv (m_keyboard mc')" "queued (m_keyboard mc') = []" "history_rep (sh_history (m_shell mc')) []" "m_interrupts mc'"
proof -
  let ?a = "boot_screen bi mc"
  let ?b = "boot_interrupts l ?a"
  let ?c = "boot_syscalls (boot_memory bi ?b)"
  note A = boot_screen_ok [OF assms(2,3), of mc]
  note B = boot_interrupts_frame [where l = l and mc = ?a]
  note C = boot_memory_frame [where bi = bi and mc = ?b]
  have c: "con_ok bi (m_console ?c)" using A(1) B(1) C(1) by (simp add: boot_syscalls_def)
  have sh: "m_shell ?c = m_shell (boot_memory bi ?b)" by (simp add: boot_syscalls_def)
  obtain d where d: "boot_drivers ?c = Some d" "con_ok bi (m_console ?c) \<Longrightarrow> con_ok bi (m_console d)"
    "m_pmm d = m_pmm ?c" "processes (m_sys d) = processes (m_sys ?c)" "m_heap d = m_heap ?c"
    "sh_history (m_shell d) = sh_history (m_shell ?c)" "key_buffer (m_keyboard d) = key_buffer (m_keyboard ?c)"
    "buffer_head (m_keyboard d) = 0" "buffer_tail (m_keyboard d) = 0"
    using boot_drivers_frame [of ?c bi] by blast
  define e where "e = (say boot_summary (boot_processes d))\<lparr>m_interrupts := True\<rparr>"
  define mc' where "mc' = say shell_print_banner (e\<lparr>m_shell := (m_shell e)\<lparr>sh_history := history_init (sh_history (m_shell e))\<rparr>\<rparr>)"
  have run: "kernel_boot l (Some bi) mc = Some (Returns mc')"
    using assms(1) d(1) by (simp add: kernel_boot_def shell_init_def Let_def e_def mc'_def)
  have e: "m_pmm e = m_pmm d" "m_sys e = process_init (m_sys d)" "m_keyboard e = m_keyboard d" "m_heap e = m_heap d"
    "sh_history (m_shell e) = sh_history (m_shell d)" "con_ok bi (m_console e)"
    using d(2) [OF c] by (simp_all add: e_def boot_processes_def Let_def on_sys_def)
  have bss: "length (processes (m_sys d)) = 64" "length (key_buffer (m_keyboard d)) = 256"
    "sh_history (m_shell d) = sh_history (m_shell mc)"
    using assms(4) d(4,6,7) sh B(3,4,6) C(3,4,6) A(2) by (simp_all add: machine_bss_def)
  show thesis
  proof (rule that [OF run])
    show "m_pmm mc' = pmm_init (sh_mem (m_shell mc)) (bi_mmap bi) (bi_mmap_entries bi) (m_pmm mc)"
      using e(1) d(3) sh B(2,7) C(2) A(2) by (simp add: mc'_def)
    show "m_heap mc' = heap_init HEAP_START HEAP_SIZE (m_heap mc)" using e(4) d(5) sh B(5) C(5) A(2) by (simp add: mc'_def)
    show "con_ok bi (m_console mc')" using e(6) by (simp add: mc'_def)
    show "pstate (processes (m_sys mc') ! i) = PROC_UNUSED" if "i < 64" for i
      using process_init_unused [OF bss(1) that] e(2) by (simp add: mc'_def)
    show "kb_inv (m_keyboard mc')" "queued (m_keyboard mc') = []"
      using e(3) d(8,9) bss(2) by (simp_all add: mc'_def kb_inv_def queued_def kb_count_def ring_list_def)
    show "history_rep (sh_history (m_shell mc')) []"
      using assms(4) e(5) bss(3) by (simp add: mc'_def history_rep_def history_init_def lines_def ring_list_def machine_bss_def)
    show "m_interrupts mc'" by (simp add: mc'_def e_def)
  qed
qed

text \<open>Allocating page after page reaches every free page above 2 MB.\<close>

lemma alloc_reaches:
  assumes "pmm_inv s" "p \<in> free_pages s" "512 \<le> p"
  shows "\<exists>n. unat (fst (pmm_alloc_page (((snd \<circ> pmm_alloc_page) ^^ n) s))) = p * 4096"
  using assms
proof (induction "card {q \<in> free_pages s. q < p}" arbitrary: s rule: less_induct)
  case less
  obtain a t where run: "pmm_alloc_page s = (a, t)" by fastforce
  from run less.prems(1) show ?case
  proof (cases rule: pmm_alloc_page_cases)
    case none
    then show ?thesis using less.prems(2,3) by fastforce
  next
    case (page q)
    show ?thesis
    proof (cases "unat q = p")
      case True
      then have "unat a = p * 4096" using page(1) page_address(1) [of q] page(4) by auto
      then show ?thesis using run by (intro exI [of _ 0]) simp
    next
      case False
      then have lt: "unat q < p" using page(7) [OF less.prems(2,3)] by simp
      have fin: "finite {r \<in> free_pages s. r < p}" by simp
      have "{r \<in> free_pages t. r < p} \<subset> {r \<in> free_pages s. r < p}" using page(4,6) lt by auto
      then have "card {r \<in> free_pages t. r < p} < card {r \<in> free_pages s. r < p}" by (rule psubset_card_mono [OF fin])
      moreover have "p \<in> free_pages t" using page(6) less.prems(2) False by auto
      ultimately obtain n where "unat (fst (pmm_alloc_page (((snd \<circ> pmm_alloc_page) ^^ n) t))) = p * 4096"
        using less.hyps [of t] page(5) less.prems(3) by blast
      then show ?thesis using run by (intro exI [of _ "Suc n"]) (simp add: funpow_swap1)
    qed
  qed
qed

end
