(* ===== verification/Syscall.thy ===== *)
theory Syscall
  imports Context
begin

text \<open>
  The system call interface, \<open>src/kernel/syscall/syscall.c\<close>, \<open>syscall.h\<close> and \<open>syscall_entry.S\<close>: the model-specific
  registers \<open>syscall_init\<close> programs, the dispatch table, the handlers, and the entry code that moves the
  arguments from the registers of the caller to those of the C convention. The handlers are stubs in the source
  too; their results are what user code sees.
\<close>

section \<open>Model-specific registers\<close>

type_synonym msrs = "u32 \<Rightarrow> u64"

definition MSR_EFER :: u32 where "MSR_EFER = 0xC0000080"
definition MSR_STAR :: u32 where "MSR_STAR = 0xC0000081"
definition MSR_LSTAR :: u32 where "MSR_LSTAR = 0xC0000082"
definition MSR_SFMASK :: u32 where "MSR_SFMASK = 0xC0000084"
definition EFER_SCE :: u64 where "EFER_SCE = push_bit 0 1"

text \<open>The instructions move a register as two halves.\<close>

definition rdmsr :: "u32 \<Rightarrow> msrs \<Rightarrow> u64" where
  "rdmsr msr m =
     (let low = ucast (m msr) :: u32; high = ucast (drop_bit 32 (m msr)) :: u32
      in push_bit 32 (ucast high) OR ucast low)"

definition wrmsr :: "u32 \<Rightarrow> u64 \<Rightarrow> msrs \<Rightarrow> msrs" where
  "wrmsr msr v m =
     (let low = ucast (v AND 0xFFFFFFFF) :: u32; high = ucast (drop_bit 32 v) :: u32
      in m(msr := push_bit 32 (ucast high) OR ucast low))"

definition syscall_init :: "u64 \<Rightarrow> msrs \<Rightarrow> msrs" where
  "syscall_init entry m =
     (let efer = rdmsr MSR_EFER m;
          efer = efer OR EFER_SCE;
          m = wrmsr MSR_EFER efer m;
          star = push_bit 48 0x18 OR push_bit 32 0x08;
          m = wrmsr MSR_STAR star m;
          m = wrmsr MSR_LSTAR entry m
      in wrmsr MSR_SFMASK 0x200 m)"

section \<open>Dispatch\<close>

definition SYS_READ :: nat where "SYS_READ = 0"
definition SYS_WRITE :: nat where "SYS_WRITE = 1"
definition SYS_EXIT :: nat where "SYS_EXIT = 2"
definition SYS_YIELD :: nat where "SYS_YIELD = 3"
definition SYS_SLEEP :: nat where "SYS_SLEEP = 4"
definition SYS_GETPID :: nat where "SYS_GETPID = 5"
definition SYSCALL_MAX :: nat where "SYSCALL_MAX = 16"

text \<open>A handler returns its result, or halts (\<open>None\<close>).\<close>

type_synonym syscall_handler = "u64 \<Rightarrow> u64 \<Rightarrow> u64 \<Rightarrow> u64 \<Rightarrow> u64 \<Rightarrow> u64 option"

definition sys_read :: syscall_handler where
  "sys_read fd buf cnt unused1 unused2 = Some (-1)"

definition sys_write :: syscall_handler where
  "sys_write fd buf cnt unused1 unused2 = (if fd \<noteq> 1 then Some (-1) else Some cnt)"

definition sys_exit :: syscall_handler where
  "sys_exit status unused1 unused2 unused3 unused4 = None"

definition sys_yield :: syscall_handler where
  "sys_yield unused1 unused2 unused3 unused4 unused5 = Some 0"

definition sys_sleep :: syscall_handler where
  "sys_sleep ms unused1 unused2 unused3 unused4 = Some 0"

definition sys_getpid :: syscall_handler where
  "sys_getpid unused1 unused2 unused3 unused4 unused5 = Some 1"

definition syscall_table :: "syscall_handler option list" where
  "syscall_table =
     (replicate SYSCALL_MAX None)[SYS_READ := Some sys_read, SYS_WRITE := Some sys_write, SYS_EXIT := Some sys_exit,
       SYS_YIELD := Some sys_yield, SYS_SLEEP := Some sys_sleep, SYS_GETPID := Some sys_getpid]"

definition syscall_dispatch :: "u64 \<Rightarrow> syscall_handler" where
  "syscall_dispatch num arg1 arg2 arg3 arg4 arg5 =
     (if num \<ge> of_nat SYSCALL_MAX then Some (-1)
      else case syscall_table ! unat num of
             None \<Rightarrow> Some (-1)
           | Some handler \<Rightarrow> handler arg1 arg2 arg3 arg4 arg5)"

section \<open>The entry code\<close>

record regs =
  g_rax :: u64
  g_rdi :: u64
  g_rsi :: u64
  g_rdx :: u64
  g_rcx :: u64
  g_r8 :: u64
  g_r9 :: u64
  g_r10 :: u64
  g_r11 :: u64
  g_rbx :: u64
  g_rbp :: u64
  g_r12 :: u64
  g_r13 :: u64
  g_r14 :: u64
  g_r15 :: u64
  g_rsp :: u64

definition pushq :: "(regs \<Rightarrow> u64) \<Rightarrow> regs \<times> mem \<Rightarrow> regs \<times> mem" where
  "pushq reg s = (case s of (r, m) \<Rightarrow> (r\<lparr>g_rsp := g_rsp r - 8\<rparr>, store64 m (g_rsp r - 8) (reg r)))"

definition popq :: "(u64 \<Rightarrow> regs \<Rightarrow> regs) \<Rightarrow> regs \<times> mem \<Rightarrow> regs \<times> mem" where
  "popq put s = (case s of (r, m) \<Rightarrow> (put (load64 m (g_rsp r)) (r\<lparr>g_rsp := g_rsp r + 8\<rparr>), m))"

definition mov :: "(regs \<Rightarrow> regs) \<Rightarrow> regs \<times> mem \<Rightarrow> regs \<times> mem" where
  "mov f s = (case s of (r, m) \<Rightarrow> (f r, m))"

text \<open>From the entry to the call of \<open>syscall_dispatch\<close>.\<close>

definition entry_save :: "regs \<times> mem \<Rightarrow> regs \<times> mem" where
  "entry_save s =
     (let s = pushq g_rbp s; s = pushq g_rbx s; s = pushq g_r12 s; s = pushq g_r13 s; s = pushq g_r14 s; s = pushq g_r15 s;
          s = pushq g_rcx s
      in pushq g_r11 s)"

definition entry_args :: "regs \<times> mem \<Rightarrow> regs \<times> mem" where
  "entry_args s =
     (let s = mov (\<lambda>r. r\<lparr>g_rdi := g_rax r\<rparr>) s;
          s = mov (\<lambda>r. r\<lparr>g_rcx := g_r10 r\<rparr>) s;
          s = pushq g_rdi s; s = pushq g_rsi s; s = pushq g_rdx s; s = pushq g_r10 s; s = pushq g_r8 s;
          m = snd s;
          s = mov (\<lambda>r. r\<lparr>g_rdi := g_rax r\<rparr>) s;
          s = mov (\<lambda>r. r\<lparr>g_rsi := load64 m (g_rsp r + 32)\<rparr>) s;
          s = mov (\<lambda>r. r\<lparr>g_rdx := load64 m (g_rsp r + 24)\<rparr>) s;
          s = mov (\<lambda>r. r\<lparr>g_rcx := load64 m (g_rsp r + 16)\<rparr>) s;
          s = mov (\<lambda>r. r\<lparr>g_r8 := load64 m (g_rsp r + 8)\<rparr>) s
      in mov (\<lambda>r. r\<lparr>g_r9 := load64 m (g_rsp r)\<rparr>) s)"

text \<open>From the return of the C function to \<open>sysretq\<close>.\<close>

definition entry_restore :: "regs \<times> mem \<Rightarrow> regs \<times> mem" where
  "entry_restore s =
     (let s = mov (\<lambda>r. r\<lparr>g_rsp := g_rsp r + 40\<rparr>) s;
          s = popq (\<lambda>v r. r\<lparr>g_r11 := v\<rparr>) s; s = popq (\<lambda>v r. r\<lparr>g_rcx := v\<rparr>) s;
          s = popq (\<lambda>v r. r\<lparr>g_r15 := v\<rparr>) s; s = popq (\<lambda>v r. r\<lparr>g_r14 := v\<rparr>) s; s = popq (\<lambda>v r. r\<lparr>g_r13 := v\<rparr>) s;
          s = popq (\<lambda>v r. r\<lparr>g_r12 := v\<rparr>) s; s = popq (\<lambda>v r. r\<lparr>g_rbx := v\<rparr>) s
      in popq (\<lambda>v r. r\<lparr>g_rbp := v\<rparr>) s)"

text \<open>
  The call follows the C convention: it keeps \<open>rsp\<close>, \<open>rbx\<close>, \<open>rbp\<close> and \<open>r12\<close> to \<open>r15\<close> and puts the result into
  \<open>rax\<close>; the dispatched handlers touch no memory. The other
  registers may change in the call; nothing reads them afterwards.
\<close>

definition syscall_entry :: "regs \<times> mem \<Rightarrow> (regs \<times> mem) option" where
  "syscall_entry s =
     (let (r, m) = entry_args (entry_save s) in
      case syscall_dispatch (g_rdi r) (g_rsi r) (g_rdx r) (g_rcx r) (g_r8 r) (g_r9 r) of
        None \<Rightarrow> None
      | Some v \<Rightarrow> Some (entry_restore (r\<lparr>g_rax := v\<rparr>, m)))"


section \<open>Properties\<close>

lemma halves:
  fixes v :: u64
  shows "push_bit 32 (ucast (ucast (drop_bit 32 v) :: u32)) OR ucast (ucast v :: u32) = v"
    "push_bit 32 (ucast (ucast (drop_bit 32 v) :: u32)) OR ucast (ucast (v AND 0xFFFFFFFF) :: u32) = v"
proof -
  have m: "(0xFFFFFFFF :: u64) = mask 32" by (simp add: mask_eq_exp_minus_1)
  show "push_bit 32 (ucast (ucast (drop_bit 32 v) :: u32)) OR ucast (ucast v :: u32) = v"
    "push_bit 32 (ucast (ucast (drop_bit 32 v) :: u32)) OR ucast (ucast (v AND 0xFFFFFFFF) :: u32) = v"
    unfolding m by (rule bit_word_eqI; auto simp: bit_simps)+
qed

lemma msr_simps [simp]: "rdmsr msr m = m msr" "wrmsr msr v m = m(msr := v)"
  by (simp_all add: rdmsr_def wrmsr_def Let_def halves)

text \<open>
  \<open>syscall_init\<close> enables the \<open>syscall\<close> instruction, keeping all other bits of the feature register, enters at the
  given address with the kernel selectors 08 and 10 and interrupts masked, and changes no other register. Returning
  with \<open>sysretq\<close>, the processor takes the user code selector from bits 48 to 63 plus 16 and the data selector from
  them plus 8: with the value written this is selector 28 hex, which \<open>gdt_init\<close> makes the task state segment, and not
  the 1B the comment announces.
\<close>

theorem syscall_init_registers:
  defines "sysret_cs m \<equiv> drop_bit 48 (m MSR_STAR) + 16 OR 3" and "sysret_ss m \<equiv> drop_bit 48 (m MSR_STAR) + 8 OR 3"
  shows "let m' = syscall_init entry m in
    m' MSR_EFER = m MSR_EFER OR 1 \<and> m' MSR_LSTAR = entry \<and> m' MSR_SFMASK = 0x200
    \<and> drop_bit 32 (m' MSR_STAR) AND 0xFFFF = 0x08
    \<and> (\<forall>a. a \<notin> {MSR_EFER, MSR_STAR, MSR_LSTAR, MSR_SFMASK} \<longrightarrow> m' a = m a)
    \<and> sysret_cs m' = 0x2B \<and> sysret_ss m' = 0x23"
  by (simp add: syscall_init_def Let_def MSR_EFER_def MSR_STAR_def MSR_LSTAR_def MSR_SFMASK_def EFER_SCE_def sysret_cs_def sysret_ss_def)

theorem syscall_init_registers_witness:
  "syscall_init 0x100400 (\<lambda>_. 0xD00) MSR_EFER = 0xD01 \<and> syscall_init 0x100400 (\<lambda>_. 0xD00) 0x1B = 0xD00"
  using syscall_init_registers [of "0x100400" "\<lambda>_. 0xD00"]
  by (simp add: Let_def MSR_EFER_def MSR_STAR_def MSR_LSTAR_def MSR_SFMASK_def)


lemma table_entries:
  "syscall_table ! 0 = Some sys_read" "syscall_table ! Suc 0 = Some sys_write" "syscall_table ! 2 = Some sys_exit"
  "syscall_table ! 3 = Some sys_yield" "syscall_table ! 4 = Some sys_sleep" "syscall_table ! 5 = Some sys_getpid"
  "5 < n \<Longrightarrow> n < 16 \<Longrightarrow> syscall_table ! n = None"
  by (auto simp: syscall_table_def SYSCALL_MAX_def SYS_READ_def SYS_WRITE_def SYS_EXIT_def SYS_YIELD_def SYS_SLEEP_def SYS_GETPID_def
      nth_list_update)

lemma dispatch_cases:
  "syscall_dispatch num a b c d e =
     (if num = 1 \<and> a = 1 then Some c else if num = 2 then None else if num = 3 \<or> num = 4 then Some 0
      else if num = 5 then Some 1 else Some (-1))"
proof (cases "num < 16")
  case True
  then have lt: "unat num < 16" by (simp add: word_nat)
  consider "unat num = 0" | "unat num = 1" | "unat num = 2" | "unat num = 3" | "unat num = 4" | "unat num = 5" | "5 < unat num" by linarith
  then show ?thesis
  proof cases
    case 7
    then have "num \<noteq> 1" "num \<noteq> 2" "num \<noteq> 3" "num \<noteq> 4" "num \<noteq> 5" by auto
    then show ?thesis using True table_entries(7) [OF 7 lt] by (simp add: syscall_dispatch_def SYSCALL_MAX_def)
  qed (use True in \<open>auto simp: syscall_dispatch_def SYSCALL_MAX_def table_entries word_unat_eq_iff sys_read_def sys_write_def
        sys_exit_def sys_yield_def sys_sleep_def sys_getpid_def\<close>)
next
  case False
  then have "num \<noteq> 1" "num \<noteq> 2" "num \<noteq> 3" "num \<noteq> 4" "num \<noteq> 5" by auto
  then show ?thesis using False by (simp add: syscall_dispatch_def SYSCALL_MAX_def not_less)
qed

text \<open>The arguments the dispatcher gets, and the frame below the caller's stack pointer.\<close>

lemma entry_run:
  assumes "aligned 3 (g_rsp r)"
  obtains m' where "entry_args (entry_save (r, m)) = (r\<lparr>g_rdi := g_rax r, g_rsi := g_rax r, g_rdx := g_rsi r, g_rcx := g_rdx r,
      g_r8 := g_r10 r, g_r9 := g_r8 r, g_rsp := g_rsp r - 104\<rparr>, m')"
    "load64 m' (g_rsp r - 64) = g_r11 r" "load64 m' (g_rsp r - 56) = g_rcx r" "load64 m' (g_rsp r - 48) = g_r15 r"
    "load64 m' (g_rsp r - 40) = g_r14 r" "load64 m' (g_rsp r - 32) = g_r13 r" "load64 m' (g_rsp r - 24) = g_r12 r"
    "load64 m' (g_rsp r - 16) = g_rbx r" "load64 m' (g_rsp r - 8) = g_rbp r"
proof -
  let ?s = "g_rsp r"
  define m1 where "m1 = store64 (store64 (store64 (store64 (store64 (store64 (store64 (store64 m (?s - 8) (g_rbp r)) (?s - 16) (g_rbx r))
    (?s - 24) (g_r12 r)) (?s - 32) (g_r13 r)) (?s - 40) (g_r14 r)) (?s - 48) (g_r15 r)) (?s - 56) (g_rcx r)) (?s - 64) (g_r11 r)"
  define m2 where "m2 = store64 (store64 (store64 (store64 (store64 m1 (?s - 72) (g_rax r)) (?s - 80) (g_rsi r)) (?s - 88) (g_rdx r))
    (?s - 96) (g_r10 r)) (?s - 104) (g_r8 r)"
  have al: "aligned 3 8" "aligned 3 16" "aligned 3 24" "aligned 3 32" "aligned 3 40" "aligned 3 48" "aligned 3 56" "aligned 3 64"
    "aligned 3 72" "aligned 3 80" "aligned 3 88" "aligned 3 96" "aligned 3 104" by (simp_all add: aligned_unat)
  note cells = stack_cells [OF assms]
  have l1: "load64 m1 (?s - 64) = g_r11 r" "load64 m1 (?s - 56) = g_rcx r" "load64 m1 (?s - 48) = g_r15 r"
    "load64 m1 (?s - 40) = g_r14 r" "load64 m1 (?s - 32) = g_r13 r" "load64 m1 (?s - 24) = g_r12 r"
    "load64 m1 (?s - 16) = g_rbx r" "load64 m1 (?s - 8) = g_rbp r" unfolding m1_def by (simp_all add: cells al)
  have l2: "load64 m2 (?s - 72) = g_rax r" "load64 m2 (?s - 80) = g_rsi r" "load64 m2 (?s - 88) = g_rdx r"
    "load64 m2 (?s - 96) = g_r10 r" "load64 m2 (?s - 104) = g_r8 r" unfolding m2_def by (simp_all add: cells al)
  have low: "load64 m2 (?s - 64) = g_r11 r" "load64 m2 (?s - 56) = g_rcx r" "load64 m2 (?s - 48) = g_r15 r"
    "load64 m2 (?s - 40) = g_r14 r" "load64 m2 (?s - 32) = g_r13 r" "load64 m2 (?s - 24) = g_r12 r"
    "load64 m2 (?s - 16) = g_rbx r" "load64 m2 (?s - 8) = g_rbp r" unfolding m2_def by (simp_all add: cells al l1)
  have sv: "entry_save (r, m) = (r\<lparr>g_rsp := ?s - 64\<rparr>, m1)"
    by (simp add: entry_save_def pushq_def Let_def m1_def diff_diff_eq)
  have "entry_args (r\<lparr>g_rsp := ?s - 64\<rparr>, m1) = (r\<lparr>g_rdi := g_rax r, g_rsi := g_rax r, g_rdx := g_rsi r, g_rcx := g_rdx r,
      g_r8 := g_r10 r, g_r9 := g_r8 r, g_rsp := ?s - 104\<rparr>, m2)"
    using l2 by (simp add: entry_args_def pushq_def mov_def Let_def diff_diff_eq m2_def [symmetric])
  then show ?thesis using that [of m2] sv low by simp
qed

lemma entry_restore_run:
  assumes "load64 m (sp - 64) = a11" "load64 m (sp - 56) = acx" "load64 m (sp - 48) = a15"
    "load64 m (sp - 40) = a14" "load64 m (sp - 32) = a13" "load64 m (sp - 24) = a12"
    "load64 m (sp - 16) = abx" "load64 m (sp - 8) = abp" "g_rsp r = sp - 104"
  shows "entry_restore (r, m) = (r\<lparr>g_r11 := a11, g_rcx := acx, g_r15 := a15, g_r14 := a14, g_r13 := a13, g_r12 := a12,
    g_rbx := abx, g_rbp := abp, g_rsp := sp\<rparr>, m)"
proof -
  have e: "sp - 104 + 40 = sp - 64" "sp - 64 + 8 = sp - 56" "sp - 56 + 8 = sp - 48" "sp - 48 + 8 = sp - 40" "sp - 40 + 8 = sp - 32"
    "sp - 32 + 8 = sp - 24" "sp - 24 + 8 = sp - 16" "sp - 16 + 8 = sp - 8" "sp - 8 + 8 = sp" by simp_all
  show ?thesis unfolding entry_restore_def popq_def mov_def Let_def
    by (cases r) (use assms e in \<open>simp add: add.assoc\<close>)
qed

text \<open>
  C18: the first argument of a system call is lost. The entry code overwrites \<open>rdi\<close> with the call number before it
  saves the arguments, so the dispatcher receives the call number as the first argument whatever the caller passed;
  the other four arguments arrive in order. Apart from that the call is transparent: on return \<open>rax\<close> holds the
  result and \<open>rsp\<close>, \<open>rbx\<close>, \<open>rbp\<close>, \<open>r12\<close> to \<open>r15\<close>, and \<open>rcx\<close> and \<open>r11\<close>, which hold the return address and the flags,
  are what they were. A call of \<open>sys_exit\<close> does not return.
\<close>

theorem syscall_entry_replaces_first_argument:
  assumes "aligned 3 (g_rsp r)"
  shows "case syscall_dispatch (g_rax r) (g_rax r) (g_rsi r) (g_rdx r) (g_r10 r) (g_r8 r) of
      None \<Rightarrow> g_rax r = 2 \<and> syscall_entry (r, m) = None
    | Some v \<Rightarrow> \<exists>r' m'. syscall_entry (r, m) = Some (r', m') \<and> g_rax r' = v \<and> g_rsp r' = g_rsp r \<and> g_rcx r' = g_rcx r
        \<and> g_r11 r' = g_r11 r \<and> g_rbx r' = g_rbx r \<and> g_rbp r' = g_rbp r \<and> g_r12 r' = g_r12 r \<and> g_r13 r' = g_r13 r
        \<and> g_r14 r' = g_r14 r \<and> g_r15 r' = g_r15 r"
proof -
  from entry_run [OF assms, of m]
  obtain m' where run: "entry_args (entry_save (r, m)) = (r\<lparr>g_rdi := g_rax r, g_rsi := g_rax r, g_rdx := g_rsi r, g_rcx := g_rdx r,
      g_r8 := g_r10 r, g_r9 := g_r8 r, g_rsp := g_rsp r - 104\<rparr>, m')"
    and frame: "load64 m' (g_rsp r - 64) = g_r11 r" "load64 m' (g_rsp r - 56) = g_rcx r" "load64 m' (g_rsp r - 48) = g_r15 r"
    "load64 m' (g_rsp r - 40) = g_r14 r" "load64 m' (g_rsp r - 32) = g_r13 r" "load64 m' (g_rsp r - 24) = g_r12 r"
    "load64 m' (g_rsp r - 16) = g_rbx r" "load64 m' (g_rsp r - 8) = g_rbp r" by metis
  show ?thesis
    using dispatch_cases [of "g_rax r" "g_rax r" "g_rsi r" "g_rdx r" "g_r10 r" "g_r8 r"]
    by (auto simp: syscall_entry_def run entry_restore_run [OF frame] split: option.splits if_splits)
qed

text \<open>Writing to file descriptor 7 reports success, because the call number of \<open>sys_write\<close> is 1.\<close>

theorem syscall_entry_replaces_first_argument_witness:
  "\<exists>r' m'. syscall_entry (\<lparr>g_rax = 1, g_rdi = 7, g_rsi = 0x5000, g_rdx = 12, g_rcx = 0x400000, g_r8 = 0, g_r9 = 0, g_r10 = 0,
      g_r11 = 0x202, g_rbx = 0, g_rbp = 0, g_r12 = 0, g_r13 = 0, g_r14 = 0, g_r15 = 0, g_rsp = 0x8000\<rparr>, \<lambda>_. 0) = Some (r', m')
    \<and> g_rax r' = 12 \<and> syscall_dispatch 1 7 0x5000 12 0 0 = Some (-1)"
proof -
  let ?r = "\<lparr>g_rax = 1, g_rdi = 7, g_rsi = 0x5000, g_rdx = 12, g_rcx = 0x400000, g_r8 = 0, g_r9 = 0, g_r10 = 0,
      g_r11 = 0x202, g_rbx = 0, g_rbp = 0, g_r12 = 0, g_r13 = 0, g_r14 = 0, g_r15 = 0, g_rsp = 0x8000\<rparr>"
  have "aligned 3 (g_rsp ?r)" by (simp add: aligned_unat)
  then show ?thesis using syscall_entry_replaces_first_argument [of ?r "\<lambda>_. 0"] by (auto simp: dispatch_cases)
qed

end
