(* ===== verification/Vmm_Spec.thy ===== *)
theory Vmm_Spec
  imports Vmm
begin

text \<open>
  What the page-table code of \<open>vmm.c\<close> promises: the tables reached from the kernel's top-level table
  form a tree (\<open>vmm_inv\<close>), and over that tree every virtual page has one leaf entry (\<open>leaf\<close>).
  Creating intermediate tables never changes a leaf; mapping and unmapping change exactly one.
\<close>

section \<open>Walking the tables\<close>

primrec walk :: "mem \<Rightarrow> u64 \<Rightarrow> u64 list \<Rightarrow> u64 option" where
  "walk m t [] = Some t"
| "walk m t (i # is) =
     (let e = load64 m (entry_addr t i) in if e AND VMM_PRESENT = 0 then None else walk m (e AND FRAME_MASK) is)"

definition indices :: "u64 list \<Rightarrow> bool" where
  "indices p \<longleftrightarrow> (\<forall>i \<in> set p. i < 512)"

definition vpath :: "u64 \<Rightarrow> u64 list" where
  "vpath v = [pml4_index v, pdpt_index v, pd_index v]"

text \<open>The leaf entry of a virtual page: zero, that is not present, when its page table is missing.\<close>

definition leaf :: "mem \<Rightarrow> u64 \<Rightarrow> u64 list \<Rightarrow> u64 \<Rightarrow> u64" where
  "leaf m root p j = (case walk m root p of None \<Rightarrow> 0 | Some t \<Rightarrow> load64 m (entry_addr t j))"

definition translate :: "u64 \<Rightarrow> u64 \<Rightarrow> u64" where
  "translate e v = (if e AND VMM_PRESENT = 0 then 0 else (e AND FRAME_MASK) OR (v AND 0xFFF))"

lemma vmm_get_physical_leaf:
  assumes "kernel_pml4 s \<noteq> 0"
  shows "vmm_get_physical v s = translate (leaf (vm_mem s) (kernel_pml4 s) (vpath v) (pt_index v)) v"
  using assms by (auto simp: vmm_get_physical_def leaf_def vpath_def translate_def Let_def VMM_PRESENT_def)

definition tables :: "mem \<Rightarrow> u64 \<Rightarrow> pmm \<Rightarrow> bool" where
  "tables m root p \<longleftrightarrow>
     (\<forall>q t. indices q \<and> length q \<le> 3 \<and> walk m root q = Some t \<longrightarrow>
        t \<noteq> 0 \<and> aligned 12 t \<and> t \<notin> avail_frames p)
     \<and> (\<forall>q r t. indices q \<and> indices r \<and> length q \<le> 3 \<and> length r \<le> 3
          \<and> walk m root q = Some t \<and> walk m root r = Some t \<longrightarrow> q = r)"

definition vmm_inv :: "vmm \<Rightarrow> bool" where
  "vmm_inv s \<longleftrightarrow> kernel_pml4 s \<noteq> 0 \<and> pmm_inv (vm_pmm s) \<and> tables (vm_mem s) (kernel_pml4 s) (vm_pmm s)"

lemma indices_simps [simp]:
  "indices []" "indices (i # p) \<longleftrightarrow> i < 512 \<and> indices p" "indices (p @ q) \<longleftrightarrow> indices p \<and> indices q"
  by (auto simp: indices_def)

lemma vpath_ok [simp]: "indices (vpath v)" "length (vpath v) = 3"
  by (simp_all add: vpath_def index_small)

lemma walk_append: "walk m t (p @ q) = (case walk m t p of None \<Rightarrow> None | Some u \<Rightarrow> walk m u q)"
  by (induction p arbitrary: t) (simp_all add: Let_def)

text \<open>A walk depends on the entries it reads only.\<close>

lemma walk_cong:
  assumes "\<And>r j rest t. q = r @ j # rest \<Longrightarrow> walk m root r = Some t \<Longrightarrow>
      load64 m' (entry_addr t j) = load64 m (entry_addr t j)"
  shows "walk m' root q = walk m root q"
  using assms
proof (induction q rule: rev_induct)
  case (snoc j q)
  have IH: "walk m' root q = walk m root q"
    using snoc.prems by (intro snoc.IH) auto
  show ?case
  proof (cases "walk m root q")
    case (Some t)
    then show ?thesis using snoc.prems [of q j "[]" t] IH by (simp add: walk_append Let_def)
  qed (use IH in \<open>simp add: walk_append\<close>)
qed simp

lemma tablesD:
  assumes "tables m root p" "indices q" "length q \<le> 3" "walk m root q = Some t"
  shows "aligned 12 t" "t \<notin> avail_frames p" "t \<noteq> 0"
    "\<And>r. indices r \<Longrightarrow> length r \<le> 3 \<Longrightarrow> walk m root r = Some t \<Longrightarrow> q = r"
  using assms unfolding tables_def by blast+

lemma tables_cong:
  assumes T: "tables m root pm" and av: "avail_frames pm' \<subseteq> avail_frames pm"
    and w: "\<And>q. indices q \<Longrightarrow> length q \<le> 3 \<Longrightarrow> walk m' root q = walk m root q"
  shows "tables m' root pm'"
  unfolding tables_def
proof (intro conjI allI impI; elim conjE)
  fix q t
  assume q: "indices q" "length q \<le> 3" "walk m' root q = Some t"
  then show "aligned 12 t" "t \<notin> avail_frames pm'" "t \<noteq> 0" using tablesD(1,2,3) [OF T q(1,2)] w [OF q(1,2)] av by auto
next
  fix q r t
  assume q: "indices q" "length q \<le> 3" "walk m' root q = Some t" and r: "indices r" "length r \<le> 3" "walk m' root r = Some t"
  then show "q = r" using tablesD(4) [OF T q(1,2) _ r(1,2)] w [OF q(1,2)] w [OF r(1,2)] by auto
qed

section \<open>Creating a table\<close>

lemma present_frame:
  assumes "aligned 12 a"
  shows "(a OR VMM_PRESENT OR VMM_WRITABLE) AND FRAME_MASK = a"
    "(a OR VMM_PRESENT OR VMM_WRITABLE) AND VMM_PRESENT \<noteq> 0"
proof -
  have high: "12 \<le> n" if "bit a n" for n
    using assms that by (metis aligned_def bit_0_eq bit_take_bit_iff bot_apply bot_bool_def not_less)
  have fm: "FRAME_MASK = NOT (mask 12)" by (simp add: FRAME_MASK_def mask_eq_exp_minus_1)
  have pw: "VMM_PRESENT OR VMM_WRITABLE = mask 2"
    by (simp add: VMM_PRESENT_def VMM_WRITABLE_def mask_eq_exp_minus_1)
  show "(a OR VMM_PRESENT OR VMM_WRITABLE) AND FRAME_MASK = a"
    unfolding fm or.assoc pw by (rule bit_eqI) (auto simp: bit_simps dest: high)
  have "bit ((a OR VMM_PRESENT OR VMM_WRITABLE) AND VMM_PRESENT) 0"
    by (simp add: VMM_PRESENT_def VMM_WRITABLE_def bit_simps)
  then show "(a OR VMM_PRESENT OR VMM_WRITABLE) AND VMM_PRESENT \<noteq> 0" by (metis bit_0_eq bot_apply bot_bool_def)
qed

text \<open>The memory after a fresh table \<open>a\<close> was hooked into entry \<open>i\<close> of the table \<open>t\<close>.\<close>

definition hook :: "u64 \<Rightarrow> u64 \<Rightarrow> u64 \<Rightarrow> mem \<Rightarrow> mem" where
  "hook t i a m = store64 (clear_table a m) (entry_addr t i) (a OR VMM_PRESENT OR VMM_WRITABLE)"

lemma hook_entries:
  assumes T: "tables m root pm" and p: "indices p" "length p < 3" "walk m root p = Some t" and i: "i < 512"
    and a: "a \<in> avail_frames pm" "aligned 12 a"
  shows "\<And>r u j. indices r \<Longrightarrow> length r \<le> 3 \<Longrightarrow> walk m root r = Some u \<Longrightarrow> j < 512 \<Longrightarrow> r \<noteq> p \<or> j \<noteq> i \<Longrightarrow>
      load64 (hook t i a m) (entry_addr u j) = load64 m (entry_addr u j)"
    "load64 (hook t i a m) (entry_addr t i) = a OR VMM_PRESENT OR VMM_WRITABLE"
    "\<And>j. j < 512 \<Longrightarrow> load64 (hook t i a m) (entry_addr a j) = 0"
proof -
  have t: "aligned 12 t" "t \<noteq> a" using tablesD(1,2) [OF T p(1) _ p(3)] p(2) a(1) by auto
  show "load64 (hook t i a m) (entry_addr u j) = load64 m (entry_addr u j)"
    if "indices r" "length r \<le> 3" "walk m root r = Some u" "j < 512" "r \<noteq> p \<or> j \<noteq> i" for r u j
  proof -
    have u: "aligned 12 u" "a \<noteq> u" using tablesD(1,2) [OF T that(1,2,3)] a(1) by auto
    have "\<not> (t = u \<and> i = j)" using tablesD(4) [OF T that(1,2,3) p(1)] p(2,3) that(5) by auto
    then show ?thesis
      unfolding hook_def using entry_store [OF t(1) u(1) i that(4)] clear_table_entry [OF a(2) u(1) that(4)] u(2) by auto
  qed
  show "load64 (hook t i a m) (entry_addr t i) = a OR VMM_PRESENT OR VMM_WRITABLE"
    unfolding hook_def using entry_store [OF t(1) t(1) i i] by simp
  show "load64 (hook t i a m) (entry_addr a j) = 0" if "j < 512" for j
    unfolding hook_def using entry_store [OF t(1) a(2) i that] clear_table_entry [OF a(2) a(2) that] t(2) by simp
qed

lemma hook_walk:
  assumes T: "tables m root pm" and p: "indices p" "length p < 3" "walk m root p = Some t" and i: "i < 512"
    and absent: "load64 m (entry_addr t i) AND VMM_PRESENT = 0" and a: "a \<in> avail_frames pm" "aligned 12 a"
    and q: "indices q" "length q \<le> 3"
  shows "walk (hook t i a m) root q = (if q = p @ [i] then Some a else walk m root q)"
proof -
  note ent = hook_entries [OF T p i a]
  show ?thesis
  proof (cases "\<exists>rest. q = p @ i # rest")
    case False
    have "walk (hook t i a m) root q = walk m root q"
    proof (rule walk_cong)
      fix r j rest u
      assume "q = r @ j # rest" "walk m root r = Some u"
      then show "load64 (hook t i a m) (entry_addr u j) = load64 m (entry_addr u j)"
        using q False by (intro ent(1) [of r u j]) auto
    qed
    then show ?thesis using False by auto
  next
    case True
    then obtain rest where rest: "q = p @ i # rest" by blast
    have "walk (hook t i a m) root p = walk m root p"
      by (rule walk_cong) (use p in \<open>auto intro!: ent(1)\<close>)
    then have "walk (hook t i a m) root q = walk (hook t i a m) a rest"
      using rest ent(2) present_frame [OF a(2)] p(3) by (simp add: walk_append)
    moreover have "walk m root q = None" using rest absent p(3) by (simp add: walk_append)
    moreover have "walk (hook t i a m) a rest = (if rest = [] then Some a else None)"
      using rest q(1) ent(3) by (cases rest) simp_all
    ultimately show ?thesis using rest by simp
  qed
qed

lemma hook_leaf:
  assumes T: "tables m root pm" and p: "indices p" "length p < 3" "walk m root p = Some t" and i: "i < 512"
    and absent: "load64 m (entry_addr t i) AND VMM_PRESENT = 0" and a: "a \<in> avail_frames pm" "aligned 12 a"
    and q: "indices q" "length q = 3" "j < 512"
  shows "leaf (hook t i a m) root q j = leaf m root q j"
proof -
  note ent = hook_entries [OF T p i a]
  have len: "length q \<le> 3" "q \<noteq> p" using q(2) p(2) by auto
  note w = hook_walk [OF T p i absent a q(1) len(1)]
  show ?thesis
  proof (cases "q = p @ [i]")
    case True
    then have "walk m root q = None" using absent p(3) by (simp add: walk_append)
    then show ?thesis using True w ent(3) q(3) by (simp add: leaf_def)
  next
    case False
    then show ?thesis using w ent(1) [OF q(1) len(1) _ q(3)] len(2) by (auto simp: leaf_def split: option.splits)
  qed
qed

lemma hook_tables:
  assumes T: "tables m root pm" and p: "indices p" "length p < 3" "walk m root p = Some t" and i: "i < 512"
    and absent: "load64 m (entry_addr t i) AND VMM_PRESENT = 0" and a: "a \<in> avail_frames pm" "aligned 12 a"
    and pm': "avail_frames pm' = avail_frames pm - {a}"
  shows "tables (hook t i a m) root pm'"
proof -
  note w = hook_walk [OF T p i absent a]
  have na: "walk m root q \<noteq> Some a" if "indices q" "length q \<le> 3" for q
    using tablesD(2) [OF T that] a(1) by blast
  show ?thesis unfolding tables_def
  proof (intro conjI allI impI; elim conjE)
    fix q u
    assume q: "indices q" "length q \<le> 3" "walk (hook t i a m) root q = Some u"
    have "a \<noteq> 0" using a(1) pa.avail_managed pa.managed_frame by blast
    then show "aligned 12 u" "u \<notin> avail_frames pm'" "u \<noteq> 0"
      using w [OF q(1,2)] tablesD(1,2,3) [OF T q(1,2)] q(3) a(2) pm' by (auto split: if_splits)
  next
    fix q r u
    assume q: "indices q" "length q \<le> 3" "walk (hook t i a m) root q = Some u"
      and r: "indices r" "length r \<le> 3" "walk (hook t i a m) root r = Some u"
    show "q = r"
      using q(3) r(3) na [OF q(1,2)] na [OF r(1,2)] tablesD(4) [OF T q(1,2) _ r(1,2)]
      unfolding w [OF q(1,2)] w [OF r(1,2)] by (auto split: if_splits)
  qed
qed

text \<open>What one level of the descent does to the state.\<close>

definition same_leaves :: "vmm \<Rightarrow> vmm \<Rightarrow> bool" where
  "same_leaves s s' \<longleftrightarrow> kernel_pml4 s' = kernel_pml4 s \<and> cr3 s' = cr3 s \<and> tlb_invalidated s' = tlb_invalidated s
     \<and> (\<forall>q j. indices q \<and> length q = 3 \<and> j < 512 \<longrightarrow>
          leaf (vm_mem s') (kernel_pml4 s) q j = leaf (vm_mem s) (kernel_pml4 s) q j)"

lemma same_leaves_refl [simp]: "same_leaves s s"
  by (simp add: same_leaves_def)

lemma same_leaves_trans: "same_leaves s t \<Longrightarrow> same_leaves t u \<Longrightarrow> same_leaves s u"
  by (auto simp: same_leaves_def)

lemma descend_cases:
  assumes inv: "vmm_inv s" and p: "indices p" "length p < 3" "walk (vm_mem s) (kernel_pml4 s) p = Some t"
    and i: "i < 512" and run: "descend t i s = (r, s')"
  obtains (full) "r = None" "s' = s" "avail_frames (vm_pmm s) = {}"
  | (below) t' where "r = Some t'" "vmm_inv s'" "same_leaves s s'"
      "walk (vm_mem s') (kernel_pml4 s) (p @ [i]) = Some t'"
      "avail_frames (vm_pmm s') \<subseteq> avail_frames (vm_pmm s)"
      "card (avail_frames (vm_pmm s)) \<le> Suc (card (avail_frames (vm_pmm s')))"
proof (cases "load64 (vm_mem s) (entry_addr t i) AND VMM_PRESENT = 0")
  case False
  then have "r = Some (load64 (vm_mem s) (entry_addr t i) AND FRAME_MASK)" "s' = s"
    using run by (auto simp: descend_def Let_def)
  moreover have "walk (vm_mem s) (kernel_pml4 s) (p @ [i]) = Some (load64 (vm_mem s) (entry_addr t i) AND FRAME_MASK)"
    using False p(3) by (simp add: walk_append)
  ultimately show ?thesis using below inv by simp
next
  case True
  have T: "tables (vm_mem s) (kernel_pml4 s) (vm_pmm s)" and pi: "pmm_inv (vm_pmm s)" using inv by (simp_all add: vmm_inv_def)
  obtain a pm where al: "pmm_alloc_page (vm_pmm s) = (a, pm)" by fastforce
  show ?thesis
  proof (cases "a = 0")
    case True
    then have "pm = vm_pmm s" "avail_frames (vm_pmm s) = {}" using pa.alloc_none [OF pi] al by auto
    then show ?thesis using full run True al \<open>load64 (vm_mem s) (entry_addr t i) AND VMM_PRESENT = 0\<close>
      by (simp add: descend_def vmm_alloc_page_table_def Let_def)
  next
    case False
    have av: "pmm_inv pm" "a \<in> avail_frames (vm_pmm s)" "avail_frames pm = avail_frames (vm_pmm s) - {a}"
      using pa.alloc_some [OF pi al False] by auto
    have a12: "aligned 12 a" using pa.alloc_frame [OF pi al False] by simp
    have s': "r = Some a" "s' = s\<lparr>vm_pmm := pm, vm_mem := hook t i a (vm_mem s)\<rparr>"
      using run al False True by (auto simp: descend_def vmm_alloc_page_table_def Let_def hook_def)
    note h = hook_tables [OF T p i True av(2) a12 av(3)] hook_walk [OF T p i True av(2) a12, of "p @ [i]"]
      hook_leaf [OF T p i True av(2) a12]
    show ?thesis
    proof (rule below [OF s'(1)])
      show "vmm_inv s'" using s' inv av(1) h(1) by (simp add: vmm_inv_def)
      show "same_leaves s s'" using s' h(3) by (auto simp: same_leaves_def)
      show "walk (vm_mem s') (kernel_pml4 s) (p @ [i]) = Some a" using s' h(2) p i by simp
      show "card (avail_frames (vm_pmm s)) \<le> Suc (card (avail_frames (vm_pmm s')))"
        using s'(2) av(3) by (simp add: card_Diff_singleton_if) arith
    qed (use s'(2) av(3) in auto)
  qed
qed

section \<open>The leaf entry of an address\<close>

text \<open>The three levels as one descent along a path.\<close>

primrec create :: "u64 \<Rightarrow> u64 list \<Rightarrow> vmm \<Rightarrow> u64 option \<times> vmm" where
  "create t [] s = (Some t, s)"
| "create t (i # is) s = (case descend t i s of (None, s) \<Rightarrow> (None, s) | (Some u, s) \<Rightarrow> create u is s)"

lemma get_or_create_eq:
  assumes "kernel_pml4 s \<noteq> 0"
  shows "vmm_get_or_create_entry v f s = (case create (kernel_pml4 s) (vpath v) s of
    (None, s) \<Rightarrow> (0, s) | (Some pt, s) \<Rightarrow> (entry_addr pt (pt_index v), s))"
  using assms by (simp add: vmm_get_or_create_entry_def vpath_def split: prod.splits option.splits)

lemma create_cases:
  assumes "vmm_inv s" "indices (p @ is)" "length (p @ is) \<le> 3" "walk (vm_mem s) (kernel_pml4 s) p = Some t"
    "create t is s = (r, s')"
  shows "vmm_inv s' \<and> same_leaves s s' \<and> (case r of
      None \<Rightarrow> avail_frames (vm_pmm s') = {} \<and> card (avail_frames (vm_pmm s)) < length is
    | Some u \<Rightarrow> walk (vm_mem s') (kernel_pml4 s) (p @ is) = Some u)"
  using assms
proof (induction "is" arbitrary: p t s)
  case Nil
  then have "r = Some t" "s' = s" by simp_all
  then show ?case using Nil by simp
next
  case (Cons i "is")
  obtain o1 s1 where d: "descend t i s = (o1, s1)" by fastforce
  have p: "indices p" "length p < 3" "i < 512" using Cons.prems(2,3) by auto
  from Cons.prems(1) p(1,2) Cons.prems(4) p(3) d show ?case
  proof (cases rule: descend_cases)
    case full
    then show ?thesis using Cons.prems(1,5) d by auto
  next
    case (below u)
    have k: "kernel_pml4 s1 = kernel_pml4 s" using below(3) by (simp add: same_leaves_def)
    have "create u is s1 = (r, s')" using Cons.prems(5) d below(1) by simp
    then have "vmm_inv s' \<and> same_leaves s1 s' \<and> (case r of
        None \<Rightarrow> avail_frames (vm_pmm s') = {} \<and> card (avail_frames (vm_pmm s1)) < length is
      | Some u \<Rightarrow> walk (vm_mem s') (kernel_pml4 s1) ((p @ [i]) @ is) = Some u)"
      using Cons.prems(2,3) below(2,4) k by (intro Cons.IH) auto
    then show ?thesis using below(6) k same_leaves_trans [OF below(3)] by (auto split: option.splits)
  qed
qed

lemma get_or_create_cases:
  assumes inv: "vmm_inv s" and run: "vmm_get_or_create_entry v f s = (e, s')"
  obtains (full) "e = 0" "vmm_inv s'" "same_leaves s s'" "avail_frames (vm_pmm s') = {}"
      "card (avail_frames (vm_pmm s)) < 3"
  | (found) pt where "e = entry_addr pt (pt_index v)" "e \<noteq> 0" "vmm_inv s'" "same_leaves s s'"
      "walk (vm_mem s') (kernel_pml4 s) (vpath v) = Some pt"
proof -
  have r0: "kernel_pml4 s \<noteq> 0" using inv by (simp add: vmm_inv_def)
  obtain r s1 where c: "create (kernel_pml4 s) (vpath v) s = (r, s1)" by fastforce
  have spec: "vmm_inv s1" "same_leaves s s1" "case r of
      None \<Rightarrow> avail_frames (vm_pmm s1) = {} \<and> card (avail_frames (vm_pmm s)) < 3
    | Some u \<Rightarrow> walk (vm_mem s1) (kernel_pml4 s) (vpath v) = Some u"
    using create_cases [OF inv _ _ _ c, of "[]"] by (cases r; simp)+
  show ?thesis
  proof (cases r)
    case None
    then show ?thesis using full run c spec r0 by (simp add: get_or_create_eq)
  next
    case (Some pt)
    then have e: "e = entry_addr pt (pt_index v)" "s' = s1" using run c r0 by (simp_all add: get_or_create_eq)
    have "kernel_pml4 s1 = kernel_pml4 s" using spec(2) by (simp add: same_leaves_def)
    then have pt: "aligned 12 pt" "pt \<noteq> 0"
      using tablesD(1,3) [of "vm_mem s1" "kernel_pml4 s1" "vm_pmm s1" "vpath v" pt] spec(1,3) Some by (auto simp: vmm_inv_def)
    then have "unat (entry_addr pt (pt_index v)) \<noteq> 0"
      using unat_entry [OF pt(1) index_small(4)] by (simp add: unat_eq_zero)
    then have "e \<noteq> 0" using e(1) by auto
    then show ?thesis using found [of pt] e spec Some by simp
  qed
qed

section \<open>Writing a leaf entry\<close>

lemma store_leaf:
  fixes e :: u64
  assumes inv: "vmm_inv s" and w: "walk (vm_mem s) (kernel_pml4 s) p = Some t"
    and p: "indices p" "length p = 3" "i < 512"
  defines "s' \<equiv> s\<lparr>vm_mem := store64 (vm_mem s) (entry_addr t i) e\<rparr>"
  shows "vmm_inv s'"
    "indices q \<Longrightarrow> length q = 3 \<Longrightarrow> j < 512 \<Longrightarrow> leaf (vm_mem s') (kernel_pml4 s) q j =
      (if q = p \<and> j = i then e else leaf (vm_mem s) (kernel_pml4 s) q j)"
proof -
  let ?m = "vm_mem s" and ?r = "kernel_pml4 s"
  have T: "tables ?m ?r (vm_pmm s)" using inv by (simp add: vmm_inv_def)
  note pt = tablesD [OF T p(1) eq_imp_le [OF p(2)] w]
  have ent: "load64 (vm_mem s') (entry_addr u j) = (if q = p \<and> j = i then e else load64 ?m (entry_addr u j))"
    if "indices q" "length q \<le> 3" "j < 512" "walk ?m ?r q = Some u" for q u j
  proof -
    have "t = u \<longleftrightarrow> q = p" using pt(4) [OF that(1,2)] that(4) w by auto
    then show ?thesis using entry_store [OF pt(1) tablesD(1) [OF T that(1,2,4)] p(3) that(3)] by (auto simp: s'_def)
  qed
  have walks: "walk (vm_mem s') ?r q = walk ?m ?r q" if "indices q" "length q \<le> 3" for q
  proof (rule walk_cong)
    fix r j rest u
    assume q: "q = r @ j # rest" "walk ?m ?r r = Some u"
    then have "r \<noteq> p" using that(2) p(2) by auto
    then show "load64 (vm_mem s') (entry_addr u j) = load64 ?m (entry_addr u j)" using ent [of r j u] q that by auto
  qed
  have "tables (vm_mem s') ?r (vm_pmm s)" by (rule tables_cong [OF T order_refl walks])
  then show "vmm_inv s'" using inv by (simp add: vmm_inv_def s'_def)
  show "leaf (vm_mem s') ?r q j = (if q = p \<and> j = i then e else leaf ?m ?r q j)"
    if "indices q" "length q = 3" "j < 512"
    using walks [of q] that ent [of q j] w by (auto simp: leaf_def split: option.splits)
qed

text \<open>Two addresses of the same virtual page: bits 12 to 47 agree.\<close>

definition same_page :: "u64 \<Rightarrow> u64 \<Rightarrow> bool" where
  "same_page v w \<longleftrightarrow> drop_bit 12 (take_bit 48 v) = drop_bit 12 (take_bit 48 w)"

lemma bit_index:
  "bit (pml4_index v) n \<longleftrightarrow> n < 9 \<and> bit v (n + 39)" "bit (pdpt_index v) n \<longleftrightarrow> n < 9 \<and> bit v (n + 30)"
  "bit (pd_index v) n \<longleftrightarrow> n < 9 \<and> bit v (n + 21)" "bit (pt_index v) n \<longleftrightarrow> n < 9 \<and> bit v (n + 12)"
proof -
  have m: "(0x1FF :: u64) = mask 9" by (simp add: mask_eq_exp_minus_1)
  show "bit (pml4_index v) n \<longleftrightarrow> n < 9 \<and> bit v (n + 39)" "bit (pdpt_index v) n \<longleftrightarrow> n < 9 \<and> bit v (n + 30)"
    "bit (pd_index v) n \<longleftrightarrow> n < 9 \<and> bit v (n + 21)" "bit (pt_index v) n \<longleftrightarrow> n < 9 \<and> bit v (n + 12)"
    unfolding pml4_index_def pdpt_index_def pd_index_def pt_index_def m
    by (auto simp: bit_simps add.commute dest: bit_word_less)
qed

lemma same_page_path: "same_page v w \<longleftrightarrow> vpath v = vpath w \<and> pt_index v = pt_index w"
proof
  assume "same_page v w"
  then have eq: "bit (drop_bit 12 (take_bit 48 v)) n = bit (drop_bit 12 (take_bit 48 w)) n" for n
    by (simp add: same_page_def)
  have b: "bit v (n + 12) = bit w (n + 12)" if "n < 36" for n
    using eq [of n] that by (auto simp: bit_simps add.commute)
  have c: "bit v (n + 39) = bit w (n + 39)" "bit v (n + 30) = bit w (n + 30)" "bit v (n + 21) = bit w (n + 21)"
    "bit v (n + 12) = bit w (n + 12)" if "n < 9" for n
    using b [of "n + 27"] b [of "n + 18"] b [of "n + 9"] b [of n] that by (simp_all add: add.assoc)
  have "pml4_index v = pml4_index w" "pdpt_index v = pdpt_index w" "pd_index v = pd_index w" "pt_index v = pt_index w"
    by (rule bit_eqI; use c in \<open>auto simp: bit_index\<close>)+
  then show "vpath v = vpath w \<and> pt_index v = pt_index w" by (simp add: vpath_def)
next
  assume "vpath v = vpath w \<and> pt_index v = pt_index w"
  then have eq: "bit (pml4_index v) n = bit (pml4_index w) n" "bit (pdpt_index v) n = bit (pdpt_index w) n"
    "bit (pd_index v) n = bit (pd_index w) n" "bit (pt_index v) n = bit (pt_index w) n" for n
    by (simp_all add: vpath_def)
  have c: "bit v (n + 39) = bit w (n + 39)" "bit v (n + 30) = bit w (n + 30)" "bit v (n + 21) = bit w (n + 21)"
    "bit v (n + 12) = bit w (n + 12)" if "n < 9" for n
    using eq [of n] that by (auto simp: bit_index)
  have "bit v (n + 12) = bit w (n + 12)" if "n < 36" for n
  proof -
    have "n < 9 \<or> 9 \<le> n \<and> n < 18 \<or> 18 \<le> n \<and> n < 27 \<or> 27 \<le> n" using that by linarith
    then show ?thesis
      using that c(4) [of n] c(3) [of "n - 9"] c(2) [of "n - 18"] c(1) [of "n - 27"]
      by (elim disjE) (auto simp: add.commute)
  qed
  then show "same_page v w"
    unfolding same_page_def by (intro bit_eqI) (auto simp: bit_simps add.commute)
qed

text \<open>Setting the entry of one page, with the flush, as mapping and unmapping do it.\<close>

lemma set_leaf_spec:
  fixes e :: u64
  assumes inv: "vmm_inv s" and g: "vmm_get_or_create_entry v f s = (en, s1)"
  defines "s' \<equiv> if en = 0 then s1 else vmm_invalidate_tlb v (s1\<lparr>vm_mem := store64 (vm_mem s1) en e\<rparr>)"
  shows "vmm_inv s'" "kernel_pml4 s' = kernel_pml4 s" "cr3 s' = cr3 s"
    "if en = 0 then avail_frames (vm_pmm s') = {} \<and> card (avail_frames (vm_pmm s)) < 3
        \<and> (\<forall>w. vmm_get_physical w s' = vmm_get_physical w s)
      else hd (tlb_invalidated s') = v
        \<and> (\<forall>w. vmm_get_physical w s' = (if same_page v w then translate e w else vmm_get_physical w s))"
proof -
  have k0: "kernel_pml4 s \<noteq> 0" using inv by (simp add: vmm_inv_def)
  have "vmm_inv s' \<and> kernel_pml4 s' = kernel_pml4 s \<and> cr3 s' = cr3 s
    \<and> (if en = 0 then avail_frames (vm_pmm s') = {} \<and> card (avail_frames (vm_pmm s)) < 3
        \<and> (\<forall>w. vmm_get_physical w s' = vmm_get_physical w s)
      else hd (tlb_invalidated s') = v
        \<and> (\<forall>w. vmm_get_physical w s' = (if same_page v w then translate e w else vmm_get_physical w s)))"
    using inv g
  proof (cases rule: get_or_create_cases)
    case full
    have "vmm_get_physical w s1 = vmm_get_physical w s" for w
      using full(3) k0 index_small(4) [of w] by (simp add: vmm_get_physical_leaf same_leaves_def)
    then show ?thesis using full by (simp add: s'_def same_leaves_def)
  next
    case (found pt)
    have k: "kernel_pml4 s1 = kernel_pml4 s" "cr3 s1 = cr3 s" using found(4) by (simp_all add: same_leaves_def)
    note st = store_leaf [OF found(3) found(5) [folded k(1)] vpath_ok index_small(4) [of v], where e = e, folded found(1)]
    have lf: "leaf (vm_mem s1) (kernel_pml4 s) (vpath w) (pt_index w) = leaf (vm_mem s) (kernel_pml4 s) (vpath w) (pt_index w)" for w
      using found(4) index_small(4) [of w] by (simp add: same_leaves_def)
    have "vmm_get_physical w s' = (if same_page v w then translate e w else vmm_get_physical w s)" for w
      using st(2) [of "vpath w" "pt_index w"] index_small(4) [of w] k k0 lf [of w] found(2)
      by (simp add: vmm_get_physical_leaf s'_def vmm_invalidate_tlb_def same_page_path eq_commute [of "vpath w"] eq_commute [of "pt_index w"])
    moreover have "vmm_inv s'" using st(1) found(2) by (simp add: s'_def vmm_invalidate_tlb_def vmm_inv_def)
    ultimately show ?thesis using found(2) k by (simp add: s'_def vmm_invalidate_tlb_def)
  qed
  then show "vmm_inv s'" "kernel_pml4 s' = kernel_pml4 s" "cr3 s' = cr3 s"
    "if en = 0 then avail_frames (vm_pmm s') = {} \<and> card (avail_frames (vm_pmm s)) < 3
        \<and> (\<forall>w. vmm_get_physical w s' = vmm_get_physical w s)
      else hd (tlb_invalidated s') = v
        \<and> (\<forall>w. vmm_get_physical w s' = (if same_page v w then translate e w else vmm_get_physical w s))"
    by blast+
qed

section \<open>Address spaces\<close>

lemma copy_upper_entry:
  assumes "aligned 12 new" "aligned 12 old" "new \<noteq> old" "aligned 12 u" "j < 512"
  shows "load64 (copy_upper_half new old m) (entry_addr u j) =
    (if u = new \<and> 256 \<le> j then load64 m (entry_addr old j) else load64 m (entry_addr u j))"
proof -
  define f where "f = (\<lambda>i m. store64 m (entry_addr new (of_nat i)) (load64 m (entry_addr old (of_nat i))))"
  have step: "load64 (fold f [256..<n] m) (entry_addr w k) =
      (if w = new \<and> 256 \<le> unat k \<and> unat k < n then load64 m (entry_addr old k) else load64 m (entry_addr w k))"
    if "n \<le> 512" "aligned 12 w" "k < 512" for n w k
    using that
  proof (induction n arbitrary: w k)
    case (Suc n)
    show ?case
    proof (cases "n < 256")
      case False
      define m1 where "m1 = fold f [256..<n] m"
      have n: "(of_nat n :: u64) < 512" "unat (of_nat n :: u64) = n"
        using Suc.prems(1) by (simp_all add: word_nat unat_of_nat)
      have k: "of_nat n = k \<longleftrightarrow> unat k = n" using n(2) by (auto simp: word_unat_eq_iff)
      have "load64 m1 (entry_addr old (of_nat n)) = load64 m (entry_addr old (of_nat n))"
        using Suc.IH [of old "of_nat n"] Suc.prems(1) assms(2,3) n(1) by (simp add: m1_def)
      then have "fold f [256..<Suc n] m = store64 m1 (entry_addr new (of_nat n)) (load64 m (entry_addr old (of_nat n)))"
        using False by (simp add: m1_def f_def)
      then have "load64 (fold f [256..<Suc n] m) (entry_addr w k) =
          (if new = w \<and> unat k = n then load64 m (entry_addr old k) else load64 m1 (entry_addr w k))"
        using entry_store [OF assms(1) Suc.prems(2) n(1) Suc.prems(3)] k by auto
      also have "load64 m1 (entry_addr w k) =
          (if w = new \<and> 256 \<le> unat k \<and> unat k < n then load64 m (entry_addr old k) else load64 m (entry_addr w k))"
        using Suc.IH [of w k] Suc.prems by (simp add: m1_def)
      finally show ?thesis using False by (auto simp: less_Suc_eq)
    qed auto
  qed simp
  show ?thesis
    unfolding copy_upper_half_def f_def [symmetric] using step [of 512 u j] assms(4,5) by (simp add: word_nat)
qed

lemma clear_lower_entry:
  assumes "aligned 12 t" "aligned 12 u" "j < 512" "u \<noteq> t"
  shows "load64 (clear_lower_half t m) (entry_addr u j) = load64 m (entry_addr u j)"
proof -
  have "load64 (fold (\<lambda>i m. if load64 m (entry_addr t (of_nat i)) AND VMM_PRESENT \<noteq> 0
      then store64 m (entry_addr t (of_nat i)) 0 else m) ns m) (entry_addr u j) = load64 m (entry_addr u j)"
    if "set ns \<subseteq> {..<256}" for ns
    using that
  proof (induction ns arbitrary: m)
    case (Cons n ns)
    then have "(of_nat n :: u64) < 512" by (simp add: word_nat unat_of_nat)
    then show ?case using Cons entry_store [OF assms(1,2) _ assms(3), of "of_nat n"] assms(4) by simp
  qed simp
  then show ?thesis unfolding clear_lower_half_def by (simp add: atLeast0LessThan)
qed

text \<open>A write to a frame that is no table of the tree leaves every translation alone.\<close>

lemma tables_frame:
  assumes T: "tables m root pm" and a: "\<And>q. indices q \<Longrightarrow> length q \<le> 3 \<Longrightarrow> walk m root q \<noteq> Some a"
    and same: "\<And>u j. aligned 12 u \<Longrightarrow> u \<noteq> a \<Longrightarrow> j < 512 \<Longrightarrow> load64 m' (entry_addr u j) = load64 m (entry_addr u j)"
  shows "indices q \<Longrightarrow> length q \<le> 3 \<Longrightarrow> walk m' root q = walk m root q"
    "indices q \<Longrightarrow> length q = 3 \<Longrightarrow> j < 512 \<Longrightarrow> leaf m' root q j = leaf m root q j"
proof -
  have ent: "load64 m' (entry_addr u j) = load64 m (entry_addr u j)"
    if "indices r" "length r \<le> 3" "walk m root r = Some u" "j < 512" for r u j
    using same [of u j] tablesD(1) [OF T that(1,2,3)] a [OF that(1,2)] that by auto
  have w: "walk m' root q = walk m root q" if "indices q" "length q \<le> 3" for q
    by (rule walk_cong) (use that ent in auto)
  then show "indices q \<Longrightarrow> length q \<le> 3 \<Longrightarrow> walk m' root q = walk m root q" .
  show "indices q \<Longrightarrow> length q = 3 \<Longrightarrow> j < 512 \<Longrightarrow> leaf m' root q j = leaf m root q j"
    using w [of q] ent [of q] by (auto simp: leaf_def split: option.splits)
qed

lemma frame_write:
  assumes inv: "vmm_inv s" and a: "a \<in> avail_frames (vm_pmm s)" and pm: "pmm_inv pm" "avail_frames pm \<subseteq> avail_frames (vm_pmm s)"
    and same: "\<And>u j. aligned 12 u \<Longrightarrow> u \<noteq> a \<Longrightarrow> j < 512 \<Longrightarrow> load64 m (entry_addr u j) = load64 (vm_mem s) (entry_addr u j)"
  shows "vmm_inv (s\<lparr>vm_pmm := pm, vm_mem := m\<rparr>)"
    "vmm_get_physical v (s\<lparr>vm_pmm := pm, vm_mem := m\<rparr>) = vmm_get_physical v s"
proof -
  have T: "tables (vm_mem s) (kernel_pml4 s) (vm_pmm s)" and k: "kernel_pml4 s \<noteq> 0" using inv by (simp_all add: vmm_inv_def)
  have "walk (vm_mem s) (kernel_pml4 s) q \<noteq> Some a" if "indices q" "length q \<le> 3" for q
    using tablesD(2) [OF T that] a by blast
  note fr = tables_frame [OF T this same]
  have "tables m (kernel_pml4 s) pm" by (rule tables_cong [OF T pm(2) fr(1)])
  then show "vmm_inv (s\<lparr>vm_pmm := pm, vm_mem := m\<rparr>)" using k pm(1) by (simp add: vmm_inv_def)
  show "vmm_get_physical v (s\<lparr>vm_pmm := pm, vm_mem := m\<rparr>) = vmm_get_physical v s"
    using fr(2) [of "vpath v" "pt_index v"] k index_small(4) [of v] by (simp add: vmm_get_physical_leaf)
qed

lemma fresh_root_tables:
  assumes "aligned 12 a" "a \<noteq> 0" "a \<notin> avail_frames pm"
  shows "tables (clear_table a m) a pm" "\<And>q j. leaf (clear_table a m) a (i # q) j = 0 \<or> \<not> indices (i # q)"
proof -
  have w: "walk (clear_table a m) a q = (if q = [] then Some a else None)" if "indices q" for q
    using that clear_table_entry [OF assms(1,1)] by (cases q) auto
  then show "tables (clear_table a m) a pm" using assms by (auto simp: tables_def split: if_splits)
  show "leaf (clear_table a m) a (i # q) j = 0 \<or> \<not> indices (i # q)" for q j using w [of "i # q"] by (auto simp: leaf_def)
qed

lemma vmm_init_fresh:
  assumes "cr3 s = 0" "pmm_inv (vm_pmm s)" "pmm_alloc_page (vm_pmm s) = (a, pm)" "a \<noteq> 0"
  shows "\<exists>s'. vmm_init s = Some s' \<and> vmm_inv s' \<and> kernel_pml4 s' = a \<and> cr3 s' = a \<and> vm_pmm s' = pm
    \<and> (\<forall>v. vmm_get_physical v s' = 0)"
proof -
  note al = pa.alloc_some [OF assms(2,3,4)] pa.alloc_frame [OF assms(2,3,4)]
  note t = fresh_root_tables [of a pm "vm_mem s"]
  let ?s = "s\<lparr>kernel_pml4 := a, vm_pmm := pm, vm_mem := clear_table a (vm_mem s), cr3 := a\<rparr>"
  have "vmm_init s = Some ?s" using assms by (simp add: vmm_init_def vmm_get_cr3_def vmm_set_cr3_def Let_def)
  moreover have "vmm_inv ?s" using al t(1) assms(4) by (simp add: vmm_inv_def)
  moreover have "vmm_get_physical v ?s = 0" for v
    using t(2) [of "pml4_index v" "[pdpt_index v, pd_index v]" "pt_index v"] al assms(4) index_small
    by (simp add: vmm_get_physical_leaf vpath_def translate_def)
  ultimately show ?thesis by auto
qed

section \<open>Properties\<close>

text \<open>
  \<open>vmm_init\<close> keeps the table the processor already uses when CR3 is set; when it is zero it installs a
  fresh table in which no address is mapped and loads it into CR3, and it halts exactly when no frame is left
  for that table.
\<close>

theorem vmm_init_installs_tables:
  assumes "pmm_inv (vm_pmm s)"
  shows "(cr3 s \<noteq> 0 \<longrightarrow> vmm_init s = Some (s\<lparr>kernel_pml4 := cr3 s\<rparr>))
    \<and> (cr3 s = 0 \<longrightarrow> (vmm_init s = None \<longleftrightarrow> avail_frames (vm_pmm s) = {}))
    \<and> (cr3 s = 0 \<longrightarrow> (\<forall>s'. vmm_init s = Some s' \<longrightarrow>
          vmm_inv s' \<and> cr3 s' = vmm_get_kernel_pml4 s' \<and> (\<forall>v. vmm_get_physical v s' = 0)))"
proof -
  obtain a pm where al: "pmm_alloc_page (vm_pmm s) = (a, pm)" by fastforce
  have "vmm_init s = Some (s\<lparr>kernel_pml4 := cr3 s\<rparr>)" if "cr3 s \<noteq> 0"
    using that by (simp add: vmm_init_def vmm_get_cr3_def Let_def)
  moreover have "vmm_init s = None \<and> avail_frames (vm_pmm s) = {}" if "cr3 s = 0" "a = 0"
    using that al pa.alloc_none [OF assms] by (simp add: vmm_init_def vmm_get_cr3_def Let_def)
  moreover have "avail_frames (vm_pmm s) \<noteq> {}" if "a \<noteq> 0" using pa.alloc_some [OF assms al that] by auto
  ultimately show ?thesis using vmm_init_fresh [OF _ assms al]
    by (cases "a = 0") (auto simp: vmm_get_kernel_pml4_def)
qed

definition vmm_boot :: vmm where
  "vmm_boot = \<lparr>vm_mem = (\<lambda>_. 0), vm_pmm = pmm_all_free, kernel_pml4 = 0, cr3 = 0, tlb_invalidated = []\<rparr>"

lemma alloc_all_free: "pmm_alloc_page pmm_all_free = (0x200000, claim_page 512 pmm_all_free)"
proof -
  have "\<not> bitmap_test 512 pmm_all_free" by (simp add: bitmap_test_iff free_pages_all_free)
  then show ?thesis by (simp add: pmm_alloc_page_def alloc_page_loop.simps)
qed

theorem vmm_init_installs_tables_witness:
  "\<exists>s'. vmm_init vmm_boot = Some s' \<and> cr3 s' = kernel_pml4 s' \<and> vmm_get_physical 0x1234 s' = 0"
proof -
  have "vmm_init vmm_boot \<noteq> None"
    using alloc_all_free by (simp add: vmm_init_def vmm_boot_def vmm_get_cr3_def Let_def)
  then show ?thesis using vmm_init_installs_tables [of vmm_boot] pmm_inv_all_free
    by (auto simp: vmm_boot_def vmm_get_kernel_pml4_def)
qed

text \<open>
  C10: \<open>vmm_map_page\<close> with flags below bit 12 maps exactly one page: afterwards every address of that page
  translates to the same offset of the physical frame, every other address translates as before, the tables
  stay a tree and the page is flushed from the TLB. It takes effect whenever three frames are left for
  intermediate tables; if it runs out of frames, no translation changes.
\<close>

theorem vmm_map_page_maps_one_page:
  assumes "vmm_inv s" "unat flags < 4096"
  shows "let s' = vmm_map_page v phys flags s;
             mapped = (hd (tlb_invalidated s') = v \<and> (\<forall>w. vmm_get_physical w s' =
               (if same_page v w then (phys AND FRAME_MASK) OR (w AND 0xFFF) else vmm_get_physical w s)))
    in vmm_inv s' \<and> (mapped \<or> avail_frames (vm_pmm s') = {} \<and> (\<forall>w. vmm_get_physical w s' = vmm_get_physical w s))
      \<and> (3 \<le> card (avail_frames (vm_pmm s)) \<longrightarrow> mapped)"
proof -
  obtain en s1 where g: "vmm_get_or_create_entry v flags s = (en, s1)" by fastforce
  let ?e = "(phys AND FRAME_MASK) OR flags OR VMM_PRESENT"
  note st = set_leaf_spec [OF assms(1) g, where e = ?e]
  have fm: "FRAME_MASK = NOT (mask 12)" by (simp add: FRAME_MASK_def mask_eq_exp_minus_1)
  have fl: "flags AND NOT (mask 12) = 0"
    using unat_and_not_mask [of 12 flags] assms(2) by (simp add: unat_eq_zero [symmetric] del: unat_eq_zero)
  have low: "n < 12" if "bit flags n" for n
  proof (rule ccontr)
    assume "\<not> n < 12"
    then have "bit (flags AND NOT (mask 12)) n" using that by (auto simp: bit_simps dest: bit_word_less)
    then show False using fl by simp
  qed
  have "?e AND FRAME_MASK = phys AND FRAME_MASK"
    unfolding fm VMM_PRESENT_def by (rule bit_eqI) (auto simp: bit_simps dest: low)
  moreover have "?e AND VMM_PRESENT = VMM_PRESENT" by (simp add: bit.conj_disj_distrib2 VMM_PRESENT_def)
  ultimately have tr: "translate ?e w = (phys AND FRAME_MASK) OR (w AND 0xFFF)" for w
    by (simp add: translate_def VMM_PRESENT_def)
  have "vmm_map_page v phys flags s = (if en = 0 then s1
      else vmm_invalidate_tlb v (s1\<lparr>vm_mem := store64 (vm_mem s1) en ?e\<rparr>))"
    using g by (simp add: vmm_map_page_def)
  then show ?thesis using st unfolding tr by (auto simp: Let_def split: if_splits)
qed

lemma vmm_boot_ready:
  obtains s where "vmm_init vmm_boot = Some s" "vmm_inv s" "\<And>v. vmm_get_physical v s = 0"
    "3 \<le> card (avail_frames (vm_pmm s))"
proof -
  note al = alloc_all_free
  obtain s where s: "vmm_init vmm_boot = Some s" "vmm_inv s" "vm_pmm s = claim_page 512 pmm_all_free"
    "\<And>v. vmm_get_physical v s = 0"
    using vmm_init_fresh [of vmm_boot "0x200000"] al pmm_inv_all_free by (auto simp: vmm_boot_def)
  have av: "avail_frames (vm_pmm s) = avail_frames pmm_all_free - {0x200000}"
    using pa.alloc_some [OF pmm_inv_all_free al] s(3) by simp
  have "{0x201000, 0x202000, 0x203000} \<subseteq> avail_frames (vm_pmm s)"
    unfolding av by (simp add: avail_frames_def managed_frames_def free_pages_all_free aligned_unat)
  then have "card {0x201000, 0x202000, 0x203000 :: u64} \<le> card (avail_frames (vm_pmm s))"
    by (intro card_mono) simp_all
  then show ?thesis using that s by simp
qed

theorem vmm_map_page_maps_one_page_witness:
  "\<exists>s. let s' = vmm_map_page 0x40000000 0x300000 VMM_WRITABLE s in
    vmm_get_physical 0x40000ABC s = 0 \<and> vmm_get_physical 0x40000ABC s' = 0x300ABC \<and> vmm_get_physical 0x40001ABC s' = 0"
proof -
  obtain s where s: "vmm_inv s" "\<And>v. vmm_get_physical v s = 0" "3 \<le> card (avail_frames (vm_pmm s))"
    by (rule vmm_boot_ready) blast
  have pages: "same_page 0x40000000 0x40000ABC" "\<not> same_page 0x40000000 0x40001ABC"
    by (simp_all add: same_page_def)
  have "vmm_get_physical w (vmm_map_page 0x40000000 0x300000 VMM_WRITABLE s) =
      (if same_page 0x40000000 w then (0x300000 AND FRAME_MASK) OR (w AND 0xFFF) else 0)" for w
    using vmm_map_page_maps_one_page [OF s(1), of VMM_WRITABLE "0x40000000" "0x300000"] s(2,3)
    by (simp add: Let_def VMM_WRITABLE_def)
  then show ?thesis using s(2) pages by (intro exI [of _ s]) (simp add: FRAME_MASK_def Let_def)
qed

text \<open>
  \<open>vmm_unmap_page\<close> removes exactly one page: unless it runs out of frames for intermediate tables (it
  creates them even for an address that was never mapped), afterwards no address of that page translates and
  every other address translates as before.
\<close>

theorem vmm_unmap_page_unmaps_one_page:
  assumes "vmm_inv s"
  shows "let s' = vmm_unmap_page v s;
             unmapped = (hd (tlb_invalidated s') = v
               \<and> (\<forall>w. vmm_get_physical w s' = (if same_page v w then 0 else vmm_get_physical w s)))
    in vmm_inv s' \<and> (unmapped \<or> avail_frames (vm_pmm s') = {} \<and> (\<forall>w. vmm_get_physical w s' = vmm_get_physical w s))
      \<and> (3 \<le> card (avail_frames (vm_pmm s)) \<longrightarrow> unmapped)"
proof -
  obtain en s1 where g: "vmm_get_or_create_entry v 0 s = (en, s1)" by fastforce
  note st = set_leaf_spec [OF assms g, where e = 0]
  have tr: "translate 0 w = 0" for w by (simp add: translate_def)
  have "vmm_unmap_page v s = (if en = 0 then s1
      else vmm_invalidate_tlb v (s1\<lparr>vm_mem := store64 (vm_mem s1) en 0\<rparr>))"
    using g by (simp add: vmm_unmap_page_def)
  then show ?thesis using st unfolding tr by (auto simp: Let_def split: if_splits)
qed

theorem vmm_unmap_page_unmaps_one_page_witness:
  "\<exists>s. vmm_inv s \<and> vmm_get_physical 0x5008 (vmm_unmap_page 0x5000 s) = 0"
proof -
  obtain s where s: "vmm_inv s" "3 \<le> card (avail_frames (vm_pmm s))"
    by (rule vmm_boot_ready) blast
  have "same_page 0x5000 0x5008" by (simp add: same_page_def)
  moreover have "\<forall>w. vmm_get_physical w (vmm_unmap_page 0x5000 s) = (if same_page 0x5000 w then 0 else vmm_get_physical w s)"
    using vmm_unmap_page_unmaps_one_page [OF s(1), of "0x5000"] s(2) by (simp add: Let_def)
  ultimately show ?thesis using s(1) by (intro exI [of _ s]) simp
qed

text \<open>
  mapping a page with the no-execute flag corrupts the address \<open>vmm_get_physical\<close> reports: the mask
  \<open>~0xFFF\<close> keeps bit 63 of the entry, so the flag comes back as part of the physical address.
\<close>

theorem vmm_nx_flag_leaks_into_address:
  assumes "vmm_inv s" "3 \<le> card (avail_frames (vm_pmm s))"
  shows "vmm_get_physical v (vmm_map_page v phys (VMM_WRITABLE OR VMM_NX) s) AND VMM_NX = VMM_NX"
proof -
  let ?f = "VMM_WRITABLE OR VMM_NX" and ?e = "(phys AND FRAME_MASK) OR (VMM_WRITABLE OR VMM_NX) OR VMM_PRESENT"
  obtain en s1 where g: "vmm_get_or_create_entry v ?f s = (en, s1)" by fastforce
  note st = set_leaf_spec [OF assms(1) g, where e = ?e]
  have "en \<noteq> 0" using st(4) assms(2) by (auto split: if_splits)
  then have "vmm_get_physical v (vmm_map_page v phys ?f s) = translate ?e v"
    using st(4) g by (simp add: vmm_map_page_def same_page_def)
  moreover have "?e AND VMM_PRESENT = VMM_PRESENT" by (simp add: bit.conj_disj_distrib2 VMM_PRESENT_def)
  then have "translate ?e v = (?e AND FRAME_MASK) OR (v AND 0xFFF)" by (simp add: translate_def VMM_PRESENT_def)
  moreover have "((?e AND FRAME_MASK) OR (v AND 0xFFF)) AND VMM_NX = VMM_NX"
  proof -
    have fm: "FRAME_MASK = NOT (mask 12)" by (simp add: FRAME_MASK_def mask_eq_exp_minus_1)
    have "bit VMM_NX 63" by (simp add: VMM_NX_def)
    then have "bit ((?e AND FRAME_MASK) OR (v AND 0xFFF)) 63" by (simp add: fm bit_simps)
    then show ?thesis unfolding VMM_NX_def by (rule and_single_bit)
  qed
  ultimately show ?thesis by simp
qed

theorem vmm_nx_flag_leaks_into_address_witness:
  "\<exists>s. vmm_inv s \<and> vmm_get_physical 0x5000 (vmm_map_page 0x5000 0x300000 (VMM_WRITABLE OR VMM_NX) s) AND VMM_NX = VMM_NX"
proof -
  obtain s where s: "vmm_inv s" "3 \<le> card (avail_frames (vm_pmm s))" by (rule vmm_boot_ready) blast
  then show ?thesis using vmm_nx_flag_leaks_into_address [OF s, of "0x5000" "0x300000"] by blast
qed

text \<open>
  \<open>vmm_create_address_space\<close> takes one frame and makes it a top-level table with an empty lower half and the
  kernel's entries in the upper half; destroying it again gives the frame back. Neither changes any translation
  of the kernel's tables.
\<close>

theorem vmm_address_space_round_trip:
  assumes inv: "vmm_inv s" and run: "vmm_create_address_space s = (a, s')" "a \<noteq> NULL"
  shows "(\<forall>j < 512. load64 (vm_mem s') (entry_addr a j) =
        (if 256 \<le> j then load64 (vm_mem s) (entry_addr (kernel_pml4 s) j) else 0))
    \<and> vmm_inv s' \<and> (\<forall>v. vmm_get_physical v s' = vmm_get_physical v s)
    \<and> avail_frames (vm_pmm s') = avail_frames (vm_pmm s) - {a}
    \<and> (let s'' = vmm_destroy_address_space a s' in vmm_inv s'' \<and> (\<forall>v. vmm_get_physical v s'' = vmm_get_physical v s)
        \<and> avail_frames (vm_pmm s'') = avail_frames (vm_pmm s))"
proof -
  let ?k = "kernel_pml4 s" and ?m = "vm_mem s"
  have pi: "pmm_inv (vm_pmm s)" and k0: "?k \<noteq> 0" and T: "tables ?m ?k (vm_pmm s)" using inv by (simp_all add: vmm_inv_def)
  obtain pm where al: "pmm_alloc_page (vm_pmm s) = (a, pm)"
    and s': "s' = s\<lparr>vm_pmm := pm, vm_mem := copy_upper_half a ?k (clear_table a ?m)\<rparr>"
    using run k0 by (auto simp: vmm_create_address_space_def Let_def split: prod.splits if_splits)
  note av = pa.alloc_some [OF pi al run(2)]
  have a12: "aligned 12 a" and man: "a \<in> managed_frames"
    using pa.alloc_frame [OF pi al run(2)] av pa.avail_managed by auto
  have k: "aligned 12 ?k" "a \<noteq> ?k" using tablesD(1,2) [OF T, of "[]"] av by auto
  have ent: "load64 (vm_mem s') (entry_addr u j) =
      (if u = a then if 256 \<le> j then load64 ?m (entry_addr ?k j) else 0 else load64 ?m (entry_addr u j))"
    if "aligned 12 u" "j < 512" for u j
    using copy_upper_entry [OF a12 k that, of "clear_table a ?m"] clear_table_entry [OF a12 k(1) that(2)]
      clear_table_entry [OF a12 that] k(2) s' by auto
  have same: "load64 (vm_mem s') (entry_addr u j) = load64 ?m (entry_addr u j)" if "aligned 12 u" "u \<noteq> a" "j < 512" for u j
    using ent that by simp
  have "load64 (vm_mem s') (entry_addr u j) = load64 ?m (entry_addr u j) \<Longrightarrow>
      load64 (clear_lower_half a (vm_mem s')) (entry_addr u j) = load64 ?m (entry_addr u j)"
    if "aligned 12 u" "u \<noteq> a" "j < 512" for u j
    using clear_lower_entry [OF a12 that(1,3,2)] by simp
  with same have same2: "load64 (clear_lower_half a (vm_mem s')) (entry_addr u j) = load64 ?m (entry_addr u j)"
    if "aligned 12 u" "u \<noteq> a" "j < 512" for u j using that by blast
  have rel: "pmm_inv (pmm_free_page a pm)" "avail_frames (pmm_free_page a pm) = avail_frames (vm_pmm s)"
    using pa.release_page [of pm a] av man by auto
  have d: "vmm_destroy_address_space a s' = s\<lparr>vm_pmm := pmm_free_page a pm, vm_mem := clear_lower_half a (vm_mem s')\<rparr>"
    using s' run(2) by (simp add: vmm_destroy_address_space_def)
  have s2: "s\<lparr>vm_pmm := pm, vm_mem := vm_mem s'\<rparr> = s'" using s' by simp
  have av': "a \<in> avail_frames (vm_pmm s)" "pmm_inv pm" "avail_frames pm \<subseteq> avail_frames (vm_pmm s)" using av by auto
  note f1 = frame_write [OF inv av' same, unfolded s2]
  note f2 = frame_write [OF inv av'(1) rel(1) eq_refl [OF rel(2)] same2, folded d]
  show ?thesis using f1 f2 ent [OF a12] av rel(2) d s' by (simp add: Let_def)
qed

theorem vmm_address_space_round_trip_witness:
  "\<exists>s a s'. vmm_create_address_space s = (a, s') \<and> a \<noteq> NULL
    \<and> avail_frames (vm_pmm (vmm_destroy_address_space a s')) = avail_frames (vm_pmm s)"
proof -
  obtain s where s: "vmm_inv s" "3 \<le> card (avail_frames (vm_pmm s))" by (rule vmm_boot_ready) blast
  obtain a pm where al: "pmm_alloc_page (vm_pmm s) = (a, pm)" by fastforce
  have "a \<noteq> 0" using pa.alloc_none [of "vm_pmm s"] al s by (auto simp: vmm_inv_def)
  then obtain s' where run: "vmm_create_address_space s = (a, s')" using al by (simp add: vmm_create_address_space_def Let_def)
  then have "avail_frames (vm_pmm (vmm_destroy_address_space a s')) = avail_frames (vm_pmm s)"
    using vmm_address_space_round_trip [OF s(1) run \<open>a \<noteq> 0\<close>] by (simp add: Let_def)
  then show ?thesis using run \<open>a \<noteq> 0\<close> by blast
qed

end
