(* ===== verification/Pci.thy ===== *)
theory Pci
  imports Prelude
begin

text \<open>
  Port accesses of every width, \<open>src/kernel/io.h\<close>, and the PCI bus driver that uses them, \<open>src/kernel/pci.h\<close>. What a
  device answers to a read may depend on everything done to it before, so the answer is a parameter: a function of the
  list of port accesses so far, newest first, the read itself at its head.
\<close>

section \<open>Wide ports\<close>

datatype port_event = In8 u16 | In16 u16 | In32 u16 | Out8 u16 u8 | Out16 u16 u16 | Out32 u16 u32

record bus =
  answers :: "port_event list \<Rightarrow> u32"
  events :: "port_event list"

definition access :: "port_event \<Rightarrow> bus \<Rightarrow> bus" where
  "access ev b = b\<lparr>events := ev # events b\<rparr>"

definition bus_inb :: "u16 \<Rightarrow> bus \<Rightarrow> u8 \<times> bus" where
  "bus_inb port b = (ucast (answers b (In8 port # events b)), access (In8 port) b)"

definition inw :: "u16 \<Rightarrow> bus \<Rightarrow> u16 \<times> bus" where
  "inw port b = (ucast (answers b (In16 port # events b)), access (In16 port) b)"

definition inl :: "u16 \<Rightarrow> bus \<Rightarrow> u32 \<times> bus" where
  "inl port b = (answers b (In32 port # events b), access (In32 port) b)"

definition bus_outb :: "u16 \<Rightarrow> u8 \<Rightarrow> bus \<Rightarrow> bus" where
  "bus_outb port v b = access (Out8 port v) b"

definition outw :: "u16 \<Rightarrow> u16 \<Rightarrow> bus \<Rightarrow> bus" where
  "outw port v b = access (Out16 port v) b"

definition outl :: "u16 \<Rightarrow> u32 \<Rightarrow> bus \<Rightarrow> bus" where
  "outl port v b = access (Out32 port v) b"

definition bus_io_wait :: "bus \<Rightarrow> bus" where
  "bus_io_wait b = bus_outb 0x80 0 b"

section \<open>Configuration space\<close>

definition PCI_CONFIG_ADDR :: u16 where "PCI_CONFIG_ADDR = 0xCF8"
definition PCI_CONFIG_DATA :: u16 where "PCI_CONFIG_DATA = 0xCFC"
definition PCI_VENDOR_ID :: u8 where "PCI_VENDOR_ID = 0x00"
definition PCI_DEVICE_ID :: u8 where "PCI_DEVICE_ID = 0x02"
definition PCI_COMMAND :: u8 where "PCI_COMMAND = 0x04"
definition PCI_REVISION_ID :: u8 where "PCI_REVISION_ID = 0x08"
definition PCI_PROG_IF :: u8 where "PCI_PROG_IF = 0x09"
definition PCI_SUBCLASS :: u8 where "PCI_SUBCLASS = 0x0A"
definition PCI_CLASS :: u8 where "PCI_CLASS = 0x0B"
definition PCI_HEADER_TYPE :: u8 where "PCI_HEADER_TYPE = 0x0E"
definition PCI_BAR0 :: u8 where "PCI_BAR0 = 0x10"
definition PCI_INTERRUPT_LINE :: u8 where "PCI_INTERRUPT_LINE = 0x3C"
definition PCI_INTERRUPT_PIN :: u8 where "PCI_INTERRUPT_PIN = 0x3D"
definition PCI_COMMAND_IO :: u16 where "PCI_COMMAND_IO = 1"
definition PCI_COMMAND_MEMORY :: u16 where "PCI_COMMAND_MEMORY = 2"
definition PCI_COMMAND_MASTER :: u16 where "PCI_COMMAND_MASTER = 4"
definition PCI_MAX_DEVICES :: nat where "PCI_MAX_DEVICES = 32"

definition pci_address :: "u8 \<Rightarrow> u8 \<Rightarrow> u8 \<Rightarrow> u8 \<Rightarrow> u32" where
  "pci_address bus device func offset =
     push_bit 31 1 OR push_bit 16 (ucast bus) OR push_bit 11 (ucast (device AND 0x1F))
     OR push_bit 8 (ucast (func AND 0x07)) OR ucast (offset AND 0xFC)"

definition pci_read32 :: "u8 \<Rightarrow> u8 \<Rightarrow> u8 \<Rightarrow> u8 \<Rightarrow> bus \<Rightarrow> u32 \<times> bus" where
  "pci_read32 bus device func offset b =
     inl PCI_CONFIG_DATA (outl PCI_CONFIG_ADDR (pci_address bus device func offset) b)"

definition pci_read16 :: "u8 \<Rightarrow> u8 \<Rightarrow> u8 \<Rightarrow> u8 \<Rightarrow> bus \<Rightarrow> u16 \<times> bus" where
  "pci_read16 bus device func offset b =
     (let (v, b) = inl PCI_CONFIG_DATA (outl PCI_CONFIG_ADDR (pci_address bus device func offset) b)
      in (ucast (drop_bit (unat (offset AND 2) * 8) v), b))"

definition pci_read8 :: "u8 \<Rightarrow> u8 \<Rightarrow> u8 \<Rightarrow> u8 \<Rightarrow> bus \<Rightarrow> u8 \<times> bus" where
  "pci_read8 bus device func offset b =
     (let (v, b) = inl PCI_CONFIG_DATA (outl PCI_CONFIG_ADDR (pci_address bus device func offset) b)
      in (ucast (drop_bit (unat (offset AND 3) * 8) v), b))"

definition pci_write32 :: "u8 \<Rightarrow> u8 \<Rightarrow> u8 \<Rightarrow> u8 \<Rightarrow> u32 \<Rightarrow> bus \<Rightarrow> bus" where
  "pci_write32 bus device func offset value b =
     outl PCI_CONFIG_DATA value (outl PCI_CONFIG_ADDR (pci_address bus device func offset) b)"

definition pci_write16 :: "u8 \<Rightarrow> u8 \<Rightarrow> u8 \<Rightarrow> u8 \<Rightarrow> u16 \<Rightarrow> bus \<Rightarrow> bus" where
  "pci_write16 bus device func offset value b =
     (let (tmp, b) = inl PCI_CONFIG_DATA (outl PCI_CONFIG_ADDR (pci_address bus device func offset) b);
          tmp = tmp AND NOT (push_bit (unat (offset AND 2) * 8) 0xFFFF);
          tmp = tmp OR push_bit (unat (offset AND 2) * 8) (ucast value)
      in outl PCI_CONFIG_DATA tmp b)"

section \<open>Enumeration\<close>

record pci_device =
  pd_bus :: u8
  pd_device :: u8
  pd_function :: u8
  vendor_id :: u16
  device_id :: u16
  class_code :: u8
  pd_subclass :: u8
  prog_if :: u8
  revision :: u8
  interrupt_line :: u8
  interrupt_pin :: u8
  bar :: "u32 list"
  pd_valid :: bool

definition pci_device_exists :: "u8 \<Rightarrow> u8 \<Rightarrow> u8 \<Rightarrow> bus \<Rightarrow> bool \<times> bus" where
  "pci_device_exists bus device func b =
     (let (vendor, b) = pci_read16 bus device func PCI_VENDOR_ID b in (vendor \<noteq> 0xFFFF, b))"

text \<open>The loop over the six base address registers.\<close>

fun read_bars :: "u8 \<Rightarrow> u8 \<Rightarrow> u8 \<Rightarrow> nat list \<Rightarrow> bus \<Rightarrow> u32 list \<times> bus" where
  "read_bars bus device func [] b = ([], b)"
| "read_bars bus device func (i # is) b =
     (let (v, b) = pci_read32 bus device func (PCI_BAR0 + of_nat i * 4) b;
          (vs, b) = read_bars bus device func is b
      in (v # vs, b))"

definition pci_get_device_info :: "u8 \<Rightarrow> u8 \<Rightarrow> u8 \<Rightarrow> bus \<Rightarrow> pci_device \<times> bus" where
  "pci_get_device_info bus device func b =
     (let (vendor, b) = pci_read16 bus device func PCI_VENDOR_ID b;
          (devid, b) = pci_read16 bus device func PCI_DEVICE_ID b;
          (cls, b) = pci_read8 bus device func PCI_CLASS b;
          (subcls, b) = pci_read8 bus device func PCI_SUBCLASS b;
          (prog, b) = pci_read8 bus device func PCI_PROG_IF b;
          (rev, b) = pci_read8 bus device func PCI_REVISION_ID b;
          (irq, b) = pci_read8 bus device func PCI_INTERRUPT_LINE b;
          (pin, b) = pci_read8 bus device func PCI_INTERRUPT_PIN b;
          (bars, b) = read_bars bus device func [0..<6] b
      in (\<lparr>pd_bus = bus, pd_device = device, pd_function = func, vendor_id = vendor, device_id = devid,
           class_code = cls, pd_subclass = subcls, prog_if = prog, revision = rev, interrupt_line = irq,
           interrupt_pin = pin, bar = bars, pd_valid = True\<rparr>, b))"

record pci_state =
  pci_devices :: "pci_device list"
  pci_device_count :: nat
  pci_bus :: bus

text \<open>One turn of the loop over functions; the loop condition on the count is the guard of the turn.\<close>

definition scan_function :: "u8 \<Rightarrow> u8 \<Rightarrow> nat \<Rightarrow> pci_state \<Rightarrow> pci_state" where
  "scan_function bus device func s =
     (if \<not> pci_device_count s < PCI_MAX_DEVICES then s
      else
        let (skip, b) = (if func > 0 then let (ex, b) = pci_device_exists bus device (of_nat func) (pci_bus s) in (\<not> ex, b)
                         else (False, pci_bus s))
        in if skip then s\<lparr>pci_bus := b\<rparr>
           else
             let (dev, b) = pci_get_device_info bus device (of_nat func) b
             in s\<lparr>pci_devices := (pci_devices s)[pci_device_count s := dev], pci_device_count := pci_device_count s + 1, pci_bus := b\<rparr>)"

text \<open>One turn of the loop over devices.\<close>

definition scan_device :: "u8 \<Rightarrow> nat \<Rightarrow> pci_state \<Rightarrow> pci_state" where
  "scan_device bus device s =
     (if \<not> pci_device_count s < PCI_MAX_DEVICES then s
      else
        let (ex, b) = pci_device_exists bus (of_nat device) 0 (pci_bus s)
        in if \<not> ex then s\<lparr>pci_bus := b\<rparr>
           else
             let (header, b) = pci_read8 bus (of_nat device) 0 PCI_HEADER_TYPE b;
                 max_func = (if header AND 0x80 \<noteq> 0 then 8 else 1)
             in fold (scan_function bus (of_nat device)) [0..<max_func] (s\<lparr>pci_bus := b\<rparr>))"

definition pci_enumerate :: "pci_state \<Rightarrow> int \<times> pci_state" where
  "pci_enumerate s =
     (let s = s\<lparr>pci_device_count := 0\<rparr>;
          s = fold (\<lambda>bus s. if pci_device_count s < PCI_MAX_DEVICES then fold (scan_device (of_nat bus)) [0..<32] s else s) [0..<1] s
      in (int (pci_device_count s), s))"

text \<open>The searches return the index of the entry they point at.\<close>

fun find_entry :: "(pci_device \<Rightarrow> bool) \<Rightarrow> nat list \<Rightarrow> pci_state \<Rightarrow> nat option" where
  "find_entry P [] s = None"
| "find_entry P (i # is) s = (if P (pci_devices s ! i) then Some i else find_entry P is s)"

definition pci_find_device :: "u16 \<Rightarrow> u16 \<Rightarrow> pci_state \<Rightarrow> nat option" where
  "pci_find_device vid did s =
     find_entry (\<lambda>d. vendor_id d = vid \<and> device_id d = did) [0..<pci_device_count s] s"

definition pci_find_class :: "u8 \<Rightarrow> u8 \<Rightarrow> pci_state \<Rightarrow> nat option" where
  "pci_find_class cls subcls s =
     find_entry (\<lambda>d. class_code d = cls \<and> pd_subclass d = subcls) [0..<pci_device_count s] s"

definition pci_enable_bus_master :: "pci_device \<Rightarrow> bus \<Rightarrow> bus" where
  "pci_enable_bus_master dev b =
     (let (cmd, b) = pci_read16 (pd_bus dev) (pd_device dev) (pd_function dev) PCI_COMMAND b;
          cmd = cmd OR (PCI_COMMAND_MASTER OR PCI_COMMAND_MEMORY OR PCI_COMMAND_IO)
      in pci_write16 (pd_bus dev) (pd_device dev) (pd_function dev) PCI_COMMAND cmd b)"

text \<open>A read past the six registers has no value: the result is then None.\<close>

definition pci_get_bar_address :: "pci_device \<Rightarrow> nat \<Rightarrow> u64 option" where
  "pci_get_bar_address dev bar_num =
     (if \<not> bar_num < 6 then None
      else
        let v = bar dev ! bar_num
        in if v AND 1 \<noteq> 0 then Some (ucast (v AND 0xFFFFFFFC))
           else if drop_bit 1 v AND 3 = 2
             then (if bar_num + 1 < 6 then Some (ucast (v AND 0xFFFFFFF0) OR push_bit 32 (ucast (bar dev ! (bar_num + 1)))) else None)
           else Some (ucast (v AND 0xFFFFFFF0)))"

section \<open>What the configuration mechanism answers\<close>

text \<open>
  The documented behaviour the driver relies on: as long as only configuration addresses are written and configuration
  data read, a read of the data port gives the double word \<open>cfg\<close> holds at the last address written.
\<close>

definition config_event :: "port_event \<Rightarrow> bool" where
  "config_event ev = (case ev of Out32 p v \<Rightarrow> p = PCI_CONFIG_ADDR | In32 p \<Rightarrow> p = PCI_CONFIG_DATA | _ \<Rightarrow> False)"

definition config_answers :: "(u32 \<Rightarrow> u32) \<Rightarrow> bus \<Rightarrow> bool" where
  "config_answers cfg b \<longleftrightarrow>
     (\<forall>evs a. list_all config_event evs \<longrightarrow>
        answers b (In32 PCI_CONFIG_DATA # Out32 PCI_CONFIG_ADDR a # evs @ events b) = cfg a)"

text \<open>A read that returns \<open>v\<close> and leaves a bus on which the mechanism still answers.\<close>

definition config_read_ok :: "(u32 \<Rightarrow> u32) \<Rightarrow> bus \<Rightarrow> ('v \<times> bus) \<Rightarrow> 'v \<Rightarrow> bool" where
  "config_read_ok cfg b res v \<longleftrightarrow>
     fst res = v \<and> config_answers cfg (snd res) \<and> answers (snd res) = answers b
     \<and> (\<exists>evs. list_all config_event evs \<and> events (snd res) = evs @ events b)"

lemma config_answers_extend:
  assumes "config_answers cfg b" "list_all config_event evs" "events b' = evs @ events b" "answers b' = answers b"
  shows "config_answers cfg b'"
  unfolding config_answers_def
proof (intro allI impI)
  fix evs' a
  assume "list_all config_event evs'"
  then have "list_all config_event (evs' @ evs)" using assms(2) by simp
  then show "answers b' (In32 PCI_CONFIG_DATA # Out32 PCI_CONFIG_ADDR a # evs' @ events b') = cfg a"
    using assms(1,3,4) unfolding config_answers_def by (metis append.assoc)
qed

lemma config_inl:
  assumes "config_answers cfg b"
  shows "config_read_ok cfg b (inl PCI_CONFIG_DATA (outl PCI_CONFIG_ADDR a b)) (cfg a)"
proof -
  let ?evs = "[In32 PCI_CONFIG_DATA, Out32 PCI_CONFIG_ADDR a]"
  have "list_all config_event ?evs" by (simp add: config_event_def)
  moreover have "answers b (In32 PCI_CONFIG_DATA # Out32 PCI_CONFIG_ADDR a # [] @ events b) = cfg a"
    using assms [unfolded config_answers_def, rule_format, of "[]" a] by simp
  ultimately show ?thesis
    using config_answers_extend [OF assms, of ?evs "snd (inl PCI_CONFIG_DATA (outl PCI_CONFIG_ADDR a b))"]
    by (force simp: config_read_ok_def inl_def outl_def access_def)
qed

lemma config_read_map:
  "config_read_ok cfg b res v \<Longrightarrow> config_read_ok cfg b (case res of (v, b') \<Rightarrow> (f v, b')) (f v)"
  by (auto simp: config_read_ok_def split: prod.splits)

lemma config_reads:
  assumes "config_answers cfg b"
  shows "config_read_ok cfg b (pci_read32 bus d f off b) (cfg (pci_address bus d f off))"
    and "config_read_ok cfg b (pci_read16 bus d f off b) (ucast (drop_bit (unat (off AND 2) * 8) (cfg (pci_address bus d f off))))"
    and "config_read_ok cfg b (pci_read8 bus d f off b) (ucast (drop_bit (unat (off AND 3) * 8) (cfg (pci_address bus d f off))))"
  using config_inl [OF assms] config_read_map [OF config_inl [OF assms]]
  by (simp_all add: pci_read32_def pci_read16_def pci_read8_def Let_def)

text \<open>The same reads as values of the configuration space alone.\<close>

definition cfg16 :: "(u32 \<Rightarrow> u32) \<Rightarrow> u8 \<Rightarrow> u8 \<Rightarrow> u8 \<Rightarrow> u8 \<Rightarrow> u16" where
  "cfg16 cfg bus d f off = ucast (drop_bit (unat (off AND 2) * 8) (cfg (pci_address bus d f off)))"

definition cfg8 :: "(u32 \<Rightarrow> u32) \<Rightarrow> u8 \<Rightarrow> u8 \<Rightarrow> u8 \<Rightarrow> u8 \<Rightarrow> u8" where
  "cfg8 cfg bus d f off = ucast (drop_bit (unat (off AND 3) * 8) (cfg (pci_address bus d f off)))"

definition cfg_present :: "(u32 \<Rightarrow> u32) \<Rightarrow> u8 \<Rightarrow> u8 \<Rightarrow> u8 \<Rightarrow> bool" where
  "cfg_present cfg bus d f \<longleftrightarrow> cfg16 cfg bus d f PCI_VENDOR_ID \<noteq> 0xFFFF"

definition cfg_device :: "(u32 \<Rightarrow> u32) \<Rightarrow> u8 \<Rightarrow> u8 \<Rightarrow> u8 \<Rightarrow> pci_device" where
  "cfg_device cfg bus d f =
     \<lparr>pd_bus = bus, pd_device = d, pd_function = f, vendor_id = cfg16 cfg bus d f PCI_VENDOR_ID, device_id = cfg16 cfg bus d f PCI_DEVICE_ID,
      class_code = cfg8 cfg bus d f PCI_CLASS, pd_subclass = cfg8 cfg bus d f PCI_SUBCLASS, prog_if = cfg8 cfg bus d f PCI_PROG_IF,
      revision = cfg8 cfg bus d f PCI_REVISION_ID, interrupt_line = cfg8 cfg bus d f PCI_INTERRUPT_LINE, interrupt_pin = cfg8 cfg bus d f PCI_INTERRUPT_PIN,
      bar = map (\<lambda>i. cfg (pci_address bus d f (PCI_BAR0 + of_nat i * 4))) [0..<6], pd_valid = True\<rparr>"

text \<open>Chaining reads: the second read starts in the state the first one left.\<close>

lemma config_read_bind:
  assumes "config_read_ok cfg b res v" "\<And>b'. config_answers cfg b' \<Longrightarrow> config_read_ok cfg b' (g v b') w"
  shows "config_read_ok cfg b (case res of (v, b') \<Rightarrow> g v b') w"
proof -
  obtain b' where res: "res = (v, b')" using assms(1) by (cases res) (auto simp: config_read_ok_def)
  with assms(1) have "config_answers cfg b'" by (simp add: config_read_ok_def)
  from assms(2) [OF this] show ?thesis
    using assms(1) res by (auto simp: config_read_ok_def)
qed

lemma config_read_return: "config_answers cfg b \<Longrightarrow> config_read_ok cfg b (v, b) v"
  by (auto simp: config_read_ok_def intro: exI [of _ "[]"])

lemma config_exists:
  assumes "config_answers cfg b"
  shows "config_read_ok cfg b (pci_device_exists bus d f b) (cfg_present cfg bus d f)"
  using config_read_map [OF config_reads(2) [OF assms], where f = "\<lambda>v. v \<noteq> 0xFFFF"]
  by (simp add: pci_device_exists_def cfg_present_def cfg16_def Let_def)

lemma config_bars:
  assumes "config_answers cfg b"
  shows "config_read_ok cfg b (read_bars bus d f is b) (map (\<lambda>i. cfg (pci_address bus d f (PCI_BAR0 + of_nat i * 4))) is)"
  using assms
proof (induction "is" arbitrary: b)
  case Nil
  then show ?case by (simp add: config_read_return)
next
  case (Cons i "is")
  show ?case
    unfolding read_bars.simps Let_def list.map
    by (intro config_read_bind [OF config_reads(1) [OF Cons.prems]] config_read_bind [OF Cons.IH] config_read_return)
qed

lemma config_device_info:
  assumes "config_answers cfg b"
  shows "config_read_ok cfg b (pci_get_device_info bus d f b) (cfg_device cfg bus d f)"
  unfolding pci_get_device_info_def Let_def cfg_device_def cfg16_def cfg8_def
  by (intro config_read_bind [OF config_reads(2)] config_read_bind [OF config_reads(3)] config_read_bind [OF config_bars]
      config_read_return assms)

section \<open>The device table after a scan\<close>

text \<open>The functions present on bus 0, in order, read off the configuration space alone.\<close>

definition cfg_functions :: "(u32 \<Rightarrow> u32) \<Rightarrow> u8 \<Rightarrow> nat list" where
  "cfg_functions cfg d =
     (if cfg_present cfg 0 d 0
      then filter (\<lambda>f. f = 0 \<or> cfg_present cfg 0 d (of_nat f))
             [0..<if cfg8 cfg 0 d 0 PCI_HEADER_TYPE AND 0x80 \<noteq> 0 then 8 else 1]
      else [])"

definition cfg_scan :: "(u32 \<Rightarrow> u32) \<Rightarrow> pci_device list" where
  "cfg_scan cfg =
     concat (map (\<lambda>d. map (\<lambda>f. cfg_device cfg 0 (of_nat d) (of_nat f)) (cfg_functions cfg (of_nat d))) [0..<32])"

text \<open>The table holds the devices \<open>found\<close> so far, and the mechanism still answers.\<close>

definition table_holds :: "(u32 \<Rightarrow> u32) \<Rightarrow> pci_state \<Rightarrow> pci_device list \<Rightarrow> bool" where
  "table_holds cfg s found \<longleftrightarrow>
     config_answers cfg (pci_bus s) \<and> pci_device_count s = length found \<and> length found \<le> PCI_MAX_DEVICES
     \<and> length (pci_devices s) = PCI_MAX_DEVICES \<and> take (length found) (pci_devices s) = found"

lemma table_holds_fold:
  assumes "\<And>x s found. x \<in> set xs \<Longrightarrow> table_holds cfg s found \<Longrightarrow> table_holds cfg (step x s) (take PCI_MAX_DEVICES (found @ g x))"
    and "table_holds cfg s found"
  shows "table_holds cfg (fold step xs s) (take PCI_MAX_DEVICES (found @ concat (map g xs)))"
  using assms
proof (induction xs arbitrary: s found)
  case Nil
  then show ?case by (simp add: table_holds_def)
next
  case (Cons x xs)
  have "take n (take n a @ b) = take n (a @ b)" for n and a b :: "pci_device list"
    by (cases "n \<le> length a") auto
  moreover have "table_holds cfg (fold step xs (step x s)) (take PCI_MAX_DEVICES (take PCI_MAX_DEVICES (found @ g x) @ concat (map g xs)))"
  proof (rule Cons.IH)
    show "table_holds cfg (step x s) (take PCI_MAX_DEVICES (found @ g x))" using Cons.prems by simp
  qed (use Cons.prems(1) in simp)
  ultimately have "table_holds cfg (fold step xs (step x s)) (take PCI_MAX_DEVICES ((found @ g x) @ concat (map g xs)))"
    by (simp only:)
  then show ?case by simp
qed

lemma table_holds_full:
  assumes "table_holds cfg s found" "\<not> pci_device_count s < PCI_MAX_DEVICES"
  shows "table_holds cfg s (take PCI_MAX_DEVICES (found @ rest))"
  using assms by (auto simp: table_holds_def)

lemma table_holds_bus:
  "table_holds cfg s found \<Longrightarrow> config_answers cfg b \<Longrightarrow> table_holds cfg (s\<lparr>pci_bus := b\<rparr>) found"
  by (simp add: table_holds_def)

lemma table_holds_push:
  assumes "table_holds cfg s found" "pci_device_count s < PCI_MAX_DEVICES" "config_answers cfg b"
  shows "table_holds cfg (s\<lparr>pci_devices := (pci_devices s)[pci_device_count s := dev],
      pci_device_count := pci_device_count s + 1, pci_bus := b\<rparr>) (take PCI_MAX_DEVICES (found @ [dev]))"
  using assms by (auto simp: table_holds_def take_Suc_conv_app_nth)

lemma config_read_cases:
  assumes "config_read_ok cfg b res v"
  obtains b' where "res = (v, b')" "config_answers cfg b'"
  using assms by (cases res) (auto simp: config_read_ok_def)

lemma scan_function_table:
  assumes "table_holds cfg s found"
  shows "table_holds cfg (scan_function bus d f s)
    (take PCI_MAX_DEVICES (found @ (if f = 0 \<or> cfg_present cfg bus d (of_nat f) then [cfg_device cfg bus d (of_nat f)] else [])))"
proof (cases "pci_device_count s < PCI_MAX_DEVICES")
  case False
  then show ?thesis using table_holds_full [OF assms] by (simp add: scan_function_def)
next
  case True
  have ans: "config_answers cfg (pci_bus s)" using assms by (simp add: table_holds_def)
  obtain b1 where ex: "pci_device_exists bus d (of_nat f) (pci_bus s) = (cfg_present cfg bus d (of_nat f), b1)"
    and b1: "config_answers cfg b1" by (rule config_read_cases [OF config_exists [OF ans]])
  let ?b = "if f > 0 then b1 else pci_bus s"
  have "config_answers cfg ?b" using ans b1 by simp
  then obtain b2 where info: "pci_get_device_info bus d (of_nat f) ?b = (cfg_device cfg bus d (of_nat f), b2)"
    and b2: "config_answers cfg b2" by (metis config_read_cases [OF config_device_info])
  show ?thesis
    using True ex info table_holds_bus [OF assms b1] table_holds_push [OF assms True b2] assms
    by (cases "f = 0"; cases "cfg_present cfg bus d (of_nat f)") (auto simp: scan_function_def table_holds_def)
qed

lemma scan_device_table:
  assumes "table_holds cfg s found"
  shows "table_holds cfg (scan_device 0 d s)
    (take PCI_MAX_DEVICES (found @ map (\<lambda>f. cfg_device cfg 0 (of_nat d) (of_nat f)) (cfg_functions cfg (of_nat d))))"
proof (cases "pci_device_count s < PCI_MAX_DEVICES")
  case False
  then show ?thesis using table_holds_full [OF assms] by (simp add: scan_device_def)
next
  case True
  let ?d = "of_nat d :: u8"
  have ans: "config_answers cfg (pci_bus s)" using assms by (simp add: table_holds_def)
  obtain b1 where ex: "pci_device_exists 0 ?d 0 (pci_bus s) = (cfg_present cfg 0 ?d 0, b1)"
    and b1: "config_answers cfg b1" by (rule config_read_cases [OF config_exists [OF ans]])
  obtain b2 where hd: "pci_read8 0 ?d 0 PCI_HEADER_TYPE b1 = (cfg8 cfg 0 ?d 0 PCI_HEADER_TYPE, b2)"
    and b2: "config_answers cfg b2" using config_reads(3) [OF b1] unfolding cfg8_def by (metis config_read_cases)
  show ?thesis
  proof (cases "cfg_present cfg 0 ?d 0")
    case False
    then show ?thesis
      using True ex table_holds_bus [OF assms b1] by (simp add: scan_device_def cfg_functions_def table_holds_def)
  next
    case present: True
    define fs where "fs = [0..<if cfg8 cfg 0 ?d 0 PCI_HEADER_TYPE AND 0x80 \<noteq> 0 then 8 else 1]"
    define g where "g f = (if f = 0 \<or> cfg_present cfg 0 ?d (of_nat f) then [cfg_device cfg 0 ?d (of_nat f)] else [])" for f
    have "scan_device 0 d s = fold (scan_function 0 ?d) fs (s\<lparr>pci_bus := b2\<rparr>)"
      using True present ex hd by (simp add: scan_device_def fs_def)
    moreover have "concat (map g xs) = map (\<lambda>f. cfg_device cfg 0 ?d (of_nat f)) (filter (\<lambda>f. f = 0 \<or> cfg_present cfg 0 ?d (of_nat f)) xs)" for xs
      by (induction xs) (auto simp: g_def)
    then have "map (\<lambda>f. cfg_device cfg 0 ?d (of_nat f)) (cfg_functions cfg ?d) = concat (map g fs)"
      using present by (simp add: cfg_functions_def fs_def)
    ultimately show ?thesis
      using table_holds_fold [where step = "scan_function 0 ?d" and g = g and xs = fs, OF _ table_holds_bus [OF assms b2]]
        scan_function_table [of cfg _ _ 0 ?d] by (simp add: g_def)
  qed
qed

lemma pci_enumerate_table:
  assumes "config_answers cfg (pci_bus s)" "length (pci_devices s) = PCI_MAX_DEVICES"
  shows "table_holds cfg (snd (pci_enumerate s)) (take PCI_MAX_DEVICES (cfg_scan cfg))"
proof -
  have "table_holds cfg (s\<lparr>pci_device_count := 0\<rparr>) []" using assms by (simp add: table_holds_def)
  from table_holds_fold [where step = "scan_device 0" and xs = "[0..<32]", OF scan_device_table this]
  show ?thesis by (simp add: pci_enumerate_def cfg_scan_def PCI_MAX_DEVICES_def Let_def)
qed

text \<open>
  C32: scanning bus 0 fills the device table with exactly the functions the configuration space shows, in order of device and
  function, cut off after 32; functions 1 to 7 are looked at only where the header of function 0 says that the device has
  several, and the scan returns the number of entries.
\<close>
theorem pci_enumerate_finds_all:
  assumes "config_answers cfg (pci_bus s)" "length (pci_devices s) = PCI_MAX_DEVICES"
  shows "(case pci_enumerate s of (n, s') \<Rightarrow>
    n = int (min 32 (length (cfg_scan cfg))) \<and> take (pci_device_count s') (pci_devices s') = take 32 (cfg_scan cfg)
    \<and> length (pci_devices s') = 32)"
  using pci_enumerate_table [OF assms]
  by (auto simp: table_holds_def pci_enumerate_def PCI_MAX_DEVICES_def Let_def min.commute)

text \<open>A configuration space with a bridge at 0:0.0 and a network card at 0:3.0, and a host bridge that shows it.\<close>

definition demo_cfg :: "u32 \<Rightarrow> u32" where
  "demo_cfg a =
     (if a = 0x80000000 then 0x12378086 else if a = 0x80001800 then 0x10001AF4 else if a = 0x80001810 then 0xC001
      else if a = 0x80000000 OR (a AND 0x1C) \<or> a = 0x80001800 OR (a AND 0x1C) then 0x00010002 else 0xFFFFFFFF)"

fun last_address :: "port_event list \<Rightarrow> u32" where
  "last_address [] = 0"
| "last_address (Out32 p v # evs) = (if p = 0xCF8 then v else last_address evs)"
| "last_address (_ # evs) = last_address evs"

definition demo_bus :: bus where
  "demo_bus = \<lparr>answers = \<lambda>evs. demo_cfg (last_address evs), events = []\<rparr>"

definition no_device :: pci_device where
  "no_device = \<lparr>pd_bus = 0, pd_device = 0, pd_function = 0, vendor_id = 0, device_id = 0, class_code = 0, pd_subclass = 0,
     prog_if = 0, revision = 0, interrupt_line = 0, interrupt_pin = 0, bar = replicate 6 0, pd_valid = False\<rparr>"

definition demo_pci :: pci_state where
  "demo_pci = \<lparr>pci_devices = replicate 32 no_device, pci_device_count = 0, pci_bus = demo_bus\<rparr>"

lemma demo_answers: "config_answers demo_cfg demo_bus"
  by (simp add: config_answers_def demo_bus_def PCI_CONFIG_ADDR_def)

lemma demo_pci_table: "config_answers demo_cfg (pci_bus demo_pci)" "length (pci_devices demo_pci) = PCI_MAX_DEVICES"
  by (simp_all add: demo_pci_def demo_answers PCI_MAX_DEVICES_def)

lemma demo_scan: "map (\<lambda>d. (pd_device d, vendor_id d, bar d ! 0)) (cfg_scan demo_cfg) = [(0, 0x8086, 0x00010002), (3, 0x1AF4, 0xC001)]"
  by code_simp

lemma pci_enumerate_finds_all_witness:
  "fst (pci_enumerate demo_pci) = 2"
proof -
  have "length (cfg_scan demo_cfg) = 2" using arg_cong [OF demo_scan, of length] by simp
  then show ?thesis using pci_enumerate_finds_all [OF demo_pci_table] by (auto split: prod.splits)
qed

lemma filter_nth_empty: "\<forall>j < length xs. \<not> P (xs ! j) \<Longrightarrow> filter P xs = []"
  by (auto simp: filter_empty_conv in_set_conv_nth)

lemma find_entry_first:
  "find_entry P [0..<n] s = Some i \<longleftrightarrow> i < n \<and> P (pci_devices s ! i) \<and> (\<forall>j < i. \<not> P (pci_devices s ! j))"
  "find_entry P [0..<n] s = None \<longleftrightarrow> (\<forall>j < n. \<not> P (pci_devices s ! j))"
proof -
  have find: "find_entry P is s = find (\<lambda>i. P (pci_devices s ! i)) is" for "is"
    by (induction "is") auto
  show "find_entry P [0..<n] s = Some i \<longleftrightarrow> i < n \<and> P (pci_devices s ! i) \<and> (\<forall>j < i. \<not> P (pci_devices s ! j))"
    by (auto simp: find find_Some_iff)
  show "find_entry P [0..<n] s = None \<longleftrightarrow> (\<forall>j < n. \<not> P (pci_devices s ! j))"
    by (auto simp: find find_None_iff)
qed

text \<open>
  a search after the scan returns the first of the scanned functions with the wanted vendor and device, and nothing
  exactly when none of the at most 32 has them; stale entries of an earlier scan are never returned.
\<close>
theorem pci_find_device_first:
  assumes "config_answers cfg (pci_bus s)" "length (pci_devices s) = PCI_MAX_DEVICES"
  shows "(let found = take 32 (cfg_scan cfg); P = (\<lambda>d. vendor_id d = vid \<and> device_id d = did) in
     case pci_find_device vid did (snd (pci_enumerate s)) of
       None \<Rightarrow> filter P found = []
     | Some i \<Rightarrow> i < length found \<and> P (found ! i) \<and> filter P (take i found) = [])"
proof -
  let ?s = "snd (pci_enumerate s)" and ?found = "take 32 (cfg_scan cfg)"
  let ?P = "\<lambda>d. vendor_id d = vid \<and> device_id d = did"
  have tab: "pci_device_count ?s = length ?found" "take (length ?found) (pci_devices ?s) = ?found"
    using pci_enumerate_table [OF assms] by (simp_all add: table_holds_def PCI_MAX_DEVICES_def)
  then have nth: "pci_devices ?s ! i = ?found ! i" if "i < length ?found" for i
    using that by (metis nth_take)
  show ?thesis
  proof (cases "pci_find_device vid did ?s")
    case None
    then have "\<forall>j < length ?found. \<not> ?P (pci_devices ?s ! j)"
      unfolding pci_find_device_def tab(1) find_entry_first(2) by blast
    then have "\<forall>j < length ?found. \<not> ?P (?found ! j)" using nth by metis
    then have "filter ?P ?found = []" by (rule filter_nth_empty)
    then show ?thesis using None by (simp add: Let_def)
  next
    case (Some i)
    then have i: "i < length ?found" "?P (pci_devices ?s ! i)" "\<forall>j < i. \<not> ?P (pci_devices ?s ! j)"
      unfolding pci_find_device_def tab(1) find_entry_first(1) by blast+
    have "?P (?found ! i)" using i(1,2) nth [OF i(1)] by simp
    moreover have "\<forall>j < i. \<not> ?P (?found ! j)" using i(1,3) nth by (metis order_less_trans)
    then have "filter ?P (take i ?found) = []"
      using i(1) by (intro filter_nth_empty) simp
    ultimately show ?thesis using Some i(1) by (simp add: Let_def)
  qed
qed

lemma pci_find_device_first_witness:
  "let found = take 32 (cfg_scan demo_cfg); P = (\<lambda>d. vendor_id d = 0x1AF4 \<and> device_id d = 0x1000) in
     case pci_find_device 0x1AF4 0x1000 (snd (pci_enumerate demo_pci)) of
       None \<Rightarrow> filter P found = []
     | Some i \<Rightarrow> i < length found \<and> P (found ! i) \<and> filter P (take i found) = []"
  by (rule pci_find_device_first [OF demo_pci_table])

section \<open>Bus mastering and base addresses\<close>

lemma pci_write16_command:
  assumes "config_answers cfg b"
  shows "pci_write16 bus d f PCI_COMMAND v b =
    access (Out32 PCI_CONFIG_DATA (cfg (pci_address bus d f PCI_COMMAND) AND NOT (mask 16) OR ucast v))
      (access (In32 PCI_CONFIG_DATA) (access (Out32 PCI_CONFIG_ADDR (pci_address bus d f PCI_COMMAND)) b))"
proof -
  have "(0xFFFF :: u32) = mask 16" by (simp add: mask_eq_exp_minus_1)
  moreover have "answers b (In32 PCI_CONFIG_DATA # Out32 PCI_CONFIG_ADDR a # events b) = cfg a" for a
    using assms [unfolded config_answers_def, rule_format, of "[]" a] by simp
  ultimately show ?thesis
    by (simp add: pci_write16_def inl_def outl_def access_def PCI_COMMAND_def)
qed

text \<open>
  enabling bus mastering reads the command register twice and then writes the whole double word back once, with the bits
  for ports, memory and mastering set and every other bit as it was read. The upper half is the status register, whose
  error bits are cleared by writing ones: whatever error bits read as set are cleared by this call.
\<close>
theorem pci_enable_bus_master_writes:
  assumes "config_answers cfg b"
  shows "events (pci_enable_bus_master dev b) =
    (let a = pci_address (pd_bus dev) (pd_device dev) (pd_function dev) PCI_COMMAND in
     [Out32 PCI_CONFIG_DATA (cfg a OR 7), In32 PCI_CONFIG_DATA, Out32 PCI_CONFIG_ADDR a,
      In32 PCI_CONFIG_DATA, Out32 PCI_CONFIG_ADDR a] @ events b)"
proof -
  define a where "a = pci_address (pd_bus dev) (pd_device dev) (pd_function dev) PCI_COMMAND"
  let ?b = "access (In32 PCI_CONFIG_DATA) (access (Out32 PCI_CONFIG_ADDR a) b)"
  have ok: "config_read_ok cfg b (inl PCI_CONFIG_DATA (outl PCI_CONFIG_ADDR a b)) (cfg a)" by (rule config_inl [OF assms(1)])
  then have ans: "config_answers cfg ?b" by (simp add: config_read_ok_def inl_def outl_def)
  have rd: "pci_read16 (pd_bus dev) (pd_device dev) (pd_function dev) PCI_COMMAND b = (ucast (cfg a), ?b)"
    using ok by (simp add: pci_read16_def config_read_ok_def a_def PCI_COMMAND_def inl_def outl_def)
  have seven: "PCI_COMMAND_MASTER OR PCI_COMMAND_MEMORY OR PCI_COMMAND_IO = mask 3"
    by (simp add: PCI_COMMAND_MASTER_def PCI_COMMAND_MEMORY_def PCI_COMMAND_IO_def mask_eq_exp_minus_1)
  have "cfg a AND NOT (mask 16) OR ucast (ucast (cfg a) OR mask 3 :: u16) = cfg a OR mask 3"
    by (rule bit_eqI) (auto simp: bit_simps dest: bit_word_less)
  then have "events (pci_enable_bus_master dev b) =
    [Out32 PCI_CONFIG_DATA (cfg a OR mask 3), In32 PCI_CONFIG_DATA, Out32 PCI_CONFIG_ADDR a,
     In32 PCI_CONFIG_DATA, Out32 PCI_CONFIG_ADDR a] @ events b"
    unfolding pci_enable_bus_master_def rd Let_def prod.case pci_write16_command [OF ans] a_def [symmetric] seven
    by (simp add: access_def)
  then show ?thesis by (simp add: a_def mask_eq_exp_minus_1 Let_def)
qed

lemma pci_enable_bus_master_writes_witness:
  "events (pci_enable_bus_master no_device demo_bus) =
    (let a = pci_address (pd_bus no_device) (pd_device no_device) (pd_function no_device) PCI_COMMAND in
     [Out32 PCI_CONFIG_DATA (demo_cfg a OR 7), In32 PCI_CONFIG_DATA, Out32 PCI_CONFIG_ADDR a,
      In32 PCI_CONFIG_DATA, Out32 PCI_CONFIG_ADDR a] @ events demo_bus)"
  by (rule pci_enable_bus_master_writes [OF demo_answers])

lemma low_masks: "(0x1F :: u8) = mask 5" "(0x07 :: u8) = mask 3" "(0xFC :: u8) = push_bit 2 (mask 6)"
  by (simp_all add: mask_eq_exp_minus_1 push_bit_eq_mult)

lemma bit_pci_address:
  "bit (pci_address bus d f off) n \<longleftrightarrow> n = 31 \<or> (16 \<le> n \<and> n < 24 \<and> bit bus (n - 16)) \<or> (11 \<le> n \<and> n < 16 \<and> bit d (n - 11))
     \<or> (8 \<le> n \<and> n < 11 \<and> bit f (n - 8)) \<or> (2 \<le> n \<and> n < 8 \<and> bit off n)"
proof -
  have field: "bit (push_bit k (ucast (x AND mask w) :: u32)) n \<longleftrightarrow> k \<le> n \<and> n < k + w \<and> bit x (n - k)"
    if "w \<le> 8" "k + w \<le> 32" for k w and x :: u8
    using that by (auto simp: bit_simps dest: bit_word_less)
  have "bus AND mask 8 = bus" by (rule bit_eqI) (auto simp: bit_simps)
  then have bus: "bit (push_bit 16 (ucast bus) :: u32) n \<longleftrightarrow> 16 \<le> n \<and> n < 24 \<and> bit bus (n - 16)"
    using field [of 8 16 bus] by simp
  have off: "bit (ucast (off AND push_bit 2 (mask 6)) :: u32) n \<longleftrightarrow> 2 \<le> n \<and> n < 8 \<and> bit off n"
    by (auto simp: bit_simps)
  have top: "bit (push_bit 31 1 :: u32) n \<longleftrightarrow> n = 31"
    unfolding bit_push_bit_iff bit_1_iff by auto
  show ?thesis
    unfolding pci_address_def low_masks bit_or_iff by (simp only: bus off top field) simp
qed

text \<open>
  the configuration address separates what it addresses: two accesses use the same address exactly when they are for the
  same bus, device, function and aligned register, so no register of one function is ever read or written in place of
  another's.
\<close>
theorem pci_address_injective:
  "pci_address bus d f off = pci_address bus' d' f' off' \<longleftrightarrow>
     bus = bus' \<and> d AND 0x1F = d' AND 0x1F \<and> f AND 0x07 = f' AND 0x07 \<and> off AND 0xFC = off' AND 0xFC"
    (is "?l \<longleftrightarrow> ?r")
proof
  assume ?l
  then have eq: "bit (pci_address bus d f off) n \<longleftrightarrow> bit (pci_address bus' d' f' off') n" for n by simp
  have "bus = bus'"
  proof (rule bit_eqI)
    fix n assume "possible_bit TYPE(u8) n"
    then show "bit bus n \<longleftrightarrow> bit bus' n" using eq [of "n + 16"] by (simp add: bit_pci_address)
  qed
  moreover have "d AND mask 5 = d' AND mask 5"
  proof (rule bit_eqI)
    fix n
    show "bit (d AND mask 5) n \<longleftrightarrow> bit (d' AND mask 5) n"
      using eq [of "n + 11"] by (auto simp: bit_pci_address bit_simps)
  qed
  moreover have "f AND mask 3 = f' AND mask 3"
  proof (rule bit_eqI)
    fix n
    show "bit (f AND mask 3) n \<longleftrightarrow> bit (f' AND mask 3) n"
      using eq [of "n + 8"] by (auto simp: bit_pci_address bit_simps)
  qed
  moreover have "off AND push_bit 2 (mask 6) = off' AND push_bit 2 (mask 6)"
  proof (rule bit_eqI)
    fix n
    show "bit (off AND push_bit 2 (mask 6)) n \<longleftrightarrow> bit (off' AND push_bit 2 (mask 6)) n"
      using eq [of n] by (auto simp: bit_pci_address bit_simps)
  qed
  ultimately show ?r by (simp only: low_masks simp_thms)
next
  assume ?r
  then show ?l by (simp add: pci_address_def)
qed

text \<open>
  the address in a base address register comes with its flag bits cleared: an I/O address is a multiple of 4, a memory
  address one of 16, and a 64-bit one has the next register as its upper half. The only register without an address is the
  last one when it claims to be 64 bits wide: the code then reads past the six registers.
\<close>
theorem pci_get_bar_address_cases:
  assumes "n < 6"
  shows "(case pci_get_bar_address dev n of
      None \<Rightarrow> n = 5 \<and> \<not> bit (bar dev ! n) 0 \<and> drop_bit 1 (bar dev ! n) AND 3 = 2
    | Some addr \<Rightarrow> (if bit (bar dev ! n) 0 then take_bit 2 addr = 0 \<and> drop_bit 2 addr = ucast (drop_bit 2 (bar dev ! n))
        else take_bit 4 addr = 0 \<and> take_bit 28 (drop_bit 4 addr) = ucast (drop_bit 4 (bar dev ! n))
          \<and> drop_bit 32 addr = (if drop_bit 1 (bar dev ! n) AND 3 = 2 then ucast (bar dev ! (n + 1)) else 0)))"
proof -
  have masks: "(0xFFFFFFFC :: u32) = push_bit 2 (mask 30)" "(0xFFFFFFF0 :: u32) = push_bit 4 (mask 28)"
    by (simp_all add: mask_eq_exp_minus_1 push_bit_eq_mult)
  have odd: "v AND 1 \<noteq> 0 \<longleftrightarrow> bit v 0" for v :: u32 by (simp add: and_one_eq bit_0 odd_iff_mod_2_eq_one)
  have io: "take_bit 2 (ucast (v AND push_bit 2 (mask 30)) :: u64) = 0"
    "drop_bit 2 (ucast (v AND push_bit 2 (mask 30)) :: u64) = ucast (drop_bit 2 v)" for v :: u32
    by (rule bit_eqI; auto simp: bit_simps dest: bit_word_less)+
  have memory: "take_bit 4 (ucast (v AND push_bit 4 (mask 28)) OR push_bit 32 (ucast w) :: u64) = 0"
    "take_bit 28 (drop_bit 4 (ucast (v AND push_bit 4 (mask 28)) OR push_bit 32 (ucast w) :: u64)) = ucast (drop_bit 4 v)"
    "drop_bit 32 (ucast (v AND push_bit 4 (mask 28)) OR push_bit 32 (ucast w) :: u64) = ucast w" for v w :: u32
    by (rule bit_eqI; auto simp: bit_simps dest: bit_word_less)+
  note low = memory [where w = 0, simplified]
  show ?thesis
  proof (cases "n + 1 < 6 \<and> \<not> bit (bar dev ! n) 0 \<and> drop_bit 1 (bar dev ! n) AND 3 = 2")
    case True
    define addr where "addr = (ucast (bar dev ! n AND push_bit 4 (mask 28)) OR push_bit 32 (ucast (bar dev ! (n + 1))) :: u64)"
    have "pci_get_bar_address dev n = Some addr"
      using True by (simp add: pci_get_bar_address_def masks odd Let_def addr_def)
    then show ?thesis using True memory [of "bar dev ! n" "bar dev ! (n + 1)"] unfolding addr_def [symmetric] by simp
  next
    case False
    then show ?thesis using assms by (auto simp: pci_get_bar_address_def masks odd Let_def io low)
  qed
qed

lemma pci_get_bar_address_cases_witness:
  "case pci_get_bar_address no_device 5 of
      None \<Rightarrow> 5 = (5::nat) \<and> \<not> bit (bar no_device ! 5) 0 \<and> drop_bit 1 (bar no_device ! 5) AND 3 = 2
    | Some addr \<Rightarrow> (if bit (bar no_device ! 5) 0 then take_bit 2 addr = 0 \<and> drop_bit 2 addr = ucast (drop_bit 2 (bar no_device ! 5))
        else take_bit 4 addr = 0 \<and> take_bit 28 (drop_bit 4 addr) = ucast (drop_bit 4 (bar no_device ! 5))
          \<and> drop_bit 32 addr = (if drop_bit 1 (bar no_device ! 5) AND 3 = 2 then ucast (bar no_device ! (5 + 1)) else 0))"
  by (rule pci_get_bar_address_cases) simp

end
