(* ===== verification/Byte_Memory.thy ===== *)
theory Byte_Memory
  imports Memory
begin

text \<open>
  Accesses to packed structures: 16-bit loads and stores, and stores at unaligned addresses. Packets, descriptor tables
  and rings are laid out from a base address, so the lemmas speak of byte offsets from a base: which offsets a store
  changes, and which loads it leaves alone.
\<close>

definition load16 :: "mem \<Rightarrow> u64 \<Rightarrow> u16" where
  "load16 m a = ucast (m a) OR push_bit 8 (ucast (m (a + 1)))"

definition store16 :: "mem \<Rightarrow> u64 \<Rightarrow> u16 \<Rightarrow> mem" where
  "store16 m a v = m(a := ucast v, a + 1 := ucast (drop_bit 8 v))"

text \<open>Memory-mapped registers, \<open>src/kernel/io.h\<close>: volatile accesses to an address.\<close>

definition mmio_read8 :: "u64 \<Rightarrow> mem \<Rightarrow> u8" where "mmio_read8 addr m = load8 m addr"
definition mmio_read16 :: "u64 \<Rightarrow> mem \<Rightarrow> u16" where "mmio_read16 addr m = load16 m addr"
definition mmio_read32 :: "u64 \<Rightarrow> mem \<Rightarrow> u32" where "mmio_read32 addr m = load32 m addr"
definition mmio_read64 :: "u64 \<Rightarrow> mem \<Rightarrow> u64" where "mmio_read64 addr m = load64 m addr"
definition mmio_write8 :: "u64 \<Rightarrow> u8 \<Rightarrow> mem \<Rightarrow> mem" where "mmio_write8 addr v m = store8 m addr v"
definition mmio_write16 :: "u64 \<Rightarrow> u16 \<Rightarrow> mem \<Rightarrow> mem" where "mmio_write16 addr v m = store16 m addr v"
definition mmio_write32 :: "u64 \<Rightarrow> u32 \<Rightarrow> mem \<Rightarrow> mem" where "mmio_write32 addr v m = store32 m addr v"
definition mmio_write64 :: "u64 \<Rightarrow> u64 \<Rightarrow> mem \<Rightarrow> mem" where "mmio_write64 addr v m = store64 m addr v"

lemma unat_ucast_up: "LENGTH('a::len) \<le> LENGTH('b::len) \<Longrightarrow> unat (ucast (w :: 'a word) :: 'b word) = unat w"
  using unat_below [of w]
  by (simp add: unsigned_ucast_eq take_bit_nat_eq_self order_less_le_trans [OF unat_below] power_increasing)

lemma load16_store16_same: "load16 (store16 m a v) a = v"
  unfolding load16_def store16_def by (rule bit_eqI) (auto simp: bit_simps dest: bit_word_less)

lemma unat_of_nat_u64: "n < 2 ^ 64 \<Longrightarrow> unat (of_nat n :: u64) = n"
  by (simp add: unat_of_nat take_bit_nat_eq_self)

lemma of_nat_u64_eq: "i < 2 ^ 64 \<Longrightarrow> j < 2 ^ 64 \<Longrightarrow> (of_nat i :: u64) = of_nat j \<longleftrightarrow> i = j"
  by (auto simp: word_unat_eq_iff unat_of_nat take_bit_nat_eq_self)

lemma store32_updates:
  "store32 m a v = m(a := ucast v, a + 1 := ucast (drop_bit 8 v), a + 2 := ucast (drop_bit 16 v), a + 3 := ucast (drop_bit 24 v))"
proof
  fix x
  define d where "d = x - a"
  have x: "x = a + d" by (simp add: d_def)
  have bytes: "byte_of i (ucast v) = ucast (drop_bit (8 * i) v)" for i
    unfolding byte_of_def by (rule bit_eqI) (auto simp: bit_simps dest: bit_word_less)
  have small: "d < 4 \<longleftrightarrow> d = 0 \<or> d = 1 \<or> d = 2 \<or> d = 3"
  proof
    assume "d < 4"
    then have "unat d < 4" by (simp add: word_nat)
    then have "unat d \<in> {0, 1, 2, 3}" by auto
    then show "d = 0 \<or> d = 1 \<or> d = 2 \<or> d = 3" by (auto simp: word_unat_eq_iff)
  qed auto
  show "store32 m a v x = (m(a := ucast v, a + 1 := ucast (drop_bit 8 v), a + 2 := ucast (drop_bit 16 v),
      a + 3 := ucast (drop_bit 24 v))) x"
    unfolding store32_def using small by (auto simp: x bytes)
qed

lemma load16_cong: "m a = m' b \<Longrightarrow> m (a + 1) = m' (b + 1) \<Longrightarrow> load16 m a = load16 m' b"
  by (simp add: load16_def)

lemma load32_cong:
  "m a = m' b \<Longrightarrow> m (a + 1) = m' (b + 1) \<Longrightarrow> m (a + 2) = m' (b + 2) \<Longrightarrow> m (a + 3) = m' (b + 3)
    \<Longrightarrow> load32 m a = load32 m' b"
  by (simp add: load32_def join_bytes_def upt_rec)

section \<open>Offsets from a base\<close>

text \<open>Two memories agree on the \<open>n\<close> bytes from offset \<open>lo\<close> on.\<close>

definition same_bytes :: "u64 \<Rightarrow> nat \<Rightarrow> nat \<Rightarrow> mem \<Rightarrow> mem \<Rightarrow> bool" where
  "same_bytes b lo n m m' \<longleftrightarrow> (\<forall>k. lo \<le> k \<and> k < lo + n \<longrightarrow> m' (b + of_nat k) = m (b + of_nat k))"

lemma same_bytes_refl [simp]: "same_bytes b lo n m m"
  by (simp add: same_bytes_def)

lemma same_bytes_trans: "same_bytes b lo n m m' \<Longrightarrow> same_bytes b lo n m' m'' \<Longrightarrow> same_bytes b lo n m m''"
  by (simp add: same_bytes_def)

lemma same_bytes_sub: "same_bytes b lo n m m' \<Longrightarrow> lo \<le> lo' \<Longrightarrow> lo' + n' \<le> lo + n \<Longrightarrow> same_bytes b lo' n' m m'"
  by (simp add: same_bytes_def)

lemma same_bytes_nth: "same_bytes b lo n m m' \<Longrightarrow> lo \<le> k \<Longrightarrow> k < lo + n \<Longrightarrow> m' (b + of_nat k) = m (b + of_nat k)"
  by (simp add: same_bytes_def)

lemma same_bytes_upd:
  assumes "i < lo \<or> lo + n \<le> i" "i < 2 ^ 64" "lo + n \<le> 2 ^ 64"
  shows "same_bytes b lo n m (m(b + of_nat i := v))"
  using assms by (auto simp: same_bytes_def of_nat_u64_eq)

lemma offset_outside:
  assumes "k < i \<or> i + w \<le> k" "i + w \<le> 2 ^ 64" "k < 2 ^ 64" "0 < w"
  shows "\<not> (b + of_nat k) - (b + of_nat i) < (of_nat w :: u64)"
proof -
  let ?d = "(b + of_nat k) - (b + of_nat i)"
  show ?thesis
  proof (cases "k < i")
    case True
    then have "?d + of_nat (i - k) = 0" by simp
    from arg_cong [OF this, of unat] have "(unat ?d + unat (of_nat (i - k) :: u64)) mod 2 ^ 64 = 0"
      by (simp only: unat_word_ariths(1)) simp
    then have "(2 :: nat) ^ 64 dvd unat ?d + unat (of_nat (i - k) :: u64)" by (rule mod_0_imp_dvd)
    moreover have "i - k < 2 ^ 64" using assms True by linarith
    then have u: "unat (of_nat (i - k) :: u64) = i - k" by (rule unat_of_nat_u64)
    moreover have "unat ?d + (i - k) \<noteq> 0" using True by simp
    ultimately have "2 ^ 64 \<le> unat ?d + (i - k)" by (metis dvd_imp_le gr0I)
    then have "w \<le> unat ?d" using assms(2) True by simp
    moreover have "unat (of_nat w :: u64) \<le> w" by (simp add: unat_of_nat)
    ultimately show ?thesis by (simp add: word_nat)
  next
    case False
    then have "?d = of_nat (k - i)" by (simp add: of_nat_diff)
    then have "unat ?d = k - i" using assms(3) by (simp add: unat_of_nat take_bit_nat_eq_self)
    moreover have "unat (of_nat w :: u64) \<le> w" by (simp add: unat_of_nat)
    ultimately show ?thesis using assms(1) False by (simp add: word_nat)
  qed
qed

lemma store16_in_range: "store16 m a v x = (if x - a < 2 then byte_of (unat (x - a)) (ucast v) else m x)"
proof -
  define d where "d = x - a"
  have x: "x = a + d" by (simp add: d_def)
  have bytes: "byte_of i (ucast v) = ucast (drop_bit (8 * i) v)" for i
    unfolding byte_of_def by (rule bit_eqI) (auto simp: bit_simps dest: bit_word_less)
  have small: "d < 2 \<longleftrightarrow> d = 0 \<or> d = 1"
  proof
    assume "d < 2"
    then have "unat d < 2" by (simp add: word_nat)
    then have "unat d \<in> {0, 1}" by auto
    then show "d = 0 \<or> d = 1" by (auto simp: word_unat_eq_iff)
  qed auto
  show ?thesis unfolding store16_def using small by (auto simp: x bytes)
qed

text \<open>A store changes no byte outside its own.\<close>

lemma same_bytes_store:
  assumes "lo + n \<le> 2 ^ 64"
  shows "i + 2 \<le> lo \<or> lo + n \<le> i \<Longrightarrow> i + 2 \<le> 2 ^ 64 \<Longrightarrow> same_bytes b lo n m (store16 m (b + of_nat i) h)"
    and "i + 4 \<le> lo \<or> lo + n \<le> i \<Longrightarrow> i + 4 \<le> 2 ^ 64 \<Longrightarrow> same_bytes b lo n m (store32 m (b + of_nat i) w)"
    and "i + 8 \<le> lo \<or> lo + n \<le> i \<Longrightarrow> i + 8 \<le> 2 ^ 64 \<Longrightarrow> same_bytes b lo n m (store64 m (b + of_nat i) q)"
  unfolding same_bytes_def store16_in_range store32_def store64_def
  using assms offset_outside [of _ i 2 b] offset_outside [of _ i 4 b] offset_outside [of _ i 8 b]
  by auto

lemma same_bytes_then_store:
  assumes "same_bytes b lo n m m'" "lo + n \<le> 2 ^ 64"
  shows "i + 2 \<le> lo \<or> lo + n \<le> i \<Longrightarrow> i + 2 \<le> 2 ^ 64 \<Longrightarrow> same_bytes b lo n m (store16 m' (b + of_nat i) h)"
    and "i + 4 \<le> lo \<or> lo + n \<le> i \<Longrightarrow> i + 4 \<le> 2 ^ 64 \<Longrightarrow> same_bytes b lo n m (store32 m' (b + of_nat i) w)"
    and "i + 8 \<le> lo \<or> lo + n \<le> i \<Longrightarrow> i + 8 \<le> 2 ^ 64 \<Longrightarrow> same_bytes b lo n m (store64 m' (b + of_nat i) q)"
  using assms(1) same_bytes_store [OF assms(2)] same_bytes_trans by blast+

text \<open>A load inside a region that two memories agree on gives the same value.\<close>

lemma same_bytes_load:
  assumes "same_bytes b lo n m m'" "lo \<le> i"
  shows "i + 2 \<le> lo + n \<Longrightarrow> load16 m' (b + of_nat i) = load16 m (b + of_nat i)"
    and "i + 4 \<le> lo + n \<Longrightarrow> load32 m' (b + of_nat i) = load32 m (b + of_nat i)"
    and "i + 8 \<le> lo + n \<Longrightarrow> load64 m' (b + of_nat i) = load64 m (b + of_nat i)"
proof -
  have byte: "m' (b + of_nat i + of_nat j) = m (b + of_nat i + of_nat j)" if "i + j < lo + n" for j
    using same_bytes_nth [OF assms(1), of "i + j"] that assms(2) by (simp add: add.assoc)
  show "load16 m' (b + of_nat i) = load16 m (b + of_nat i)" if "i + 2 \<le> lo + n"
    using byte [of 0] byte [of 1] that by (simp add: load16_def)
  show "load32 m' (b + of_nat i) = load32 m (b + of_nat i)" if "i + 4 \<le> lo + n"
    unfolding load32_def using byte that by (intro arg_cong [where f = ucast] join_bytes_cong) simp
  show "load64 m' (b + of_nat i) = load64 m (b + of_nat i)" if "i + 8 \<le> lo + n"
    unfolding load64_def using byte that by (intro join_bytes_cong) simp
qed

text \<open>A copy loop: byte after byte from \<open>src\<close> to \<open>dst\<close>.\<close>

fun copy_loop :: "u64 \<Rightarrow> u64 \<Rightarrow> nat \<Rightarrow> mem \<Rightarrow> mem" where
  "copy_loop dst src 0 m = m"
| "copy_loop dst src (Suc n) m = copy_loop (dst + 1) (src + 1) n (m(dst := m src))"

text \<open>The bytes at an address.\<close>

fun bytes_at :: "mem \<Rightarrow> u64 \<Rightarrow> nat \<Rightarrow> u8 list" where
  "bytes_at m a 0 = []"
| "bytes_at m a (Suc n) = m a # bytes_at m (a + 1) n"

lemma length_bytes_at [simp]: "length (bytes_at m a n) = n"
  by (induction n arbitrary: a) auto

lemma nth_bytes_at: "i < n \<Longrightarrow> bytes_at m a n ! i = m (a + of_nat i)"
proof (induction n arbitrary: a i)
  case (Suc n)
  then show ?case by (cases i) (auto simp: add.assoc)
qed simp

lemma bytes_at_cong: "(\<And>i. i < n \<Longrightarrow> m (a + of_nat i) = m' (a' + of_nat i)) \<Longrightarrow> bytes_at m a n = bytes_at m' a' n"
  by (rule nth_equalityI) (simp_all add: nth_bytes_at)

lemma bytes_at_append: "bytes_at m a (n + k) = bytes_at m a n @ bytes_at m (a + of_nat n) k"
  by (induction n arbitrary: a) (auto simp: algebra_simps)

text \<open>Two runs of bytes that do not meet, and a copy between two such runs.\<close>

definition apart :: "u64 \<Rightarrow> nat \<Rightarrow> u64 \<Rightarrow> nat \<Rightarrow> bool" where
  "apart a n b k \<longleftrightarrow>
     (unat a + n \<le> unat b \<or> unat b + k \<le> unat a) \<and> unat a + n \<le> 2 ^ 64 \<and> unat b + k \<le> 2 ^ 64"

lemma apart_sym: "apart a n b k \<Longrightarrow> apart b k a n"
  by (auto simp: apart_def)

lemma unat_offset: "unat (a :: u64) + n \<le> 2 ^ 64 \<Longrightarrow> i < n \<Longrightarrow> unat (a + of_nat i) = unat a + i"
  using unat_plus_nowrap [of a "of_nat i"] by (simp add: unat_of_nat take_bit_nat_eq_self)

lemma apart_neq: "apart a n b k \<Longrightarrow> i < n \<Longrightarrow> j < k \<Longrightarrow> a + of_nat i \<noteq> b + of_nat j"
  using unat_offset [of a n i] unat_offset [of b k j] unfolding apart_def by force

lemma copy_loop_other: "(\<And>i. i < n \<Longrightarrow> x \<noteq> dst + of_nat i) \<Longrightarrow> copy_loop dst src n m x = m x"
proof (induction n arbitrary: dst src m)
  case (Suc n)
  have "x \<noteq> dst + 1 + of_nat i" if "i < n" for i using Suc.prems [of "Suc i"] that by (simp add: add.assoc)
  then show ?case using Suc.IH Suc.prems [of 0] by simp
qed simp

lemma copy_loop_copied:
  assumes "apart dst n src n" "i < n"
  shows "copy_loop dst src n m (dst + of_nat i) = m (src + of_nat i)"
proof -
  have "copy_loop dst src n m (dst + of_nat i) = m (src + of_nat i)"
    if "\<And>i j. i < n \<Longrightarrow> j < n \<Longrightarrow> dst + of_nat i \<noteq> src + of_nat j" "n \<le> 2 ^ 64" "i < n" for dst src m n i
    using that
  proof (induction n arbitrary: dst src m i)
    case (Suc n)
    have neq: "dst + of_nat j \<noteq> dst" if "0 < j" "j < Suc n" for j
      using that Suc.prems(2) of_nat_u64_eq [of j 0] by simp
    show ?case
    proof (cases i)
      case 0
      have "copy_loop (dst + 1) (src + 1) n (m(dst := m src)) dst = (m(dst := m src)) dst"
        by (rule copy_loop_other) (use neq [of "Suc j" for j] in \<open>metis Suc_mono add.assoc of_nat_Suc zero_less_Suc\<close>)
      then show ?thesis using 0 by simp
    next
      case (Suc i')
      have "dst + 1 + of_nat j \<noteq> src + 1 + of_nat l" if "j < n" "l < n" for j l
        using Suc.prems(1) [of "Suc j" "Suc l"] that by (simp add: add.assoc)
      then have "copy_loop (dst + 1) (src + 1) n (m(dst := m src)) (dst + 1 + of_nat i') = (m(dst := m src)) (src + 1 + of_nat i')"
        using Suc.IH Suc.prems(2,3) \<open>i = Suc i'\<close> by simp
      moreover have "src + 1 + of_nat i' \<noteq> dst"
        using Suc.prems(1) [of 0 "Suc i'"] Suc.prems(3) \<open>i = Suc i'\<close> by (simp add: add.assoc)
      ultimately show ?thesis using \<open>i = Suc i'\<close> by (simp add: add.assoc)
    qed
  qed simp
  then show ?thesis using apart_neq [OF assms(1)] assms by (simp add: apart_def)
qed

end
