(* ===== verification/Net.thy ===== *)
theory Net
  imports Byte_Memory
begin

text \<open>
  The network definitions of \<open>src/kernel/net.h\<close>: byte order, address printing and the Internet checksum. Multi-byte
  fields of packets are read and written at any address, low byte first, as the processor does. The properties: a
  header that carries its checksum sums to zero, the conversions read big-endian fields, and what the address
  printers print.
\<close>

section \<open>Constants\<close>

definition ETH_ALEN :: nat where "ETH_ALEN = 6"
definition ETH_HLEN :: u32 where "ETH_HLEN = 14"
definition ETH_FRAME_LEN :: u32 where "ETH_FRAME_LEN = 1514"
definition ETH_TYPE_IP :: u16 where "ETH_TYPE_IP = 0x0800"
definition ETH_TYPE_ARP :: u16 where "ETH_TYPE_ARP = 0x0806"
definition ARP_HW_ETHER :: u16 where "ARP_HW_ETHER = 1"
definition ARP_OP_REQUEST :: u16 where "ARP_OP_REQUEST = 1"
definition ARP_OP_REPLY :: u16 where "ARP_OP_REPLY = 2"
definition IP_PROTO_ICMP :: u8 where "IP_PROTO_ICMP = 1"
definition ICMP_ECHO_REPLY :: u8 where "ICMP_ECHO_REPLY = 0"
definition ICMP_ECHO_REQUEST :: u8 where "ICMP_ECHO_REQUEST = 8"

section \<open>Byte order\<close>

definition htons :: "u16 \<Rightarrow> u16" where
  "htons val = push_bit 8 (val AND 0xFF) OR (drop_bit 8 val AND 0xFF)"

definition ntohs :: "u16 \<Rightarrow> u16" where
  "ntohs val = htons val"

definition htonl :: "u32 \<Rightarrow> u32" where
  "htonl val = push_bit 24 (val AND 0xFF) OR push_bit 8 (val AND 0xFF00) OR (drop_bit 8 val AND 0xFF00) OR (drop_bit 24 val AND 0xFF)"

definition ntohl :: "u32 \<Rightarrow> u32" where
  "ntohl val = htonl val"

definition MAKE_IP :: "u32 \<Rightarrow> u32 \<Rightarrow> u32 \<Rightarrow> u32 \<Rightarrow> u32" where
  "MAKE_IP a b c d = push_bit 24 a OR push_bit 16 b OR push_bit 8 c OR d"

section \<open>Addresses as text\<close>

text \<open>The bytes the two printers write to their buffer, the terminating zero included.\<close>

definition nibble_char :: "u8 \<Rightarrow> u8" where
  "nibble_char d = [48, 49, 50, 51, 52, 53, 54, 55, 56, 57, 65, 66, 67, 68, 69, 70] ! unat d"

definition mac_to_string :: "u8 list \<Rightarrow> u8 list" where
  "mac_to_string mac =
     concat (map (\<lambda>i. [nibble_char (drop_bit 4 (mac ! i) AND 0x0F), nibble_char (mac ! i AND 0x0F)]
       @ (if i < 5 then [58] else [])) [0..<6]) @ [0]"

text \<open>The digits of one octet: each remaining value decides on its own whether a digit is printed.\<close>

definition octet_text :: "u8 \<Rightarrow> u8 list" where
  "octet_text octet =
     (let (a, octet) = (if octet \<ge> 100 then ([48 + octet div 100], octet mod 100) else ([], octet));
          (b, octet) = (if octet \<ge> 10 then ([48 + octet div 10], octet mod 10) else ([], octet))
      in a @ b @ [48 + octet])"

definition ip_to_string :: "u32 \<Rightarrow> u8 list" where
  "ip_to_string ip =
     concat (map (\<lambda>i. octet_text (ucast (drop_bit (24 - i * 8) ip AND 0xFF)) @ (if i < 3 then [46] else [])) [0..<4]) @ [0]"

section \<open>The Internet checksum\<close>

text \<open>The first loop adds sixteen-bit words, the last odd byte alone; the second folds the carries back in.\<close>

fun sum_words :: "mem \<Rightarrow> u64 \<Rightarrow> nat \<Rightarrow> u32 \<Rightarrow> u32" where
  "sum_words m p 0 acc = acc"
| "sum_words m p (Suc 0) acc = acc + ucast (m p)"
| "sum_words m p (Suc (Suc len)) acc = sum_words m (p + 2) len (acc + ucast (load16 m p))"

text \<open>One round of the second loop, as numbers.\<close>

lemma fold_carries_step:
  fixes s :: u32
  shows "unat (drop_bit 16 s) = unat s div 2 ^ 16"
    and "unat ((s AND 0xFFFF) + drop_bit 16 s) = unat s mod 2 ^ 16 + unat s div 2 ^ 16"
proof -
  have lo: "unat (s AND 0xFFFF) = unat s mod 2 ^ 16" using unat_and_mask [of s 16] by (simp add: mask_eq_exp_minus_1)
  show up: "unat (drop_bit 16 s) = unat s div 2 ^ 16"
    using unat_below [of s]
    by (simp add: unsigned_drop_bit_eq take_bit_nat_eq_self drop_bit_eq_div [where 'a = nat])
  have "unat s < 2 ^ 32" using unat_below [of s] by simp
  then show "unat ((s AND 0xFFFF) + drop_bit 16 s) = unat s mod 2 ^ 16 + unat s div 2 ^ 16"
    using lo up unat_plus_nowrap [of "s AND 0xFFFF" "drop_bit 16 s"] by simp
qed

function fold_carries :: "u32 \<Rightarrow> u32" where
  "fold_carries acc = (if drop_bit 16 acc \<noteq> 0 then fold_carries ((acc AND 0xFFFF) + drop_bit 16 acc) else acc)"
  by pat_completeness auto
termination
proof (relation "measure unat")
  fix s :: u32
  assume "drop_bit 16 s \<noteq> 0"
  then have "unat (drop_bit 16 s) \<noteq> 0" by (simp add: unat_eq_zero)
  then have hi: "unat s div 2 ^ 16 \<noteq> 0" by (simp only: fold_carries_step not_False_eq_True)
  have "unat ((s AND 0xFFFF) + drop_bit 16 s) = unat s mod 2 ^ 16 + unat s div 2 ^ 16" by (rule fold_carries_step)
  moreover have "k mod 65536 + k div 65536 < k" if "k div 65536 \<noteq> 0" for k :: nat
    using that div_mult_mod_eq [of k 65536] by linarith
  ultimately have "unat ((s AND 0xFFFF) + drop_bit 16 s) < unat s" using hi by simp
  then show "((s AND 0xFFFF) + drop_bit 16 s, s) \<in> measure unat" by simp
qed simp

declare fold_carries.simps [simp del]

text \<open>The length is an \<open>int\<close>; a length below one sums nothing.\<close>

definition ip_checksum :: "mem \<Rightarrow> u64 \<Rightarrow> int \<Rightarrow> u16" where
  "ip_checksum m data len = ucast (NOT (fold_carries (sum_words m data (nat len) 0)))"

section \<open>What the checksum computes\<close>

text \<open>The sum of the words as a number, and the one's complement sum that the folded value stands for.\<close>

fun words_total :: "mem \<Rightarrow> u64 \<Rightarrow> nat \<Rightarrow> nat" where
  "words_total m p 0 = 0"
| "words_total m p (Suc 0) = unat (m p)"
| "words_total m p (Suc (Suc len)) = unat (load16 m p) + words_total m (p + 2) len"

lemma words_total_bound: "words_total m p len \<le> 65535 * ((len + 1) div 2)"
proof (induction m p len rule: words_total.induct)
  case (2 m p)
  then show ?case using unat_below [of "m p"] by simp
next
  case (3 m p len)
  then show ?case using unat_below [of "load16 m p"] by simp
qed simp

lemma sum_words_total:
  assumes "unat acc + 65535 * ((len + 1) div 2) < 2 ^ 32"
  shows "unat (sum_words m p len acc) = unat acc + words_total m p len"
  using assms
proof (induction m p len acc rule: sum_words.induct)
  case (2 m p acc)
  then have "unat acc + unat (ucast (m p) :: u32) < 2 ^ 32"
    using unat_below [of "m p"] by (simp add: unat_ucast_up)
  then show ?case by (simp add: unat_plus_nowrap unat_ucast_up)
next
  case (3 m p len acc)
  have "unat (load16 m p) \<le> 65535" using unat_below [of "load16 m p"] by simp
  then have step: "unat (acc + ucast (load16 m p)) = unat acc + unat (load16 m p)"
    using 3(2) unat_plus_nowrap [of acc "ucast (load16 m p)"] by (simp add: unat_ucast_up)
  then have "unat (acc + ucast (load16 m p)) + 65535 * ((len + 1) div 2) < 2 ^ 32"
    using 3(2) \<open>unat (load16 m p) \<le> 65535\<close> by simp
  from 3(1) [OF this] show ?case using step by simp
qed simp

lemma fold_carries_sound:
  "unat (fold_carries s) < 65536 \<and> unat (fold_carries s) mod 65535 = unat s mod 65535
   \<and> (unat (fold_carries s) = 0 \<longleftrightarrow> unat s = 0)"
proof (induction s rule: fold_carries.induct)
  case (1 s)
  show ?case
  proof (cases "drop_bit 16 s = 0")
    case True
    then have "unat s div 65536 = 0" using fold_carries_step(1) [of s] by simp
    then show ?thesis using True by (simp add: fold_carries.simps [of s])
  next
    case False
    then have "unat (drop_bit 16 s) \<noteq> 0" by (simp add: unat_eq_zero)
    then have hi: "unat s div 65536 \<noteq> 0" using fold_carries_step(1) [of s] by simp
    let ?t = "(s AND 0xFFFF) + drop_bit 16 s"
    have t: "unat ?t = unat s mod 65536 + unat s div 65536" using fold_carries_step(2) [of s] by simp
    have "unat s = 65535 * (unat s div 65536) + unat ?t" using t by simp
    then have "unat ?t mod 65535 = unat s mod 65535" by (metis mod_mult_self4)
    moreover have "unat ?t \<noteq> 0" "unat s \<noteq> 0" using hi t by auto
    ultimately show ?thesis using 1 [OF False] False by (simp add: fold_carries.simps [of s])
  qed
qed

lemma words_total_cong:
  assumes "\<And>i. i < len \<Longrightarrow> m (p + of_nat i) = m' (p + of_nat i)"
  shows "words_total m p len = words_total m' p len"
  using assms
proof (induction m p len rule: words_total.induct)
  case (2 m p)
  then show ?case using 2 [of 0] by simp
next
  case (3 m p len)
  have "m (p + 2 + of_nat i) = m' (p + 2 + of_nat i)" if "i < len" for i
    using 3(2) [of "i + 2"] that by (simp add: algebra_simps)
  moreover have "load16 m p = load16 m' p"
    using 3(2) [of 0] 3(2) [of 1] by (simp add: load16_def)
  ultimately show ?case using 3(1) by simp
qed simp

text \<open>Overwriting one of the words changes the total by the difference of the two words.\<close>

lemma words_total_store:
  assumes "even k" "k + 1 < len" "len < 2 ^ 64"
  shows "words_total (store16 m (p + of_nat k) c) p len + unat (load16 m (p + of_nat k))
       = words_total m p len + unat c"
  using assms
proof (induction len arbitrary: p k rule: less_induct)
  case (less len)
  define n where "n = len - 2"
  have len: "len = Suc (Suc n)" using less.prems(2) by (simp add: n_def)
  show ?case
  proof (cases k)
    case 0
    have "store16 m p c (p + 2 + of_nat i) = m (p + 2 + of_nat i)" if "i < n" for i
    proof -
      have "(of_nat (i + 2) :: u64) \<noteq> of_nat 0" "(of_nat (i + 2) :: u64) \<noteq> of_nat 1"
        using that less.prems(3) len by (subst of_nat_u64_eq; simp)+
      then show ?thesis by (simp add: store16_def algebra_simps)
    qed
    then have "words_total (store16 m p c) (p + 2) n = words_total m (p + 2) n" by (rule words_total_cong)
    then show ?thesis using 0 len by (simp add: load16_store16_same)
  next
    case (Suc k0)
    with less.prems(1) obtain j where k: "k = Suc (Suc j)" by (cases k0) auto
    have "(of_nat k :: u64) \<noteq> of_nat 0" "(of_nat k :: u64) \<noteq> of_nat 1"
      "(of_nat (k + 1) :: u64) \<noteq> of_nat 0" "(of_nat (k + 1) :: u64) \<noteq> of_nat 1"
      using less.prems k by (subst of_nat_u64_eq; simp)+
    then have "load16 (store16 m (p + of_nat k) c) p = load16 m p"
      by (auto simp: load16_def store16_def add.assoc add.commute [of 1 "of_nat k"])
    moreover have "words_total (store16 m (p + 2 + of_nat j) c) (p + 2) n + unat (load16 m (p + 2 + of_nat j))
        = words_total m (p + 2) n + unat c"
      using less.IH [of n j "p + 2"] less.prems k len by simp
    moreover have "p + 2 + of_nat j = p + of_nat k" using k by (simp add: algebra_simps)
    ultimately show ?thesis using len by simp
  qed
qed

lemma unat_not_u16: "unat (NOT w :: u16) = 65535 - unat w"
proof -
  have "NOT w = - 1 - w" by (simp add: not_eq_complement)
  moreover have "unat (- 1 - w) = unat (- 1 :: u16) - unat w" by (rule unat_sub) simp
  moreover have "unat (- 1 :: u16) = 65535" by (simp add: unsigned_minus_1_eq_mask mask_eq_exp_minus_1)
  ultimately show ?thesis by simp
qed

lemma ip_checksum_value:
  assumes "len \<le> 65535"
  shows "unat (ip_checksum m p (int len)) = 65535 - unat (fold_carries (sum_words m p len 0))"
    and "unat (sum_words m p len 0) = words_total m p len"
proof -
  have "65535 * ((len + 1) div 2) < (2 ^ 32 :: nat)" using assms by simp
  then show "unat (sum_words m p len 0) = words_total m p len" using sum_words_total [of 0 len m p] by simp
  let ?r = "fold_carries (sum_words m p len 0)"
  have r: "unat ?r < 65536" using fold_carries_sound by blast
  have "ucast (NOT ?r) = (NOT (ucast ?r) :: u16)" by (rule bit_eqI) (auto simp: bit_simps dest: bit_word_less)
  moreover have "unat (NOT (ucast ?r) :: u16) = 65535 - unat (ucast ?r :: u16)"
    by (rule unat_not_u16)
  moreover have "unat (ucast ?r :: u16) = unat ?r" using r by (simp add: unsigned_ucast_eq take_bit_nat_eq_self)
  ultimately show "unat (ip_checksum m p (int len)) = 65535 - unat ?r" by (simp add: ip_checksum_def)
qed

lemma ip_checksum_sound:
  assumes "even k" "k + 1 < len" "len \<le> 65535" "load16 m (p + of_nat k) = 0"
  shows "ip_checksum (store16 m (p + of_nat k) (ip_checksum m p (int len))) p (int len) = 0"
proof -
  let ?c = "ip_checksum m p (int len)"
  let ?m = "store16 m (p + of_nat k) ?c"
  let ?r = "fold_carries (sum_words m p len 0)" and ?r' = "fold_carries (sum_words ?m p len 0)"
  note s = ip_checksum_value [OF assms(3)]
  note f = fold_carries_sound [of "sum_words m p len 0"] and f' = fold_carries_sound [of "sum_words ?m p len 0"]
  have tot: "words_total ?m p len = words_total m p len + (65535 - unat ?r)"
    using words_total_store [OF assms(1,2), of m p ?c] assms(3,4) s(1) by simp
  have "(words_total m p len + (65535 - unat ?r)) mod 65535 = (unat ?r + (65535 - unat ?r)) mod 65535"
    using f s(2) by (metis mod_add_left_eq)
  then have "unat ?r' mod 65535 = 0" using f f' s(2) tot by simp
  moreover have "unat ?r' \<noteq> 0" using f f' s(2) tot by auto
  moreover have "unat ?r' < 65536" using f' by simp
  ultimately have "unat ?r' = 65535" by (auto simp: mod_eq_0_iff_dvd elim!: dvdE)
  then have "unat (ip_checksum ?m p (int len)) = 0" using s(1) [of ?m p] by simp
  then show ?thesis by (simp only: unat_eq_zero)
qed

text \<open>
  a header or message that carries its own checksum passes the check a receiver makes. When the checksum field, at an
  even offset, is zero and the checksum of the whole is stored in it, the checksum of the result is zero; this holds
  for every length up to 65535 bytes, odd ones included, because the sum cannot wrap in 32 bits.
\<close>
theorem ip_checksum_verifies:
  assumes "even k" "k + 1 < len" "len \<le> 65535" "load16 m (p + of_nat k) = 0"
  shows "ip_checksum (store16 m (p + of_nat k) (ip_checksum m p (int len))) p (int len) = 0"
  by (rule ip_checksum_sound [OF assms])

lemma ip_checksum_verifies_witness:
  "ip_checksum (store16 ((\<lambda>a. 7)(2 := 0, 3 := 0)) (0 + of_nat 2) (ip_checksum ((\<lambda>a. 7)(2 := 0, 3 := 0)) 0 (int 5))) 0 (int 5) = 0"
  by (rule ip_checksum_verifies) (simp_all add: load16_def)

section \<open>Byte order\<close>

text \<open>The bytes of a big-endian field, most significant first.\<close>

definition be16 :: "u16 \<Rightarrow> u8 list" where
  "be16 v = [ucast (drop_bit 8 v), ucast v]"

definition be32 :: "u32 \<Rightarrow> u8 list" where
  "be32 v = [ucast (drop_bit 24 v), ucast (drop_bit 16 v), ucast (drop_bit 8 v), ucast v]"

lemma byte_masks: "(0xFF :: 'a::len word) = mask 8" "(0xFF00 :: 'a::len word) = push_bit 8 (mask 8)"
  by (simp_all add: mask_eq_exp_minus_1 push_bit_eq_mult)

lemma htons_bytes: "ucast (htons v) = (ucast (drop_bit 8 v) :: u8)" "ucast (drop_bit 8 (htons v)) = (ucast v :: u8)"
  unfolding htons_def byte_masks
  by (rule bit_eqI; auto simp: bit_simps dest: bit_word_less)+

lemma htonl_bytes:
  "ucast (htonl v) = (ucast (drop_bit 24 v) :: u8)" "ucast (drop_bit 8 (htonl v)) = (ucast (drop_bit 16 v) :: u8)"
  "ucast (drop_bit 16 (htonl v)) = (ucast (drop_bit 8 v) :: u8)" "ucast (drop_bit 24 (htonl v)) = (ucast v :: u8)"
  unfolding htonl_def byte_masks
  by (rule bit_eqI; auto simp: bit_simps dest: bit_word_less)+

lemma htons_htons: "htons (htons v) = v"
  unfolding htons_def byte_masks
  by (rule bit_eqI; auto simp: bit_simps dest: bit_word_less)+

lemma u32_bytes_eqI:
  fixes v w :: u32
  assumes "(ucast v :: u8) = ucast w" "(ucast (drop_bit 8 v) :: u8) = ucast (drop_bit 8 w)"
    "(ucast (drop_bit 16 v) :: u8) = ucast (drop_bit 16 w)" "(ucast (drop_bit 24 v) :: u8) = ucast (drop_bit 24 w)"
  shows "v = w"
proof (rule bit_eqI)
  fix n
  assume "possible_bit TYPE(u32) n"
  then have n: "n < 32" by simp
  have byte: "bit (ucast (drop_bit k x) :: u8) j \<longleftrightarrow> j < 8 \<and> bit x (k + j)" for k j and x :: u32
    by (auto simp: bit_simps dest: bit_word_less)
  have whole: "bit (ucast x :: u8) j \<longleftrightarrow> j < 8 \<and> bit x j" for j and x :: u32
    by (auto simp: bit_simps)
  consider "n < 8" | "8 \<le> n" "n < 16" | "16 \<le> n" "n < 24" | "24 \<le> n" using n by linarith
  then show "bit v n \<longleftrightarrow> bit w n"
  proof cases
    case 1
    then show ?thesis using arg_cong [OF assms(1), of "\<lambda>b. bit b n"] by (simp add: whole)
  next
    case 2
    then show ?thesis using arg_cong [OF assms(2), of "\<lambda>b. bit b (n - 8)"] by (simp add: byte less_diff_conv2)
  next
    case 3
    then show ?thesis using arg_cong [OF assms(3), of "\<lambda>b. bit b (n - 16)"] by (simp add: byte less_diff_conv2)
  next
    case 4
    then show ?thesis using n arg_cong [OF assms(4), of "\<lambda>b. bit b (n - 24)"] by (simp add: byte less_diff_conv2)
  qed
qed

lemma htonl_htonl: "htonl (htonl v) = v"
  by (rule u32_bytes_eqI) (simp_all only: htonl_bytes)

text \<open>
  The network byte order conversions. Storing the converted value puts the bytes in memory most significant first,
  at any address, and converting what is loaded from such bytes gives the value back.
\<close>

lemma store16_bytes: "store16 m a (htons v) = m(a := ucast (drop_bit 8 v), a + 1 := ucast v)"
  by (simp add: store16_def htons_bytes)

lemma store32_bytes:
  "store32 m a (htonl v) = m(a := ucast (drop_bit 24 v), a + 1 := ucast (drop_bit 16 v),
     a + 2 := ucast (drop_bit 8 v), a + 3 := ucast v)"
  by (simp add: store32_updates htonl_bytes)

lemma ntohs_load:
  assumes "m a = ucast (drop_bit 8 v)" "m (a + 1) = ucast v"
  shows "ntohs (load16 m a) = v"
proof -
  have "load16 m a = load16 (store16 m a (htons v)) a"
    using assms by (intro load16_cong) (simp_all add: store16_bytes)
  then show ?thesis by (simp add: load16_store16_same ntohs_def htons_htons)
qed

lemma ntohl_load:
  assumes "m a = ucast (drop_bit 24 v)" "m (a + 1) = ucast (drop_bit 16 v)" "m (a + 2) = ucast (drop_bit 8 v)"
    "m (a + 3) = ucast v"
  shows "ntohl (load32 m a) = v"
proof -
  have "load32 m a = load32 (store32 m a (htonl v)) a"
    using assms by (intro load32_cong) (simp_all add: store32_bytes)
  then show ?thesis by (simp add: load32_store32_same ntohl_def htonl_htonl)
qed

section \<open>What the printers print\<close>

text \<open>The decimal numeral of a number, the reference for the octets of an address.\<close>

fun dec_text :: "nat \<Rightarrow> u8 list" where
  "dec_text n = (if n < 10 then [48 + of_nat n] else dec_text (n div 10) @ [48 + of_nat (n mod 10)])"

declare dec_text.simps [simp del]

lemma octet_table: "\<forall>n \<in> set [0..<256]. octet_text (of_nat n) =
    (if n div 10 = 10 \<or> n div 10 = 20 then [48 + of_nat (n div 100), 48 + of_nat (n mod 10)] else dec_text n)"
  by code_simp

lemma octet_text_value:
  "octet_text b = (if unat b div 10 = 10 \<or> unat b div 10 = 20
     then [48 + of_nat (unat b div 100), 48 + of_nat (unat b mod 10)] else dec_text (unat b))"
proof -
  have "unat b \<in> set [0..<256]" using unat_below [of b] by simp
  from bspec [OF octet_table this] show ?thesis by simp
qed

lemma octet_text_length: "length (octet_text b) \<le> 3"
  by (simp add: octet_text_def)

lemma ip_to_string_split:
  "ip_to_string ip = octet_text (ucast (drop_bit 24 ip)) @ 46 # octet_text (ucast (drop_bit 16 ip)) @ 46 #
     octet_text (ucast (drop_bit 8 ip)) @ 46 # octet_text (ucast ip) @ [0]"
proof -
  have low: "(ucast (x AND mask 8) :: u8) = ucast x" for x :: u32
    by (rule bit_eqI) (auto simp: bit_simps dest: bit_word_less)
  show ?thesis by (simp add: ip_to_string_def upt_rec byte_masks low)
qed

definition octets :: "u32 \<Rightarrow> u8 list" where
  "octets ip = [ucast (drop_bit 24 ip), ucast (drop_bit 16 ip), ucast (drop_bit 8 ip), ucast ip]"

definition dotted_decimal :: "u32 \<Rightarrow> u8 list" where
  "dotted_decimal ip =
     (case octets ip of [a, b, c, d] \<Rightarrow>
        dec_text (unat a) @ 46 # dec_text (unat b) @ 46 # dec_text (unat c) @ 46 # dec_text (unat d) @ [0])"

definition octet_misprints :: "u8 \<Rightarrow> bool" where
  "octet_misprints b \<longleftrightarrow> b div 10 = 10 \<or> b div 10 = 20"

lemma octet_misprints_nat: "octet_misprints b \<longleftrightarrow> unat b div 10 = 10 \<or> unat b div 10 = 20"
  by (simp add: octet_misprints_def word_unat_eq_iff unat_div_distrib)

lemma octet_text_shorter:
  "length (octet_text b) \<le> length (dec_text (unat b))"
  "octet_misprints b \<Longrightarrow> length (octet_text b) < length (dec_text (unat b))"
  "\<not> octet_misprints b \<Longrightarrow> octet_text b = dec_text (unat b)"
proof -
  have three: "length (dec_text n) = 3" if "n div 10 = 10 \<or> n div 10 = 20" for n
    using that by (auto simp: dec_text.simps [of n] dec_text.simps [of 10] dec_text.simps [of 20] dec_text.simps [of "Suc 0"] dec_text.simps [of 2])
  show short: "octet_misprints b \<Longrightarrow> length (octet_text b) < length (dec_text (unat b))"
    using three [of "unat b"] by (simp add: octet_text_value octet_misprints_nat)
  show eq: "\<not> octet_misprints b \<Longrightarrow> octet_text b = dec_text (unat b)"
    by (simp add: octet_text_value octet_misprints_nat)
  show "length (octet_text b) \<le> length (dec_text (unat b))"
    using short eq by (cases "octet_misprints b") auto
qed

text \<open>
  the text of an address is its dotted decimal notation exactly when no octet is in 100..109 or 200..209. The printer
  drops the middle zero of such an octet, so that, for one, 192.168.105.1 and 192.168.15.1 print alike; the text always
  fits a buffer of 16 bytes, and the text of a hardware address fills one of 18.
\<close>
theorem ip_to_string_octets:
  "(ip_to_string ip = dotted_decimal ip \<longleftrightarrow> filter octet_misprints (octets ip) = [])
   \<and> ip_to_string (MAKE_IP 192 168 105 1) = ip_to_string (MAKE_IP 192 168 15 1)
   \<and> length (ip_to_string ip) \<le> 16 \<and> length (mac_to_string mac) = 18"
proof (intro conjI)
  have len: "length (ip_to_string ip) < length (dotted_decimal ip)" if "filter octet_misprints (octets ip) \<noteq> []"
    using that octet_text_shorter(1,2) [of "ucast (drop_bit 24 ip)"] octet_text_shorter(1,2) [of "ucast (drop_bit 16 ip)"]
      octet_text_shorter(1,2) [of "ucast (drop_bit 8 ip)"] octet_text_shorter(1,2) [of "ucast ip"]
    by (simp add: ip_to_string_split dotted_decimal_def octets_def split: if_splits)
  show "ip_to_string ip = dotted_decimal ip \<longleftrightarrow> filter octet_misprints (octets ip) = []"
  proof
    assume "ip_to_string ip = dotted_decimal ip"
    then show "filter octet_misprints (octets ip) = []" using len by force
  next
    assume "filter octet_misprints (octets ip) = []"
    then show "ip_to_string ip = dotted_decimal ip"
      by (simp add: ip_to_string_split dotted_decimal_def octets_def octet_text_shorter(3) del: dec_text.simps split: if_splits)
  qed
  show "ip_to_string (MAKE_IP 192 168 105 1) = ip_to_string (MAKE_IP 192 168 15 1)" by code_simp
  show "length (ip_to_string ip) \<le> 16"
    using octet_text_length [of "ucast (drop_bit 24 ip)"] octet_text_length [of "ucast (drop_bit 16 ip)"]
      octet_text_length [of "ucast (drop_bit 8 ip)"] octet_text_length [of "ucast ip"]
    by (simp add: ip_to_string_split)
  show "length (mac_to_string mac) = 18" by (simp add: mac_to_string_def upt_rec)
qed

end
