(* ===== verification/Virtqueue.thy ===== *)
theory Virtqueue
  imports Byte_Memory
begin

text \<open>
  Virtqueues: the structures of \<open>src/kernel/virtio.h\<close> and the queue operations of \<open>src/kernel/virtio_net.h\<close>. The
  descriptor table, the available ring and the used ring live in memory that the device shares; the driver's own
  bookkeeping is a record. The unused descriptors form a list through their \<open>next\<close> fields, and the development
  shows that a descriptor is free, posted to the device or returned by it, and never two of these at once.
\<close>

section \<open>Data\<close>

record virtqueue =
  vq_size :: u16
  desc :: u64
  avail :: u64
  used :: u64
  free_head :: u16
  num_free :: u16
  last_used_idx :: u16

text \<open>Field addresses of the packed structures: 16 bytes a descriptor, 2 an available entry, 8 a used one.\<close>

definition desc_addr :: "virtqueue \<Rightarrow> u64 \<Rightarrow> u64" where "desc_addr vq i = desc vq + 16 * i"
definition desc_len :: "virtqueue \<Rightarrow> u64 \<Rightarrow> u64" where "desc_len vq i = desc vq + (16 * i + 8)"
definition desc_flags :: "virtqueue \<Rightarrow> u64 \<Rightarrow> u64" where "desc_flags vq i = desc vq + (16 * i + 12)"
definition desc_next :: "virtqueue \<Rightarrow> u64 \<Rightarrow> u64" where "desc_next vq i = desc vq + (16 * i + 14)"
definition avail_flags :: "virtqueue \<Rightarrow> u64" where "avail_flags vq = avail vq"
definition avail_idx :: "virtqueue \<Rightarrow> u64" where "avail_idx vq = avail vq + 2"
definition avail_ring :: "virtqueue \<Rightarrow> u64 \<Rightarrow> u64" where "avail_ring vq i = avail vq + (4 + 2 * i)"
definition used_flags :: "virtqueue \<Rightarrow> u64" where "used_flags vq = used vq"
definition used_idx :: "virtqueue \<Rightarrow> u64" where "used_idx vq = used vq + 2"
definition used_id :: "virtqueue \<Rightarrow> u64 \<Rightarrow> u64" where "used_id vq i = used vq + (4 + 8 * i)"
definition used_len :: "virtqueue \<Rightarrow> u64 \<Rightarrow> u64" where "used_len vq i = used vq + (8 + 8 * i)"

definition VIRTQ_DESC_F_WRITE :: u16 where "VIRTQ_DESC_F_WRITE = 2"
definition VIRTQ_PAGE_SIZE :: u64 where "VIRTQ_PAGE_SIZE = 4096"

section \<open>Operations\<close>

definition virtq_size :: "u16 \<Rightarrow> u32" where
  "virtq_size qsz = ucast
     (((16 * ucast qsz + 2 * (3 + ucast qsz) + VIRTQ_PAGE_SIZE - 1) AND NOT (VIRTQ_PAGE_SIZE - 1))
      + ((2 * 3 + 8 * ucast qsz + VIRTQ_PAGE_SIZE - 1) AND NOT (VIRTQ_PAGE_SIZE - 1)) :: u64)"

definition virtq_init :: "u16 \<Rightarrow> u64 \<Rightarrow> mem \<Rightarrow> virtqueue \<times> mem" where
  "virtq_init qsz mem m =
     (let avail_size = (2 * (3 + ucast qsz) :: u32);
          used_offset = (ucast ((16 * ucast qsz + ucast avail_size + VIRTQ_PAGE_SIZE - 1) AND NOT (VIRTQ_PAGE_SIZE - 1) :: u64) :: u32);
          vq = \<lparr>vq_size = qsz, desc = mem, avail = mem + 16 * ucast qsz, used = mem + ucast used_offset,
                free_head = 0, num_free = qsz, last_used_idx = 0\<rparr>;
          m = fold (\<lambda>i m. store16 m (desc_next vq (of_nat i)) (of_nat (i + 1))) [0..<unat qsz - 1] m;
          m = store16 m (avail_flags vq) 0;
          m = store16 m (avail_idx vq) 0;
          m = store16 m (used_flags vq) 0;
          m = store16 m (used_idx vq) 0
      in (vq, m))"

definition virtq_add_buffer :: "u64 \<Rightarrow> u32 \<Rightarrow> u16 \<Rightarrow> virtqueue \<times> mem \<Rightarrow> int \<times> virtqueue \<times> mem" where
  "virtq_add_buffer buf len flags = (\<lambda>(vq, m).
     if num_free vq = 0 then (- 1, vq, m)
     else
       let head = free_head vq;
           vq = vq\<lparr>free_head := load16 m (desc_next vq (ucast head)), num_free := num_free vq - 1\<rparr>;
           m = store64 m (desc_addr vq (ucast head)) buf;
           m = store32 m (desc_len vq (ucast head)) len;
           m = store16 m (desc_flags vq (ucast head)) flags;
           m = store16 m (desc_next vq (ucast head)) 0;
           idx = load16 m (avail_idx vq) AND (vq_size vq - 1);
           m = store16 m (avail_ring vq (ucast idx)) head;
           m = store16 m (avail_idx vq) (load16 m (avail_idx vq) + 1)
       in (int (unat head), vq, m))"

text \<open>
  The length of the used entry is returned beside the result, as the code does through its pointer argument: None
  when the pointer is left alone. The identifier is 32 bits wide, the result a signed \<open>int\<close>, the list head 16 bits.
\<close>

definition virtq_get_used :: "virtqueue \<times> mem \<Rightarrow> int \<times> u32 option \<times> virtqueue \<times> mem" where
  "virtq_get_used = (\<lambda>(vq, m).
     if last_used_idx vq = load16 m (used_idx vq) then (- 1, None, vq, m)
     else
       let idx = last_used_idx vq AND (vq_size vq - 1);
           desc_id = load32 m (used_id vq (ucast idx));
           len = load32 m (used_len vq (ucast idx));
           vq = vq\<lparr>last_used_idx := last_used_idx vq + 1\<rparr>;
           m = store16 m (desc_next vq (ucast desc_id)) (free_head vq);
           vq = vq\<lparr>free_head := ucast desc_id, num_free := num_free vq + 1\<rparr>
       in (sint desc_id, Some len, vq, m))"

section \<open>Layout\<close>

text \<open>
  A queue of \<open>n\<close> descriptors, a power of two up to 2^15, laid out from its base as \<open>virtq_init\<close> does. The offsets of
  the two rings, as numbers.
\<close>

definition used_off :: "nat \<Rightarrow> nat" where
  "used_off n = (16 * n + 2 * (3 + n) + 4095) div 4096 * 4096"

definition queue_size :: "nat \<Rightarrow> bool" where
  "queue_size n \<longleftrightarrow> (\<exists>k \<in> set [0..<16]. n = 2 ^ k)"

definition vq_placed :: "virtqueue \<Rightarrow> bool" where
  "vq_placed vq \<longleftrightarrow> queue_size (unat (vq_size vq)) \<and> avail vq = desc vq + of_nat (16 * unat (vq_size vq))
     \<and> used vq = desc vq + of_nat (used_off (unat (vq_size vq)))"

lemma queue_size_bounds: "queue_size n \<Longrightarrow> 0 < n \<and> n \<le> 32768"
proof -
  assume "queue_size n"
  then obtain k where "k \<le> 15" "n = 2 ^ k" by (auto simp: queue_size_def)
  then show ?thesis using power_increasing [of k 15 "2 :: nat"] by simp
qed

lemma used_off_bounds: "18 * n + 6 \<le> used_off n" "used_off n \<le> 18 * n + 4101"
proof -
  have "k div 4096 * 4096 \<le> k" "k < k div 4096 * 4096 + 4096" for k :: nat
    using div_mult_mod_eq [of k 4096] mod_less_divisor [of 4096 k] by linarith+
  from this [of "16 * n + 2 * (3 + n) + 4095", folded used_off_def]
  show "18 * n + 6 \<le> used_off n" "used_off n \<le> 18 * n + 4101" by simp_all
qed

text \<open>Every field address as an offset from the base of the queue.\<close>

lemma desc_offsets:
  "desc_addr vq (ucast h) = desc vq + of_nat (16 * unat (h :: 'a::len word))"
  "desc_len vq (ucast h) = desc vq + of_nat (16 * unat h + 8)"
  "desc_flags vq (ucast h) = desc vq + of_nat (16 * unat h + 12)"
  "desc_next vq (ucast h) = desc vq + of_nat (16 * unat h + 14)"
  by (simp_all add: desc_addr_def desc_len_def desc_flags_def desc_next_def)

lemma desc_next_nat: "desc_next vq (of_nat i) = desc vq + of_nat (16 * i + 14)"
  by (simp add: desc_next_def)

lemma ring_offsets:
  assumes "vq_placed vq"
  shows "avail_flags vq = desc vq + of_nat (16 * unat (vq_size vq))"
    "avail_idx vq = desc vq + of_nat (16 * unat (vq_size vq) + 2)"
    "avail_ring vq (ucast j) = desc vq + of_nat (16 * unat (vq_size vq) + 4 + 2 * unat (j :: u16))"
    "used_flags vq = desc vq + of_nat (used_off (unat (vq_size vq)))"
    "used_idx vq = desc vq + of_nat (used_off (unat (vq_size vq)) + 2)"
    "used_id vq (ucast j) = desc vq + of_nat (used_off (unat (vq_size vq)) + 4 + 8 * unat j)"
    "used_len vq (ucast j) = desc vq + of_nat (used_off (unat (vq_size vq)) + 8 + 8 * unat j)"
  using assms
  by (simp_all add: vq_placed_def avail_flags_def avail_idx_def avail_ring_def used_flags_def used_idx_def used_id_def
      used_len_def algebra_simps)

lemma ring_slot:
  assumes "queue_size (unat (n :: u16))"
  shows "unat (w AND (n - 1)) = unat w mod unat n"
proof -
  obtain k where k: "k < 16" "unat n = 2 ^ k" using assms by (auto simp: queue_size_def)
  have "n = of_nat (unat n)" by simp
  then have "n = 2 ^ k" unfolding k(2) by simp
  then show ?thesis using unat_and_mask [of w k] k(2) by (simp add: mask_eq_exp_minus_1)
qed

end
