(* ===== verification/Virtqueue_Spec.thy ===== *)
theory Virtqueue_Spec
  imports Virtqueue
begin

text \<open>
  What the queue operations of \<open>src/kernel/virtio_net.h\<close> keep: the three places a descriptor can be in, as lists, and
  how adding a buffer, returning one (the device) and taking a returned one move descriptors between them. The contract
  is a locale, interpreted on the model, and a step relation interleaves driver and device.
\<close>

section \<open>The free list\<close>

fun chain :: "mem \<Rightarrow> u64 \<Rightarrow> u16 \<Rightarrow> nat list \<Rightarrow> bool" where
  "chain m d h [] = True"
| "chain m d h (i # is) \<longleftrightarrow> unat h = i \<and> chain m d (load16 m (d + of_nat (16 * i + 14))) is"

definition free_list :: "virtqueue \<Rightarrow> mem \<Rightarrow> nat list \<Rightarrow> bool" where
  "free_list vq m fs \<longleftrightarrow>
     chain m (desc vq) (free_head vq) fs \<and> unat (num_free vq) = length fs \<and> distinct fs
     \<and> list_all (\<lambda>i. i < unat (vq_size vq)) fs"

lemma chain_frame:
  assumes "\<And>i. i \<in> set is \<Longrightarrow> load16 m' (d + of_nat (16 * i + 14)) = load16 m (d + of_nat (16 * i + 14))"
  shows "chain m' d h is \<longleftrightarrow> chain m d h is"
  using assms by (induction "is" arbitrary: h) simp_all

text \<open>The entries the device has returned and the driver has not yet taken, oldest first.\<close>

definition used_slot :: "virtqueue \<Rightarrow> nat \<Rightarrow> u16" where
  "used_slot vq k = (last_used_idx vq + of_nat k) AND (vq_size vq - 1)"

definition pending :: "virtqueue \<Rightarrow> mem \<Rightarrow> nat list \<Rightarrow> bool" where
  "pending vq m ds \<longleftrightarrow>
     unat (load16 m (used_idx vq) - last_used_idx vq) = length ds
     \<and> list_all (\<lambda>k. load32 m (used_id vq (ucast (used_slot vq k))) = of_nat (ds ! k)) [0..<length ds]"

text \<open>
  Where every descriptor is: in the free list, posted to the device, or returned by it. The three lists are disjoint and
  together hold every descriptor of the queue. The free list and the returned descriptors are read from memory; the posted
  ones are those the driver has handed out, whatever the rings say. That a buffer that is added is also published in the
  available ring is \<open>virtq_add_buffer_published\<close>.
\<close>

definition vq_holds :: "virtqueue \<Rightarrow> mem \<Rightarrow> nat list \<Rightarrow> nat list \<Rightarrow> nat list \<Rightarrow> bool" where
  "vq_holds vq m fs posted ds \<longleftrightarrow>
     vq_placed vq \<and> free_list vq m fs \<and> pending vq m ds
     \<and> distinct (fs @ posted @ ds) \<and> set (fs @ posted @ ds) = {0..<unat (vq_size vq)}"

text \<open>A change that keeps the next fields of the free descriptors and the used ring keeps the picture.\<close>

lemma vq_holds_frame:
  assumes "vq_placed vq" "vq_placed vq'"
    and eq: "desc vq' = desc vq" "used vq' = used vq" "vq_size vq' = vq_size vq" "last_used_idx vq' = last_used_idx vq"
    and same: "same_bytes (desc vq) (used_off (unat (vq_size vq))) (8 * unat (vq_size vq) + 4) m m'"
  shows "pending vq' m' ds \<longleftrightarrow> pending vq m ds"
proof -
  let ?n = "unat (vq_size vq)" and ?o = "used_off (unat (vq_size vq))"
  have sz: "queue_size ?n" using assms(1) by (simp add: vq_placed_def)
  have addr: "used_idx vq' = used_idx vq" "used_id vq' i = used_id vq i" for i
    using eq by (simp_all add: used_idx_def used_id_def)
  have slot: "used_slot vq' k = used_slot vq k" for k using eq by (simp add: used_slot_def)
  have "load16 m' (used_idx vq) = load16 m (used_idx vq)"
    unfolding ring_offsets [OF assms(1)] using queue_size_bounds [OF sz] by (intro same_bytes_load(1) [OF same]) auto
  moreover have "load32 m' (used_id vq (ucast (used_slot vq k))) = load32 m (used_id vq (ucast (used_slot vq k)))" for k
  proof -
    have "unat (used_slot vq k) < ?n"
      unfolding used_slot_def ring_slot [OF sz] using queue_size_bounds [OF sz] by simp
    then show ?thesis unfolding ring_offsets [OF assms(1)] by (intro same_bytes_load(2) [OF same]) auto
  qed
  ultimately show ?thesis using eq by (simp add: pending_def addr slot)
qed

text \<open>What adding a buffer writes: one descriptor, then the available ring.\<close>

definition write_desc :: "virtqueue \<Rightarrow> u16 \<Rightarrow> u64 \<Rightarrow> u32 \<Rightarrow> u16 \<Rightarrow> mem \<Rightarrow> mem" where
  "write_desc vq head buf len flags m =
     store16 (store16 (store32 (store64 m (desc_addr vq (ucast head)) buf) (desc_len vq (ucast head)) len)
       (desc_flags vq (ucast head)) flags) (desc_next vq (ucast head)) 0"

definition publish :: "virtqueue \<Rightarrow> u16 \<Rightarrow> mem \<Rightarrow> mem" where
  "publish vq head m =
     (let m1 = store16 m (avail_ring vq (ucast (load16 m (avail_idx vq) AND (vq_size vq - 1)))) head
      in store16 m1 (avail_idx vq) (load16 m1 (avail_idx vq) + 1))"

definition pop_head :: "mem \<Rightarrow> virtqueue \<Rightarrow> virtqueue" where
  "pop_head m vq = vq\<lparr>free_head := load16 m (desc_next vq (ucast (free_head vq))), num_free := num_free vq - 1\<rparr>"

lemma pop_head_simps [simp]:
  "desc (pop_head m vq) = desc vq" "avail (pop_head m vq) = avail vq" "used (pop_head m vq) = used vq"
  "vq_size (pop_head m vq) = vq_size vq" "last_used_idx (pop_head m vq) = last_used_idx vq"
  "vq_placed (pop_head m vq) = vq_placed vq"
  by (simp_all add: pop_head_def vq_placed_def)

lemma virtq_add_buffer_steps:
  "virtq_add_buffer buf len flags (vq, m) =
     (if num_free vq = 0 then (- 1, vq, m)
      else (int (unat (free_head vq)), pop_head m vq, publish vq (free_head vq) (write_desc vq (free_head vq) buf len flags m)))"
  unfolding virtq_add_buffer_def write_desc_def publish_def pop_head_def
  by (simp add: desc_addr_def desc_len_def desc_flags_def desc_next_def avail_idx_def avail_ring_def Let_def)

lemma write_desc_frame:
  assumes "lo + n \<le> 16 * unat head \<or> 16 * unat head + 16 \<le> lo" "lo + n \<le> 2 ^ 64"
  shows "same_bytes (desc vq) lo n m (write_desc vq head buf len flags m)"
proof -
  have h: "unat head < 65536" using unat_below [of head] by simp
  show ?thesis
    unfolding write_desc_def desc_offsets
    by (intro same_bytes_then_store same_bytes_refl) (use assms h in auto)
qed

lemma publish_frame:
  assumes "vq_placed vq" "lo + n \<le> 16 * unat (vq_size vq) + 2 \<or> 18 * unat (vq_size vq) + 4 \<le> lo" "lo + n \<le> 2 ^ 64"
  shows "same_bytes (desc vq) lo n m (publish vq head m)"
proof -
  let ?n = "unat (vq_size vq)"
  have sz: "queue_size ?n" using assms(1) by (simp add: vq_placed_def)
  have slot: "unat (w AND (vq_size vq - 1)) < ?n" for w
    unfolding ring_slot [OF sz] using queue_size_bounds [OF sz] by simp
  have ring: "16 * ?n + 4 + 2 * unat (w AND (vq_size vq - 1)) + 2 \<le> 18 * ?n + 4" for w using slot [of w] by simp
  have le: "16 * ?n + 4 + 2 * unat (w AND (vq_size vq - 1)) + 2 \<le> 2 ^ 64" "16 * ?n + 2 + 2 \<le> 2 ^ 64" for w
    using ring [of w] queue_size_bounds [OF sz] by simp_all
  have sep: "16 * ?n + 4 + 2 * unat (w AND (vq_size vq - 1)) + 2 \<le> lo \<or> lo + n \<le> 16 * ?n + 4 + 2 * unat (w AND (vq_size vq - 1))"
    "16 * ?n + 2 + 2 \<le> lo \<or> lo + n \<le> 16 * ?n + 2" for w
    using assms(2) ring [of w] by linarith+
  show ?thesis
    unfolding publish_def Let_def ring_offsets [OF assms(1)]
    by (intro same_bytes_then_store same_bytes_refl assms(3) le sep)
qed

lemma holds_bounds:
  assumes "vq_holds vq m fs posted ds"
  shows "vq_placed vq" "queue_size (unat (vq_size vq))" "unat (vq_size vq) \<le> 32768"
    "length fs + length posted + length ds = unat (vq_size vq)"
proof -
  show pl: "vq_placed vq" using assms by (simp add: vq_holds_def)
  then show sz: "queue_size (unat (vq_size vq))" by (simp add: vq_placed_def)
  show "unat (vq_size vq) \<le> 32768" using queue_size_bounds [OF sz] by simp
  have "card (set (fs @ posted @ ds)) = length (fs @ posted @ ds)"
    using assms unfolding vq_holds_def by (metis distinct_card)
  moreover have "card (set (fs @ posted @ ds)) = unat (vq_size vq)"
    using assms unfolding vq_holds_def by (metis card_atLeastLessThan minus_nat.diff_0)
  ultimately show "length fs + length posted + length ds = unat (vq_size vq)" by simp
qed

lemma virtq_add_holds:
  assumes "vq_holds vq m (h # fs) posted ds"
  shows "virtq_add_buffer buf len flags (vq, m) =
      (int h, pop_head m vq, publish vq (free_head vq) (write_desc vq (free_head vq) buf len flags m))"
    and "vq_holds (pop_head m vq) (publish vq (free_head vq) (write_desc vq (free_head vq) buf len flags m)) fs (h # posted) ds"
proof -
  let ?n = "unat (vq_size vq)" and ?m = "publish vq (free_head vq) (write_desc vq (free_head vq) buf len flags m)"
  note b = holds_bounds [OF assms]
  have fl: "free_list vq m (h # fs)" and pe: "pending vq m ds" using assms by (simp_all add: vq_holds_def)
  have h: "unat (free_head vq) = h" "h < ?n" using fl by (simp_all add: free_list_def)
  have nf: "unat (num_free vq) = Suc (length fs)" using fl by (simp add: free_list_def)
  then have "num_free vq \<noteq> 0" by auto
  then show "virtq_add_buffer buf len flags (vq, m) = (int h, pop_head m vq, ?m)" using h by (simp add: virtq_add_buffer_steps)
  have frame: "same_bytes (desc vq) lo n m ?m"
    if "lo + n \<le> 16 * h \<or> 16 * h + 16 \<le> lo" "lo + n \<le> 16 * ?n + 2 \<or> 18 * ?n + 4 \<le> lo" "lo + n \<le> 2 ^ 64" for lo n
    using that h by (intro same_bytes_trans [OF write_desc_frame publish_frame [OF b(1)]]) auto
  have next_same: "load16 ?m (desc vq + of_nat (16 * i + 14)) = load16 m (desc vq + of_nat (16 * i + 14))" if "i \<noteq> h" "i < ?n" for i
    using that b(3) by (intro same_bytes_load(1) [OF frame [of "16 * i + 14" 2]]) auto
  have nx: "free_head (pop_head m vq) = load16 m (desc vq + of_nat (16 * h + 14))" using h by (simp add: pop_head_def desc_offsets)
  have "chain m (desc vq) (load16 m (desc vq + of_nat (16 * h + 14))) fs" using fl by (simp add: free_list_def)
  moreover have "i \<noteq> h \<and> i < ?n" if "i \<in> set fs" for i using fl that by (auto simp: free_list_def list_all_iff)
  then have "chain ?m (desc vq) g fs \<longleftrightarrow> chain m (desc vq) g fs" for g
    by (intro chain_frame next_same) blast+
  ultimately have "chain ?m (desc vq) (load16 m (desc vq + of_nat (16 * h + 14))) fs" by blast
  moreover have "unat (num_free (pop_head m vq)) = length fs"
    using nf unat_sub [of 1 "num_free vq"] by (simp add: pop_head_def word_nat)
  ultimately have "free_list (pop_head m vq) ?m fs" using fl nx by (simp add: free_list_def)
  moreover have "pending (pop_head m vq) ?m ds"
    using pe b(1,3) h used_off_bounds [of ?n]
    by (subst vq_holds_frame [of vq]) (auto intro!: frame)
  ultimately show "vq_holds (pop_head m vq) ?m fs (h # posted) ds"
    using assms by (auto simp: vq_holds_def)
qed

lemma virtq_add_full:
  assumes "vq_holds vq m [] posted ds"
  shows "virtq_add_buffer buf len flags (vq, m) = (- 1, vq, m)"
proof -
  have "unat (num_free vq) = 0" using assms by (simp add: vq_holds_def free_list_def)
  then show ?thesis by (simp add: virtq_add_buffer_steps unat_eq_zero)
qed


lemma sint_small: "i < 2 ^ 31 \<Longrightarrow> sint (of_nat i :: u32) = int i"
  by (simp add: sint_uint uint_nat unat_of_nat take_bit_nat_eq_self signed_take_bit_int_eq_self)

lemma unat_used_slot:
  assumes "queue_size (unat (vq_size vq))"
  shows "unat (used_slot vq k) = (unat (last_used_idx vq) + k) mod unat (vq_size vq)"
proof -
  obtain j where j: "j \<le> 15" "unat (vq_size vq) = 2 ^ j" using assms by (auto simp: queue_size_def)
  have "unat (last_used_idx vq + of_nat k) = (unat (last_used_idx vq) + k) mod 2 ^ 16"
    by (simp add: unat_word_ariths unat_of_nat take_bit_eq_mod mod_simps)
  moreover have "x mod 2 ^ 16 mod 2 ^ j = x mod 2 ^ j" for x :: nat
    using j(1) by (intro mod_mod_cancel le_imp_power_dvd) simp
  ultimately show ?thesis unfolding used_slot_def ring_slot [OF assms] j(2) by simp
qed

lemma used_slot_bounds:
  assumes "queue_size (unat (vq_size vq))"
  shows "unat (used_slot vq k) < unat (vq_size vq)"
    and "k < d \<Longrightarrow> d < unat (vq_size vq) \<Longrightarrow> used_slot vq k \<noteq> used_slot vq d"
proof -
  let ?n = "unat (vq_size vq)"
  show "unat (used_slot vq k) < ?n" using queue_size_bounds [OF assms] by (simp add: unat_used_slot [OF assms])
  show "used_slot vq k \<noteq> used_slot vq d" if "k < d" "d < ?n"
  proof
    assume "used_slot vq k = used_slot vq d"
    then have "(unat (last_used_idx vq) + k) mod ?n = (unat (last_used_idx vq) + d) mod ?n"
      by (metis unat_used_slot [OF assms])
    then have "?n dvd (unat (last_used_idx vq) + d) - (unat (last_used_idx vq) + k)"
      using that by (metis mod_eq_dvd_iff_nat nat_add_left_cancel_le less_imp_le)
    then show False using that by (auto dest: dvd_imp_le)
  qed
qed

lemma virtq_get_none:
  assumes "vq_holds vq m fs posted []"
  shows "virtq_get_used (vq, m) = (- 1, None, vq, m)"
proof -
  have "unat (load16 m (used_idx vq) - last_used_idx vq) = 0" using assms by (simp add: vq_holds_def pending_def)
  then have "load16 m (used_idx vq) - last_used_idx vq = 0" by (simp only: unat_eq_zero)
  then show ?thesis by (simp add: virtq_get_used_def)
qed

definition push_used :: "nat \<Rightarrow> virtqueue \<Rightarrow> virtqueue" where
  "push_used i vq = vq\<lparr>last_used_idx := last_used_idx vq + 1, free_head := of_nat i, num_free := num_free vq + 1\<rparr>"

lemma push_used_simps [simp]:
  "desc (push_used i vq) = desc vq" "avail (push_used i vq) = avail vq" "used (push_used i vq) = used vq"
  "vq_size (push_used i vq) = vq_size vq" "last_used_idx (push_used i vq) = last_used_idx vq + 1"
  "free_head (push_used i vq) = of_nat i" "num_free (push_used i vq) = num_free vq + 1"
  "vq_placed (push_used i vq) = vq_placed vq" "used_idx (push_used i vq) = used_idx vq" "used_id (push_used i vq) = used_id vq"
  "used_slot (push_used i vq) k = used_slot vq (Suc k)"
  by (simp_all add: push_used_def vq_placed_def used_idx_def used_id_def fun_eq_iff used_slot_def add.assoc)

lemma virtq_get_holds:
  assumes "vq_holds vq m fs posted (i # ds)"
  shows "virtq_get_used (vq, m) =
      (int i, Some (load32 m (used_len vq (ucast (used_slot vq 0)))), push_used i vq,
       store16 m (desc vq + of_nat (16 * i + 14)) (free_head vq))"
    and "vq_holds (push_used i vq) (store16 m (desc vq + of_nat (16 * i + 14)) (free_head vq)) (i # fs) posted ds"
proof -
  let ?n = "unat (vq_size vq)" and ?m = "store16 m (desc vq + of_nat (16 * i + 14)) (free_head vq)"
  note b = holds_bounds [OF assms]
  have fl: "free_list vq m fs" and pe: "pending vq m (i # ds)" using assms by (simp_all add: vq_holds_def)
  have i: "i < ?n" "i \<notin> set fs" using assms by (auto simp: vq_holds_def)
  have cnt: "unat (load16 m (used_idx vq) - last_used_idx vq) = Suc (length ds)" using pe by (simp add: pending_def)
  have ids: "load32 m (used_id vq (ucast (used_slot vq k))) = of_nat ((i # ds) ! k)" if "k < Suc (length ds)" for k
    using pe that by (auto simp: pending_def list_all_iff less_Suc_eq)
  have "last_used_idx vq \<noteq> load16 m (used_idx vq)" using cnt by auto
  moreover have "used_slot vq 0 = last_used_idx vq AND (vq_size vq - 1)" by (simp add: used_slot_def)
  moreover have "sint (of_nat i :: u32) = int i"
    using i(1) b(3) by (intro sint_small) simp
  moreover have "ucast (of_nat i :: u32) = (of_nat i :: u16)" "ucast (of_nat i :: u32) = (of_nat i :: u64)"
    using i(1) b(3) by (simp_all add: word_unat_eq_iff unsigned_ucast_eq unat_of_nat take_bit_nat_eq_self)
  ultimately show "virtq_get_used (vq, m) =
      (int i, Some (load32 m (used_len vq (ucast (used_slot vq 0)))), push_used i vq, ?m)"
    using ids [of 0] by (simp add: virtq_get_used_def push_used_def desc_next_def Let_def)
  show "vq_holds (push_used i vq) ?m (i # fs) posted ds"
  proof -
    have same: "same_bytes (desc vq) lo n m ?m" if "lo + n \<le> 16 * i + 14 \<or> 16 * i + 16 \<le> lo" "lo + n \<le> 2 ^ 64" for lo n
      using that b(3) i(1) by (intro same_bytes_store(1)) auto
    have "load16 ?m (desc vq + of_nat (16 * j + 14)) = load16 m (desc vq + of_nat (16 * j + 14))" if "j \<in> set fs" for j
    proof -
      have "j \<noteq> i" "j < ?n" using that i(2) fl by (auto simp: free_list_def list_all_iff)
      then show ?thesis using b(3) by (intro same_bytes_load(1) [OF same [of "16 * j + 14" 2]]) auto
    qed
    then have "chain ?m (desc vq) g fs \<longleftrightarrow> chain m (desc vq) g fs" for g by (intro chain_frame) blast
    moreover have "unat (of_nat i :: u16) = i" using i(1) b(3) by (simp add: unat_of_nat take_bit_nat_eq_self)
    moreover have "unat (num_free vq + 1) = Suc (length fs)"
      using fl b(3,4) unat_plus_nowrap [of "num_free vq" 1] by (simp add: free_list_def)
    ultimately have "free_list (push_used i vq) ?m (i # fs)"
      using fl i by (simp add: free_list_def load16_store16_same)
    moreover have "pending (push_used i vq) ?m ds"
    proof -
      have "same_bytes (desc vq) (used_off ?n) (8 * ?n + 4) m ?m"
        using b(3) i(1) used_off_bounds [of ?n] by (intro same) auto
      then have "pending (push_used i vq) ?m ds \<longleftrightarrow> pending (push_used i vq) m ds"
        using b(1) by (intro vq_holds_frame) simp_all
      moreover have "unat (load16 m (used_idx vq) - (last_used_idx vq + 1)) = length ds"
      proof -
        have "load16 m (used_idx vq) - (last_used_idx vq + 1) = (load16 m (used_idx vq) - last_used_idx vq) - 1" by simp
        moreover have "unat ((load16 m (used_idx vq) - last_used_idx vq) - 1) = length ds"
          using cnt unat_sub [of 1 "load16 m (used_idx vq) - last_used_idx vq"] by (simp add: word_nat)
        ultimately show ?thesis by (simp only:)
      qed
      ultimately show ?thesis using ids [of "Suc k" for k] by (simp add: pending_def list_all_iff)
    qed
    ultimately show ?thesis using assms by (auto simp: vq_holds_def)
  qed
qed

section \<open>The device's side\<close>

text \<open>
  The device returns a descriptor by writing its number and the length it filled into the next entry of the used ring and
  then advancing the ring's index.
\<close>

definition device_return :: "virtqueue \<Rightarrow> nat \<Rightarrow> u32 \<Rightarrow> mem \<Rightarrow> mem" where
  "device_return vq i len m =
     (let idx = load16 m (used_idx vq);
          slot = ucast (idx AND (vq_size vq - 1));
          m = store32 m (used_id vq slot) (of_nat i);
          m = store32 m (used_len vq slot) len
      in store16 m (used_idx vq) (idx + 1))"

lemma device_return_frame:
  assumes "vq_placed vq" "lo + n \<le> used_off (unat (vq_size vq)) + 2" "lo + n \<le> 2 ^ 64"
  shows "same_bytes (desc vq) lo n m (device_return vq i len m)"
proof -
  let ?n = "unat (vq_size vq)"
  have sz: "queue_size ?n" using assms(1) by (simp add: vq_placed_def)
  have slot: "unat (w AND (vq_size vq - 1)) < ?n" for w
    unfolding ring_slot [OF sz] using queue_size_bounds [OF sz] by simp
  have le: "used_off ?n + 8 + 8 * unat (w AND (vq_size vq - 1)) + 4 \<le> 2 ^ 64"
    "used_off ?n + 4 + 8 * unat (w AND (vq_size vq - 1)) + 4 \<le> 2 ^ 64" "used_off ?n + 2 + 2 \<le> 2 ^ 64" for w
    using slot [of w] queue_size_bounds [OF sz] used_off_bounds [of ?n] by simp_all
  show ?thesis
    unfolding device_return_def Let_def ring_offsets [OF assms(1)]
    by (intro same_bytes_then_store same_bytes_refl assms(3) le) (use assms(2) in auto)
qed

lemma device_return_holds:
  assumes "vq_holds vq m fs posted ds" "i \<in> set posted"
  shows "vq_holds vq (device_return vq i len m) fs (remove1 i posted) (ds @ [i])"
proof -
  let ?n = "unat (vq_size vq)" and ?o = "used_off (unat (vq_size vq))" and ?m = "device_return vq i len m"
  note b = holds_bounds [OF assms(1)]
  have fl: "free_list vq m fs" and pe: "pending vq m ds" using assms(1) by (simp_all add: vq_holds_def)
  have i: "i < ?n" using assms by (auto simp: vq_holds_def)
  have room: "length ds < ?n" using b(4) assms(2) by (cases posted) auto
  define idx where "idx = load16 m (used_idx vq)"
  have idx: "idx = last_used_idx vq + of_nat (length ds)"
  proof -
    have "of_nat (unat (idx - last_used_idx vq)) = idx - last_used_idx vq" by simp
    then show ?thesis using pe unfolding pending_def idx_def [symmetric] by (metis add.commute diff_add_cancel)
  qed
  then have slot: "idx AND (vq_size vq - 1) = used_slot vq (length ds)" by (simp add: used_slot_def)
  define m1 where "m1 = store32 m (used_id vq (ucast (used_slot vq (length ds)))) (of_nat i)"
  define m2 where "m2 = store32 m1 (used_len vq (ucast (used_slot vq (length ds)))) len"
  have m: "?m = store16 m2 (used_idx vq) (idx + 1)"
    by (simp add: device_return_def Let_def m1_def m2_def idx_def [symmetric] slot)
  have lt: "unat (used_slot vq k) < ?n" for k by (rule used_slot_bounds(1) [OF b(2)])
  have ob: "?o + 8 * ?n + 8 \<le> 2 ^ 20" using b(3) used_off_bounds [of ?n] by simp
  have "free_list vq ?m fs"
  proof -
    have "load16 ?m (desc vq + of_nat (16 * j + 14)) = load16 m (desc vq + of_nat (16 * j + 14))" if "j \<in> set fs" for j
    proof -
      have "j < ?n" using that fl by (auto simp: free_list_def list_all_iff)
      then show ?thesis using b(3) used_off_bounds [of ?n]
        by (intro same_bytes_load(1) [OF device_return_frame [OF b(1), of "16 * j + 14" 2]]) auto
    qed
    then have "chain ?m (desc vq) g fs \<longleftrightarrow> chain m (desc vq) g fs" for g by (intro chain_frame) blast
    then show ?thesis using fl by (simp add: free_list_def)
  qed
  moreover have "pending vq ?m (ds @ [i])"
  proof -
    have same: "load32 (store16 x (used_idx vq) v) (used_id vq (ucast (used_slot vq k))) = load32 x (used_id vq (ucast (used_slot vq k)))" for x v k
      unfolding ring_offsets [OF b(1)]
      by (rule same_bytes_load(2) [OF same_bytes_store(1), of "?o + 4 + 8 * unat (used_slot vq k)" 4]) (use lt [of k] ob in auto)
    have new: "load32 ?m (used_id vq (ucast (used_slot vq (length ds)))) = of_nat i"
    proof -
      have "load32 m2 (used_id vq (ucast (used_slot vq (length ds)))) = load32 m1 (used_id vq (ucast (used_slot vq (length ds))))"
        unfolding m2_def ring_offsets [OF b(1)]
        by (rule same_bytes_load(2) [OF same_bytes_store(2), of "?o + 4 + 8 * unat (used_slot vq (length ds))" 4]) (use lt [of "length ds"] ob in auto)
      then show ?thesis by (simp add: m same m1_def load32_store32_same)
    qed
    have old: "load32 ?m (used_id vq (ucast (used_slot vq k))) = load32 m (used_id vq (ucast (used_slot vq k)))" if "k < length ds" for k
    proof -
      have "unat (used_slot vq k) \<noteq> unat (used_slot vq (length ds))"
        using used_slot_bounds(2) [OF b(2) that room] by (simp add: word_unat_eq_iff)
      then have sep: "unat (used_slot vq k) + 1 \<le> unat (used_slot vq (length ds)) \<or> unat (used_slot vq (length ds)) + 1 \<le> unat (used_slot vq k)" by linarith
      have "same_bytes (desc vq) (?o + 4 + 8 * unat (used_slot vq k)) 4 m m2"
        unfolding m1_def m2_def ring_offsets [OF b(1)]
        by (intro same_bytes_then_store same_bytes_refl) (use sep lt [of k] lt [of "length ds"] ob in auto)
      then have "load32 m2 (used_id vq (ucast (used_slot vq k))) = load32 m (used_id vq (ucast (used_slot vq k)))"
        unfolding ring_offsets [OF b(1)] by (rule same_bytes_load(2)) auto
      then show ?thesis by (simp add: m same)
    qed
    have "idx + 1 - last_used_idx vq = of_nat (Suc (length ds))" by (simp add: idx)
    moreover have "unat (of_nat (Suc (length ds)) :: u16) = Suc (length ds)"
      using room b(3) by (simp only: unat_of_nat) simp
    ultimately have "unat (idx + 1 - last_used_idx vq) = Suc (length ds)" by (simp only:)
    moreover have "load16 ?m (used_idx vq) = idx + 1" by (simp add: m load16_store16_same)
    ultimately show ?thesis using pe old new by (auto simp: pending_def list_all_iff nth_append)
  qed
  moreover have "distinct (fs @ remove1 i posted @ ds @ [i])" "set (fs @ remove1 i posted @ ds @ [i]) = {0..<?n}"
    using assms by (auto simp: vq_holds_def)
  ultimately show ?thesis using b(1) by (simp add: vq_holds_def)
qed

section \<open>A fresh queue\<close>

lemma link_fold:
  assumes "k \<le> 65536" "i < k"
  shows "load16 (fold (\<lambda>i m. store16 m (d + of_nat (16 * i + 14)) (of_nat (i + 1))) [0..<k] m) (d + of_nat (16 * i + 14)) = of_nat (i + 1)"
  using assms
proof (induction k)
  case (Suc k)
  let ?m = "fold (\<lambda>i m. store16 m (d + of_nat (16 * i + 14)) (of_nat (i + 1))) [0..<k] m"
  show ?case
  proof (cases "i = k")
    case True
    then show ?thesis by (simp add: load16_store16_same)
  next
    case False
    then have "i < k" using Suc.prems by simp
    have "load16 (store16 ?m (d + of_nat (16 * k + 14)) (of_nat (k + 1))) (d + of_nat (16 * i + 14)) = load16 ?m (d + of_nat (16 * i + 14))"
      by (rule same_bytes_load(1) [OF same_bytes_store(1), of "16 * i + 14" 2]) (use \<open>i < k\<close> Suc.prems in auto)
    also have "\<dots> = of_nat (i + 1)" using Suc.IH Suc.prems \<open>i < k\<close> by simp
    finally show ?thesis by simp
  qed
qed simp

lemma chain_upto:
  assumes "\<And>i. i + 1 < n \<Longrightarrow> load16 m (d + of_nat (16 * i + 14)) = of_nat (i + 1)" "n \<le> 32768" "k \<le> n"
  shows "chain m d (of_nat k) [k..<n]"
  using assms(3)
proof (induction "n - k" arbitrary: k)
  case (Suc j)
  then have k: "k < n" by simp
  have "unat (of_nat k :: u16) = k" using k assms(2) by (simp add: unat_of_nat)
  moreover have "chain m d (load16 m (d + of_nat (16 * k + 14))) [Suc k..<n]"
  proof (cases "k + 1 < n")
    case True
    then show ?thesis using Suc.hyps(1) [of "Suc k"] Suc.hyps(2) assms(1) [of k] by simp
  next
    case False
    then show ?thesis by simp
  qed
  ultimately show ?case using k by (simp add: upt_conv_Cons)
qed simp

lemma virtq_init_used_off:
  fixes q :: u16
  defines "n \<equiv> unat q"
  shows "ucast (ucast ((16 * ucast q + ucast (2 * (3 + ucast q) :: u32) + VIRTQ_PAGE_SIZE - 1) AND NOT (VIRTQ_PAGE_SIZE - 1) :: u64) :: u32)
    = (of_nat (used_off n) :: u64)"
proof -
  have n: "n < 65536" using unat_below [of q] by (simp add: n_def)
  have q: "ucast q = (of_nat n :: 'b::len word)" by (simp add: n_def)
  have "(16 * ucast q + ucast (2 * (3 + ucast q) :: u32) + VIRTQ_PAGE_SIZE - 1 :: u64) = of_nat (16 * n + 2 * (3 + n) + 4095)"
  proof -
    have "(2 * (3 + ucast q) :: u32) = of_nat (2 * (3 + n))" by (simp add: q)
    moreover have "2 * (3 + n) < 2 ^ 32" using n by simp
    moreover have "ucast (of_nat k :: u32) = (of_nat k :: u64)" if "k < 2 ^ 32" for k
      using that by (simp add: word_unat_eq_iff unsigned_ucast_eq unat_of_nat take_bit_nat_eq_self)
    ultimately have "ucast (2 * (3 + ucast q) :: u32) = (of_nat (2 * (3 + n)) :: u64)" by (simp only:)
    then show ?thesis by (simp add: q VIRTQ_PAGE_SIZE_def)
  qed
  moreover have "NOT (VIRTQ_PAGE_SIZE - 1) = NOT (mask 12)" by (simp add: VIRTQ_PAGE_SIZE_def mask_eq_exp_minus_1)
  moreover have "unat (of_nat k AND NOT (mask 12) :: u64) = k div 4096 * 4096" if "k < 2 ^ 64" for k
    using unat_and_not_mask [of 12 "of_nat k :: u64"] that by (simp add: unat_of_nat_u64)
  moreover have "16 * n + 2 * (3 + n) + 4095 < 2 ^ 64" using n by simp
  ultimately have u: "unat ((16 * ucast q + ucast (2 * (3 + ucast q) :: u32) + VIRTQ_PAGE_SIZE - 1) AND NOT (VIRTQ_PAGE_SIZE - 1) :: u64) = used_off n"
    by (simp only: used_off_def)
  define w where "w = ((16 * ucast q + ucast (2 * (3 + ucast q) :: u32) + VIRTQ_PAGE_SIZE - 1) AND NOT (VIRTQ_PAGE_SIZE - 1) :: u64)"
  have "unat w = used_off n" using u by (simp only: w_def)
  moreover have "used_off n < 2 ^ 32" using n used_off_bounds [of n] by simp
  ultimately have "unat (ucast (ucast w :: u32) :: u64) = unat (of_nat (used_off n) :: u64)"
    by (simp add: unsigned_ucast_eq unsigned_take_bit_eq unat_of_nat take_bit_nat_eq_self)
  then show ?thesis unfolding w_def [symmetric] by (simp only: word_unat_eq_iff)
qed

lemma virtq_init_holds:
  assumes "queue_size (unat q)"
  shows "case virtq_init q base m of (vq, m') \<Rightarrow>
    vq_holds vq m' [0..<unat q] [] [] \<and> vq_size vq = q \<and> desc vq = base \<and> load16 m' (avail_idx vq) = 0"
proof -
  let ?n = "unat q" and ?d = "base"
  define vq where "vq = \<lparr>vq_size = q, desc = base, avail = base + 16 * ucast q, used = base + of_nat (used_off (unat q)),
    free_head = 0, num_free = q, last_used_idx = 0\<rparr>"
  have vq [simp]: "vq_size vq = q" "desc vq = base" "free_head vq = 0" "num_free vq = q" "last_used_idx vq = 0" by (simp_all add: vq_def)
  have pl: "vq_placed vq" using assms by (simp add: vq_placed_def vq_def)
  define m1 where "m1 = fold (\<lambda>i m. store16 m (base + of_nat (16 * i + 14)) (of_nat (i + 1))) [0..<?n - 1] m"
  define m2 where "m2 = store16 (store16 m1 (avail_flags vq) 0) (avail_idx vq) 0"
  define m4 where "m4 = store16 (store16 m2 (used_flags vq) 0) (used_idx vq) 0"
  have init: "virtq_init q base m = (vq, m4)"
    unfolding virtq_init_def Let_def virtq_init_used_off
    by (simp add: vq_def m1_def m2_def m4_def desc_next_nat avail_flags_def avail_idx_def used_flags_def used_idx_def)
  note b = queue_size_bounds [OF assms] used_off_bounds [of ?n] and off = ring_offsets [OF pl, simplified vq]
  have same: "same_bytes base lo n m1 m4" if "lo + n \<le> 16 * ?n" for lo n
    unfolding m4_def m2_def off
    by (intro same_bytes_then_store same_bytes_refl) (use that b in auto)
  have "load16 m4 (base + of_nat (16 * i + 14)) = of_nat (i + 1)" if "i + 1 < ?n" for i
  proof -
    have "load16 m4 (base + of_nat (16 * i + 14)) = load16 m1 (base + of_nat (16 * i + 14))"
      by (rule same_bytes_load(1) [OF same [of "16 * i + 14" 2]]) (use that in auto)
    also have "\<dots> = of_nat (i + 1)" unfolding m1_def by (rule link_fold) (use that b in auto)
    finally show ?thesis .
  qed
  then have "chain m4 base (of_nat 0) [0..<?n]" using b by (intro chain_upto) auto
  then have "free_list vq m4 [0..<?n]" by (simp add: free_list_def list_all_iff)
  moreover have "pending vq m4 []" by (simp add: pending_def m4_def load16_store16_same)
  moreover have "load16 m4 (avail_idx vq) = load16 m2 (avail_idx vq)"
    unfolding m4_def off
    by (rule same_bytes_load(1) [where lo = "16 * ?n + 2" and n = 2])
      ((intro same_bytes_then_store same_bytes_refl; use b in auto), simp_all)
  then have "load16 m4 (avail_idx vq) = 0" by (simp add: m2_def load16_store16_same)
  ultimately show ?thesis using pl init by (simp add: vq_holds_def)
qed

section \<open>The contract of a descriptor pool\<close>

text \<open>
  What a driver relies on: \<open>holds s fs ps ds\<close> says which descriptors are free, posted and returned in the state \<open>s\<close>.
  Posting takes the first free one, collecting makes the oldest returned one free again; both say so when there is none.
\<close>

fun post_all :: "('a \<Rightarrow> 's \<Rightarrow> int \<times> 's) \<Rightarrow> 'a list \<Rightarrow> 's \<Rightarrow> int list \<times> 's" where
  "post_all post [] s = ([], s)"
| "post_all post (a # as) s =
     (let (r, s) = post a s; (rs, s) = post_all post as s in (r # rs, s))"

locale descriptor_pool =
  fixes holds :: "'s \<Rightarrow> nat list \<Rightarrow> nat list \<Rightarrow> nat list \<Rightarrow> bool"
    and post :: "'a \<Rightarrow> 's \<Rightarrow> int \<times> 's"
    and collect :: "'s \<Rightarrow> int \<times> 's"
  assumes post_free: "holds s (h # fs) ps ds \<Longrightarrow> fst (post a s) = int h \<and> holds (snd (post a s)) fs (h # ps) ds"
    and post_full: "holds s [] ps ds \<Longrightarrow> post a s = (- 1, s)"
    and collect_some: "holds s fs ps (i # ds) \<Longrightarrow> fst (collect s) = int i \<and> holds (snd (collect s)) (i # fs) ps ds"
    and collect_none: "holds s fs ps [] \<Longrightarrow> collect s = (- 1, s)"
begin

lemma post_all_results:
  assumes "holds s fs ps ds"
  shows "fst (post_all post as s) = map int (take (length as) fs) @ replicate (length as - length fs) (- 1)"
    and "holds (snd (post_all post as s)) (drop (length as) fs) (rev (take (length as) fs) @ ps) ds"
proof -
  have "fst (post_all post as s) = map int (take (length as) fs) @ replicate (length as - length fs) (- 1)
      \<and> holds (snd (post_all post as s)) (drop (length as) fs) (rev (take (length as) fs) @ ps) ds"
    using assms
  proof (induction as arbitrary: s fs ps)
    case (Cons a as)
    show ?case
    proof (cases fs)
      case Nil
      then have "post a s = (- 1, s)" using Cons.prems post_full by simp
      then show ?thesis using Cons.IH [OF Cons.prems] Nil by (auto split: prod.splits)
    next
      case fs: (Cons h fs')
      then show ?thesis
        using post_free [of s h fs' ps ds a] Cons.prems Cons.IH [of "snd (post a s)" fs' "h # ps"]
        by (auto split: prod.splits)
    qed
  qed simp
  then show "fst (post_all post as s) = map int (take (length as) fs) @ replicate (length as - length fs) (- 1)"
    "holds (snd (post_all post as s)) (drop (length as) fs) (rev (take (length as) fs) @ ps) ds" by simp_all
qed

lemma collect_then_post:
  "holds s fs ps (i # ds) \<Longrightarrow> fst (post a (snd (collect s))) = int i"
  using collect_some post_free by blast

end

abbreviation vq_holds_pair :: "virtqueue \<times> mem \<Rightarrow> nat list \<Rightarrow> nat list \<Rightarrow> nat list \<Rightarrow> bool" where
  "vq_holds_pair s \<equiv> vq_holds (fst s) (snd s)"

definition vq_post :: "u64 \<times> u32 \<times> u16 \<Rightarrow> virtqueue \<times> mem \<Rightarrow> int \<times> virtqueue \<times> mem" where
  "vq_post = (\<lambda>(buf, len, flags) s. virtq_add_buffer buf len flags s)"

definition vq_collect :: "virtqueue \<times> mem \<Rightarrow> int \<times> virtqueue \<times> mem" where
  "vq_collect s = (case virtq_get_used s of (r, len, s') \<Rightarrow> (r, s'))"

interpretation vq: descriptor_pool vq_holds_pair vq_post vq_collect
proof unfold_locales
  fix s :: "virtqueue \<times> mem" and h fs ps ds and a :: "u64 \<times> u32 \<times> u16"
  assume "vq_holds_pair s (h # fs) ps ds"
  then show "fst (vq_post a s) = int h \<and> vq_holds_pair (snd (vq_post a s)) fs (h # ps) ds"
    using virtq_add_holds by (cases a; cases s) (simp add: vq_post_def)
next
  fix s :: "virtqueue \<times> mem" and ps ds and a :: "u64 \<times> u32 \<times> u16"
  assume "vq_holds_pair s [] ps ds"
  then show "vq_post a s = (- 1, s)"
    using virtq_add_full by (cases a; cases s) (simp add: vq_post_def)
next
  fix s :: "virtqueue \<times> mem" and i fs ps ds
  assume "vq_holds_pair s fs ps (i # ds)"
  then show "fst (vq_collect s) = int i \<and> vq_holds_pair (snd (vq_collect s)) (i # fs) ps ds"
    using virtq_get_holds by (cases s) (simp add: vq_collect_def)
next
  fix s :: "virtqueue \<times> mem" and fs ps
  assume "vq_holds_pair s fs ps []"
  then show "vq_collect s = (- 1, s)"
    using virtq_get_none by (cases s) (simp add: vq_collect_def)
qed

text \<open>
  a queue of a power of two of descriptors, fresh from \<open>virtq_init\<close>, hands out the descriptors 0, 1, 2 and so on in
  order, each once, and answers -1 to every request after the last one; whatever the buffers are.
\<close>
theorem virtq_hands_out_all:
  assumes "queue_size (unat q)"
  shows "fst (post_all vq_post as (virtq_init q base m)) =
    map int [0..<min (length as) (unat q)] @ replicate (length as - unat q) (- 1)"
proof -
  have "vq_holds_pair (virtq_init q base m) [0..<unat q] [] []"
    using virtq_init_holds [OF assms, of base m] by (simp split: prod.splits)
  from vq.post_all_results(1) [OF this] show ?thesis by (simp add: min_def take_upt)
qed

lemma virtq_hands_out_all_witness:
  "fst (post_all vq_post (replicate 6 (0x5000, 64, 0)) (virtq_init 4 0x1000 (\<lambda>_. 0))) = [0, 1, 2, 3, - 1, - 1]"
proof -
  have "queue_size (unat (4 :: u16))" by code_simp
  moreover have "[0..<4] = [0, 1, 2, 3 :: nat]" by (simp add: upt_rec)
  moreover have "replicate 2 (- 1 :: int) = [- 1, - 1]" by (simp add: numeral_eq_Suc)
  ultimately show ?thesis using virtq_hands_out_all [of 4 "replicate 6 (0x5000, 64, 0)" "0x1000" "\<lambda>_. 0"] by simp
qed

section \<open>Driver and device interleaved\<close>

definition queue_bytes :: "nat \<Rightarrow> nat" where
  "queue_bytes n = used_off n + 8 * n + 4"

text \<open>
  A state is the driver's record, memory and the descriptors the device owns. The driver adds buffers and takes returned
  ones; the device returns any descriptor it owns, in any order; and anything may happen to memory outside the queue.
\<close>

inductive vq_run :: "u16 \<Rightarrow> u64 \<Rightarrow> virtqueue \<times> mem \<times> nat list \<Rightarrow> bool" for q base where
  start: "virtq_init q base m = (vq, m') \<Longrightarrow> vq_run q base (vq, m', [])"
| add: "vq_run q base (vq, m, posted) \<Longrightarrow> virtq_add_buffer buf len flags (vq, m) = (r, vq', m')
    \<Longrightarrow> vq_run q base (vq', m', if r < 0 then posted else nat r # posted)"
| collect: "vq_run q base (vq, m, posted) \<Longrightarrow> virtq_get_used (vq, m) = (r, len, vq', m') \<Longrightarrow> vq_run q base (vq', m', posted)"
| return: "vq_run q base (vq, m, posted) \<Longrightarrow> i \<in> set posted \<Longrightarrow> vq_run q base (vq, device_return vq i len m, remove1 i posted)"
| outside: "vq_run q base (vq, m, posted) \<Longrightarrow> same_bytes (desc vq) 0 (queue_bytes (unat (vq_size vq))) m m' \<Longrightarrow> vq_run q base (vq, m', posted)"

lemma vq_holds_outside:
  assumes "vq_holds vq m fs posted ds" "same_bytes (desc vq) 0 (queue_bytes (unat (vq_size vq))) m m'"
  shows "vq_holds vq m' fs posted ds"
proof -
  let ?n = "unat (vq_size vq)"
  note b = holds_bounds [OF assms(1)]
  have fl: "free_list vq m fs" and pe: "pending vq m ds" using assms(1) by (simp_all add: vq_holds_def)
  have "load16 m' (desc vq + of_nat (16 * j + 14)) = load16 m (desc vq + of_nat (16 * j + 14))" if "j \<in> set fs" for j
  proof -
    have "j < ?n" using that fl by (auto simp: free_list_def list_all_iff)
    then show ?thesis using used_off_bounds [of ?n] by (intro same_bytes_load(1) [OF assms(2)]) (auto simp: queue_bytes_def)
  qed
  then have "chain m' (desc vq) g fs \<longleftrightarrow> chain m (desc vq) g fs" for g by (intro chain_frame) blast
  then have "free_list vq m' fs" using fl by (simp add: free_list_def)
  moreover have "pending vq m' ds"
    using pe vq_holds_frame [OF b(1) b(1) refl refl refl refl same_bytes_sub [OF assms(2)]] by (simp add: queue_bytes_def)
  ultimately show ?thesis using assms(1) by (simp add: vq_holds_def)
qed

lemma vq_run_holds:
  assumes "vq_run q base s" "queue_size (unat q)"
  shows "case s of (vq, m, posted) \<Rightarrow> vq_size vq = q \<and> (\<exists>fs ds. vq_holds vq m fs posted ds)"
  using assms
proof (induction rule: vq_run.induct)
  case (start m vq m')
  then show ?case using virtq_init_holds [OF start(2), of base m] by auto
next
  case (add vq m posted buf len flags r vq' m')
  then obtain fs ds where h: "vq_holds vq m fs posted ds" and q: "vq_size vq = q" by auto
  show ?case
  proof (cases fs)
    case Nil
    then show ?thesis using h q add(2) virtq_add_full by auto
  next
    case (Cons f fs')
    with virtq_add_holds [of vq m f fs' posted ds buf len flags] h add(2)
    have "r = int f" "vq' = pop_head m vq" "vq_holds vq' m' fs' (f # posted) ds" by auto
    then show ?thesis using q by auto
  qed
next
  case (collect vq m posted r len vq' m')
  then obtain fs ds where h: "vq_holds vq m fs posted ds" and q: "vq_size vq = q" by auto
  show ?case
  proof (cases ds)
    case Nil
    then show ?thesis using h q collect(2) virtq_get_none by auto
  next
    case (Cons i ds')
    with virtq_get_holds [of vq m fs posted i ds'] h collect(2)
    have "vq' = push_used i vq" "vq_holds vq' m' (i # fs) posted ds'" by auto
    then show ?thesis using q by auto
  qed
next
  case (return vq m posted i len)
  then obtain fs ds where h: "vq_holds vq m fs posted ds" and q: "vq_size vq = q" by auto
  from device_return_holds [OF h return(2)] q show ?case by auto
next
  case (outside vq m posted m')
  then obtain fs ds where h: "vq_holds vq m fs posted ds" and q: "vq_size vq = q" by auto
  from vq_holds_outside [OF h outside(2)] q show ?case by auto
qed

text \<open>
  C29: in every interleaving of driver and device on a queue, each descriptor is in one place: the free ones, those the device
  owns and those it has returned add up to the queue size, and the device's are distinct. A descriptor handed out for a
  new buffer is never one the device still owns, nor is one taken back; asking with nothing free or nothing returned
  gives -1.
\<close>
theorem virtq_descriptors_conserved:
  assumes "queue_size (unat q)" "vq_run q base (vq, m, posted)"
  shows "unat (num_free vq) + length posted + unat (load16 m (used_idx vq) - last_used_idx vq) = unat q \<and> distinct posted
    \<and> (case virtq_add_buffer buf len flags (vq, m) of (r, _) \<Rightarrow>
         if num_free vq = 0 then r = - 1 else r \<in> {0..<int (unat q)} - int ` set posted)
    \<and> (case virtq_get_used (vq, m) of (r, _) \<Rightarrow>
         if load16 m (used_idx vq) = last_used_idx vq then r = - 1 else r \<in> {0..<int (unat q)} - int ` set posted)"
proof -
  obtain fs ds where h: "vq_holds vq m fs posted ds" and q: "vq_size vq = q" using vq_run_holds [OF assms(2,1)] by auto
  have nf: "unat (num_free vq) = length fs" using h by (simp add: vq_holds_def free_list_def)
  have nd: "unat (load16 m (used_idx vq) - last_used_idx vq) = length ds" using h by (simp add: vq_holds_def pending_def)
  have dist: "distinct (fs @ posted @ ds)" "set (fs @ posted @ ds) = {0..<unat q}" using h q by (simp_all add: vq_holds_def)
  have add: "case virtq_add_buffer buf len flags (vq, m) of (r, _) \<Rightarrow>
         if num_free vq = 0 then r = - 1 else r \<in> {0..<int (unat q)} - int ` set posted"
  proof (cases fs)
    case Nil
    then show ?thesis using h nf virtq_add_full by (auto simp: unat_eq_zero)
  next
    case (Cons f fs')
    then have "num_free vq \<noteq> 0" using nf by auto
    moreover have f: "f < unat q" "f \<notin> set posted" using dist Cons by auto
    moreover have "int f < uint q" using f(1) of_nat_less_iff [where ?'a = int, of f "unat q"] unfolding of_nat_unat by blast
    ultimately show ?thesis using virtq_add_holds(1) [of vq m f fs'] h Cons by auto
  qed
  have get: "case virtq_get_used (vq, m) of (r, _) \<Rightarrow>
         if load16 m (used_idx vq) = last_used_idx vq then r = - 1 else r \<in> {0..<int (unat q)} - int ` set posted"
  proof (cases ds)
    case Nil
    then have "load16 m (used_idx vq) - last_used_idx vq = 0" using nd by (simp add: unat_eq_zero)
    then show ?thesis using h virtq_get_none Nil by auto
  next
    case (Cons i ds')
    then have "load16 m (used_idx vq) \<noteq> last_used_idx vq" using nd by auto
    moreover have i: "i < unat q" "i \<notin> set posted" using dist Cons by auto
    moreover have "int i < uint q" using i(1) of_nat_less_iff [where ?'a = int, of i "unat q"] unfolding of_nat_unat by blast
    ultimately show ?thesis using virtq_get_holds(1) [of vq m fs posted i ds'] h Cons by auto
  qed
  show ?thesis using add get holds_bounds(4) [OF h] nf nd q dist(1) by simp
qed

lemma virtq_descriptors_conserved_witness:
  "case virtq_init 4 0x1000 (\<lambda>_. 0) of (vq, m) \<Rightarrow>
     unat (num_free vq) + length [] + unat (load16 m (used_idx vq) - last_used_idx vq) = unat (4 :: u16)"
proof -
  have "queue_size (unat (4 :: u16))" by code_simp
  then show ?thesis
    using virtq_descriptors_conserved [OF _ vq_run.start, of 4 "0x1000" "\<lambda>_. 0"]
    by (metis (mono_tags, lifting) case_prodI2 list.size(3))
qed

lemma write_desc_reads:
  fixes vq buf len flags m
  assumes "16 * unat head + 16 \<le> 2 ^ 64"
  defines "m' \<equiv> write_desc vq head buf len flags m"
  shows "load64 m' (desc_addr vq (ucast head)) = buf" "load32 m' (desc_len vq (ucast head)) = len"
    "load16 m' (desc_flags vq (ucast head)) = flags"
proof -
  let ?b = "desc vq" and ?h = "unat head"
  define m1 where "m1 = store64 m (?b + of_nat (16 * ?h)) buf"
  define m2 where "m2 = store32 m1 (?b + of_nat (16 * ?h + 8)) len"
  define m3 where "m3 = store16 m2 (?b + of_nat (16 * ?h + 12)) flags"
  have m': "m' = store16 m3 (?b + of_nat (16 * ?h + 14)) 0"
    unfolding m'_def write_desc_def desc_offsets m3_def m2_def m1_def ..
  have "load64 m' (?b + of_nat (16 * ?h)) = load64 m1 (?b + of_nat (16 * ?h))"
    unfolding m' m3_def m2_def
    by (rule same_bytes_load(3) [where lo = "16 * ?h" and n = 8], intro same_bytes_then_store same_bytes_refl) (use assms(1) in auto)
  then show "load64 m' (desc_addr vq (ucast head)) = buf" unfolding desc_offsets m1_def load64_store64_same .
  have "load32 m' (?b + of_nat (16 * ?h + 8)) = load32 m2 (?b + of_nat (16 * ?h + 8))"
    unfolding m' m3_def
    by (rule same_bytes_load(2) [where lo = "16 * ?h + 8" and n = 4], intro same_bytes_then_store same_bytes_refl) (use assms(1) in auto)
  then show "load32 m' (desc_len vq (ucast head)) = len" unfolding desc_offsets m2_def load32_store32_same .
  have "load16 m' (?b + of_nat (16 * ?h + 12)) = load16 m3 (?b + of_nat (16 * ?h + 12))"
    unfolding m'
    by (rule same_bytes_load(1) [where lo = "16 * ?h + 12" and n = 2], intro same_bytes_then_store same_bytes_refl) (use assms(1) in auto)
  then show "load16 m' (desc_flags vq (ucast head)) = flags" unfolding desc_offsets m3_def load16_store16_same .
qed

lemma publish_reads:
  fixes vq m
  assumes "vq_placed vq"
  defines "i \<equiv> load16 m (avail_idx vq)"
  shows "load16 (publish vq head m) (avail_ring vq (ucast (i AND (vq_size vq - 1)))) = head"
    "load16 (publish vq head m) (avail_idx vq) = i + 1"
proof -
  let ?n = "unat (vq_size vq)"
  have sz: "queue_size ?n" using assms(1) by (simp add: vq_placed_def)
  have b: "?n \<le> 32768" "unat (i AND (vq_size vq - 1)) < ?n"
    using queue_size_bounds [OF sz] unfolding ring_slot [OF sz] by simp_all
  define m1 where "m1 = store16 m (avail_ring vq (ucast (i AND (vq_size vq - 1)))) head"
  have m': "publish vq head m = store16 m1 (avail_idx vq) (load16 m1 (avail_idx vq) + 1)"
    by (simp add: publish_def m1_def i_def Let_def)
  have "load16 m1 (avail_idx vq) = i"
    unfolding m1_def i_def ring_offsets [OF assms(1)]
    by (rule same_bytes_load(1) [OF same_bytes_store(1), of "16 * ?n + 2" 2])
      (use b in \<open>auto simp: i_def ring_offsets [OF assms(1)]\<close>)
  then show "load16 (publish vq head m) (avail_idx vq) = i + 1" by (simp add: m' load16_store16_same)
  have "load16 (publish vq head m) (avail_ring vq (ucast (i AND (vq_size vq - 1)))) = load16 m1 (avail_ring vq (ucast (i AND (vq_size vq - 1))))"
    unfolding m' ring_offsets [OF assms(1)]
    by (rule same_bytes_load(1) [OF same_bytes_store(1), of "16 * ?n + 4 + 2 * unat (i AND (vq_size vq - 1))" 2]) (use b in auto)
  then show "load16 (publish vq head m) (avail_ring vq (ucast (i AND (vq_size vq - 1)))) = head"
    unfolding m1_def load16_store16_same .
qed

lemma virtq_add_buffer_published:
  assumes "vq_holds vq m (h # fs) posted ds"
  shows "case virtq_add_buffer buf len flags (vq, m) of (r, vq', m') \<Rightarrow>
    r = int h \<and> load64 m' (desc_addr vq (of_nat h)) = buf \<and> load32 m' (desc_len vq (of_nat h)) = len
    \<and> load16 m' (desc_flags vq (of_nat h)) = flags
    \<and> load16 m' (avail_ring vq (ucast (load16 m (avail_idx vq) AND (vq_size vq - 1)))) = of_nat h
    \<and> load16 m' (avail_idx vq) = load16 m (avail_idx vq) + 1"
proof -
  let ?n = "unat (vq_size vq)" and ?b = "desc vq" and ?g = "free_head vq"
  note b = holds_bounds [OF assms]
  have h: "unat ?g = h" "h < ?n" using assms by (simp_all add: vq_holds_def free_list_def)
  then have g: "(of_nat h :: u64) = ucast ?g" "of_nat h = ?g" by (simp_all flip: h(1))
  let ?m = "write_desc vq ?g buf len flags m"
  have idx: "load16 ?m (avail_idx vq) = load16 m (avail_idx vq)"
    unfolding ring_offsets [OF b(1)]
    by (rule same_bytes_load(1) [OF write_desc_frame [of "16 * ?n" 8]]) (use h b(3) in auto)
  have same: "same_bytes ?b (16 * h) 16 ?m (publish vq ?g ?m)"
    using h(2) b(3) by (intro publish_frame [OF b(1)]) auto
  have "16 * unat ?g + 16 \<le> 2 ^ 64" using h b(3) by simp
  note rd = write_desc_reads [OF this, of vq buf len flags m]
  have "load64 (publish vq ?g ?m) (desc_addr vq (ucast ?g)) = buf" "load32 (publish vq ?g ?m) (desc_len vq (ucast ?g)) = len"
    "load16 (publish vq ?g ?m) (desc_flags vq (ucast ?g)) = flags"
    using rd same_bytes_load(3) [OF same, of "16 * h"] same_bytes_load(2) [OF same, of "16 * h + 8"] same_bytes_load(1) [OF same, of "16 * h + 12"]
    unfolding desc_offsets h(1) by simp_all
  then show ?thesis
    unfolding virtq_add_holds(1) [OF assms] prod.case g
    using publish_reads [OF b(1), where m = ?m and head = ?g] by (simp add: idx)
qed

text \<open>
  adding a buffer while descriptors are free tells the device about it: the descriptor at the head of the free list gets
  the address, length and flags, its number is the entry of the available ring at the ring's index, and the index is
  advanced by one, wrapping at 16 bits.
\<close>
theorem virtq_add_buffer_publishes:
  assumes "vq_holds vq m (h # fs) posted ds"
  shows "case virtq_add_buffer buf len flags (vq, m) of (r, vq', m') \<Rightarrow>
    r = int h \<and> load64 m' (desc_addr vq (of_nat h)) = buf \<and> load32 m' (desc_len vq (of_nat h)) = len
    \<and> load16 m' (desc_flags vq (of_nat h)) = flags
    \<and> load16 m' (avail_ring vq (ucast (load16 m (avail_idx vq) AND (vq_size vq - 1)))) = of_nat h
    \<and> load16 m' (avail_idx vq) = load16 m (avail_idx vq) + 1"
  by (rule virtq_add_buffer_published [OF assms])

lemma virtq_add_buffer_publishes_witness:
  "case virtq_init 2 0x1000 (\<lambda>_. 0) of (vq, m) \<Rightarrow>
     case virtq_add_buffer 0x5000 64 1 (vq, m) of (r, vq', m') \<Rightarrow>
    r = int 0 \<and> load64 m' (desc_addr vq (of_nat 0)) = 0x5000 \<and> load32 m' (desc_len vq (of_nat 0)) = 64
    \<and> load16 m' (desc_flags vq (of_nat 0)) = 1
    \<and> load16 m' (avail_ring vq (ucast (load16 m (avail_idx vq) AND (vq_size vq - 1)))) = of_nat 0
    \<and> load16 m' (avail_idx vq) = load16 m (avail_idx vq) + 1"
proof -
  obtain vq m where init: "virtq_init 2 0x1000 (\<lambda>_. 0) = (vq, m)" by fastforce
  have "queue_size (unat (2 :: u16))" by code_simp
  from virtq_init_holds [OF this, of "0x1000" "\<lambda>_. 0"] init have "vq_holds vq m (0 # [1]) [] []" by (simp add: upt_rec)
  from virtq_add_buffer_publishes [OF this, of "0x5000" 64 1] show ?thesis by (simp only: init prod.case)
qed

section \<open>The memory of a queue\<close>

lemma page_round:
  assumes "k + 4095 < 2 ^ 64"
  shows "unat ((of_nat k + VIRTQ_PAGE_SIZE - 1) AND NOT (VIRTQ_PAGE_SIZE - 1)) = (k + 4095) div 4096 * 4096"
proof -
  have "of_nat k + VIRTQ_PAGE_SIZE - 1 = of_nat (k + 4095)" by (simp add: VIRTQ_PAGE_SIZE_def)
  moreover have "NOT (VIRTQ_PAGE_SIZE - 1) = NOT (mask 12)" by (simp add: VIRTQ_PAGE_SIZE_def mask_eq_exp_minus_1)
  moreover have "unat (of_nat j AND NOT (mask 12) :: u64) = j div 4096 * 4096" if "j < 2 ^ 64" for j
    using unat_and_not_mask [of 12 "of_nat j :: u64"] that by (simp add: unat_of_nat_u64)
  ultimately show ?thesis using assms by (simp only:)
qed

lemma virtq_size_value: "unat (virtq_size q) = used_off (unat q) + (8 * unat q + 6 + 4095) div 4096 * 4096"
proof -
  let ?n = "unat q"
  have n: "?n < 65536" using unat_below [of q] by simp
  define a where "a = ((of_nat (16 * ?n + 2 * (3 + ?n)) + VIRTQ_PAGE_SIZE - 1) AND NOT (VIRTQ_PAGE_SIZE - 1) :: u64)"
  define b where "b = ((of_nat (8 * ?n + 6) + VIRTQ_PAGE_SIZE - 1) AND NOT (VIRTQ_PAGE_SIZE - 1) :: u64)"
  have q: "virtq_size q = ucast (a + b)" unfolding virtq_size_def a_def b_def by (simp add: add.commute)
  have a: "unat a = used_off ?n" unfolding a_def used_off_def by (rule page_round) (use n in simp)
  have b: "unat b = (8 * ?n + 6 + 4095) div 4096 * 4096" unfolding b_def by (rule page_round) (use n in simp)
  have "(8 * ?n + 6 + 4095) div 4096 * 4096 \<le> 8 * ?n + 6 + 4095" by simp
  then have lt: "unat a + unat b < 2 ^ 32" using n used_off_bounds [of ?n] unfolding a b by simp
  then have "unat (a + b) = unat a + unat b" by (intro unat_plus_nowrap) simp
  then have "unat (virtq_size q) = unat a + unat b"
    using lt unfolding q by (simp add: unsigned_ucast_eq take_bit_nat_eq_self unsigned_take_bit_eq)
  then show ?thesis by (simp only: a b)
qed

text \<open>
  C35: the size \<open>virtq_size\<close> computes is enough for the queue: both rings and the table end within it, for every 16-bit
  number of descriptors, without wrapping. The four pages the driver sets aside for a queue hold every legal queue of up
  to 256 descriptors and no larger one.
\<close>
theorem virtq_size_fits:
  "queue_bytes (unat q) \<le> unat (virtq_size q)
   \<and> (queue_size (unat q) \<longrightarrow> (unat (virtq_size q) \<le> 4 * 4096 \<longleftrightarrow> unat q \<le> 256))"
proof (intro conjI impI)
  have "k \<le> (k + 2 + 4095) div 4096 * 4096" for k :: nat
    using div_mult_mod_eq [of "k + 2 + 4095" 4096] mod_less_divisor [of 4096 "k + 2 + 4095"] by linarith
  from this [of "8 * unat q + 4"] show "queue_bytes (unat q) \<le> unat (virtq_size q)"
    unfolding virtq_size_value queue_bytes_def by simp
  assume "queue_size (unat q)"
  then have "unat q \<in> set (map (\<lambda>k. 2 ^ k) [0..<16])" by (auto simp: queue_size_def)
  moreover have "\<forall>n \<in> set (map (\<lambda>k. 2 ^ k) [0..<16]). used_off n + (8 * n + 6 + 4095) div 4096 * 4096 \<le> 4 * 4096 \<longleftrightarrow> n \<le> 256"
    by (simp add: upt_rec used_off_def)
  ultimately show "unat (virtq_size q) \<le> 4 * 4096 \<longleftrightarrow> unat q \<le> 256" unfolding virtq_size_value by blast
qed

lemma virtq_size_fits_witness: "unat (virtq_size 512) > 4 * 4096"
proof -
  have "queue_size (unat (512 :: u16))" by code_simp
  then show ?thesis using virtq_size_fits [of 512] by simp
qed

end
