(* ===== verification/Virtio_Net.thy ===== *)
theory Virtio_Net
  imports Pci Net Virtqueue_Spec
begin

text \<open>
  The network driver, \<open>src/kernel/virtio_net.h\<close>: detection, sending, receiving, and the replies to ARP and ping. The
  device structure is a record; its packet buffers, the rings and the arrays on the stack are addresses in memory, given
  as fields or arguments. The port accesses go through the bus of the PCI model.
\<close>

section \<open>State\<close>

record net_dev =
  pci_dev :: "nat option"
  io_base :: u16
  nd_mac :: "u8 list"
  rx_queue :: virtqueue
  tx_queue :: virtqueue
  rx_buffers :: u64
  tx_buffers :: u64
  packets_rx :: u64
  packets_tx :: u64
  bytes_rx :: u64
  bytes_tx :: u64
  initialized :: bool
  tx_buf_idx :: nat
  our_ip :: u32
  nd_mem :: mem
  nd_pci :: pci_state

definition VIRTIO_NET_QUEUE_RX :: u16 where "VIRTIO_NET_QUEUE_RX = 0"
definition VIRTIO_NET_QUEUE_TX :: u16 where "VIRTIO_NET_QUEUE_TX = 1"
definition VIRTIO_NET_TX_BUFFERS :: nat where "VIRTIO_NET_TX_BUFFERS = 16"
definition VIRTIO_NET_BUFFER_SIZE :: u32 where "VIRTIO_NET_BUFFER_SIZE = 2048"
definition PCI_VENDOR_REDHAT :: u16 where "PCI_VENDOR_REDHAT = 0x1AF4"
definition PCI_DEVICE_VIRTIO_NET :: u16 where "PCI_DEVICE_VIRTIO_NET = 0x1000"
definition VIRTIO_PCI_HOST_FEATURES :: u16 where "VIRTIO_PCI_HOST_FEATURES = 0x00"
definition VIRTIO_PCI_GUEST_FEATURES :: u16 where "VIRTIO_PCI_GUEST_FEATURES = 0x04"
definition VIRTIO_PCI_QUEUE_NOTIFY :: u16 where "VIRTIO_PCI_QUEUE_NOTIFY = 0x10"
definition VIRTIO_PCI_STATUS :: u16 where "VIRTIO_PCI_STATUS = 0x12"
definition VIRTIO_PCI_CONFIG :: u16 where "VIRTIO_PCI_CONFIG = 0x14"
definition VIRTIO_STATUS_ACKNOWLEDGE :: u8 where "VIRTIO_STATUS_ACKNOWLEDGE = 1"
definition VIRTIO_STATUS_DRIVER :: u8 where "VIRTIO_STATUS_DRIVER = 2"
definition VIRTIO_STATUS_DRIVER_OK :: u8 where "VIRTIO_STATUS_DRIVER_OK = 4"
definition VIRTIO_NET_F_MAC :: u32 where "VIRTIO_NET_F_MAC = push_bit 5 1"
definition VIRTIO_NET_HDR_GSO_NONE :: u8 where "VIRTIO_NET_HDR_GSO_NONE = 0"
definition VIRTIO_NET_HDR_LEN :: u32 where "VIRTIO_NET_HDR_LEN = 12"

section \<open>Registers of the device\<close>

definition virtio_read8 :: "u16 \<Rightarrow> u16 \<Rightarrow> bus \<Rightarrow> u8 \<times> bus" where
  "virtio_read8 base offset b = bus_inb (base + offset) b"

definition virtio_read16 :: "u16 \<Rightarrow> u16 \<Rightarrow> bus \<Rightarrow> u16 \<times> bus" where
  "virtio_read16 base offset b = inw (base + offset) b"

definition virtio_read32 :: "u16 \<Rightarrow> u16 \<Rightarrow> bus \<Rightarrow> u32 \<times> bus" where
  "virtio_read32 base offset b = inl (base + offset) b"

definition virtio_write8 :: "u16 \<Rightarrow> u16 \<Rightarrow> u8 \<Rightarrow> bus \<Rightarrow> bus" where
  "virtio_write8 base offset v b = bus_outb (base + offset) v b"

definition virtio_write16 :: "u16 \<Rightarrow> u16 \<Rightarrow> u16 \<Rightarrow> bus \<Rightarrow> bus" where
  "virtio_write16 base offset v b = outw (base + offset) v b"

definition virtio_write32 :: "u16 \<Rightarrow> u16 \<Rightarrow> u32 \<Rightarrow> bus \<Rightarrow> bus" where
  "virtio_write32 base offset v b = outl (base + offset) v b"

section \<open>Initialisation\<close>

definition with_bus :: "(bus \<Rightarrow> bus) \<Rightarrow> net_dev \<Rightarrow> net_dev" where
  "with_bus f s = s\<lparr>nd_pci := (nd_pci s)\<lparr>pci_bus := f (pci_bus (nd_pci s))\<rparr>\<rparr>"

text \<open>The loop that reads the hardware address.\<close>

fun read_mac :: "u16 \<Rightarrow> nat list \<Rightarrow> bus \<Rightarrow> u8 list \<times> bus" where
  "read_mac base [] b = ([], b)"
| "read_mac base (i # is) b =
     (let (v, b) = virtio_read8 base (VIRTIO_PCI_CONFIG + of_nat i) b;
          (vs, b) = read_mac base is b
      in (v # vs, b))"

text \<open>The handshake from enabling bus mastering to the last status write; the result is the hardware address.\<close>

definition virtio_handshake :: "pci_device \<Rightarrow> u16 \<Rightarrow> bus \<Rightarrow> u8 list \<times> bus" where
  "virtio_handshake pci base b =
     (let b = pci_enable_bus_master pci b;
          b = bus_io_wait (virtio_write8 base VIRTIO_PCI_STATUS 0 b);
          b = bus_io_wait (virtio_write8 base VIRTIO_PCI_STATUS VIRTIO_STATUS_ACKNOWLEDGE b);
          b = bus_io_wait (virtio_write8 base VIRTIO_PCI_STATUS (VIRTIO_STATUS_ACKNOWLEDGE OR VIRTIO_STATUS_DRIVER) b);
          (features, b) = virtio_read32 base VIRTIO_PCI_HOST_FEATURES b;
          b = bus_io_wait (virtio_write32 base VIRTIO_PCI_GUEST_FEATURES VIRTIO_NET_F_MAC b);
          (mac, b) = read_mac base [0..<6] b;
          b = virtio_write8 base VIRTIO_PCI_STATUS
                (VIRTIO_STATUS_ACKNOWLEDGE OR VIRTIO_STATUS_DRIVER OR VIRTIO_STATUS_DRIVER_OK) b
      in (mac, b))"

definition virtio_net_init :: "net_dev \<Rightarrow> int \<times> net_dev" where
  "virtio_net_init s =
     (case pci_find_device PCI_VENDOR_REDHAT PCI_DEVICE_VIRTIO_NET (nd_pci s) of
        None \<Rightarrow> (- 1, s)
      | Some i \<Rightarrow>
          let s = s\<lparr>pci_dev := Some i\<rparr>;
              pci = pci_devices (nd_pci s) ! i;
              bar0 = bar pci ! 0
          in if bar0 AND 1 = 0 then (- 2, s)
             else
               let s = s\<lparr>io_base := ucast (bar0 AND 0xFFFC)\<rparr>
               in if io_base s = 0 then (- 3, s)
                  else
                    let (mac, b) = virtio_handshake pci (io_base s) (pci_bus (nd_pci s));
                        s = with_bus (\<lambda>_. b) s;
                        s = s\<lparr>nd_mac := mac, initialized := True\<rparr>
                    in (0, s))"

section \<open>Sending and receiving\<close>

text \<open>The header in front of a frame: its ten first bytes are cleared, \<open>num_buffers\<close> is not touched.\<close>

definition write_net_hdr :: "u64 \<Rightarrow> mem \<Rightarrow> mem" where
  "write_net_hdr hdr m =
     (let m = store8 m hdr 0;
          m = store8 m (hdr + 1) VIRTIO_NET_HDR_GSO_NONE;
          m = store16 m (hdr + 2) 0;
          m = store16 m (hdr + 4) 0;
          m = store16 m (hdr + 6) 0
      in store16 m (hdr + 8) 0)"

definition virtio_net_send :: "u64 \<Rightarrow> u32 \<Rightarrow> net_dev \<Rightarrow> int \<times> net_dev" where
  "virtio_net_send data len s =
     (if \<not> initialized s then (- 1, s)
      else if len > ETH_FRAME_LEN then (- 2, s)
      else if num_free (tx_queue s) < 2 then (- 3, s)
      else
        let buf = tx_buffers s + ucast VIRTIO_NET_BUFFER_SIZE * of_nat (tx_buf_idx s);
            m = write_net_hdr buf (nd_mem s);
            m = copy_loop (buf + ucast VIRTIO_NET_HDR_LEN) data (unat len) m;
            total_len = VIRTIO_NET_HDR_LEN + len;
            (r, vq, m) = virtq_add_buffer buf total_len 0 (tx_queue s, m);
            s = s\<lparr>tx_buf_idx := (tx_buf_idx s + 1) mod VIRTIO_NET_TX_BUFFERS, tx_queue := vq, nd_mem := m\<rparr>;
            s = with_bus (virtio_write16 (io_base s) VIRTIO_PCI_QUEUE_NOTIFY VIRTIO_NET_QUEUE_TX) s
        in (0, s\<lparr>packets_tx := packets_tx s + 1, bytes_tx := bytes_tx s + ucast len\<rparr>))"

definition virtio_net_recv :: "u64 \<Rightarrow> u32 \<Rightarrow> net_dev \<Rightarrow> int \<times> net_dev" where
  "virtio_net_recv buf buf_size s =
     (if \<not> initialized s then (- 1, s)
      else
        case virtq_get_used (rx_queue s, nd_mem s) of
          (desc_id, None, vq, m) \<Rightarrow> (0, s\<lparr>rx_queue := vq, nd_mem := m\<rparr>)
        | (desc_id, Some len, vq, m) \<Rightarrow>
            if desc_id < 0 then (0, s\<lparr>rx_queue := vq, nd_mem := m\<rparr>)
            else
              let rx = rx_buffers s + ucast VIRTIO_NET_BUFFER_SIZE * of_int desc_id;
                  pkt_len = len - VIRTIO_NET_HDR_LEN;
                  pkt_len = (if pkt_len > buf_size then buf_size else pkt_len);
                  m = copy_loop buf (rx + ucast VIRTIO_NET_HDR_LEN) (unat pkt_len) m;
                  (r, vq, m) = virtq_add_buffer rx VIRTIO_NET_BUFFER_SIZE VIRTQ_DESC_F_WRITE (vq, m);
                  s = s\<lparr>rx_queue := vq, nd_mem := m\<rparr>;
                  s = with_bus (virtio_write16 (io_base s) VIRTIO_PCI_QUEUE_NOTIFY VIRTIO_NET_QUEUE_RX) s
              in (sint pkt_len, s\<lparr>packets_rx := packets_rx s + 1, bytes_rx := bytes_rx s + ucast pkt_len\<rparr>))"

section \<open>Queries\<close>

definition virtio_net_get_mac :: "u64 \<Rightarrow> net_dev \<Rightarrow> net_dev" where
  "virtio_net_get_mac mac s =
     s\<lparr>nd_mem := fold (\<lambda>i m. store8 m (mac + of_nat i) (nd_mac s ! i)) [0..<6] (nd_mem s)\<rparr>"

definition virtio_net_is_ready :: "net_dev \<Rightarrow> bool" where
  "virtio_net_is_ready s = initialized s"

definition put_stat :: "u64 \<Rightarrow> u64 \<Rightarrow> mem \<Rightarrow> mem" where
  "put_stat p v m = (if p \<noteq> NULL then store64 m p v else m)"

definition virtio_net_get_stats :: "u64 \<Rightarrow> u64 \<Rightarrow> u64 \<Rightarrow> u64 \<Rightarrow> net_dev \<Rightarrow> net_dev" where
  "virtio_net_get_stats rx_packets tx_packets rx_bytes tx_bytes s =
     s\<lparr>nd_mem := put_stat tx_bytes (bytes_tx s) (put_stat rx_bytes (bytes_rx s)
         (put_stat tx_packets (packets_tx s) (put_stat rx_packets (packets_rx s) (nd_mem s))))\<rparr>"

section \<open>Transmission\<close>

lemma with_bus_simps [simp]:
  "pci_dev (with_bus f s) = pci_dev s" "io_base (with_bus f s) = io_base s" "nd_mac (with_bus f s) = nd_mac s"
  "rx_queue (with_bus f s) = rx_queue s" "tx_queue (with_bus f s) = tx_queue s" "rx_buffers (with_bus f s) = rx_buffers s"
  "tx_buffers (with_bus f s) = tx_buffers s" "packets_rx (with_bus f s) = packets_rx s" "packets_tx (with_bus f s) = packets_tx s"
  "bytes_rx (with_bus f s) = bytes_rx s" "bytes_tx (with_bus f s) = bytes_tx s" "initialized (with_bus f s) = initialized s"
  "tx_buf_idx (with_bus f s) = tx_buf_idx s" "our_ip (with_bus f s) = our_ip s" "nd_mem (with_bus f s) = nd_mem s"
  by (simp_all add: with_bus_def)

text \<open>The buffer the next frame goes to, and memory once the frame and its header are in it.\<close>

definition tx_buf :: "net_dev \<Rightarrow> u64" where
  "tx_buf s = tx_buffers s + 2048 * of_nat (tx_buf_idx s)"

definition tx_filled :: "u64 \<Rightarrow> u32 \<Rightarrow> net_dev \<Rightarrow> mem" where
  "tx_filled data len s = copy_loop (tx_buf s + 12) data (unat len) (write_net_hdr (tx_buf s) (nd_mem s))"

definition tx_post :: "u64 \<Rightarrow> u32 \<Rightarrow> net_dev \<Rightarrow> int \<times> virtqueue \<times> mem" where
  "tx_post data len s = virtq_add_buffer (tx_buf s) (12 + len) 0 (tx_queue s, tx_filled data len s)"

lemma virtio_net_send_steps:
  "virtio_net_send data len s =
     (if \<not> initialized s then (- 1, s) else if len > 1514 then (- 2, s) else if num_free (tx_queue s) < 2 then (- 3, s)
      else case tx_post data len s of (r, vq, m) \<Rightarrow>
        (0, (with_bus (virtio_write16 (io_base s) VIRTIO_PCI_QUEUE_NOTIFY VIRTIO_NET_QUEUE_TX)
               (s\<lparr>tx_buf_idx := (tx_buf_idx s + 1) mod 16, tx_queue := vq, nd_mem := m\<rparr>))
             \<lparr>packets_tx := packets_tx s + 1, bytes_tx := bytes_tx s + ucast len\<rparr>))"
  by (simp add: virtio_net_send_def tx_post_def tx_filled_def tx_buf_def ETH_FRAME_LEN_def VIRTIO_NET_BUFFER_SIZE_def
      VIRTIO_NET_HDR_LEN_def VIRTIO_NET_TX_BUFFERS_def Let_def split: prod.splits)

lemma num_free_add_buffer:
  "num_free vq \<noteq> 0 \<Longrightarrow> num_free (fst (snd (virtq_add_buffer buf len flags (vq, m)))) = num_free vq - 1"
  by (simp add: virtq_add_buffer_steps pop_head_def)

lemma virtio_net_send_ok:
  assumes "initialized s" "len \<le> 1514" "2 \<le> num_free (tx_queue s)"
  shows "fst (virtio_net_send data len s) = 0" "initialized (snd (virtio_net_send data len s))"
    "num_free (tx_queue (snd (virtio_net_send data len s))) = num_free (tx_queue s) - 1"
proof -
  have "num_free (tx_queue s) \<noteq> 0" using assms(3) by (auto simp: word_nat)
  then show "num_free (tx_queue (snd (virtio_net_send data len s))) = num_free (tx_queue s) - 1"
    using assms num_free_add_buffer [of "tx_queue s" "tx_buf s" "12 + len" 0 "tx_filled data len s"]
    by (auto simp: virtio_net_send_steps tx_post_def not_less split: prod.splits)
  show "fst (virtio_net_send data len s) = 0" "initialized (snd (virtio_net_send data len s))"
    using assms by (auto simp: virtio_net_send_steps not_less split: prod.splits)
qed

text \<open>
  the driver sends at most one frame less than its queue has free descriptors, ever: of any sequence of frames of legal
  length, the first \<open>n - 1\<close> are accepted, where \<open>n\<close> is the number of free descriptors, and every later one is refused with
  -3. Nothing takes the descriptors the device returns back into the free list of the transmit queue.
\<close>
theorem virtio_net_send_exhausts:
  assumes "initialized s" "list_all (\<lambda>(data, len). len \<le> ETH_FRAME_LEN) frames"
  shows "fst (post_all (\<lambda>(data, len). virtio_net_send data len) frames s) =
    (let k = min (length frames) (unat (num_free (tx_queue s)) - 1) in replicate k 0 @ replicate (length frames - k) (- 3))"
  using assms
proof (induction frames arbitrary: s)
  case (Cons f frames)
  obtain data len where f: "f = (data, len)" by (cases f)
  let ?n = "unat (num_free (tx_queue s))"
  have len: "len \<le> 1514" using Cons.prems(2) f by (simp add: ETH_FRAME_LEN_def)
  show ?case
  proof (cases "2 \<le> num_free (tx_queue s)")
    case True
    note ok = virtio_net_send_ok [OF Cons.prems(1) len True, of data]
    have n: "unat (num_free (tx_queue s) - 1) = ?n - 1" "2 \<le> ?n"
      using True unat_sub [of 1 "num_free (tx_queue s)"] by (simp_all add: word_nat)
    then obtain j where j: "?n - 1 = Suc j" "?n - 2 = j" by (cases "?n - 1") auto
    show ?thesis
      using Cons.IH [OF ok(2)] Cons.prems(2) ok(1,3) n(1) j f by (auto simp: Let_def numeral_2_eq_2 split: prod.splits)
  next
    case False
    then have n: "?n < 2" by (simp add: word_nat)
    have "virtio_net_send data len s = (- 3, s)" using False Cons.prems(1) len by (simp add: virtio_net_send_steps not_less not_le)
    then show ?thesis using Cons.IH [OF Cons.prems(1)] Cons.prems(2) n f by (auto simp: Let_def split: prod.splits)
  qed
qed simp

definition demo_net :: net_dev where
  "demo_net = \<lparr>pci_dev = Some 1, io_base = 0xC000, nd_mac = [2, 0, 0, 0, 0, 1],
     rx_queue = fst (virtq_init 4 0x10000 (\<lambda>_. 0)), tx_queue = fst (virtq_init 4 0x20000 (\<lambda>_. 0)),
     rx_buffers = 0x30000, tx_buffers = 0x40000, packets_rx = 0, packets_tx = 0, bytes_rx = 0, bytes_tx = 0,
     initialized = True, tx_buf_idx = 0, our_ip = 0x0A00020F,
     nd_mem = snd (virtq_init 4 0x20000 (snd (virtq_init 4 0x10000 (\<lambda>_. 0)))), nd_pci = demo_pci\<rparr>"

lemma demo_net_tx: "num_free (tx_queue demo_net) = 4" "initialized demo_net"
  by (simp_all add: demo_net_def virtq_init_def Let_def)

lemma virtio_net_send_exhausts_witness:
  "fst (post_all (\<lambda>(data, len). virtio_net_send data len) (replicate 5 (0x5000, 60)) demo_net) = [0, 0, 0, - 3, - 3]"
proof -
  have "list_all (\<lambda>(data, len). len \<le> ETH_FRAME_LEN) (replicate 5 (0x5000 :: u64, 60))" by (simp add: ETH_FRAME_LEN_def list_all_iff)
  moreover have "replicate 3 (0 :: int) @ replicate 2 (- 3) = [0, 0, 0, - 3, - 3]" by (simp add: numeral_eq_Suc)
  ultimately show ?thesis using virtio_net_send_exhausts [OF demo_net_tx(2)] by (simp add: demo_net_tx(1) Let_def)
qed

section \<open>What reaches the device\<close>

lemma write_net_hdr_bytes:
  "write_net_hdr a m = m(a := 0, a + 1 := 0, a + 2 := 0, a + 3 := 0, a + 4 := 0, a + 5 := 0, a + 6 := 0, a + 7 := 0, a + 8 := 0, a + 9 := 0)"
  by (simp add: write_net_hdr_def store16_def store8_def VIRTIO_NET_HDR_GSO_NONE_def Let_def add.assoc)

lemma write_net_hdr_other: "(\<And>i. i < 10 \<Longrightarrow> x \<noteq> a + of_nat i) \<Longrightarrow> write_net_hdr a m x = m x"
proof -
  assume neq: "\<And>i. i < 10 \<Longrightarrow> x \<noteq> a + of_nat i"
  show ?thesis
    using neq [of 0] neq [of 1] neq [of 2] neq [of 3] neq [of 4] neq [of 5] neq [of 6] neq [of 7] neq [of 8] neq [of 9]
    by (simp add: write_net_hdr_bytes)
qed

lemma bytes_at_numeral: "bytes_at m a (numeral k) = m a # bytes_at m (a + 1) (pred_numeral k)"
  by (simp add: numeral_eq_Suc)

lemma write_net_hdr_zero: "bytes_at (write_net_hdr a m) a 10 = replicate 10 0"
proof -
  have "bytes_at (write_net_hdr a m) a 10 = [0, 0, 0, 0, 0, 0, 0, 0, 0, 0]"
    by (simp add: write_net_hdr_bytes bytes_at_numeral add.assoc)
  moreover have "replicate 10 (0 :: u8) = [0, 0, 0, 0, 0, 0, 0, 0, 0, 0]" by (simp add: numeral_eq_Suc)
  ultimately show ?thesis by (simp only:)
qed

text \<open>A change inside one run of bytes leaves another run, apart from it, alone.\<close>

lemma apart_same_bytes:
  assumes "apart a n b k" "\<And>x. (\<And>i. i < n \<Longrightarrow> x \<noteq> a + of_nat i) \<Longrightarrow> m' x = m x"
  shows "same_bytes b 0 k m m'"
  unfolding same_bytes_def using assms(2) apart_neq [OF assms(1)] by (metis add_0)

lemma tx_filled_other:
  assumes "unat len \<le> 1514" "\<And>i. i < 2048 \<Longrightarrow> x \<noteq> tx_buf s + of_nat i"
  shows "tx_filled data len s x = nd_mem s x"
proof -
  have "x \<noteq> tx_buf s + 12 + of_nat i" if "i < unat len" for i
    using assms(1) assms(2) [of "12 + i"] that by (simp add: add.assoc)
  then have "tx_filled data len s x = write_net_hdr (tx_buf s) (nd_mem s) x"
    unfolding tx_filled_def by (rule copy_loop_other)
  also have "\<dots> = nd_mem s x" using assms(2) by (intro write_net_hdr_other) simp
  finally show ?thesis .
qed

lemma tx_filled_bytes:
  assumes "unat len \<le> 1514" "apart (tx_buf s) 2048 data (unat len)"
  shows "bytes_at (tx_filled data len s) (tx_buf s) 10 = replicate 10 0"
    and "bytes_at (tx_filled data len s) (tx_buf s + 12) (unat len) = bytes_at (nd_mem s) data (unat len)"
proof -
  let ?b = "tx_buf s" and ?n = "unat len" and ?h = "write_net_hdr (tx_buf s) (nd_mem s)"
  have wrap: "unat ?b + 2048 \<le> 2 ^ 64" using assms(2) by (simp add: apart_def)
  have inner: "apart (?b + 12) ?n data ?n"
    using assms unat_offset [OF wrap, of 12] by (auto simp: apart_def)
  have "tx_filled data len s (?b + of_nat i) = ?h (?b + of_nat i)" if "i < 10" for i
    unfolding tx_filled_def
  proof (rule copy_loop_other)
    fix j assume "j < ?n"
    then have "(of_nat i :: u64) \<noteq> of_nat (12 + j)" using that assms(1) by (subst of_nat_u64_eq) auto
    then show "?b + of_nat i \<noteq> ?b + 12 + of_nat j" by (simp add: add.assoc)
  qed
  then have "bytes_at (tx_filled data len s) ?b 10 = bytes_at ?h ?b 10" by (intro bytes_at_cong)
  then show "bytes_at (tx_filled data len s) ?b 10 = replicate 10 0" by (simp only: write_net_hdr_zero)
  have "tx_filled data len s (?b + 12 + of_nat i) = nd_mem s (data + of_nat i)" if "i < ?n" for i
  proof -
    have "tx_filled data len s (?b + 12 + of_nat i) = ?h (data + of_nat i)"
      unfolding tx_filled_def by (rule copy_loop_copied [OF inner that])
    also have "\<dots> = nd_mem s (data + of_nat i)"
    proof (rule write_net_hdr_other)
      fix j :: nat assume "j < 10"
      then show "data + of_nat i \<noteq> ?b + of_nat j" using apart_neq [OF assms(2), of j i] that by auto
    qed
    finally show ?thesis .
  qed
  then show "bytes_at (tx_filled data len s) (?b + 12) ?n = bytes_at (nd_mem s) data ?n" by (intro bytes_at_cong) auto
qed

lemma virtq_add_outside:
  assumes "vq_holds vq m (h # fs) posted ds" "apart (desc vq) (queue_bytes (unat (vq_size vq))) a n"
    and "virtq_add_buffer buf len flags (vq, m) = (r, vq', m')" "i < n"
  shows "m' (a + of_nat i) = m (a + of_nat i)"
proof -
  let ?n = "unat (vq_size vq)" and ?x = "a + of_nat i"
  note b = holds_bounds [OF assms(1)]
  have h: "unat (free_head vq) < ?n" using assms(1) by (simp add: vq_holds_def free_list_def)
  define k where "k = unat (?x - desc vq)"
  have x: "?x = desc vq + of_nat k" by (simp add: k_def)
  have k: "k < 2 ^ 64" using unat_below [of "?x - desc vq"] by (simp add: k_def)
  have "\<not> k < queue_bytes ?n" using apart_neq [OF assms(2), of k i] assms(4) x by auto
  then have lo: "18 * ?n + 6 \<le> k" using used_off_bounds [of ?n] by (simp add: queue_bytes_def)
  have "m' = publish vq (free_head vq) (write_desc vq (free_head vq) buf len flags m)"
    using virtq_add_holds(1) [OF assms(1)] assms(3) by simp
  moreover have "same_bytes (desc vq) k 1 m (publish vq (free_head vq) (write_desc vq (free_head vq) buf len flags m))"
    using lo h k b(3) by (intro same_bytes_trans [OF write_desc_frame publish_frame [OF b(1)]]) auto
  ultimately show ?thesis unfolding x using same_bytes_nth [of "desc vq" k 1 m m' k] by simp
qed

lemma avail_idx_outside:
  assumes "vq_holds vq m (h # fs) posted ds" "same_bytes (desc vq) 0 (queue_bytes (unat (vq_size vq))) m m'"
  shows "load16 m' (avail_idx vq) = load16 m (avail_idx vq)"
proof -
  note b = holds_bounds [OF assms(1)]
  show ?thesis
    unfolding ring_offsets [OF b(1)] using used_off_bounds [of "unat (vq_size vq)"] queue_size_bounds [OF b(2)]
    by (intro same_bytes_load(1) [OF assms(2)]) (auto simp: queue_bytes_def)
qed

lemma virtio_net_send_spec:
  assumes "initialized s" "len \<le> ETH_FRAME_LEN" "vq_holds (tx_queue s) (nd_mem s) (h # h' # fs) posted ds"
    and "apart (tx_buf s) 2048 data (unat len)"
    and "apart (desc (tx_queue s)) (queue_bytes (unat (vq_size (tx_queue s)))) (tx_buf s) 2048"
  shows "case virtio_net_send data len s of (r, s') \<Rightarrow>
    r = 0 \<and> bytes_at (nd_mem s') (tx_buf s) 10 = replicate 10 0
    \<and> bytes_at (nd_mem s') (tx_buf s + 12) (unat len) = bytes_at (nd_mem s) data (unat len)
    \<and> load64 (nd_mem s') (desc_addr (tx_queue s) (of_nat h)) = tx_buf s
    \<and> load32 (nd_mem s') (desc_len (tx_queue s) (of_nat h)) = 12 + len
    \<and> load16 (nd_mem s') (avail_ring (tx_queue s) (ucast (load16 (nd_mem s) (avail_idx (tx_queue s)) AND (vq_size (tx_queue s) - 1)))) = of_nat h
    \<and> load16 (nd_mem s') (avail_idx (tx_queue s)) = load16 (nd_mem s) (avail_idx (tx_queue s)) + 1
    \<and> load16 (nd_mem s') (desc_flags (tx_queue s) (of_nat h)) = 0
    \<and> vq_holds (tx_queue s') (nd_mem s') (h' # fs) (h # posted) ds
    \<and> events (pci_bus (nd_pci s')) = Out16 (io_base s + 0x10) 1 # events (pci_bus (nd_pci s))
    \<and> packets_tx s' = packets_tx s + 1 \<and> bytes_tx s' = bytes_tx s + ucast len"
proof -
  let ?q = "tx_queue s" and ?m = "tx_filled data len s"
  have len: "len \<le> 1514" "unat len \<le> 1514" using assms(2) by (simp_all add: ETH_FRAME_LEN_def word_nat)
  have "same_bytes (desc ?q) 0 (queue_bytes (unat (vq_size ?q))) (nd_mem s) ?m"
    by (rule apart_same_bytes [OF apart_sym [OF assms(5)]]) (rule tx_filled_other [OF len(2)])
  note same = this
  from vq_holds_outside [OF assms(3) this] have holds: "vq_holds ?q ?m (h # h' # fs) posted ds" .
  note b = holds_bounds [OF holds]
  have nf: "\<not> num_free ?q < 2" using assms(3) by (simp add: vq_holds_def free_list_def word_nat)
  obtain r vq' m' where post: "tx_post data len s = (r, vq', m')" by (metis prod_cases3)
  note add = post [unfolded tx_post_def]
  have idx: "load16 ?m (avail_idx ?q) = load16 (nd_mem s) (avail_idx ?q)" by (rule avail_idx_outside [OF assms(3) same])
  have out: "m' (tx_buf s + of_nat i) = ?m (tx_buf s + of_nat i)" if "i < 2048" for i
    using virtq_add_outside [OF holds assms(5) add that] .
  have hdr: "bytes_at m' (tx_buf s) 10 = replicate 10 0"
    using bytes_at_cong [of 10 m' "tx_buf s" ?m "tx_buf s"] out tx_filled_bytes(1) [OF len(2) assms(4)] by simp
  have body: "bytes_at m' (tx_buf s + 12) (unat len) = bytes_at (nd_mem s) data (unat len)"
  proof -
    have "m' (tx_buf s + 12 + of_nat i) = ?m (tx_buf s + 12 + of_nat i)" if "i < unat len" for i
      using out [of "12 + i"] that len(2) by (simp add: add.assoc)
    then have "bytes_at m' (tx_buf s + 12) (unat len) = bytes_at ?m (tx_buf s + 12) (unat len)" by (rule bytes_at_cong)
    then show ?thesis using tx_filled_bytes(2) [OF len(2) assms(4)] by simp
  qed
  have pub: "load64 m' (desc_addr ?q (of_nat h)) = tx_buf s" "load32 m' (desc_len ?q (of_nat h)) = 12 + len"
    "load16 m' (avail_ring ?q (ucast (load16 ?m (avail_idx ?q) AND (vq_size ?q - 1)))) = of_nat h"
    "load16 m' (avail_idx ?q) = load16 ?m (avail_idx ?q) + 1" "load16 m' (desc_flags ?q (of_nat h)) = 0"
    using virtq_add_buffer_published [OF holds, of "tx_buf s" "12 + len" 0] add by simp_all
  have "vq_holds vq' m' (h' # fs) (h # posted) ds" using virtq_add_holds [OF holds, of "tx_buf s" "12 + len" 0] add by simp
  then show ?thesis
    using assms(1) len(1) nf post hdr body pub idx
    by (simp add: virtio_net_send_steps not_less with_bus_def virtio_write16_def outw_def access_def VIRTIO_PCI_QUEUE_NOTIFY_def
        VIRTIO_NET_QUEUE_TX_def)
qed

text \<open>
  a frame handed to a driver whose transmit queue is set up and has two free descriptors reaches the device: the next
  transmit buffer holds a cleared header and then the frame byte for byte, the first free descriptor points at it with the
  length of both and no flags, its number is in the available ring, whose index is advanced, the device is told on its
  notify port, and the counters advance.
  The queue itself stays intact.
\<close>
theorem virtio_net_send_delivers:
  assumes "initialized s" "len \<le> ETH_FRAME_LEN" "vq_holds (tx_queue s) (nd_mem s) (h # h' # fs) posted ds"
    and "apart (tx_buf s) 2048 data (unat len)"
    and "apart (desc (tx_queue s)) (queue_bytes (unat (vq_size (tx_queue s)))) (tx_buf s) 2048"
  shows "case virtio_net_send data len s of (r, s') \<Rightarrow>
    r = 0 \<and> bytes_at (nd_mem s') (tx_buf s) 10 = replicate 10 0
    \<and> bytes_at (nd_mem s') (tx_buf s + 12) (unat len) = bytes_at (nd_mem s) data (unat len)
    \<and> load64 (nd_mem s') (desc_addr (tx_queue s) (of_nat h)) = tx_buf s
    \<and> load32 (nd_mem s') (desc_len (tx_queue s) (of_nat h)) = 12 + len
    \<and> load16 (nd_mem s') (avail_ring (tx_queue s) (ucast (load16 (nd_mem s) (avail_idx (tx_queue s)) AND (vq_size (tx_queue s) - 1)))) = of_nat h
    \<and> load16 (nd_mem s') (avail_idx (tx_queue s)) = load16 (nd_mem s) (avail_idx (tx_queue s)) + 1
    \<and> load16 (nd_mem s') (desc_flags (tx_queue s) (of_nat h)) = 0
    \<and> vq_holds (tx_queue s') (nd_mem s') (h' # fs) (h # posted) ds
    \<and> events (pci_bus (nd_pci s')) = Out16 (io_base s + 0x10) 1 # events (pci_bus (nd_pci s))
    \<and> packets_tx s' = packets_tx s + 1 \<and> bytes_tx s' = bytes_tx s + ucast len"
  by (rule virtio_net_send_spec [OF assms])

lemma virtq_init_record: "fst (virtq_init q base m) = fst (virtq_init q base m')"
  by (simp add: virtq_init_def Let_def)

lemma demo_net_tx_holds: "vq_holds (tx_queue demo_net) (nd_mem demo_net) [0, 1, 2, 3] [] []"
  "desc (tx_queue demo_net) = 0x20000" "vq_size (tx_queue demo_net) = 4"
proof -
  let ?m = "snd (virtq_init 4 0x10000 (\<lambda>_. 0))"
  have tx: "tx_queue demo_net = fst (virtq_init 4 0x20000 ?m)" "nd_mem demo_net = snd (virtq_init 4 0x20000 ?m)"
    unfolding demo_net_def by (simp_all add: virtq_init_record [of 4 "0x20000" ?m "\<lambda>_. 0"])
  have "queue_size (unat (4 :: u16))" by code_simp
  moreover have "[0..<4] = [0, 1, 2, 3 :: nat]" by (simp add: upt_rec)
  ultimately show "vq_holds (tx_queue demo_net) (nd_mem demo_net) [0, 1, 2, 3] [] []"
    "desc (tx_queue demo_net) = 0x20000" "vq_size (tx_queue demo_net) = 4"
    using virtq_init_holds [of 4 "0x20000" ?m] unfolding tx by (auto split: prod.splits)
qed

lemma virtio_net_send_delivers_witness:
  "fst (virtio_net_send 0x5000 60 demo_net) = 0
   \<and> bytes_at (nd_mem (snd (virtio_net_send 0x5000 60 demo_net))) (tx_buf demo_net) 10 = replicate 10 0"
proof -
  have "tx_buf demo_net = 0x40000" by (simp add: tx_buf_def demo_net_def)
  moreover have "queue_bytes (unat (4 :: u16)) = 4132" by code_simp
  ultimately show ?thesis
    using virtio_net_send_delivers [OF demo_net_tx(2) _ demo_net_tx_holds(1), of 60 "0x5000"] demo_net_tx_holds(2,3)
    by (simp add: apart_def ETH_FRAME_LEN_def split: prod.splits)
qed

section \<open>Reception\<close>

text \<open>The receive buffer of a descriptor, and how much of a returned buffer is copied out.\<close>

definition rx_buf :: "net_dev \<Rightarrow> nat \<Rightarrow> u64" where
  "rx_buf s i = rx_buffers s + 2048 * of_nat i"

definition rx_copied :: "u32 \<Rightarrow> u32 \<Rightarrow> u32" where
  "rx_copied len buf_size = min (len - 12) buf_size"

lemma virtio_net_recv_steps:
  assumes "initialized s" "virtq_get_used (rx_queue s, nd_mem s) = (int i, Some len, vq, m)"
    and "virtq_add_buffer (rx_buf s i) 2048 2 (vq, copy_loop buf (rx_buf s i + 12) (unat (rx_copied len buf_size)) m) = (r, vq', m')"
  shows "virtio_net_recv buf buf_size s =
    (sint (rx_copied len buf_size),
     (with_bus (virtio_write16 (io_base s) VIRTIO_PCI_QUEUE_NOTIFY VIRTIO_NET_QUEUE_RX) (s\<lparr>rx_queue := vq', nd_mem := m'\<rparr>))
       \<lparr>packets_rx := packets_rx s + 1, bytes_rx := bytes_rx s + ucast (rx_copied len buf_size)\<rparr>)"
  using assms
  by (auto simp: virtio_net_recv_def rx_buf_def rx_copied_def VIRTIO_NET_BUFFER_SIZE_def VIRTIO_NET_HDR_LEN_def VIRTQ_DESC_F_WRITE_def
      Let_def min_def not_less)

lemma virtio_net_recv_none:
  assumes "initialized s" "vq_holds (rx_queue s) (nd_mem s) fs posted []"
  shows "virtio_net_recv buf buf_size s = (0, s)"
  using assms virtq_get_none by (simp add: virtio_net_recv_def)

lemma sint_u32_small: "unat (w :: u32) < 2 ^ 31 \<Longrightarrow> sint w = int (unat w)"
  using sint_small [of "unat w"] by simp

lemma store16_outside:
  assumes "apart b k a n" "i + 2 \<le> k" "j < n"
  shows "store16 m (b + of_nat i) v (a + of_nat j) = m (a + of_nat j)"
proof -
  have "b + of_nat i \<noteq> a + of_nat j" "b + of_nat (i + 1) \<noteq> a + of_nat j"
    using apart_neq [OF assms(1), of i j] apart_neq [OF assms(1), of "i + 1" j] assms(2,3) by auto
  then show ?thesis by (auto simp: store16_def add.assoc)
qed

lemma virtio_net_recv_spec:
  assumes "initialized s" "vq_holds (rx_queue s) (nd_mem s) fs posted (i # ds)" "buf_size \<le> 2048 - 12"
    and q: "apart (desc (rx_queue s)) (queue_bytes (unat (vq_size (rx_queue s)))) buf (unat buf_size)"
    and r: "apart (desc (rx_queue s)) (queue_bytes (unat (vq_size (rx_queue s)))) (rx_buf s i) 2048"
    and b: "apart buf (unat buf_size) (rx_buf s i) 2048"
  shows "case virtio_net_recv buf buf_size s of (res, s') \<Rightarrow>
    let n = rx_copied (load32 (nd_mem s) (used_len (rx_queue s) (ucast (used_slot (rx_queue s) 0)))) buf_size in
    res = int (unat n) \<and> bytes_at (nd_mem s') buf (unat n) = bytes_at (nd_mem s) (rx_buf s i + 12) (unat n)
    \<and> vq_holds (rx_queue s') (nd_mem s') fs (i # posted) ds
    \<and> events (pci_bus (nd_pci s')) = Out16 (io_base s + 0x10) 0 # events (pci_bus (nd_pci s))
    \<and> packets_rx s' = packets_rx s + 1 \<and> bytes_rx s' = bytes_rx s + ucast n"
proof -
  let ?q = "rx_queue s" and ?m = "nd_mem s"
  let ?len = "load32 ?m (used_len ?q (ucast (used_slot ?q 0)))" and ?src = "rx_buf s i + 12"
  define n where "n = rx_copied ?len buf_size"
  have n: "n \<le> buf_size" "unat n \<le> unat buf_size" "unat buf_size \<le> 2036" "unat n \<le> 2036"
    using assms(3) by (auto simp: n_def rx_copied_def word_nat min_def)
  define m1 where "m1 = store16 ?m (desc ?q + of_nat (16 * i + 14)) (free_head ?q)"
  have get: "virtq_get_used (?q, ?m) = (int i, Some ?len, push_used i ?q, m1)" and h1: "vq_holds (push_used i ?q) m1 (i # fs) posted ds"
    using virtq_get_holds [OF assms(2)] by (simp_all add: m1_def)
  define m2 where "m2 = copy_loop buf ?src (unat n) m1"
  have "same_bytes (desc ?q) 0 (queue_bytes (unat (vq_size ?q))) m1 m2"
  proof (rule apart_same_bytes [OF apart_sym [OF q]])
    fix x assume "\<And>j. j < unat buf_size \<Longrightarrow> x \<noteq> buf + of_nat j"
    then show "m2 x = m1 x" unfolding m2_def using n(2) by (intro copy_loop_other) auto
  qed
  then have h2: "vq_holds (push_used i ?q) m2 (i # fs) posted ds" using vq_holds_outside [OF h1] by simp
  obtain rr vq' m' where add: "virtq_add_buffer (rx_buf s i) 2048 2 (push_used i ?q, m2) = (rr, vq', m')" by (metis prod_cases3)
  then have h3: "vq_holds vq' m' fs (i # posted) ds" using virtq_add_holds [OF h2, of "rx_buf s i" 2048 2] by simp
  note steps = virtio_net_recv_steps [OF assms(1) get add [unfolded m2_def n_def], folded n_def]
  have "m' (buf + of_nat j) = ?m (?src + of_nat j)" if "j < unat n" for j
  proof -
    have wrap: "unat (rx_buf s i) + 2048 \<le> 2 ^ 64" using r by (simp add: apart_def)
    have "apart buf (unat n) ?src (unat n)"
      using b n unat_offset [OF wrap, of 12] by (auto simp: apart_def)
    then have "m2 (buf + of_nat j) = m1 (?src + of_nat j)" unfolding m2_def by (rule copy_loop_copied [OF _ that])
    moreover have "m' (buf + of_nat j) = m2 (buf + of_nat j)"
      using virtq_add_outside [OF h2 _ add, of buf "unat buf_size" j] q that n(2) by simp
    moreover have "m1 (?src + of_nat j) = ?m (?src + of_nat j)"
    proof -
      have "i < unat (vq_size ?q)" using assms(2) by (auto simp: vq_holds_def)
      then have "16 * i + 14 + 2 \<le> queue_bytes (unat (vq_size ?q))" using used_off_bounds [of "unat (vq_size ?q)"] by (simp add: queue_bytes_def)
      from store16_outside [OF r this, of "12 + j"] show ?thesis using that n(4) by (simp add: m1_def add.assoc)
    qed
    ultimately show ?thesis by simp
  qed
  then have "bytes_at m' buf (unat n) = bytes_at ?m ?src (unat n)" by (rule bytes_at_cong)
  moreover have "sint n = int (unat n)" using n(4) by (intro sint_u32_small) simp
  ultimately show ?thesis
    using steps h3 unfolding n_def [symmetric] Let_def
    by (simp add: with_bus_def virtio_write16_def outw_def access_def VIRTIO_PCI_QUEUE_NOTIFY_def VIRTIO_NET_QUEUE_RX_def)
qed

lemma rx_copied_short: "len < 12 \<Longrightarrow> buf_size \<le> 2048 - 12 \<Longrightarrow> rx_copied len buf_size = buf_size"
proof -
  assume "len < 12" and b: "buf_size \<le> 2048 - 12"
  then have "unat (len - 12) = unat len + 2 ^ 32 - 12"
    using unat_sub_if' [of len 12] by (simp add: word_nat)
  then show ?thesis using b by (simp add: rx_copied_def min_def word_nat)
qed

text \<open>
  C33: a returned buffer is copied to the caller and given back to the device: the caller gets the bytes behind the header, as
  many as its buffer has room for, the count is the result, the same descriptor is posted again with the other free ones
  as they were, and the device is told. When the device reports fewer bytes than the header has, the length wraps: the
  caller then gets its whole buffer's worth of bytes that were never received.
\<close>
theorem virtio_net_recv_copies:
  assumes "initialized s" "vq_holds (rx_queue s) (nd_mem s) fs posted (i # ds)" "buf_size \<le> 2048 - 12"
    and "apart (desc (rx_queue s)) (queue_bytes (unat (vq_size (rx_queue s)))) buf (unat buf_size)"
    and "apart (desc (rx_queue s)) (queue_bytes (unat (vq_size (rx_queue s)))) (rx_buf s i) 2048"
    and "apart buf (unat buf_size) (rx_buf s i) 2048"
  shows "case virtio_net_recv buf buf_size s of (res, s') \<Rightarrow>
    let len = load32 (nd_mem s) (used_len (rx_queue s) (ucast (used_slot (rx_queue s) 0)));
        n = (if len < 12 then buf_size else min (len - 12) buf_size) in
    res = int (unat n) \<and> bytes_at (nd_mem s') buf (unat n) = bytes_at (nd_mem s) (rx_buf s i + 12) (unat n)
    \<and> vq_holds (rx_queue s') (nd_mem s') fs (i # posted) ds
    \<and> events (pci_bus (nd_pci s')) = Out16 (io_base s + 0x10) 0 # events (pci_bus (nd_pci s))
    \<and> packets_rx s' = packets_rx s + 1 \<and> bytes_rx s' = bytes_rx s + ucast n"
proof -
  have "(if len < 12 then buf_size else min (len - 12) buf_size) = rx_copied len buf_size" for len
    using rx_copied_short [OF _ assms(3)] by (simp add: rx_copied_def)
  then show ?thesis using virtio_net_recv_spec [OF assms] by (simp only: Let_def)
qed

text \<open>A driver whose receive queue holds one returned buffer, of 40 bytes.\<close>

definition demo_rx :: net_dev where
  "demo_rx =
     (let (vq, m) = virtq_init 4 0x10000 (\<lambda>_. 0);
          (r, vq, m) = virtq_add_buffer 0x30000 2048 2 (vq, m)
      in demo_net\<lparr>rx_queue := vq, nd_mem := device_return vq 0 40 m\<rparr>)"

lemma demo_rx_holds:
  "vq_holds (rx_queue demo_rx) (nd_mem demo_rx) [1, 2, 3] [] [0]" "desc (rx_queue demo_rx) = 0x10000"
  "vq_size (rx_queue demo_rx) = 4" "initialized demo_rx" "rx_buf demo_rx 0 = 0x30000"
proof -
  obtain vq m where init: "virtq_init 4 0x10000 (\<lambda>_. 0) = (vq, m)" by fastforce
  have "queue_size (unat (4 :: u16))" by code_simp
  moreover have "[0..<4] = [0, 1, 2, 3 :: nat]" by (simp add: upt_rec)
  ultimately have h: "vq_holds vq m [0, 1, 2, 3] [] []" "desc vq = 0x10000" "vq_size vq = 4"
    using virtq_init_holds [of 4 "0x10000" "\<lambda>_. 0"] init by auto
  note add = virtq_add_holds [OF h(1), of "0x30000" 2048 2]
  from device_return_holds [OF add(2), of 0 40]
  show "vq_holds (rx_queue demo_rx) (nd_mem demo_rx) [1, 2, 3] [] [0]" "desc (rx_queue demo_rx) = 0x10000"
    "vq_size (rx_queue demo_rx) = 4" "initialized demo_rx" "rx_buf demo_rx 0 = 0x30000"
    using h by (simp_all add: demo_rx_def init add(1) rx_buf_def demo_net_def device_return_def used_idx_def used_id_def used_len_def)
qed

lemma virtio_net_recv_copies_witness:
  "packets_rx (snd (virtio_net_recv 0x60000 1514 demo_rx)) = packets_rx demo_rx + 1"
proof -
  have "queue_bytes (unat (4 :: u16)) = 4132" by code_simp
  then show ?thesis
    using virtio_net_recv_copies [OF demo_rx_holds(4,1), of 1514 "0x60000"] demo_rx_holds(2,3,5)
    by (simp add: apart_def word_nat Let_def split: prod.splits)
qed

end
