(* ===== verification/Net_Packets.thy ===== *)
theory Net_Packets
  imports Virtio_Net
begin

text \<open>
  The protocol part of \<open>src/kernel/virtio_net.h\<close>: answering ARP requests and pings, taking packets apart, and the polling
  loop. Packets are bytes in memory; the arrays the functions keep on the stack are the addresses \<open>packet\<close> and \<open>buffer\<close>,
  given as arguments.
\<close>

section \<open>Replies\<close>

definition net_set_ip :: "u32 \<Rightarrow> net_dev \<Rightarrow> net_dev" where
  "net_set_ip ip s = s\<lparr>our_ip := ip\<rparr>"

text \<open>The loop that fills the two addresses of the Ethernet header, destination first.\<close>

definition fill_eth :: "u64 \<Rightarrow> u64 \<Rightarrow> u8 list \<Rightarrow> mem \<Rightarrow> mem" where
  "fill_eth packet target_mac mac m =
     fold (\<lambda>i m. store8 (store8 m (packet + of_nat i) (load8 m (target_mac + of_nat i))) (packet + 6 + of_nat i) (mac ! i))
       [0..<6] m"

text \<open>The loop that fills the two hardware addresses of an ARP packet, sender first.\<close>

definition fill_arp :: "u64 \<Rightarrow> u64 \<Rightarrow> u8 list \<Rightarrow> mem \<Rightarrow> mem" where
  "fill_arp arp target_mac mac m =
     fold (\<lambda>i m. let m = store8 m (arp + 8 + of_nat i) (mac ! i) in store8 m (arp + 18 + of_nat i) (load8 m (target_mac + of_nat i)))
       [0..<6] m"

definition build_arp_reply :: "u64 \<Rightarrow> u32 \<Rightarrow> u64 \<Rightarrow> u8 list \<Rightarrow> u32 \<Rightarrow> mem \<Rightarrow> mem" where
  "build_arp_reply packet target_ip target_mac mac ip m =
     (let arp = packet + ucast ETH_HLEN;
          m = fill_eth packet target_mac mac m;
          m = store16 m (packet + 12) (htons ETH_TYPE_ARP);
          m = store16 m arp (htons ARP_HW_ETHER);
          m = store16 m (arp + 2) (htons ETH_TYPE_IP);
          m = store8 m (arp + 4) 6;
          m = store8 m (arp + 5) 4;
          m = store16 m (arp + 6) (htons ARP_OP_REPLY);
          m = fill_arp arp target_mac mac m;
          m = store32 m (arp + 14) (htonl ip)
      in store32 m (arp + 24) (htonl target_ip))"

definition net_send_arp_reply :: "u64 \<Rightarrow> u32 \<Rightarrow> u64 \<Rightarrow> net_dev \<Rightarrow> net_dev" where
  "net_send_arp_reply packet target_ip target_mac s =
     snd (virtio_net_send packet (ETH_HLEN + 28)
       (s\<lparr>nd_mem := build_arp_reply packet target_ip target_mac (nd_mac s) (our_ip s) (nd_mem s)\<rparr>))"

definition build_ping_reply ::
  "u64 \<Rightarrow> u32 \<Rightarrow> u64 \<Rightarrow> u16 \<Rightarrow> u16 \<Rightarrow> u64 \<Rightarrow> u32 \<Rightarrow> u8 list \<Rightarrow> u32 \<Rightarrow> mem \<Rightarrow> mem" where
  "build_ping_reply packet dest_ip dest_mac ident seq data data_len mac my_ip m =
     (let ip = packet + ucast ETH_HLEN;
          icmp = ip + 20;
          m = fill_eth packet dest_mac mac m;
          m = store16 m (packet + 12) (htons ETH_TYPE_IP);
          total_len = (ucast (20 + 8 + data_len) :: u16);
          m = store8 m ip 0x45;
          m = store8 m (ip + 1) 0;
          m = store16 m (ip + 2) (htons total_len);
          m = store16 m (ip + 4) 0;
          m = store16 m (ip + 6) 0;
          m = store8 m (ip + 8) 64;
          m = store8 m (ip + 9) IP_PROTO_ICMP;
          m = store16 m (ip + 10) 0;
          m = store32 m (ip + 12) (htonl my_ip);
          m = store32 m (ip + 16) (htonl dest_ip);
          m = store16 m (ip + 10) (ip_checksum m ip 20);
          m = store8 m icmp ICMP_ECHO_REPLY;
          m = store8 m (icmp + 1) 0;
          m = store16 m (icmp + 2) 0;
          m = store16 m (icmp + 4) ident;
          m = store16 m (icmp + 6) seq;
          m = copy_loop (icmp + 8) data (unat data_len) m
      in store16 m (icmp + 2) (ip_checksum m icmp (sint (8 + data_len))))"

definition net_send_ping_reply :: "u64 \<Rightarrow> u32 \<Rightarrow> u64 \<Rightarrow> u16 \<Rightarrow> u16 \<Rightarrow> u64 \<Rightarrow> u32 \<Rightarrow> net_dev \<Rightarrow> net_dev" where
  "net_send_ping_reply packet dest_ip dest_mac ident seq data data_len s =
     snd (virtio_net_send packet (ETH_HLEN + ucast (ucast (20 + 8 + data_len) :: u16))
       (s\<lparr>nd_mem := build_ping_reply packet dest_ip dest_mac ident seq data data_len (nd_mac s) (our_ip s) (nd_mem s)\<rparr>))"

section \<open>Taking packets apart\<close>

text \<open>The length of the ping data: the total length less the header length, in 32 bits, and less eight.\<close>

definition ping_data_len :: "u16 \<Rightarrow> u32 \<Rightarrow> u32" where
  "ping_data_len total_len ip_hdr_len =
     (let icmp_len = ucast total_len - ip_hdr_len in if icmp_len > 8 then icmp_len - 8 else 0)"

text \<open>The argument \<open>arr\<close> is the array of whichever reply function is called.\<close>

definition net_process_packet :: "u64 \<Rightarrow> u64 \<Rightarrow> u32 \<Rightarrow> net_dev \<Rightarrow> net_dev" where
  "net_process_packet arr packet len s =
     (let m = nd_mem s in
      if len < ETH_HLEN then s
      else
        let eth_type = ntohs (load16 m (packet + 12)) in
        if eth_type = ETH_TYPE_ARP then
          (if len < ETH_HLEN + 28 then s
           else
             let arp = packet + ucast ETH_HLEN in
             if ntohs (load16 m (arp + 6)) = ARP_OP_REQUEST then
               (let target_ip = ntohl (load32 m (arp + 24)) in
                if target_ip = our_ip s then net_send_arp_reply arr (ntohl (load32 m (arp + 14))) (arp + 8) s else s)
             else s)
        else if eth_type = ETH_TYPE_IP then
          (if len < ETH_HLEN + 20 then s
           else
             let ip = packet + ucast ETH_HLEN in
             if drop_bit 4 (load8 m ip) \<noteq> 4 then s
             else
               let dest_ip = ntohl (load32 m (ip + 16)) in
               if dest_ip \<noteq> our_ip s \<and> dest_ip \<noteq> 0xFFFFFFFF then s
               else if load8 m (ip + 9) = IP_PROTO_ICMP then
                 (let ip_hdr_len = ucast (load8 m ip AND 0x0F) * (4 :: u32);
                      icmp = ip + ucast ip_hdr_len
                  in if load8 m icmp = ICMP_ECHO_REQUEST then
                       net_send_ping_reply arr (ntohl (load32 m (ip + 12))) (packet + 6) (load16 m (icmp + 4)) (load16 m (icmp + 6))
                         (icmp + 8) (ping_data_len (ntohs (load16 m (ip + 2))) ip_hdr_len) s
                     else s)
               else s)
        else s)"

text \<open>The polling loop ends when there is nothing to receive; None stands for a loop that goes on for ever.\<close>

partial_function (option) net_poll :: "u64 \<Rightarrow> u64 \<Rightarrow> net_dev \<Rightarrow> net_dev option" where
  "net_poll arr buffer s =
     (case virtio_net_recv buffer ETH_FRAME_LEN s of (len, s) \<Rightarrow>
        if len > 0 then net_poll arr buffer (net_process_packet arr buffer (of_int len) s) else Some s)"

section \<open>The ARP reply\<close>

lemma upt_6: "[0..<6] = [0, 1, 2, 3, 4, 5 :: nat]"
  by (simp add: upt_rec)

text \<open>A loop that copies a hardware address while it writes elsewhere reads the address as it was.\<close>

lemma mac_loop:
  assumes "\<And>i v m x. i < 6 \<Longrightarrow> (\<And>k. k < n \<Longrightarrow> x \<noteq> a + of_nat k) \<Longrightarrow> f i v m x = m x"
    and "apart a n tm 6"
  shows "fold (\<lambda>i m. f i (m (tm + of_nat i)) m) [0..<6] m = fold (\<lambda>i m'. f i (m (tm + of_nat i)) m') [0..<6] m"
proof -
  have keep: "fold (\<lambda>i m'. f i (m (tm + of_nat i)) m') [0..<k] m (tm + of_nat j) = m (tm + of_nat j)" if "k \<le> 6" "j < 6" for k j
    using that
  proof (induction k)
    case (Suc k)
    have "f k (m (tm + of_nat k)) m' (tm + of_nat j) = m' (tm + of_nat j)" for m'
      using Suc.prems apart_neq [OF assms(2)] by (intro assms(1)) fastforce+
    then show ?case using Suc by simp
  qed simp
  have "fold (\<lambda>i m. f i (m (tm + of_nat i)) m) [0..<k] m = fold (\<lambda>i m'. f i (m (tm + of_nat i)) m') [0..<k] m" if "k \<le> 6" for k
    using that by (induction k) (simp_all add: keep)
  then show ?thesis by simp
qed

lemma fill_eth_bytes:
  assumes "apart packet 12 tm 6" "tmac = bytes_at m tm 6"
  shows "fill_eth packet tm mac m =
    m(packet := tmac ! 0, packet + 6 := mac ! 0, packet + 1 := tmac ! 1, packet + 7 := mac ! 1, packet + 2 := tmac ! 2,
      packet + 8 := mac ! 2, packet + 3 := tmac ! 3, packet + 9 := mac ! 3, packet + 4 := tmac ! 4, packet + 10 := mac ! 4,
      packet + 5 := tmac ! 5, packet + 11 := mac ! 5)"
proof -
  let ?f = "\<lambda>i v (m :: mem). m(packet + of_nat i := v, packet + 6 + of_nat i := mac ! i)"
  have "fill_eth packet tm mac m = fold (\<lambda>i m'. ?f i (m (tm + of_nat i)) m') [0..<6] m"
    unfolding fill_eth_def store8_def load8_def
  proof (rule mac_loop [OF _ assms(1)])
    fix i :: nat and x v and m :: mem
    assume "i < 6" "\<And>k. k < 12 \<Longrightarrow> x \<noteq> packet + of_nat k"
    from \<open>i < 6\<close> this(2) [of i] this(2) [of "6 + i"] show "?f i v m x = m x" by (simp add: add.assoc)
  qed
  then show ?thesis unfolding assms(2) upt_6 by (simp add: nth_bytes_at add.assoc)
qed

lemma fill_arp_bytes:
  assumes "apart packet 42 tm 6" "tmac = bytes_at m tm 6"
  shows "fill_arp (packet + 14) tm mac m =
    m(packet + 22 := mac ! 0, packet + 32 := tmac ! 0, packet + 23 := mac ! 1, packet + 33 := tmac ! 1, packet + 24 := mac ! 2,
      packet + 34 := tmac ! 2, packet + 25 := mac ! 3, packet + 35 := tmac ! 3, packet + 26 := mac ! 4, packet + 36 := tmac ! 4,
      packet + 27 := mac ! 5, packet + 37 := tmac ! 5)"
proof -
  let ?f = "\<lambda>i v (m :: mem). m(packet + 14 + 8 + of_nat i := mac ! i, packet + 14 + 18 + of_nat i := v)"
  have swap: "(m(packet + 14 + 8 + of_nat i := mac ! i)) (tm + of_nat i) = m (tm + of_nat i)" if "i < 6" for i and m :: mem
    using apart_neq [OF assms(1), of "22 + i" i] that by (simp add: add.assoc)
  have "fill_arp (packet + 14) tm mac m = fold (\<lambda>i m. ?f i (m (tm + of_nat i)) m) [0..<6] m"
    unfolding fill_arp_def store8_def load8_def Let_def
    by (rule fold_cong) (use swap in auto)
  also have "\<dots> = fold (\<lambda>i m'. ?f i (m (tm + of_nat i)) m') [0..<6] m"
  proof (rule mac_loop [OF _ assms(1)])
    fix i :: nat and x v and m :: mem
    assume "i < 6" "\<And>k. k < 42 \<Longrightarrow> x \<noteq> packet + of_nat k"
    from \<open>i < 6\<close> this(2) [of "22 + i"] this(2) [of "32 + i"] show "?f i v m x = m x" by (simp add: add.assoc)
  qed
  finally show ?thesis unfolding assms(2) upt_6 by (simp add: nth_bytes_at add.assoc)
qed

text \<open>The reply on the wire: both headers, field after field.\<close>

definition arp_reply_frame :: "u8 list \<Rightarrow> u32 \<Rightarrow> u8 list \<Rightarrow> u32 \<Rightarrow> u8 list" where
  "arp_reply_frame mac ip tmac tip =
     tmac @ mac @ be16 0x0806 @ be16 1 @ be16 0x0800 @ [6, 4] @ be16 2 @ mac @ be32 ip @ tmac @ be32 tip"

lemma six_elements: "length xs = 6 \<Longrightarrow> [xs ! 0, xs ! 1, xs ! 2, xs ! 3, xs ! 4, xs ! 5] = xs"
  by (auto simp: numeral_eq_Suc length_Suc_conv)

text \<open>The memory the reply is built in, byte after byte.\<close>

lemma build_arp_reply_mem:
  assumes "apart packet 42 tm 6" "tmac = bytes_at m tm 6"
  shows "build_arp_reply packet tip tm mac ip m =
    m(packet := tmac ! 0, packet + 6 := mac ! 0, packet + 1 := tmac ! 1, packet + 7 := mac ! 1, packet + 2 := tmac ! 2,
      packet + 8 := mac ! 2, packet + 3 := tmac ! 3, packet + 9 := mac ! 3, packet + 4 := tmac ! 4, packet + 10 := mac ! 4,
      packet + 5 := tmac ! 5, packet + 11 := mac ! 5, packet + 12 := 8, packet + 13 := 6, packet + 14 := 0, packet + 15 := 1,
      packet + 16 := 8, packet + 17 := 0, packet + 18 := 6, packet + 19 := 4, packet + 20 := 0, packet + 21 := 2,
      packet + 22 := mac ! 0, packet + 32 := tmac ! 0, packet + 23 := mac ! 1, packet + 33 := tmac ! 1, packet + 24 := mac ! 2,
      packet + 34 := tmac ! 2, packet + 25 := mac ! 3, packet + 35 := tmac ! 3, packet + 26 := mac ! 4, packet + 36 := tmac ! 4,
      packet + 27 := mac ! 5, packet + 37 := tmac ! 5,
      packet + 28 := ucast (drop_bit 24 ip), packet + 29 := ucast (drop_bit 16 ip), packet + 30 := ucast (drop_bit 8 ip), packet + 31 := ucast ip,
      packet + 38 := ucast (drop_bit 24 tip), packet + 39 := ucast (drop_bit 16 tip), packet + 40 := ucast (drop_bit 8 tip), packet + 41 := ucast tip)"
proof -
  have a12: "apart packet 12 tm 6" using assms(1) by (auto simp: apart_def)
  define m1 where "m1 = store16 (store8 (store8 (store16 (store16 (store16 (fill_eth packet tm mac m) (packet + 12) (htons ETH_TYPE_ARP))
    (packet + 14) (htons ARP_HW_ETHER)) (packet + 14 + 2) (htons ETH_TYPE_IP)) (packet + 14 + 4) 6) (packet + 14 + 5) 4) (packet + 14 + 6) (htons ARP_OP_REPLY)"
  have low: "(2054 :: u8) = 6" "(2048 :: u8) = 0" by simp_all
  have upd: "m1 = (fill_eth packet tm mac m)(packet + 12 := 8, packet + 13 := 6, packet + 14 := 0, packet + 15 := 1, packet + 16 := 8,
      packet + 17 := 0, packet + 18 := 6, packet + 19 := 4, packet + 20 := 0, packet + 21 := 2)"
    by (simp add: m1_def low store16_bytes store8_def ETH_TYPE_ARP_def ARP_HW_ETHER_def ETH_TYPE_IP_def ARP_OP_REPLY_def add.assoc)
  have "m1 x = m x" if "\<And>k. k < 42 \<Longrightarrow> x \<noteq> packet + of_nat k" for x
    using that [of 0] that [of 1] that [of 2] that [of 3] that [of 4] that [of 5] that [of 6] that [of 7] that [of 8] that [of 9]
      that [of 10] that [of 11] that [of 12] that [of 13] that [of 14] that [of 15] that [of 16] that [of 17] that [of 18]
      that [of 19] that [of 20] that [of 21]
    by (simp add: upd fill_eth_bytes [OF a12 assms(2)])
  then have tm1: "tmac = bytes_at m1 tm 6"
    unfolding assms(2) using apart_neq [OF assms(1)] by (intro bytes_at_cong) metis
  have all: "build_arp_reply packet tip tm mac ip m =
      store32 (store32 (fill_arp (packet + 14) tm mac m1) (packet + 14 + 14) (htonl ip)) (packet + 14 + 24) (htonl tip)"
    by (simp add: build_arp_reply_def Let_def m1_def ETH_HLEN_def)
  show ?thesis
    unfolding all fill_arp_bytes [OF assms(1) tm1] store32_bytes
    unfolding upd fill_eth_bytes [OF a12 assms(2)] by (simp add: add.assoc)
qed

lemma build_arp_reply_frame:
  assumes "apart packet 42 tm 6" "length mac = 6"
  shows "bytes_at (build_arp_reply packet tip tm mac ip m) packet 42 = arp_reply_frame mac ip (bytes_at m tm 6) tip"
proof -
  define tmac where "tmac = bytes_at m tm 6"
  obtain a0 a1 a2 a3 a4 a5 where mac: "mac = [a0, a1, a2, a3, a4, a5]" using assms(2) six_elements by metis
  obtain t0 t1 t2 t3 t4 t5 where t: "tmac = [t0, t1, t2, t3, t4, t5]"
    using six_elements [of tmac] by (metis tmac_def length_bytes_at)
  have low: "(2054 :: u8) = 6" "(2048 :: u8) = 0" by simp_all
  show ?thesis
    unfolding build_arp_reply_mem [OF assms(1) tmac_def] tmac_def [symmetric] unfolding mac t
    by (simp add: low bytes_at_numeral add.assoc arp_reply_frame_def be16_def be32_def)
qed

lemma build_arp_reply_other:
  assumes "apart packet 42 tm 6" "\<And>i. i < 42 \<Longrightarrow> x \<noteq> packet + of_nat i"
  shows "build_arp_reply packet tip tm mac ip m x = m x"
proof -
  have "x \<noteq> packet" using assms(2) [of 0] by simp
  moreover have "x \<noteq> packet + 1" using assms(2) [of 1] by simp
  moreover have "x \<noteq> packet + numeral n" if "numeral n < (42 :: nat)" for n using assms(2) [OF that] by simp
  ultimately show ?thesis unfolding build_arp_reply_mem [OF assms(1) refl] by simp
qed

text \<open>
  The array a reply is built in, the packet it answers, the transmit queue and the transmit buffer do not overlap.
\<close>

definition net_layout :: "u64 \<Rightarrow> u64 \<Rightarrow> net_dev \<Rightarrow> bool" where
  "net_layout arr packet s \<longleftrightarrow>
     apart arr 1514 packet 1514 \<and> apart (tx_buf s) 2048 arr 1514 \<and> length (nd_mac s) = 6
     \<and> apart (desc (tx_queue s)) (queue_bytes (unat (vq_size (tx_queue s)))) arr 1514
     \<and> apart (desc (tx_queue s)) (queue_bytes (unat (vq_size (tx_queue s)))) (tx_buf s) 2048"

lemma apart_sub:
  assumes "apart a n b k" "i + n' \<le> n" "j + k' \<le> k" "i < n" "j < k"
  shows "apart (a + of_nat i) n' (b + of_nat j) k'"
  using assms unat_offset [of a n i] unat_offset [of b k j] by (auto simp: apart_def)

text \<open>
  C30: an ARP request for the driver's own address is answered, on a transmit queue that has been set up and has two
  descriptors free: the next transmit buffer holds a cleared header and exactly the ARP reply, 42 bytes, to the requester's
  hardware and protocol address, as read from the request, from the driver's own; the descriptor at the head of the free
  list covers header and frame, the device may only read it, its number is the entry of the available ring at the ring's
  index, the index is advanced by one, and the device is told on its notify port that queue 1 has work, and nothing else.
  The hypothesis on the queue is one the driver as written never meets in a run, since it never sets a queue up
  (\<open>net_never_transmits\<close>): the answer is correct, only it is never sent.
\<close>
theorem net_arp_answered:
  assumes "initialized s" "vq_holds (tx_queue s) (nd_mem s) (h # h' # fs) posted ds" "net_layout arr packet s" "42 \<le> len"
    and "ntohs (load16 (nd_mem s) (packet + 12)) = 0x0806" "ntohs (load16 (nd_mem s) (packet + 20)) = 1"
    and "ntohl (load32 (nd_mem s) (packet + 38)) = our_ip s"
  defines "vq \<equiv> tx_queue s" and "idx \<equiv> load16 (nd_mem s) (avail_idx (tx_queue s))"
  shows "let s' = net_process_packet arr packet len s in
    bytes_at (nd_mem s') (tx_buf s) 10 = replicate 10 0
    \<and> bytes_at (nd_mem s') (tx_buf s + 12) 42 =
      arp_reply_frame (nd_mac s) (our_ip s) (bytes_at (nd_mem s) (packet + 22) 6) (ntohl (load32 (nd_mem s) (packet + 28)))
    \<and> load64 (nd_mem s') (desc_addr vq (of_nat h)) = tx_buf s
    \<and> load32 (nd_mem s') (desc_len vq (of_nat h)) = 54
    \<and> load16 (nd_mem s') (desc_flags vq (of_nat h)) = 0
    \<and> load16 (nd_mem s') (avail_ring vq (ucast (idx AND (vq_size vq - 1)))) = of_nat h
    \<and> load16 (nd_mem s') (avail_idx vq) = idx + 1
    \<and> events (pci_bus (nd_pci s')) = Out16 (io_base s + 0x10) 1 # events (pci_bus (nd_pci s))
    \<and> vq_holds (tx_queue s') (nd_mem s') (h' # fs) (h # posted) ds \<and> packets_tx s' = packets_tx s + 1"
proof -
  let ?m = "nd_mem s" and ?tip = "ntohl (load32 (nd_mem s) (packet + 28))"
  define m1 where "m1 = build_arp_reply arr ?tip (packet + 22) (nd_mac s) (our_ip s) ?m"
  define s1 where "s1 = s\<lparr>nd_mem := m1\<rparr>"
  have lay: "apart arr 1514 packet 1514" "apart (tx_buf s) 2048 arr 1514" "length (nd_mac s) = 6"
    "apart (desc (tx_queue s)) (queue_bytes (unat (vq_size (tx_queue s)))) arr 1514"
    "apart (desc (tx_queue s)) (queue_bytes (unat (vq_size (tx_queue s)))) (tx_buf s) 2048"
    using assms(3) by (simp_all add: net_layout_def)
  have sep: "apart arr 42 (packet + 22) 6" using apart_sub [OF lay(1), of 0 42 22 6] by simp
  have same: "same_bytes (desc (tx_queue s)) 0 (queue_bytes (unat (vq_size (tx_queue s)))) ?m m1"
    unfolding m1_def
    by (rule apart_same_bytes [OF apart_sym [OF lay(4)]], rule build_arp_reply_other [OF sep]) simp
  have idx: "load16 m1 (avail_idx (tx_queue s)) = idx" unfolding idx_def by (rule avail_idx_outside [OF assms(2) same])
  have holds: "vq_holds (tx_queue s1) (nd_mem s1) (h # h' # fs) posted ds"
    using vq_holds_outside [OF assms(2) same] by (simp add: s1_def)
  have s1: "tx_queue s1 = tx_queue s" "tx_buf s1 = tx_buf s" "nd_mem s1 = m1" "packets_tx s1 = packets_tx s" "initialized s1"
    "nd_pci s1 = nd_pci s" "io_base s1 = io_base s"
    using assms(1) by (simp_all add: s1_def tx_buf_def)
  have "apart (tx_buf s1) 2048 arr (unat (42 :: u32))" using lay(2) by (auto simp: apart_def s1)
  note send = virtio_net_send_spec [OF s1(5) _ holds this, unfolded s1, OF _ lay(5)]
  have len: "\<not> len < 14" "\<not> len < 42" using assms(4) by (simp_all add: word_nat)
  have "net_process_packet arr packet len s = net_send_arp_reply arr ?tip (packet + 22) s"
    using assms(5,6,7) len
    by (simp add: net_process_packet_def Let_def ETH_HLEN_def ETH_TYPE_ARP_def ARP_OP_REQUEST_def add.commute [of "numeral k" packet for k])
  also have "\<dots> = snd (virtio_net_send arr 42 s1)"
    by (simp add: net_send_arp_reply_def s1_def m1_def ETH_HLEN_def)
  finally have eq: "net_process_packet arr packet len s = snd (virtio_net_send arr 42 s1)" .
  have "bytes_at m1 arr 42 = arp_reply_frame (nd_mac s) (our_ip s) (bytes_at ?m (packet + 22) 6) ?tip"
    unfolding m1_def by (rule build_arp_reply_frame [OF sep lay(3)])
  then show ?thesis
    unfolding eq Let_def using send by (simp add: ETH_FRAME_LEN_def idx vq_def split: prod.splits)
qed

text \<open>The demonstration driver with an ARP request for its address at 0x70000.\<close>

definition demo_request :: mem where
  "demo_request = (\<lambda>_. 0)(0x7000C := 8, 0x7000D := 6, 0x70015 := 1, 0x70026 := 10, 0x70028 := 2, 0x70029 := 15)"

definition demo_arp :: net_dev where
  "demo_arp = demo_net\<lparr>nd_mem := snd (virtq_init 4 0x20000 demo_request)\<rparr>"

lemma demo_arp_ready:
  "initialized demo_arp" "vq_holds (tx_queue demo_arp) (nd_mem demo_arp) [0, 1, 2, 3] [] []" "net_layout 0x60000 0x70000 demo_arp"
proof -
  have tx: "tx_queue demo_arp = fst (virtq_init 4 0x20000 demo_request)" "nd_mem demo_arp = snd (virtq_init 4 0x20000 demo_request)"
    unfolding demo_arp_def demo_net_def by (simp_all add: virtq_init_record [of 4 "0x20000" demo_request "\<lambda>_. 0"])
  have "queue_size (unat (4 :: u16))" by code_simp
  moreover have "[0..<4] = [0, 1, 2, 3 :: nat]" by (simp add: upt_rec)
  ultimately have h: "vq_holds (tx_queue demo_arp) (nd_mem demo_arp) [0, 1, 2, 3] [] []" "desc (tx_queue demo_arp) = 0x20000" "vq_size (tx_queue demo_arp) = 4"
    using virtq_init_holds [of 4 "0x20000" demo_request] unfolding tx by (auto split: prod.splits)
  then show "vq_holds (tx_queue demo_arp) (nd_mem demo_arp) [0, 1, 2, 3] [] []" by blast
  show "initialized demo_arp" by (simp add: demo_arp_def demo_net_def)
  have "queue_bytes (unat (4 :: u16)) = 4132" by code_simp
  moreover have "tx_buf demo_arp = 0x40000" "length (nd_mac demo_arp) = 6" by (simp_all add: tx_buf_def demo_arp_def demo_net_def)
  ultimately show "net_layout 0x60000 0x70000 demo_arp" using h(2,3) by (simp add: net_layout_def apart_def)
qed

lemma net_arp_answered_witness:
  "let s' = net_process_packet 0x60000 0x70000 60 demo_arp in
     load32 (nd_mem s') (desc_len (tx_queue demo_arp) (of_nat 0)) = 54
     \<and> load16 (nd_mem s') (avail_idx (tx_queue demo_arp)) = load16 (nd_mem demo_arp) (avail_idx (tx_queue demo_arp)) + 1
     \<and> Out16 (io_base demo_arp + 0x10) 1 \<in> set (events (pci_bus (nd_pci s')))"
proof -
  have "ntohs (load16 (nd_mem demo_arp) (0x70000 + 12)) = 0x0806" by code_simp
  moreover have "ntohs (load16 (nd_mem demo_arp) (0x70000 + 20)) = 1" by code_simp
  moreover have "ntohl (load32 (nd_mem demo_arp) (0x70000 + 38)) = our_ip demo_arp" by code_simp
  ultimately show ?thesis
    using net_arp_answered [OF demo_arp_ready, of 60] by (simp add: Let_def word_nat)
qed

section \<open>The ping reply\<close>

lemma sum_words_cong:
  assumes "\<And>i. i < len \<Longrightarrow> m (p + of_nat i) = m' (p + of_nat i)"
  shows "sum_words m p len acc = sum_words m' p len acc"
  using assms
proof (induction m p len acc rule: sum_words.induct)
  case (2 m p acc)
  then show ?case using 2 [of 0] by simp
next
  case (3 m p len acc)
  have "m (p + 2 + of_nat i) = m' (p + 2 + of_nat i)" if "i < len" for i
    using 3(2) [of "i + 2"] that by (simp add: algebra_simps)
  moreover have "load16 m p = load16 m' p"
    using 3(2) [of 0] 3(2) [of 1] by (simp add: load16_def)
  ultimately show ?case using 3(1) by simp
qed simp

lemma ip_checksum_cong:
  "(\<And>i. i < len \<Longrightarrow> m (p + of_nat i) = m' (p + of_nat i)) \<Longrightarrow> ip_checksum m p (int len) = ip_checksum m' p (int len)"
  using sum_words_cong [of len m p m'] by (simp add: ip_checksum_def)

text \<open>The header of the reply with both checksums still zero, as updates.\<close>

definition ping_header :: "u64 \<Rightarrow> u8 list \<Rightarrow> u8 list \<Rightarrow> u16 \<Rightarrow> u32 \<Rightarrow> u32 \<Rightarrow> mem \<Rightarrow> mem" where
  "ping_header p tmac mac total_len ip dip m =
    m(p := tmac ! 0, p + 6 := mac ! 0, p + 1 := tmac ! 1, p + 7 := mac ! 1, p + 2 := tmac ! 2,
      p + 8 := mac ! 2, p + 3 := tmac ! 3, p + 9 := mac ! 3, p + 4 := tmac ! 4, p + 10 := mac ! 4,
      p + 5 := tmac ! 5, p + 11 := mac ! 5, p + 12 := 8, p + 13 := 0, p + 14 := 0x45, p + 15 := 0,
      p + 16 := ucast (drop_bit 8 total_len), p + 17 := ucast total_len, p + 18 := 0, p + 19 := 0, p + 20 := 0, p + 21 := 0,
      p + 22 := 64, p + 23 := 1, p + 24 := 0, p + 25 := 0,
      p + 26 := ucast (drop_bit 24 ip), p + 27 := ucast (drop_bit 16 ip), p + 28 := ucast (drop_bit 8 ip), p + 29 := ucast ip,
      p + 30 := ucast (drop_bit 24 dip), p + 31 := ucast (drop_bit 16 dip), p + 32 := ucast (drop_bit 8 dip), p + 33 := ucast dip)"

text \<open>The same with the header checksum and the ICMP header, and then with the data behind it.\<close>

definition ping_head :: "u64 \<Rightarrow> u8 list \<Rightarrow> u8 list \<Rightarrow> u16 \<Rightarrow> u32 \<Rightarrow> u32 \<Rightarrow> u16 \<Rightarrow> u16 \<Rightarrow> mem \<Rightarrow> mem" where
  "ping_head p tmac mac total_len ip dip ident seq m =
     (let hm = ping_header p tmac mac total_len ip dip m; c = ip_checksum hm (p + 14) 20
      in hm(p + 24 := ucast c, p + 25 := ucast (drop_bit 8 c), p + 34 := 0, p + 35 := 0, p + 36 := 0, p + 37 := 0,
           p + 38 := ucast ident, p + 39 := ucast (drop_bit 8 ident), p + 40 := ucast seq, p + 41 := ucast (drop_bit 8 seq)))"

lemma build_ping_reply_mem:
  fixes packet tm data_len dip ip mac ident seq data m
  assumes "apart packet 1514 tm 6"
  defines "m2 \<equiv> copy_loop (packet + 42) data (unat data_len) (ping_head packet (bytes_at m tm 6) mac (ucast (28 + data_len)) ip dip ident seq m)"
  shows "build_ping_reply packet dip tm ident seq data data_len mac ip m =
    store16 m2 (packet + 36) (ip_checksum m2 (packet + 34) (sint (8 + data_len)))"
proof -
  have a12: "apart packet 12 tm 6" using assms(1) by (auto simp: apart_def)
  have low: "(2048 :: u8) = 0" by simp
  define hm where "hm = ping_header packet (bytes_at m tm 6) mac (ucast (28 + data_len)) ip dip m"
  define c1 where "c1 = ip_checksum hm (packet + 14) 20"
  define m1 where "m1 = ping_head packet (bytes_at m tm 6) mac (ucast (28 + data_len)) ip dip ident seq m"
  have hm: "hm = store32 (store32 (store16 (store8 (store8 (store16 (store16 (store16 (store8 (store8 (store16 (fill_eth packet tm mac m) (packet + 12) (htons ETH_TYPE_IP))
     (packet + 14) 0x45) (packet + 14 + 1) 0) (packet + 14 + 2) (htons (ucast (28 + data_len)))) (packet + 14 + 4) 0) (packet + 14 + 6) 0) (packet + 14 + 8) 64)
     (packet + 14 + 9) IP_PROTO_ICMP) (packet + 14 + 10) 0) (packet + 14 + 12) (htonl ip)) (packet + 14 + 16) (htonl dip)"
    unfolding hm_def ping_header_def fill_eth_bytes [OF a12 refl] store32_bytes store16_bytes
    by (simp add: store8_def store16_def low ETH_TYPE_IP_def IP_PROTO_ICMP_def add.assoc)
  have m1: "m1 = store16 (store16 (store16 (store8 (store8 (store16 hm (packet + 14 + 10) c1) (packet + 14 + 20) ICMP_ECHO_REPLY) (packet + 14 + 20 + 1) 0)
     (packet + 14 + 20 + 2) 0) (packet + 14 + 20 + 4) ident) (packet + 14 + 20 + 6) seq"
    unfolding m1_def ping_head_def Let_def hm_def [symmetric] c1_def [symmetric]
    by (simp add: store8_def store16_def ICMP_ECHO_REPLY_def add.assoc)
  have add28: "20 + 8 + data_len = 28 + data_len" by simp
  have eth: "ucast ETH_HLEN = (14 :: u64)" by (simp add: ETH_HLEN_def)
  show ?thesis
    unfolding build_ping_reply_def Let_def add28 eth hm [symmetric] c1_def [symmetric] m1 [symmetric]
    by (simp add: m2_def m1_def add.assoc)
qed

lemma offset_neq: "k < numeral l \<Longrightarrow> numeral l < (2 ^ 64 :: nat) \<Longrightarrow> (p :: u64) + of_nat k \<noteq> p + numeral l"
proof -
  assume k: "k < numeral l" and l: "numeral l < (2 ^ 64 :: nat)"
  have "k < 2 ^ 64" using k l by (rule less_trans)
  then have "(of_nat k :: u64) \<noteq> of_nat (numeral l)" using k l by (subst of_nat_u64_eq) auto
  then show ?thesis by simp
qed

lemma ping_head_other:
  assumes "\<And>i. i < 42 \<Longrightarrow> x \<noteq> p + of_nat i"
  shows "ping_head p tmac mac total_len ip dip ident seq m x = m x"
proof -
  have "x \<noteq> p" using assms [of 0] by simp
  moreover have "x \<noteq> p + 1" using assms [of 1] by simp
  moreover have "x \<noteq> p + numeral n" if "numeral n < (42 :: nat)" for n using assms [OF that] by simp
  ultimately show ?thesis by (simp add: ping_head_def ping_header_def Let_def)
qed

lemma ping_head_bytes:
  fixes p tmac mac total_len ip dip ident seq m
  assumes "length tmac = 6" "length mac = 6"
  defines "m1 \<equiv> ping_head p tmac mac total_len ip dip ident seq m"
  shows "bytes_at m1 p 24 = tmac @ mac @ be16 0x0800 @ [0x45, 0] @ be16 total_len @ [0, 0, 0, 0, 64, 1]"
    "bytes_at m1 (p + 26) 10 = be32 ip @ be32 dip @ [0, 0]"
    "load16 m1 (p + 36) = 0" "load16 m1 (p + 38) = ident" "load16 m1 (p + 40) = seq"
proof -
  obtain a0 a1 a2 a3 a4 a5 where mac: "mac = [a0, a1, a2, a3, a4, a5]" using assms(2) six_elements by metis
  obtain t0 t1 t2 t3 t4 t5 where t: "tmac = [t0, t1, t2, t3, t4, t5]" using assms(1) six_elements by metis
  have low: "(2048 :: u8) = 0" by simp
  show "bytes_at m1 p 24 = tmac @ mac @ be16 0x0800 @ [0x45, 0] @ be16 total_len @ [0, 0, 0, 0, 64, 1]"
    unfolding m1_def mac t ping_head_def Let_def ping_header_def
    by (simp add: low bytes_at_numeral add.assoc be16_def)
  show "bytes_at m1 (p + 26) 10 = be32 ip @ be32 dip @ [0, 0]"
    unfolding m1_def ping_head_def Let_def ping_header_def
    by (simp add: bytes_at_numeral add.assoc be32_def)
  have "load16 m1 (p + 38) = load16 (store16 m1 (p + 38) ident) (p + 38)" "load16 m1 (p + 40) = load16 (store16 m1 (p + 40) seq) (p + 40)"
    by (rule load16_cong; simp add: m1_def ping_head_def Let_def store16_def add.assoc)+
  then show "load16 m1 (p + 38) = ident" "load16 m1 (p + 40) = seq" by (simp_all add: load16_store16_same)
  show "load16 m1 (p + 36) = 0" by (simp add: m1_def ping_head_def Let_def load16_def add.assoc)
qed

lemma ping_head_checksum: "ip_checksum (ping_head p tmac mac total_len ip dip ident seq m) (p + 14) 20 = 0"
proof -
  define hm where "hm = ping_header p tmac mac total_len ip dip m"
  let ?m1 = "ping_head p tmac mac total_len ip dip ident seq m" and ?c = "ip_checksum hm (p + 14) (int 20)"
  have zero: "load16 hm (p + 14 + of_nat 10) = 0" by (simp add: hm_def ping_header_def load16_def add.assoc)
  have "?m1 (p + 14 + of_nat i) = store16 hm (p + 14 + of_nat 10) ?c (p + 14 + of_nat i)" if "i < 20" for i
  proof -
    have "p + of_nat (14 + i) \<noteq> p + 34" "p + of_nat (14 + i) \<noteq> p + 35" "p + of_nat (14 + i) \<noteq> p + 36" "p + of_nat (14 + i) \<noteq> p + 37"
      "p + of_nat (14 + i) \<noteq> p + 38" "p + of_nat (14 + i) \<noteq> p + 39" "p + of_nat (14 + i) \<noteq> p + 40" "p + of_nat (14 + i) \<noteq> p + 41"
      using that by (intro offset_neq; simp)+
    then show ?thesis
      unfolding ping_head_def Let_def hm_def [symmetric] store16_def by (simp add: add.assoc)
  qed
  then have "ip_checksum ?m1 (p + 14) (int 20) = ip_checksum (store16 hm (p + 14 + of_nat 10) ?c) (p + 14) (int 20)"
    by (rule ip_checksum_cong)
  also have "\<dots> = 0" using zero by (intro ip_checksum_sound) auto
  finally show ?thesis by simp
qed

lemma ping_body:
  fixes p data m1 n
  assumes "apart p 1514 data n" "n \<le> 1472"
  defines "m2 \<equiv> copy_loop (p + 42) data n m1"
  shows "k < 42 \<Longrightarrow> m2 (p + of_nat k) = m1 (p + of_nat k)" "j < n \<Longrightarrow> m2 (p + 42 + of_nat j) = m1 (data + of_nat j)"
proof -
  show "m2 (p + of_nat k) = m1 (p + of_nat k)" if "k < 42"
    unfolding m2_def
  proof (rule copy_loop_other)
    fix j assume "j < n"
    then have "(of_nat k :: u64) \<noteq> of_nat (42 + j)" using that assms(2) by (subst of_nat_u64_eq) auto
    then show "p + of_nat k \<noteq> p + 42 + of_nat j" by (simp add: add.assoc)
  qed
  show "m2 (p + 42 + of_nat j) = m1 (data + of_nat j)" if "j < n"
  proof -
    have "apart (p + of_nat 42) n (data + of_nat 0) n"
      using that assms(2) by (intro apart_sub [OF assms(1)]) auto
    then show ?thesis unfolding m2_def using copy_loop_copied [OF _ that] by simp
  qed
qed

lemma bytes_at_other:
  assumes "\<And>i. i < n \<Longrightarrow> m' (p + of_nat (k + i)) = m (p + of_nat (k + i))"
  shows "bytes_at m' (p + of_nat k) n = bytes_at m (p + of_nat k) n"
  by (rule bytes_at_cong) (use assms in \<open>simp add: add.assoc\<close>)

text \<open>
  C31: the reply to a ping of at most 1472 data bytes is a valid packet: it is addressed to the requester, its length field
  covers both headers and the data, it is an echo reply with the request's identifier and sequence number, the data
  follow byte for byte, and both the checksum of the IP header and the checksum of the whole ICMP message verify.
\<close>
theorem net_ping_reply_valid:
  assumes "apart packet 1514 tm 6" "apart packet 1514 data (unat data_len)" "data_len \<le> 1472" "length mac = 6"
  shows "let m' = build_ping_reply packet dip tm ident seq data data_len mac ip m in
    bytes_at m' packet 24 = bytes_at m tm 6 @ mac @ be16 0x0800 @ [0x45, 0] @ be16 (ucast (28 + data_len)) @ [0, 0, 0, 0, 64, 1]
    \<and> bytes_at m' (packet + 26) 10 = be32 ip @ be32 dip @ [0, 0]
    \<and> load16 m' (packet + 38) = ident \<and> load16 m' (packet + 40) = seq
    \<and> bytes_at m' (packet + 42) (unat data_len) = bytes_at m data (unat data_len)
    \<and> ip_checksum m' (packet + 14) 20 = 0 \<and> ip_checksum m' (packet + 34) (int (8 + unat data_len)) = 0"
proof -
  let ?n = "unat data_len"
  have n: "?n \<le> 1472" using assms(3) by (simp add: word_nat)
  define m1 where "m1 = ping_head packet (bytes_at m tm 6) mac (ucast (28 + data_len)) ip dip ident seq m"
  define m2 where "m2 = copy_loop (packet + 42) data ?n m1"
  define m' where "m' = store16 m2 (packet + of_nat 36) (ip_checksum m2 (packet + 34) (int (8 + ?n)))"
  have "unat (8 + data_len) = 8 + ?n" using n unat_plus_nowrap [of 8 data_len] by simp
  then have "sint (8 + data_len) = int (8 + ?n)" using n sint_u32_small [of "8 + data_len"] by simp
  then have mem: "build_ping_reply packet dip tm ident seq data data_len mac ip m = m'"
    unfolding build_ping_reply_mem [OF assms(1)] m'_def m2_def m1_def by simp
  note body = ping_body [OF assms(2) n, where ?m1.0 = m1, folded m2_def]
  note head = ping_head_bytes [OF _ assms(4), where p = packet and total_len = "ucast (28 + data_len)" and ip = ip and dip = dip
    and ident = ident and seq = seq and m = m and tmac = "bytes_at m tm 6", OF length_bytes_at, folded m1_def]
  have same: "same_bytes packet lo k m2 m'" if "lo + k \<le> 36 \<or> 38 \<le> lo" "lo + k \<le> 1514" for lo k
    unfolding m'_def using that by (intro same_bytes_store(1)) auto
  have low: "m' (packet + of_nat k) = m1 (packet + of_nat k)" if "k < 36 \<or> 38 \<le> k \<and> k < 42" for k
    using same_bytes_nth [OF same [of k 1], of k] body(1) [of k] that by auto
  have "bytes_at m' (packet + of_nat 26) 10 = bytes_at m1 (packet + of_nat 26) 10" by (rule bytes_at_other, rule low) simp
  moreover have "bytes_at m' (packet + of_nat 0) 24 = bytes_at m1 (packet + of_nat 0) 24" by (rule bytes_at_other, rule low) simp
  moreover have "load16 m' (packet + 38) = load16 m1 (packet + 38)" "load16 m' (packet + 40) = load16 m1 (packet + 40)"
    using low [of 38] low [of 39] low [of 40] low [of 41] by (auto intro!: load16_cong simp: add.assoc)
  moreover have "bytes_at m' (packet + 42) ?n = bytes_at m data ?n"
  proof (rule bytes_at_cong)
    fix j assume j: "j < ?n"
    have "m' (packet + of_nat (42 + j)) = m2 (packet + of_nat (42 + j))"
      using same_bytes_nth [OF same [of "42 + j" 1], of "42 + j"] j n by simp
    also have "\<dots> = m1 (data + of_nat j)" using body(2) [OF j] by (simp add: add.assoc)
    also have "\<dots> = m (data + of_nat j)"
      unfolding m1_def
    proof (rule ping_head_other)
      fix i :: nat assume "i < 42"
      then show "data + of_nat j \<noteq> packet + of_nat i" using apart_neq [OF assms(2) _ j, of i] by auto
    qed
    finally show "m' (packet + 42 + of_nat j) = m (data + of_nat j)" by (simp add: add.assoc)
  qed
  moreover have "ip_checksum m' (packet + 14) 20 = 0"
  proof -
    have "ip_checksum m' (packet + 14) (int 20) = ip_checksum m1 (packet + 14) (int 20)"
      by (rule ip_checksum_cong) (use low [of "14 + i" for i] in \<open>simp add: add.assoc\<close>)
    then show ?thesis using ping_head_checksum by (simp add: m1_def)
  qed
  moreover have "ip_checksum m' (packet + 34) (int (8 + ?n)) = 0"
  proof -
    have "load16 m2 (packet + 34 + of_nat 2) = load16 m1 (packet + 36)"
      using body(1) [of 36] body(1) [of 37] by (intro load16_cong) (simp_all add: add.assoc)
    then have "load16 m2 (packet + 34 + of_nat 2) = 0" using head(3) by simp
    from ip_checksum_sound [OF _ _ _ this, of "8 + ?n"] show ?thesis using n by (simp add: m'_def add.assoc)
  qed
  ultimately show ?thesis using head unfolding mem Let_def by simp
qed

lemma net_ping_reply_valid_witness:
  "ip_checksum (build_ping_reply 0x60000 0x0A000202 0x70006 7 1 0x7002A 4 [2, 0, 0, 0, 0, 1] 0x0A00020F (\<lambda>_. 9)) (0x60000 + 34) (int (8 + 4)) = 0"
  using net_ping_reply_valid [of "0x60000" "0x70006" "0x7002A" 4 "[2, 0, 0, 0, 0, 1]" "0x0A000202" 7 1 "0x0A00020F" "\<lambda>_. 9"]
  by (simp add: apart_def Let_def)

text \<open>
  a ping with more than 1472 data bytes writes past the reply array, which has 1514 bytes: the byte right behind it gets
  byte 1472 of the data, although the frame is then refused as too long and nothing is sent.
\<close>
theorem net_ping_overflows_array:
  assumes "1472 < data_len" "data_len \<le> 60000" "apart packet (42 + unat data_len) data (unat data_len)" "apart packet 1514 tm 6"
  shows "build_ping_reply packet dip tm ident seq data data_len (nd_mac s) (our_ip s) (nd_mem s) (packet + 1514) = nd_mem s (data + 1472)
    \<and> net_send_ping_reply packet dip tm ident seq data data_len s =
      s\<lparr>nd_mem := build_ping_reply packet dip tm ident seq data data_len (nd_mac s) (our_ip s) (nd_mem s)\<rparr>"
proof
  let ?n = "unat data_len" and ?m = "nd_mem s"
  have n: "1472 < ?n" "?n \<le> 60000" using assms(1,2) by (simp_all add: word_nat)
  define m1 where "m1 = ping_head packet (bytes_at ?m tm 6) (nd_mac s) (ucast (28 + data_len)) (our_ip s) dip ident seq ?m"
  define m2 where "m2 = copy_loop (packet + 42) data ?n m1"
  have far: "apart (packet + of_nat 42) ?n (data + of_nat 0) ?n" using n by (intro apart_sub [OF assms(3)]) auto
  have "m2 (packet + 42 + of_nat 1472) = m1 (data + of_nat 1472)"
    unfolding m2_def using copy_loop_copied [OF far, of 1472 m1] n by simp
  moreover have "m1 (data + of_nat 1472) = ?m (data + of_nat 1472)"
    unfolding m1_def
  proof (rule ping_head_other)
    fix i :: nat assume "i < 42"
    then show "data + of_nat 1472 \<noteq> packet + of_nat i" using apart_neq [OF assms(3), of i 1472] n by simp
  qed
  ultimately have "m2 (packet + 1514) = ?m (data + 1472)" by (simp add: add.assoc)
  moreover have "store16 m2 (packet + 36) c (packet + 1514) = m2 (packet + 1514)" for c
    by (simp add: store16_def add.assoc)
  ultimately show "build_ping_reply packet dip tm ident seq data data_len (nd_mac s) (our_ip s) ?m (packet + 1514) = ?m (data + 1472)"
    unfolding build_ping_reply_mem [OF assms(4)] m1_def [symmetric] m2_def [symmetric] by simp
  have "unat (28 + data_len) = 28 + ?n" using n unat_plus_nowrap [of 28 data_len] by simp
  then have "unat (ucast (ucast (20 + 8 + data_len) :: u16) :: u32) = 28 + ?n"
    using n by (simp add: unsigned_ucast_eq take_bit_nat_eq_self unsigned_take_bit_eq)
  then have "\<not> (ETH_HLEN + ucast (ucast (20 + 8 + data_len) :: u16)) \<le> (1514 :: u32)"
    using n unat_plus_nowrap [of 14 "ucast (ucast (20 + 8 + data_len) :: u16) :: u32"] by (simp add: ETH_HLEN_def word_nat)
  then show "net_send_ping_reply packet dip tm ident seq data data_len s =
      s\<lparr>nd_mem := build_ping_reply packet dip tm ident seq data data_len (nd_mac s) (our_ip s) ?m\<rparr>"
    by (simp add: net_send_ping_reply_def virtio_net_send_steps not_le)
qed

lemma net_ping_overflows_array_witness:
  "build_ping_reply 0x60000 1 0x90000 7 1 0x70000 1480 (nd_mac demo_net) (our_ip demo_net) (nd_mem demo_net) (0x60000 + 1514) = nd_mem demo_net (0x70000 + 1472)"
  using net_ping_overflows_array [of 1480 "0x60000" "0x70000" "0x90000"] by (simp add: apart_def word_nat)

text \<open>
  the data length taken from a ping: the total length less header and eight bytes where it covers them, nothing where it
  covers the header only, and where it is shorter than the header the subtraction wraps and gives more than four billion.
\<close>
theorem ping_data_len_cases:
  assumes "ip_hdr_len \<le> 60"
  shows "unat (ping_data_len total_len ip_hdr_len) =
    (if unat total_len < unat ip_hdr_len then 2 ^ 32 + unat total_len - unat ip_hdr_len - 8
     else unat total_len - unat ip_hdr_len - 8)"
proof -
  have h: "unat ip_hdr_len \<le> 60" using assms by (simp add: word_nat)
  have t: "unat (ucast total_len :: u32) = unat total_len" "unat total_len < 65536"
    using unat_below [of total_len] by (simp_all add: unat_ucast_up)
  define il where "il = ucast total_len - ip_hdr_len"
  have il: "unat il = (if unat total_len < unat ip_hdr_len then 2 ^ 32 + unat total_len - unat ip_hdr_len else unat total_len - unat ip_hdr_len)"
    using unat_sub_if' [of "ucast total_len" ip_hdr_len] t h by (auto simp: il_def word_nat)
  have "unat (if il > 8 then il - 8 else 0) = unat il - 8"
    using unat_sub [of 8 il] by (auto simp: word_nat)
  then show ?thesis using il h by (simp add: ping_data_len_def il_def [symmetric] Let_def)
qed

lemma ping_data_len_cases_witness: "unat (ping_data_len 19 20) = 4294967287"
  using ping_data_len_cases [of 20 19] by (simp add: word_nat)

section \<open>The driver as it is initialised\<close>

lemma read_mac_events:
  "length (fst (read_mac base is b)) = length is"
  "events (snd (read_mac base is b)) = rev (map (\<lambda>i. In8 (base + (VIRTIO_PCI_CONFIG + of_nat i))) is) @ events b"
proof (induction "is" arbitrary: b)
  case (Cons i "is")
  {
    case 1
    then show ?case using Cons(1) by (auto split: prod.splits) (metis fst_conv)
  next
    case 2
    then show ?case using Cons(2) [of "snd (virtio_read8 base (VIRTIO_PCI_CONFIG + of_nat i) b)"]
      by (auto simp: virtio_read8_def bus_inb_def access_def split: prod.splits)
  }
qed simp_all

lemma virtio_handshake_events:
  "length (fst (virtio_handshake pci base b)) = 6"
  "events (snd (virtio_handshake pci base b)) =
     [Out8 (base + 0x12) 7, In8 (base + 0x19), In8 (base + 0x18), In8 (base + 0x17), In8 (base + 0x16), In8 (base + 0x15),
      In8 (base + 0x14), Out8 0x80 0, Out32 (base + 4) 0x20, In32 base, Out8 0x80 0, Out8 (base + 0x12) 3,
      Out8 0x80 0, Out8 (base + 0x12) 1, Out8 0x80 0, Out8 (base + 0x12) 0] @ events (pci_enable_bus_master pci b)"
proof -
  show "length (fst (virtio_handshake pci base b)) = 6"
    using read_mac_events(1) [of base "[0..<6]"] by (simp add: virtio_handshake_def Let_def case_prod_beta)
  show "events (snd (virtio_handshake pci base b)) =
     [Out8 (base + 0x12) 7, In8 (base + 0x19), In8 (base + 0x18), In8 (base + 0x17), In8 (base + 0x16), In8 (base + 0x15),
      In8 (base + 0x14), Out8 0x80 0, Out32 (base + 4) 0x20, In32 base, Out8 0x80 0, Out8 (base + 0x12) 3,
      Out8 0x80 0, Out8 (base + 0x12) 1, Out8 0x80 0, Out8 (base + 0x12) 0] @ events (pci_enable_bus_master pci b)"
    using read_mac_events(2) [of base "[0..<6]", unfolded upt_6]
    unfolding virtio_handshake_def upt_6
    by (simp add: Let_def virtio_write8_def virtio_write32_def virtio_read32_def inl_def outl_def bus_outb_def bus_io_wait_def
        access_def VIRTIO_PCI_CONFIG_def VIRTIO_PCI_STATUS_def VIRTIO_PCI_GUEST_FEATURES_def VIRTIO_PCI_HOST_FEATURES_def
        VIRTIO_STATUS_ACKNOWLEDGE_def VIRTIO_STATUS_DRIVER_def VIRTIO_STATUS_DRIVER_OK_def VIRTIO_NET_F_MAC_def
        add.assoc case_prod_beta del: read_mac.simps)
qed

text \<open>
  initialisation finds the network card the bus scan found first and reports what is wrong otherwise: -1 without a card,
  -2 when its first register is not a port range, -3 when the range is at zero, each leaving the driver uninitialised.
  On success the device sees a reset, the two acknowledgements, the accepted feature and the final status, the hardware
  address is read in between, and the driver calls itself ready; but no queue is set up, neither in memory nor with the
  device: both stay as they were.
\<close>
theorem virtio_net_init_outcome:
  "case pci_find_device 0x1AF4 0x1000 (nd_pci s) of
     None \<Rightarrow> virtio_net_init s = (- 1, s)
   | Some i \<Rightarrow> (let pci = pci_devices (nd_pci s) ! i; base = ucast (bar pci ! 0 AND 0xFFFC) :: u16; (r, s') = virtio_net_init s in
       rx_queue s' = rx_queue s \<and> tx_queue s' = tx_queue s \<and> nd_mem s' = nd_mem s \<and>
       (if bar pci ! 0 AND 1 = 0 then r = - 2 \<and> initialized s' = initialized s
        else if base = 0 then r = - 3 \<and> initialized s' = initialized s
        else r = 0 \<and> initialized s' \<and> io_base s' = base \<and> length (nd_mac s') = 6 \<and>
          events (pci_bus (nd_pci s')) =
            [Out8 (base + 0x12) 7, In8 (base + 0x19), In8 (base + 0x18), In8 (base + 0x17), In8 (base + 0x16), In8 (base + 0x15),
             In8 (base + 0x14), Out8 0x80 0, Out32 (base + 4) 0x20, In32 base, Out8 0x80 0, Out8 (base + 0x12) 3,
             Out8 0x80 0, Out8 (base + 0x12) 1, Out8 0x80 0, Out8 (base + 0x12) 0]
            @ events (pci_enable_bus_master pci (pci_bus (nd_pci s)))))"
proof (cases "pci_find_device 0x1AF4 0x1000 (nd_pci s)")
  case None
  then show ?thesis by (simp add: virtio_net_init_def PCI_VENDOR_REDHAT_def PCI_DEVICE_VIRTIO_NET_def)
next
  case (Some i)
  then show ?thesis
    using virtio_handshake_events [of "pci_devices (nd_pci s) ! i" "ucast (bar (pci_devices (nd_pci s) ! i) ! 0 AND 0xFFFC)" "pci_bus (nd_pci s)"]
    by (simp add: virtio_net_init_def PCI_VENDOR_REDHAT_def PCI_DEVICE_VIRTIO_NET_def with_bus_def Let_def case_prod_beta)
qed

text \<open>
  Everything that happens to the driver from its zeroed start: scans and initialisation, sending, receiving, packets,
  polling turns, changes of memory by others.
\<close>

inductive net_run :: "net_dev \<Rightarrow> bool" where
  boot: "num_free (tx_queue s) = 0 \<Longrightarrow> packets_tx s = 0 \<Longrightarrow> bytes_tx s = 0 \<Longrightarrow> net_run s"
| init: "net_run s \<Longrightarrow> net_run (snd (virtio_net_init s))"
| send: "net_run s \<Longrightarrow> net_run (snd (virtio_net_send data len s))"
| recv: "net_run s \<Longrightarrow> net_run (snd (virtio_net_recv buf buf_size s))"
| packet: "net_run s \<Longrightarrow> net_run (net_process_packet arr packet len s)"
| set_ip: "net_run s \<Longrightarrow> net_run (net_set_ip ip s)"
| others: "net_run s \<Longrightarrow> net_run (s\<lparr>nd_mem := m, nd_pci := p\<rparr>)"

definition tx_silent :: "net_dev \<Rightarrow> bool" where
  "tx_silent s \<longleftrightarrow> num_free (tx_queue s) = 0 \<and> packets_tx s = 0 \<and> bytes_tx s = 0"

lemma tx_silent_send:
  assumes "num_free (tx_queue s) = 0"
  shows "virtio_net_send data len s = (if \<not> initialized s then - 1 else if len > 1514 then - 2 else - 3, s)"
  using assms by (simp add: virtio_net_send_steps)

lemma tx_silent_replies:
  "tx_silent s \<Longrightarrow> tx_silent (net_send_arp_reply arr ip tm s)"
  "tx_silent s \<Longrightarrow> tx_silent (net_send_ping_reply arr ip tm ident seq data data_len s)"
  by (simp_all add: tx_silent_def net_send_arp_reply_def net_send_ping_reply_def tx_silent_send)

lemma virtio_net_recv_tx:
  "tx_silent (snd (virtio_net_recv buf buf_size s)) \<longleftrightarrow> tx_silent s"
  by (auto simp: virtio_net_recv_def tx_silent_def Let_def split: prod.splits option.splits)

lemma virtio_net_init_tx: "tx_silent (snd (virtio_net_init s)) \<longleftrightarrow> tx_silent s"
  by (simp add: virtio_net_init_def tx_silent_def with_bus_def Let_def case_prod_beta split: option.splits)

lemma net_run_silent: "net_run s \<Longrightarrow> tx_silent s"
proof (induction rule: net_run.induct)
  case (packet s arr packet len)
  then show ?case by (simp add: net_process_packet_def Let_def tx_silent_replies)
next
  case (send s data len)
  then show ?case by (simp add: tx_silent_def tx_silent_send)
qed (simp_all add: virtio_net_recv_tx virtio_net_init_tx, simp_all add: tx_silent_def net_set_ip_def)

text \<open>
  C34: the driver never transmits anything: from its zeroed start, whatever sequence of scans, initialisations, sends,
  receptions and received packets follows, the transmit queue has no descriptor, every frame of legal length is refused
  with -3 once the driver calls itself initialised, without any effect, and the counters of sent frames stay zero.
\<close>
theorem net_never_transmits:
  assumes "net_run s"
  shows "packets_tx s = 0 \<and> bytes_tx s = 0
    \<and> virtio_net_send data len s = (if \<not> initialized s then - 1 else if len > ETH_FRAME_LEN then - 2 else - 3, s)"
  using net_run_silent [OF assms] by (simp add: tx_silent_def tx_silent_send ETH_FRAME_LEN_def)

definition zeroed_net :: net_dev where
  "zeroed_net = demo_net\<lparr>initialized := False, tx_queue := (tx_queue demo_net)\<lparr>num_free := 0\<rparr>,
     nd_pci := \<lparr>pci_devices = [no_device\<lparr>vendor_id := 0x1AF4, device_id := 0x1000, bar := [0xC001, 0, 0, 0, 0, 0]\<rparr>],
       pci_device_count = 1, pci_bus = demo_bus\<rparr>\<rparr>"

lemma net_never_transmits_witness:
  "virtio_net_send 0x5000 60 (snd (virtio_net_init zeroed_net)) = (- 3, snd (virtio_net_init zeroed_net))"
proof -
  have "net_run (snd (virtio_net_init zeroed_net))"
    by (rule net_run.init, rule net_run.boot) (simp_all add: zeroed_net_def demo_net_def)
  moreover have "initialized (snd (virtio_net_init zeroed_net))"
    by (simp add: virtio_net_init_def pci_find_device_def zeroed_net_def PCI_VENDOR_REDHAT_def PCI_DEVICE_VIRTIO_NET_def Let_def case_prod_beta)
  ultimately show ?thesis using net_never_transmits [of "snd (virtio_net_init zeroed_net)" "0x5000" 60] by (simp add: ETH_FRAME_LEN_def)
qed

end
