(* ===== verification/Boot_Graphics.thy ===== *)
theory Boot_Graphics
  imports Prelude
begin

text \<open>
  The boot loader's graphics library, \<open>src/boot/graphics.h\<close> and \<open>src/boot/font.h\<close>: rectangles, lines, text and widgets on
  the framebuffer the firmware provides. As in the console of the kernel, the framebuffer is a function from pixel
  indices, computed in 32 bits, to colours. A C string argument is the list of its bytes up to the zero byte.
\<close>

section \<open>Colours and context\<close>

definition GFX_BLACK :: u32 where "GFX_BLACK = 0x00000000"
definition GFX_WHITE :: u32 where "GFX_WHITE = 0x00FFFFFF"
definition GFX_RED :: u32 where "GFX_RED = 0x000000FF"
definition COLOR_BG_DARK :: u32 where "COLOR_BG_DARK = 0x001E1E2E"
definition COLOR_BG_PANEL :: u32 where "COLOR_BG_PANEL = 0x00313244"
definition COLOR_BG_BUTTON :: u32 where "COLOR_BG_BUTTON = 0x00454545"
definition COLOR_BG_HOVER :: u32 where "COLOR_BG_HOVER = 0x00585858"
definition COLOR_ACCENT :: u32 where "COLOR_ACCENT = 0x00F5A97F"
definition COLOR_ACCENT2 :: u32 where "COLOR_ACCENT2 = 0x00A6E3A1"
definition COLOR_TEXT :: u32 where "COLOR_TEXT = 0x00CDD6F4"
definition COLOR_TEXT_DIM :: u32 where "COLOR_TEXT_DIM = 0x00A6ADC8"

definition RGB :: "u32 \<Rightarrow> u32 \<Rightarrow> u32 \<Rightarrow> u32" where
  "RGB r g b = b OR push_bit 8 g OR push_bit 16 r"

text \<open>The mode the firmware reports: base and size of the framebuffer, resolution, pixels per scan line.\<close>

record gop_mode =
  FrameBufferBase :: u64
  FrameBufferSize :: u64
  HorizontalResolution :: u32
  VerticalResolution :: u32
  PixelsPerScanLine :: u32

text \<open>
  The graphics context: the contents of the framebuffer and its address, the visible size, the pixels per scan line and,
  when the protocol was found, its mode.
\<close>

record gfx_context =
  gfx_fb :: "u32 \<Rightarrow> u32"
  gfx_base :: u64
  gfx_width :: u32
  gfx_height :: u32
  gfx_pitch :: u32
  gfx_gop :: "gop_mode option"

definition EFI_SUCCESS :: u64 where "EFI_SUCCESS = 0"

definition EFI_ERROR :: "u64 \<Rightarrow> bool" where
  "EFI_ERROR status \<longleftrightarrow> bit status 63"

text \<open>The firmware's answer to the protocol request: a status and, when there is one, the graphics protocol.\<close>

definition gfx_init :: "u64 \<times> gop_mode option \<Rightarrow> gfx_context \<Rightarrow> u64 \<times> gfx_context" where
  "gfx_init answer g =
     (let (status, gop) = answer; g = g\<lparr>gfx_gop := gop\<rparr>
      in if EFI_ERROR status then (status, g)
         else case gop of
             None \<Rightarrow> (status, g)
           | Some mode \<Rightarrow>
               (EFI_SUCCESS, g\<lparr>gfx_base := FrameBufferBase mode, gfx_width := HorizontalResolution mode,
                  gfx_height := VerticalResolution mode, gfx_pitch := PixelsPerScanLine mode\<rparr>))"

section \<open>Loops\<close>

text \<open>A \<open>for\<close> loop over a 32-bit counter with two upper limits.\<close>

function up_loop :: "u32 \<Rightarrow> u32 \<Rightarrow> u32 \<Rightarrow> (u32 \<Rightarrow> 's \<Rightarrow> 's) \<Rightarrow> 's \<Rightarrow> 's" where
  "up_loop i e bound f s = (if i < e \<and> i < bound then up_loop (i + 1) e bound f (f i s) else s)"
  by pat_completeness auto
termination
  by (relation "measure (\<lambda>(i, e, bound, f, s). unat (bound - i))") (auto simp: loop_measure)

declare up_loop.simps [simp del]

section \<open>Shapes\<close>

definition gfx_write :: "u32 \<Rightarrow> u32 \<Rightarrow> u32 \<Rightarrow> gfx_context \<Rightarrow> gfx_context" where
  "gfx_write x y color g = g\<lparr>gfx_fb := (gfx_fb g)(y * gfx_pitch g + x := color)\<rparr>"

definition gfx_pixel :: "u32 \<Rightarrow> u32 \<Rightarrow> u32 \<Rightarrow> gfx_context \<Rightarrow> gfx_context" where
  "gfx_pixel x y color g = (if x < gfx_width g \<and> y < gfx_height g then gfx_write x y color g else g)"

definition gfx_clear :: "u32 \<Rightarrow> gfx_context \<Rightarrow> gfx_context" where
  "gfx_clear color g =
     up_loop 0 (gfx_height g) (gfx_height g) (\<lambda>y. up_loop 0 (gfx_width g) (gfx_width g) (\<lambda>x. gfx_write x y color)) g"

definition gfx_fill_rect :: "u32 \<Rightarrow> u32 \<Rightarrow> u32 \<Rightarrow> u32 \<Rightarrow> u32 \<Rightarrow> gfx_context \<Rightarrow> gfx_context" where
  "gfx_fill_rect x y w h color g =
     up_loop y (y + h) (gfx_height g) (\<lambda>py. up_loop x (x + w) (gfx_width g) (\<lambda>px. gfx_write px py color)) g"

definition gfx_rect :: "u32 \<Rightarrow> u32 \<Rightarrow> u32 \<Rightarrow> u32 \<Rightarrow> u32 \<Rightarrow> gfx_context \<Rightarrow> gfx_context" where
  "gfx_rect x y w h color g =
     (let g = up_loop x (x + w) (gfx_width g) (\<lambda>i g.
            let g = (if y < gfx_height g then gfx_write i y color g else g)
            in if y + h - 1 < gfx_height g then gfx_write i (y + h - 1) color g else g) g
      in up_loop y (y + h) (gfx_height g) (\<lambda>i g.
            let g = (if x < gfx_width g then gfx_write x i color g else g)
            in if x + w - 1 < gfx_width g then gfx_write (x + w - 1) i color g else g) g)"

definition gfx_rounded_rect :: "u32 \<Rightarrow> u32 \<Rightarrow> u32 \<Rightarrow> u32 \<Rightarrow> u32 \<Rightarrow> u32 \<Rightarrow> gfx_context \<Rightarrow> gfx_context" where
  "gfx_rounded_rect x y w h r color g =
     (let g = gfx_fill_rect (x + r) y (w - 2 * r) h color g;
          g = gfx_fill_rect x (y + r) r (h - 2 * r) color g;
          g = gfx_fill_rect (x + w - r) (y + r) r (h - 2 * r) color g
      in up_loop 0 r r (\<lambda>py. up_loop 0 r r (\<lambda>px g.
           let dx = r - px - 1; dy = r - py - 1
           in if dx * dx + dy * dy \<le> r * r
              then gfx_pixel (x + w - 1 - px) (y + h - 1 - py) color
                    (gfx_pixel (x + px) (y + h - 1 - py) color
                     (gfx_pixel (x + w - 1 - px) (y + py) color
                      (gfx_pixel (x + px) (y + py) color g)))
              else g)) g)"

definition gfx_hline :: "u32 \<Rightarrow> u32 \<Rightarrow> u32 \<Rightarrow> u32 \<Rightarrow> gfx_context \<Rightarrow> gfx_context" where
  "gfx_hline x y w color g =
     (if y \<ge> gfx_height g then g else up_loop x (x + w) (gfx_width g) (\<lambda>i. gfx_write i y color) g)"

definition gfx_vline :: "u32 \<Rightarrow> u32 \<Rightarrow> u32 \<Rightarrow> u32 \<Rightarrow> gfx_context \<Rightarrow> gfx_context" where
  "gfx_vline x y h color g =
     (if x \<ge> gfx_width g then g else up_loop y (y + h) (gfx_height g) (\<lambda>i. gfx_write x i color) g)"

section \<open>Text\<close>

definition FONT_WIDTH :: u32 where "FONT_WIDTH = 8"
definition FONT_HEIGHT :: u32 where "FONT_HEIGHT = 16"

definition font_data :: "u8 list list" where
  "font_data =
    [[0x00, 0x00, 0x00, 0x00, 0x00, 0x00, 0x00, 0x00, 0x00, 0x00, 0x00, 0x00, 0x00, 0x00, 0x00, 0x00],
     [0x00, 0x00, 0x18, 0x3C, 0x3C, 0x3C, 0x18, 0x18, 0x18, 0x00, 0x18, 0x18, 0x00, 0x00, 0x00, 0x00],
     [0x00, 0x66, 0x66, 0x66, 0x24, 0x00, 0x00, 0x00, 0x00, 0x00, 0x00, 0x00, 0x00, 0x00, 0x00, 0x00],
     [0x00, 0x00, 0x00, 0x6C, 0x6C, 0xFE, 0x6C, 0x6C, 0x6C, 0xFE, 0x6C, 0x6C, 0x00, 0x00, 0x00, 0x00],
     [0x18, 0x18, 0x7C, 0xC6, 0xC2, 0xC0, 0x7C, 0x06, 0x06, 0x86, 0xC6, 0x7C, 0x18, 0x18, 0x00, 0x00],
     [0x00, 0x00, 0x00, 0x00, 0xC2, 0xC6, 0x0C, 0x18, 0x30, 0x60, 0xC6, 0x86, 0x00, 0x00, 0x00, 0x00],
     [0x00, 0x00, 0x38, 0x6C, 0x6C, 0x38, 0x76, 0xDC, 0xCC, 0xCC, 0xCC, 0x76, 0x00, 0x00, 0x00, 0x00],
     [0x00, 0x30, 0x30, 0x30, 0x60, 0x00, 0x00, 0x00, 0x00, 0x00, 0x00, 0x00, 0x00, 0x00, 0x00, 0x00],
     [0x00, 0x00, 0x0C, 0x18, 0x30, 0x30, 0x30, 0x30, 0x30, 0x30, 0x18, 0x0C, 0x00, 0x00, 0x00, 0x00],
     [0x00, 0x00, 0x30, 0x18, 0x0C, 0x0C, 0x0C, 0x0C, 0x0C, 0x0C, 0x18, 0x30, 0x00, 0x00, 0x00, 0x00],
     [0x00, 0x00, 0x00, 0x00, 0x00, 0x66, 0x3C, 0xFF, 0x3C, 0x66, 0x00, 0x00, 0x00, 0x00, 0x00, 0x00],
     [0x00, 0x00, 0x00, 0x00, 0x00, 0x18, 0x18, 0x7E, 0x18, 0x18, 0x00, 0x00, 0x00, 0x00, 0x00, 0x00],
     [0x00, 0x00, 0x00, 0x00, 0x00, 0x00, 0x00, 0x00, 0x00, 0x18, 0x18, 0x18, 0x30, 0x00, 0x00, 0x00],
     [0x00, 0x00, 0x00, 0x00, 0x00, 0x00, 0x00, 0xFE, 0x00, 0x00, 0x00, 0x00, 0x00, 0x00, 0x00, 0x00],
     [0x00, 0x00, 0x00, 0x00, 0x00, 0x00, 0x00, 0x00, 0x00, 0x00, 0x18, 0x18, 0x00, 0x00, 0x00, 0x00],
     [0x00, 0x00, 0x00, 0x00, 0x02, 0x06, 0x0C, 0x18, 0x30, 0x60, 0xC0, 0x80, 0x00, 0x00, 0x00, 0x00],
     [0x00, 0x00, 0x38, 0x6C, 0xC6, 0xC6, 0xD6, 0xD6, 0xC6, 0xC6, 0x6C, 0x38, 0x00, 0x00, 0x00, 0x00],
     [0x00, 0x00, 0x18, 0x38, 0x78, 0x18, 0x18, 0x18, 0x18, 0x18, 0x18, 0x7E, 0x00, 0x00, 0x00, 0x00],
     [0x00, 0x00, 0x7C, 0xC6, 0x06, 0x0C, 0x18, 0x30, 0x60, 0xC0, 0xC6, 0xFE, 0x00, 0x00, 0x00, 0x00],
     [0x00, 0x00, 0x7C, 0xC6, 0x06, 0x06, 0x3C, 0x06, 0x06, 0x06, 0xC6, 0x7C, 0x00, 0x00, 0x00, 0x00],
     [0x00, 0x00, 0x0C, 0x1C, 0x3C, 0x6C, 0xCC, 0xFE, 0x0C, 0x0C, 0x0C, 0x1E, 0x00, 0x00, 0x00, 0x00],
     [0x00, 0x00, 0xFE, 0xC0, 0xC0, 0xC0, 0xFC, 0x06, 0x06, 0x06, 0xC6, 0x7C, 0x00, 0x00, 0x00, 0x00],
     [0x00, 0x00, 0x38, 0x60, 0xC0, 0xC0, 0xFC, 0xC6, 0xC6, 0xC6, 0xC6, 0x7C, 0x00, 0x00, 0x00, 0x00],
     [0x00, 0x00, 0xFE, 0xC6, 0x06, 0x06, 0x0C, 0x18, 0x30, 0x30, 0x30, 0x30, 0x00, 0x00, 0x00, 0x00],
     [0x00, 0x00, 0x7C, 0xC6, 0xC6, 0xC6, 0x7C, 0xC6, 0xC6, 0xC6, 0xC6, 0x7C, 0x00, 0x00, 0x00, 0x00],
     [0x00, 0x00, 0x7C, 0xC6, 0xC6, 0xC6, 0x7E, 0x06, 0x06, 0x06, 0x0C, 0x78, 0x00, 0x00, 0x00, 0x00],
     [0x00, 0x00, 0x00, 0x00, 0x18, 0x18, 0x00, 0x00, 0x00, 0x18, 0x18, 0x00, 0x00, 0x00, 0x00, 0x00],
     [0x00, 0x00, 0x00, 0x00, 0x18, 0x18, 0x00, 0x00, 0x00, 0x18, 0x18, 0x30, 0x00, 0x00, 0x00, 0x00],
     [0x00, 0x00, 0x00, 0x06, 0x0C, 0x18, 0x30, 0x60, 0x30, 0x18, 0x0C, 0x06, 0x00, 0x00, 0x00, 0x00],
     [0x00, 0x00, 0x00, 0x00, 0x00, 0x7E, 0x00, 0x00, 0x7E, 0x00, 0x00, 0x00, 0x00, 0x00, 0x00, 0x00],
     [0x00, 0x00, 0x00, 0x60, 0x30, 0x18, 0x0C, 0x06, 0x0C, 0x18, 0x30, 0x60, 0x00, 0x00, 0x00, 0x00],
     [0x00, 0x00, 0x7C, 0xC6, 0xC6, 0x0C, 0x18, 0x18, 0x18, 0x00, 0x18, 0x18, 0x00, 0x00, 0x00, 0x00],
     [0x00, 0x00, 0x00, 0x7C, 0xC6, 0xC6, 0xDE, 0xDE, 0xDE, 0xDC, 0xC0, 0x7C, 0x00, 0x00, 0x00, 0x00],
     [0x00, 0x00, 0x10, 0x38, 0x6C, 0xC6, 0xC6, 0xFE, 0xC6, 0xC6, 0xC6, 0xC6, 0x00, 0x00, 0x00, 0x00],
     [0x00, 0x00, 0xFC, 0x66, 0x66, 0x66, 0x7C, 0x66, 0x66, 0x66, 0x66, 0xFC, 0x00, 0x00, 0x00, 0x00],
     [0x00, 0x00, 0x3C, 0x66, 0xC2, 0xC0, 0xC0, 0xC0, 0xC0, 0xC2, 0x66, 0x3C, 0x00, 0x00, 0x00, 0x00],
     [0x00, 0x00, 0xF8, 0x6C, 0x66, 0x66, 0x66, 0x66, 0x66, 0x66, 0x6C, 0xF8, 0x00, 0x00, 0x00, 0x00],
     [0x00, 0x00, 0xFE, 0x66, 0x62, 0x68, 0x78, 0x68, 0x60, 0x62, 0x66, 0xFE, 0x00, 0x00, 0x00, 0x00],
     [0x00, 0x00, 0xFE, 0x66, 0x62, 0x68, 0x78, 0x68, 0x60, 0x60, 0x60, 0xF0, 0x00, 0x00, 0x00, 0x00],
     [0x00, 0x00, 0x3C, 0x66, 0xC2, 0xC0, 0xC0, 0xDE, 0xC6, 0xC6, 0x66, 0x3A, 0x00, 0x00, 0x00, 0x00],
     [0x00, 0x00, 0xC6, 0xC6, 0xC6, 0xC6, 0xFE, 0xC6, 0xC6, 0xC6, 0xC6, 0xC6, 0x00, 0x00, 0x00, 0x00],
     [0x00, 0x00, 0x3C, 0x18, 0x18, 0x18, 0x18, 0x18, 0x18, 0x18, 0x18, 0x3C, 0x00, 0x00, 0x00, 0x00],
     [0x00, 0x00, 0x1E, 0x0C, 0x0C, 0x0C, 0x0C, 0x0C, 0xCC, 0xCC, 0xCC, 0x78, 0x00, 0x00, 0x00, 0x00],
     [0x00, 0x00, 0xE6, 0x66, 0x66, 0x6C, 0x78, 0x78, 0x6C, 0x66, 0x66, 0xE6, 0x00, 0x00, 0x00, 0x00],
     [0x00, 0x00, 0xF0, 0x60, 0x60, 0x60, 0x60, 0x60, 0x60, 0x62, 0x66, 0xFE, 0x00, 0x00, 0x00, 0x00],
     [0x00, 0x00, 0xC6, 0xEE, 0xFE, 0xFE, 0xD6, 0xC6, 0xC6, 0xC6, 0xC6, 0xC6, 0x00, 0x00, 0x00, 0x00],
     [0x00, 0x00, 0xC6, 0xE6, 0xF6, 0xFE, 0xDE, 0xCE, 0xC6, 0xC6, 0xC6, 0xC6, 0x00, 0x00, 0x00, 0x00],
     [0x00, 0x00, 0x7C, 0xC6, 0xC6, 0xC6, 0xC6, 0xC6, 0xC6, 0xC6, 0xC6, 0x7C, 0x00, 0x00, 0x00, 0x00],
     [0x00, 0x00, 0xFC, 0x66, 0x66, 0x66, 0x7C, 0x60, 0x60, 0x60, 0x60, 0xF0, 0x00, 0x00, 0x00, 0x00],
     [0x00, 0x00, 0x7C, 0xC6, 0xC6, 0xC6, 0xC6, 0xC6, 0xC6, 0xD6, 0xDE, 0x7C, 0x0C, 0x0E, 0x00, 0x00],
     [0x00, 0x00, 0xFC, 0x66, 0x66, 0x66, 0x7C, 0x6C, 0x66, 0x66, 0x66, 0xE6, 0x00, 0x00, 0x00, 0x00],
     [0x00, 0x00, 0x7C, 0xC6, 0xC6, 0x60, 0x38, 0x0C, 0x06, 0xC6, 0xC6, 0x7C, 0x00, 0x00, 0x00, 0x00],
     [0x00, 0x00, 0xFF, 0xDB, 0x99, 0x18, 0x18, 0x18, 0x18, 0x18, 0x18, 0x3C, 0x00, 0x00, 0x00, 0x00],
     [0x00, 0x00, 0xC6, 0xC6, 0xC6, 0xC6, 0xC6, 0xC6, 0xC6, 0xC6, 0xC6, 0x7C, 0x00, 0x00, 0x00, 0x00],
     [0x00, 0x00, 0xC6, 0xC6, 0xC6, 0xC6, 0xC6, 0xC6, 0xC6, 0x6C, 0x38, 0x10, 0x00, 0x00, 0x00, 0x00],
     [0x00, 0x00, 0xC6, 0xC6, 0xC6, 0xC6, 0xD6, 0xD6, 0xD6, 0xFE, 0xEE, 0x6C, 0x00, 0x00, 0x00, 0x00],
     [0x00, 0x00, 0xC6, 0xC6, 0x6C, 0x7C, 0x38, 0x38, 0x7C, 0x6C, 0xC6, 0xC6, 0x00, 0x00, 0x00, 0x00],
     [0x00, 0x00, 0xC3, 0xC3, 0xC3, 0x66, 0x3C, 0x18, 0x18, 0x18, 0x18, 0x3C, 0x00, 0x00, 0x00, 0x00],
     [0x00, 0x00, 0xFE, 0xC6, 0x86, 0x0C, 0x18, 0x30, 0x60, 0xC2, 0xC6, 0xFE, 0x00, 0x00, 0x00, 0x00],
     [0x00, 0x00, 0x3C, 0x30, 0x30, 0x30, 0x30, 0x30, 0x30, 0x30, 0x30, 0x3C, 0x00, 0x00, 0x00, 0x00],
     [0x00, 0x00, 0x00, 0x80, 0xC0, 0x60, 0x30, 0x18, 0x0C, 0x06, 0x02, 0x00, 0x00, 0x00, 0x00, 0x00],
     [0x00, 0x00, 0x3C, 0x0C, 0x0C, 0x0C, 0x0C, 0x0C, 0x0C, 0x0C, 0x0C, 0x3C, 0x00, 0x00, 0x00, 0x00],
     [0x10, 0x38, 0x6C, 0xC6, 0x00, 0x00, 0x00, 0x00, 0x00, 0x00, 0x00, 0x00, 0x00, 0x00, 0x00, 0x00],
     [0x00, 0x00, 0x00, 0x00, 0x00, 0x00, 0x00, 0x00, 0x00, 0x00, 0x00, 0x00, 0x00, 0xFF, 0x00, 0x00],
     [0x30, 0x30, 0x18, 0x00, 0x00, 0x00, 0x00, 0x00, 0x00, 0x00, 0x00, 0x00, 0x00, 0x00, 0x00, 0x00],
     [0x00, 0x00, 0x00, 0x00, 0x00, 0x78, 0x0C, 0x7C, 0xCC, 0xCC, 0xCC, 0x76, 0x00, 0x00, 0x00, 0x00],
     [0x00, 0x00, 0xE0, 0x60, 0x60, 0x78, 0x6C, 0x66, 0x66, 0x66, 0x66, 0x7C, 0x00, 0x00, 0x00, 0x00],
     [0x00, 0x00, 0x00, 0x00, 0x00, 0x7C, 0xC6, 0xC0, 0xC0, 0xC0, 0xC6, 0x7C, 0x00, 0x00, 0x00, 0x00],
     [0x00, 0x00, 0x1C, 0x0C, 0x0C, 0x3C, 0x6C, 0xCC, 0xCC, 0xCC, 0xCC, 0x76, 0x00, 0x00, 0x00, 0x00],
     [0x00, 0x00, 0x00, 0x00, 0x00, 0x7C, 0xC6, 0xFE, 0xC0, 0xC0, 0xC6, 0x7C, 0x00, 0x00, 0x00, 0x00],
     [0x00, 0x00, 0x38, 0x6C, 0x64, 0x60, 0xF0, 0x60, 0x60, 0x60, 0x60, 0xF0, 0x00, 0x00, 0x00, 0x00],
     [0x00, 0x00, 0x00, 0x00, 0x00, 0x76, 0xCC, 0xCC, 0xCC, 0xCC, 0xCC, 0x7C, 0x0C, 0xCC, 0x78, 0x00],
     [0x00, 0x00, 0xE0, 0x60, 0x60, 0x6C, 0x76, 0x66, 0x66, 0x66, 0x66, 0xE6, 0x00, 0x00, 0x00, 0x00],
     [0x00, 0x00, 0x18, 0x18, 0x00, 0x38, 0x18, 0x18, 0x18, 0x18, 0x18, 0x3C, 0x00, 0x00, 0x00, 0x00],
     [0x00, 0x00, 0x06, 0x06, 0x00, 0x0E, 0x06, 0x06, 0x06, 0x06, 0x06, 0x06, 0x66, 0x66, 0x3C, 0x00],
     [0x00, 0x00, 0xE0, 0x60, 0x60, 0x66, 0x6C, 0x78, 0x78, 0x6C, 0x66, 0xE6, 0x00, 0x00, 0x00, 0x00],
     [0x00, 0x00, 0x38, 0x18, 0x18, 0x18, 0x18, 0x18, 0x18, 0x18, 0x18, 0x3C, 0x00, 0x00, 0x00, 0x00],
     [0x00, 0x00, 0x00, 0x00, 0x00, 0xE6, 0xFF, 0xDB, 0xDB, 0xDB, 0xDB, 0xDB, 0x00, 0x00, 0x00, 0x00],
     [0x00, 0x00, 0x00, 0x00, 0x00, 0xDC, 0x66, 0x66, 0x66, 0x66, 0x66, 0x66, 0x00, 0x00, 0x00, 0x00],
     [0x00, 0x00, 0x00, 0x00, 0x00, 0x7C, 0xC6, 0xC6, 0xC6, 0xC6, 0xC6, 0x7C, 0x00, 0x00, 0x00, 0x00],
     [0x00, 0x00, 0x00, 0x00, 0x00, 0xDC, 0x66, 0x66, 0x66, 0x66, 0x66, 0x7C, 0x60, 0x60, 0xF0, 0x00],
     [0x00, 0x00, 0x00, 0x00, 0x00, 0x76, 0xCC, 0xCC, 0xCC, 0xCC, 0xCC, 0x7C, 0x0C, 0x0C, 0x1E, 0x00],
     [0x00, 0x00, 0x00, 0x00, 0x00, 0xDC, 0x76, 0x66, 0x60, 0x60, 0x60, 0xF0, 0x00, 0x00, 0x00, 0x00],
     [0x00, 0x00, 0x00, 0x00, 0x00, 0x7C, 0xC6, 0x60, 0x38, 0x0C, 0xC6, 0x7C, 0x00, 0x00, 0x00, 0x00],
     [0x00, 0x00, 0x10, 0x30, 0x30, 0xFC, 0x30, 0x30, 0x30, 0x30, 0x36, 0x1C, 0x00, 0x00, 0x00, 0x00],
     [0x00, 0x00, 0x00, 0x00, 0x00, 0xCC, 0xCC, 0xCC, 0xCC, 0xCC, 0xCC, 0x76, 0x00, 0x00, 0x00, 0x00],
     [0x00, 0x00, 0x00, 0x00, 0x00, 0xC3, 0xC3, 0xC3, 0xC3, 0x66, 0x3C, 0x18, 0x00, 0x00, 0x00, 0x00],
     [0x00, 0x00, 0x00, 0x00, 0x00, 0xC6, 0xC6, 0xC6, 0xD6, 0xD6, 0xFE, 0x6C, 0x00, 0x00, 0x00, 0x00],
     [0x00, 0x00, 0x00, 0x00, 0x00, 0xC6, 0x6C, 0x38, 0x38, 0x38, 0x6C, 0xC6, 0x00, 0x00, 0x00, 0x00],
     [0x00, 0x00, 0x00, 0x00, 0x00, 0xC6, 0xC6, 0xC6, 0xC6, 0xC6, 0xC6, 0x7E, 0x06, 0x0C, 0xF8, 0x00],
     [0x00, 0x00, 0x00, 0x00, 0x00, 0xFE, 0xCC, 0x18, 0x30, 0x60, 0xC6, 0xFE, 0x00, 0x00, 0x00, 0x00],
     [0x00, 0x00, 0x0E, 0x18, 0x18, 0x18, 0x70, 0x18, 0x18, 0x18, 0x18, 0x0E, 0x00, 0x00, 0x00, 0x00],
     [0x00, 0x00, 0x18, 0x18, 0x18, 0x18, 0x00, 0x18, 0x18, 0x18, 0x18, 0x18, 0x00, 0x00, 0x00, 0x00],
     [0x00, 0x00, 0x70, 0x18, 0x18, 0x18, 0x0E, 0x18, 0x18, 0x18, 0x18, 0x70, 0x00, 0x00, 0x00, 0x00],
     [0x00, 0x00, 0x76, 0xDC, 0x00, 0x00, 0x00, 0x00, 0x00, 0x00, 0x00, 0x00, 0x00, 0x00, 0x00, 0x00]]"

definition gfx_glyph :: "u8 \<Rightarrow> u8 list" where
  "gfx_glyph c = (let c = (if c < 32 \<or> c > 126 then 63 else c) in font_data ! unat (c - 32))"

definition gfx_char :: "u32 \<Rightarrow> u32 \<Rightarrow> u8 \<Rightarrow> u32 \<Rightarrow> u32 \<Rightarrow> gfx_context \<Rightarrow> gfx_context" where
  "gfx_char x y c fg bg =
     fold (\<lambda>cy. fold (\<lambda>cx g.
         let color = (if gfx_glyph c ! cy AND drop_bit cx 0x80 \<noteq> 0 then fg else bg)
         in if color \<noteq> 0 then gfx_pixel (x + of_nat cx) (y + of_nat cy) color g else g) [0..<8]) [0..<16]"

fun gfx_string :: "u32 \<Rightarrow> u32 \<Rightarrow> u8 list \<Rightarrow> u32 \<Rightarrow> u32 \<Rightarrow> gfx_context \<Rightarrow> gfx_context" where
  "gfx_string x y [] fg bg g = g"
| "gfx_string x y (c # str) fg bg g =
     (if c = 10 then gfx_string 0 (y + (FONT_HEIGHT + 2)) str fg bg g
      else gfx_string (x + FONT_WIDTH) y str fg bg (gfx_char x y c fg bg g))"

definition gfx_text :: "u32 \<Rightarrow> u32 \<Rightarrow> u8 list \<Rightarrow> u32 \<Rightarrow> gfx_context \<Rightarrow> gfx_context" where
  "gfx_text x y str color = gfx_string x y str color 0"

definition gfx_text_width :: "u8 list \<Rightarrow> u32" where
  "gfx_text_width str = fold (\<lambda>c w. if c \<noteq> 10 then w + FONT_WIDTH else w) str 0"

definition gfx_text_centered :: "u32 \<Rightarrow> u8 list \<Rightarrow> u32 \<Rightarrow> gfx_context \<Rightarrow> gfx_context" where
  "gfx_text_centered y str color g = gfx_text ((gfx_width g - gfx_text_width str) div 2) y str color g"

section \<open>Widgets\<close>

definition gfx_button :: "u32 \<Rightarrow> u32 \<Rightarrow> u32 \<Rightarrow> u32 \<Rightarrow> u8 list \<Rightarrow> u32 \<Rightarrow> u32 \<Rightarrow> bool \<Rightarrow> gfx_context \<Rightarrow> gfx_context" where
  "gfx_button x y w h label bg fg selected g =
     (let text_x = x + (w - gfx_text_width label) div 2;
          text_y = y + (h - FONT_HEIGHT) div 2;
          g = gfx_rounded_rect x y w h 8 bg g;
          g = (if selected then gfx_rect (x + 1) (y + 1) (w - 2) (h - 2) COLOR_ACCENT (gfx_rect x y w h COLOR_ACCENT g) else g)
      in gfx_text text_x text_y label fg g)"

definition gfx_panel :: "u32 \<Rightarrow> u32 \<Rightarrow> u32 \<Rightarrow> u32 \<Rightarrow> u8 list \<Rightarrow> u32 \<Rightarrow> u32 \<Rightarrow> gfx_context \<Rightarrow> gfx_context" where
  "gfx_panel x y w h title bg title_bg g =
     (let g = gfx_rounded_rect x y w h 12 bg g;
          g = gfx_fill_rect (x + 12) y (w - 24) 30 title_bg g;
          g = gfx_fill_rect x (y + 12) 12 18 title_bg g;
          g = gfx_fill_rect (x + w - 12) (y + 12) 12 18 title_bg g
      in gfx_text (x + (w - gfx_text_width title) div 2) (y + 8) title GFX_WHITE g)"

text \<open>The division by the limit faults when it is zero: the result is then None.\<close>

definition gfx_progress :: "u32 \<Rightarrow> u32 \<Rightarrow> u32 \<Rightarrow> u32 \<Rightarrow> u32 \<Rightarrow> u32 \<Rightarrow> u32 \<Rightarrow> u32 \<Rightarrow> gfx_context \<Rightarrow> gfx_context option" where
  "gfx_progress x y w h value limit bg fg g =
     (if limit = 0 then None
      else
        let fill_w = (value * (w - 4)) div limit;
            g = gfx_rounded_rect x y w h (h div 2) bg g
        in Some (if fill_w > 0 then gfx_rounded_rect (x + 2) (y + 2) fill_w (h - 4) ((h - 4) div 2) fg g else g))"

text \<open>The digits come out last first, into \<open>tmp\<close>, and are turned round; the text ends with a zero byte.\<close>

function digits_back :: "u64 \<Rightarrow> u8 list" where
  "digits_back num = (if num > 0 then (48 + ucast (num mod 10)) # digits_back (num div 10) else [])"
  by pat_completeness auto
termination
proof (relation "measure unat")
  fix num :: u64
  assume "0 < num"
  then have "0 < unat num" by (simp add: word_nat)
  then show "(num div 10, num) \<in> measure unat" by (simp add: unat_div_distrib)
qed simp

declare digits_back.simps [simp del]

definition int_to_str :: "u64 \<Rightarrow> u8 list" where
  "int_to_str num = (if num = 0 then [48, 0] else rev (digits_back num) @ [0])"

text \<open>The text in a buffer ends before its first zero byte.\<close>

definition c_text :: "u8 list \<Rightarrow> u8 list" where
  "c_text = takeWhile (\<lambda>c. c \<noteq> 0)"

definition gfx_label_value :: "u32 \<Rightarrow> u32 \<Rightarrow> u8 list \<Rightarrow> u64 \<Rightarrow> u8 list option \<Rightarrow> u32 \<Rightarrow> u32 \<Rightarrow> gfx_context \<Rightarrow> gfx_context" where
  "gfx_label_value x y label value unit label_color value_color g =
     (let g = gfx_text x y label label_color g;
          label_w = gfx_text_width label;
          buf = c_text (int_to_str value);
          g = gfx_text (x + label_w) y buf value_color g
      in case unit of None \<Rightarrow> g
         | Some u \<Rightarrow> gfx_text (x + label_w + gfx_text_width buf) y u label_color g)"

section \<open>Drawing stays on the screen\<close>

text \<open>What a drawing routine may do: change pixels of the visible rectangle, and nothing else.\<close>

definition on_screen :: "gfx_context \<Rightarrow> gfx_context \<Rightarrow> bool" where
  "on_screen g g' \<longleftrightarrow>
     g' = g\<lparr>gfx_fb := gfx_fb g'\<rparr>
     \<and> (\<forall>i. i \<notin> {y * gfx_pitch g + x | x y. x < gfx_width g \<and> y < gfx_height g} \<longrightarrow> gfx_fb g' i = gfx_fb g i)"

lemma on_screen_dims:
  assumes "on_screen g g'"
  shows "gfx_width g' = gfx_width g" "gfx_height g' = gfx_height g" "gfx_pitch g' = gfx_pitch g"
proof -
  have "g' = g\<lparr>gfx_fb := gfx_fb g'\<rparr>" using assms by (simp add: on_screen_def)
  then show "gfx_width g' = gfx_width g" "gfx_height g' = gfx_height g" "gfx_pitch g' = gfx_pitch g"
    by (metis gfx_context.select_convs gfx_context.surjective gfx_context.update_convs(1))+
qed

lemma on_screen_refl [simp, intro!]: "on_screen g g"
  by (simp add: on_screen_def)

lemma on_screen_trans:
  assumes "on_screen a b" "on_screen b c"
  shows "on_screen a c"
proof -
  have "c = b\<lparr>gfx_fb := gfx_fb c\<rparr>" "b = a\<lparr>gfx_fb := gfx_fb b\<rparr>" using assms by (simp_all add: on_screen_def)
  then have "c = a\<lparr>gfx_fb := gfx_fb c\<rparr>" by (metis gfx_context.simps(7) gfx_context.surjective gfx_context.update_convs(1))
  then show ?thesis using assms on_screen_dims [OF assms(1)] by (auto simp: on_screen_def)
qed

lemma on_screen_write: "x < gfx_width g \<Longrightarrow> y < gfx_height g \<Longrightarrow> on_screen g (gfx_write x y color g)"
  by (auto simp: on_screen_def gfx_write_def)

lemma on_screen_pixel [intro!]: "on_screen g (gfx_pixel x y color g)"
  by (simp add: gfx_pixel_def on_screen_write)

text \<open>A loop keeps to the screen when each turn does, on a screen of the size it started with.\<close>

lemma up_loop_on_screen:
  assumes "\<And>i g'. i < bound \<Longrightarrow> on_screen g g' \<Longrightarrow> on_screen g' (f i g')"
  shows "on_screen g (up_loop i e bound f g)"
proof -
  have "on_screen g (up_loop i e bound f g')" if "on_screen g g'" for g'
    using assms that
  proof (induction i e bound f g' rule: up_loop.induct)
    case (1 i e bound f g')
    show ?case
    proof (cases "i < e \<and> i < bound")
      case True
      then have "on_screen g (f i g')" using 1(2,3) on_screen_trans by blast
      then show ?thesis using 1(1) [OF True] 1(2) True by (subst up_loop.simps) auto
    next
      case False
      then show ?thesis using 1(3) by (subst up_loop.simps) auto
    qed
  qed
  then show ?thesis by simp
qed

lemma fold_on_screen:
  assumes "\<And>i g. i \<in> set xs \<Longrightarrow> on_screen g (f i g)"
  shows "on_screen g (fold f xs g)"
  using assms
proof (induction xs arbitrary: g)
  case (Cons x xs)
  then have "on_screen g (f x g)" "on_screen (f x g) (fold f xs (f x g))" by simp_all
  then show ?case using on_screen_trans by simp
qed simp

lemma on_screen_fill_rect [intro!]: "on_screen g (gfx_fill_rect x y w h color g)"
  unfolding gfx_fill_rect_def
proof (rule up_loop_on_screen)
  fix py g' assume py: "py < gfx_height g" and g': "on_screen g g'"
  show "on_screen g' (up_loop x (x + w) (gfx_width g) (\<lambda>px. gfx_write px py color) g')"
    by (rule up_loop_on_screen) (use py on_screen_dims [OF g'] on_screen_dims in \<open>auto intro!: on_screen_write\<close>)
qed

lemma gfx_clear_rect: "gfx_clear color g = gfx_fill_rect 0 0 (gfx_width g) (gfx_height g) color g"
  by (simp add: gfx_clear_def gfx_fill_rect_def)

lemma on_screen_clear [intro!]: "on_screen g (gfx_clear color g)"
  by (simp add: gfx_clear_rect on_screen_fill_rect)

lemma on_screen_if:
  assumes "P \<Longrightarrow> on_screen g a" "\<not> P \<Longrightarrow> on_screen g b"
  shows "on_screen g (if P then a else b)"
  using assms by simp

lemma on_screen_rect [intro!]: "on_screen g (gfx_rect x y w h color g)"
proof -
  define g1 where "g1 = up_loop x (x + w) (gfx_width g) (\<lambda>i g.
            let g = (if y < gfx_height g then gfx_write i y color g else g)
            in if y + h - 1 < gfx_height g then gfx_write i (y + h - 1) color g else g) g"
  have two: "on_screen g' (let g = (if y < gfx_height g' then gfx_write i y color g' else g')
      in if y' < gfx_height g then gfx_write i y' color g else g)" if "i < gfx_width g'" for i g' y' y
  proof -
    define g2 where "g2 = (if y < gfx_height g' then gfx_write i y color g' else g')"
    have 1: "on_screen g' g2" using that by (simp add: g2_def on_screen_write)
    have "on_screen g2 (if y' < gfx_height g2 then gfx_write i y' color g2 else g2)"
      using that on_screen_dims [OF 1] by (simp add: on_screen_write)
    with 1 show ?thesis unfolding Let_def g2_def by (rule on_screen_trans)
  qed
  have swap: "on_screen g' (let g = (if x < gfx_width g' then gfx_write x i color g' else g')
      in if x' < gfx_width g then gfx_write x' i color g else g)" if "i < gfx_height g'" for i g' x x'
  proof -
    define g2 where "g2 = (if x < gfx_width g' then gfx_write x i color g' else g')"
    have 1: "on_screen g' g2" using that by (simp add: g2_def on_screen_write)
    have "on_screen g2 (if x' < gfx_width g2 then gfx_write x' i color g2 else g2)"
      using that on_screen_dims [OF 1] by (simp add: on_screen_write)
    with 1 show ?thesis unfolding Let_def g2_def by (rule on_screen_trans)
  qed
  have "on_screen g g1" unfolding g1_def by (rule up_loop_on_screen, rule two) (simp add: on_screen_dims)
  moreover have "on_screen g1 (up_loop y (y + h) (gfx_height g1) (\<lambda>i g.
            let g = (if x < gfx_width g then gfx_write x i color g else g)
            in if x + w - 1 < gfx_width g then gfx_write (x + w - 1) i color g else g) g1)"
    by (rule up_loop_on_screen, rule swap) (simp add: on_screen_dims)
  ultimately show ?thesis unfolding gfx_rect_def Let_def g1_def by (rule on_screen_trans)
qed

lemma on_screen_pixel_after: "on_screen g a \<Longrightarrow> on_screen g (gfx_pixel x y color a)"
  using on_screen_trans on_screen_pixel by blast

lemma on_screen_rounded_rect [intro!]: "on_screen g (gfx_rounded_rect x y w h r color g)"
proof -
  define g3 where "g3 = gfx_fill_rect (x + w - r) (y + r) r (h - 2 * r) color
    (gfx_fill_rect x (y + r) r (h - 2 * r) color (gfx_fill_rect (x + r) y (w - 2 * r) h color g))"
  have 1: "on_screen g g3" unfolding g3_def using on_screen_trans on_screen_fill_rect by blast
  show ?thesis
    unfolding gfx_rounded_rect_def Let_def g3_def [symmetric]
    by (rule on_screen_trans [OF 1], rule up_loop_on_screen, rule up_loop_on_screen)
      (auto intro!: on_screen_if on_screen_pixel_after)
qed

lemma on_screen_hline [intro!]: "on_screen g (gfx_hline x y w color g)"
  unfolding gfx_hline_def
  by (intro on_screen_if up_loop_on_screen) (auto simp: on_screen_dims not_le intro!: on_screen_write)

lemma on_screen_vline [intro!]: "on_screen g (gfx_vline x y h color g)"
  unfolding gfx_vline_def
  by (intro on_screen_if up_loop_on_screen) (auto simp: on_screen_dims not_le intro!: on_screen_write)

lemma on_screen_char [intro!]: "on_screen g (gfx_char x y c fg bg g)"
  unfolding gfx_char_def Let_def by (intro fold_on_screen on_screen_if on_screen_pixel on_screen_refl)

lemma on_screen_string [intro!]: "on_screen g (gfx_string x y str fg bg g)"
proof (induction str arbitrary: x y g)
  case (Cons c str)
  then show ?case using on_screen_trans [OF on_screen_char Cons.IH] by simp
qed simp

lemma on_screen_text [intro!]: "on_screen g (gfx_text x y str color g)" "on_screen g (gfx_text_centered y str color g)"
  by (auto simp: gfx_text_def gfx_text_centered_def)

lemma on_screen_button [intro!]: "on_screen g (gfx_button x y w h label bg fg selected g)"
  unfolding gfx_button_def Let_def
  by (rule on_screen_trans [OF _ on_screen_text(1)])
    (auto intro: on_screen_trans [OF on_screen_rounded_rect on_screen_trans [OF on_screen_rect on_screen_rect]])

lemma on_screen_panel [intro!]: "on_screen g (gfx_panel x y w h title bg title_bg g)"
  unfolding gfx_panel_def Let_def
  by (rule on_screen_trans [OF _ on_screen_text(1)], rule on_screen_trans [OF _ on_screen_fill_rect],
      rule on_screen_trans [OF _ on_screen_fill_rect], rule on_screen_trans [OF _ on_screen_fill_rect]) auto

lemma on_screen_progress: "gfx_progress x y w h value limit bg fg g = Some g' \<Longrightarrow> on_screen g g'"
  unfolding gfx_progress_def Let_def
  using on_screen_trans [OF on_screen_rounded_rect on_screen_rounded_rect]
  by (auto split: if_splits)

lemma on_screen_label_value [intro!]: "on_screen g (gfx_label_value x y label value unit lc vc g)"
  unfolding gfx_label_value_def Let_def
  using on_screen_trans [OF on_screen_text(1) on_screen_trans [OF on_screen_text(1) on_screen_text(1)]]
    on_screen_trans [OF on_screen_text(1) on_screen_text(1)]
  by (auto split: option.splits)

section \<open>What a rectangle paints\<close>

lemma up_loop_row:
  assumes "pitch = gfx_pitch g"
  shows "gfx_fb (up_loop i e bound (\<lambda>px. gfx_write px py color) g) k =
    (if \<exists>px. i \<le> px \<and> px < e \<and> px < bound \<and> k = py * pitch + px then color else gfx_fb g k)"
    and "gfx_pitch (up_loop i e bound (\<lambda>px. gfx_write px py color) g) = gfx_pitch g"
proof -
  have "gfx_fb (up_loop i e bound f g) k = (if \<exists>px. i \<le> px \<and> px < e \<and> px < bound \<and> k = py * pitch + px then color else gfx_fb g k)
      \<and> gfx_pitch (up_loop i e bound f g) = gfx_pitch g" if "f = (\<lambda>px. gfx_write px py color)" for f
    using assms that
  proof (induction i e bound f g rule: up_loop.induct)
    case (1 i e bound f g)
    show ?case
    proof (cases "i < e \<and> i < bound")
      case True
      let ?g = "gfx_write i py color g"
      have split: "(\<exists>px. i \<le> px \<and> px < e \<and> px < bound \<and> k = py * pitch + px) \<longleftrightarrow>
          k = py * pitch + i \<or> (\<exists>px. i + 1 \<le> px \<and> px < e \<and> px < bound \<and> k = py * pitch + px)"
      proof -
        have step: "i \<le> px \<longleftrightarrow> px = i \<or> i + 1 \<le> px" for px
          using True unat_plus_one_less [of i e] by (auto simp: word_nat word_unat_eq_iff)
        show ?thesis unfolding step using True by auto
      qed
      have fi: "f i g = ?g" using 1(3) by simp
      have "gfx_pitch ?g = gfx_pitch g" by (simp add: gfx_write_def)
      then have "gfx_fb (up_loop (i + 1) e bound f ?g) k = (if \<exists>px. i + 1 \<le> px \<and> px < e \<and> px < bound \<and> k = py * pitch + px then color else gfx_fb ?g k)
          \<and> gfx_pitch (up_loop (i + 1) e bound f ?g) = gfx_pitch g"
        using 1(1) [OF True _ 1(3)] 1(2) unfolding fi by simp
      then show ?thesis using True 1(2) split fi by (subst (1 2) up_loop.simps) (auto simp: gfx_write_def)
    next
      case False
      then have "\<not> (\<exists>px. i \<le> px \<and> px < e \<and> px < bound \<and> k = py * pitch + px)" by (meson order_le_less_trans)
      then show ?thesis using False by (subst (1 2) up_loop.simps) auto
    qed
  qed
  then show "gfx_fb (up_loop i e bound (\<lambda>px. gfx_write px py color) g) k =
    (if \<exists>px. i \<le> px \<and> px < e \<and> px < bound \<and> k = py * pitch + px then color else gfx_fb g k)"
    "gfx_pitch (up_loop i e bound (\<lambda>px. gfx_write px py color) g) = gfx_pitch g" by simp_all
qed

lemma up_loop_rows:
  assumes "pitch = gfx_pitch g"
  shows "gfx_fb (up_loop j je jb (\<lambda>py. up_loop i e bound (\<lambda>px. gfx_write px py color)) g) k =
    (if \<exists>py px. j \<le> py \<and> py < je \<and> py < jb \<and> i \<le> px \<and> px < e \<and> px < bound \<and> k = py * pitch + px then color else gfx_fb g k)"
proof -
  have "gfx_fb (up_loop j je jb f g) k = (if \<exists>py px. j \<le> py \<and> py < je \<and> py < jb \<and> i \<le> px \<and> px < e \<and> px < bound \<and> k = py * pitch + px then color else gfx_fb g k)"
    if "f = (\<lambda>py. up_loop i e bound (\<lambda>px. gfx_write px py color))" for f
    using assms that
  proof (induction j je jb f g rule: up_loop.induct)
    case (1 j je jb f g)
    show ?case
    proof (cases "j < je \<and> j < jb")
      case True
      let ?g = "up_loop i e bound (\<lambda>px. gfx_write px j color) g"
      have fj: "f j g = ?g" using 1(3) by simp
      have step: "j \<le> py \<longleftrightarrow> py = j \<or> j + 1 \<le> py" for py
        using True unat_plus_one_less [of j je] by (auto simp: word_nat word_unat_eq_iff)
      have "gfx_fb (up_loop (j + 1) je jb f ?g) k =
          (if \<exists>py px. j + 1 \<le> py \<and> py < je \<and> py < jb \<and> i \<le> px \<and> px < e \<and> px < bound \<and> k = py * pitch + px then color else gfx_fb ?g k)"
        using 1(1) [OF True _ 1(3)] 1(2) up_loop_row(2) [OF 1(2), of i e bound j color] unfolding fj by simp
      moreover have "gfx_fb ?g k = (if \<exists>px. i \<le> px \<and> px < e \<and> px < bound \<and> k = j * pitch + px then color else gfx_fb g k)"
        by (rule up_loop_row(1) [OF 1(2)])
      ultimately show ?thesis using True fj step by (subst up_loop.simps) auto
    next
      case False
      then have "\<not> (\<exists>py px. j \<le> py \<and> py < je \<and> py < jb \<and> i \<le> px \<and> px < e \<and> px < bound \<and> k = py * pitch + px)" by (meson order_le_less_trans)
      then show ?thesis using False by (subst up_loop.simps) auto
    qed
  qed
  then show ?thesis by simp
qed

text \<open>Pixels of a screen whose rows do not overlap and that fits 32-bit indices have indices of their own.\<close>

definition screen_ok :: "gfx_context \<Rightarrow> bool" where
  "screen_ok g \<longleftrightarrow> gfx_width g \<le> gfx_pitch g \<and> unat (gfx_height g) * unat (gfx_pitch g) < 2 ^ 32"

lemma gfx_index:
  assumes "screen_ok g" "px < gfx_width g" "py < gfx_height g"
  shows "unat (py * gfx_pitch g + px) = unat py * unat (gfx_pitch g) + unat px"
proof -
  let ?p = "unat (gfx_pitch g)"
  have "Suc (unat py) \<le> unat (gfx_height g)" and "unat px < ?p" using assms by (simp_all add: screen_ok_def word_nat)
  then have "Suc (unat py) * ?p < 2 ^ 32" using assms(1) mult_le_mono1 [of "Suc (unat py)" "unat (gfx_height g)" ?p] by (simp add: screen_ok_def)
  then have lt: "unat py * ?p + unat px < 2 ^ 32" using \<open>unat px < ?p\<close> by simp
  then have "unat (py * gfx_pitch g) = unat py * ?p" by (intro unat_mult_nowrap) simp
  then show ?thesis using lt unat_plus_nowrap [of "py * gfx_pitch g" px] by simp
qed

lemma gfx_index_inj:
  assumes "screen_ok g" "px < gfx_width g" "py < gfx_height g" "qx < gfx_width g" "qy < gfx_height g"
  shows "py * gfx_pitch g + px = qy * gfx_pitch g + qx \<longleftrightarrow> px = qx \<and> py = qy"
proof
  let ?p = "unat (gfx_pitch g)"
  assume "py * gfx_pitch g + px = qy * gfx_pitch g + qx"
  then have eq: "unat py * ?p + unat px = unat qy * ?p + unat qx"
    using gfx_index [OF assms(1-3)] gfx_index [OF assms(1,4,5)] by simp
  have lt: "unat px < ?p" "unat qx < ?p" using assms by (simp_all add: screen_ok_def word_nat)
  then have "unat py = unat qy" using arg_cong [OF eq, of "\<lambda>n. n div ?p"] by simp
  then show "px = qx \<and> py = qy" using eq by (simp add: word_unat_eq_iff)
qed simp

text \<open>
  on a screen that fits 32-bit pixel indices, filling a rectangle paints exactly the visible pixels of the rectangle and
  leaves every other one as it was; a rectangle whose right or lower edge wraps around 32 bits paints nothing.
\<close>
theorem gfx_fill_rect_pixels:
  assumes "screen_ok g" "px < gfx_width g" "py < gfx_height g"
  shows "gfx_fb (gfx_fill_rect x y w h color g) (py * gfx_pitch g + px) =
    (if x \<le> px \<and> px < x + w \<and> y \<le> py \<and> py < y + h then color else gfx_fb g (py * gfx_pitch g + px))"
proof -
  have "(\<exists>qy qx. y \<le> qy \<and> qy < y + h \<and> qy < gfx_height g \<and> x \<le> qx \<and> qx < x + w \<and> qx < gfx_width g
      \<and> py * gfx_pitch g + px = qy * gfx_pitch g + qx) \<longleftrightarrow> x \<le> px \<and> px < x + w \<and> y \<le> py \<and> py < y + h"
    using assms gfx_index_inj [OF assms] by blast
  then show ?thesis unfolding gfx_fill_rect_def up_loop_rows [OF refl] by simp
qed

definition demo_gfx :: gfx_context where
  "demo_gfx = \<lparr>gfx_fb = (\<lambda>_. 0), gfx_base = 0x80000000, gfx_width = 800, gfx_height = 600, gfx_pitch = 1024, gfx_gop = None\<rparr>"

lemma gfx_fill_rect_pixels_witness:
  "gfx_fb (gfx_fill_rect 10 10 20 20 7 demo_gfx) (15 * gfx_pitch demo_gfx + 12) = 7"
  using gfx_fill_rect_pixels [of demo_gfx 12 15 10 10 20 20 7] by (simp add: demo_gfx_def screen_ok_def)

end
