(* ===== verification/Boot_Main.thy ===== *)
theory Boot_Main
  imports Boot_Graphics Boot_Info Memory Console
begin

text \<open>
  The boot loader, \<open>src/boot/main.c\<close>: sizing memory, loading the kernel image, the menu, and the hand-over. The firmware
  is not part of the repository: its services are a record of functions over a firmware state of any type, and every
  call the loader makes is recorded. The kernel image, which the build turns into an array, is an argument.
\<close>

section \<open>Firmware\<close>

definition EFI_ERROR_MASK :: u64 where "EFI_ERROR_MASK = 0x8000000000000000"
definition EFI_BUFFER_TOO_SMALL :: u64 where "EFI_BUFFER_TOO_SMALL = EFI_ERROR_MASK OR 5"

datatype EFI_MEMORY_TYPE = EfiReservedMemoryType | EfiLoaderCode | EfiLoaderData | EfiBootServicesCode | EfiBootServicesData
  | EfiRuntimeServicesCode | EfiRuntimeServicesData | EfiConventionalMemory | EfiUnusableMemory | EfiACPIReclaimMemory
  | EfiACPIMemoryNVS | EfiMemoryMappedIO | EfiMemoryMappedIOPortSpace | EfiPalCode | EfiPersistentMemory | EfiMaxMemoryType

text \<open>The number a memory type is stored as: its position in the enumeration.\<close>

fun memory_type_code :: "EFI_MEMORY_TYPE \<Rightarrow> u32" where
  "memory_type_code EfiReservedMemoryType = 0"
| "memory_type_code EfiLoaderCode = 1"
| "memory_type_code EfiLoaderData = 2"
| "memory_type_code EfiBootServicesCode = 3"
| "memory_type_code EfiBootServicesData = 4"
| "memory_type_code EfiRuntimeServicesCode = 5"
| "memory_type_code EfiRuntimeServicesData = 6"
| "memory_type_code EfiConventionalMemory = 7"
| "memory_type_code EfiUnusableMemory = 8"
| "memory_type_code EfiACPIReclaimMemory = 9"
| "memory_type_code EfiACPIMemoryNVS = 10"
| "memory_type_code EfiMemoryMappedIO = 11"
| "memory_type_code EfiMemoryMappedIOPortSpace = 12"
| "memory_type_code EfiPalCode = 13"
| "memory_type_code EfiPersistentMemory = 14"
| "memory_type_code EfiMaxMemoryType = 15"

datatype EFI_RESET_TYPE = EfiResetCold | EfiResetWarm | EfiResetShutdown | EfiResetPlatformSpecific

datatype EFI_ALLOCATE_TYPE = AllocateAnyPages | AllocateMaxAddress | AllocateAddress | MaxAllocateType

record EFI_INPUT_KEY =
  ScanCode :: u16
  UnicodeChar :: u16

text \<open>The answer to a request for the memory map: the values of the output parameters after the call.\<close>

record map_answer =
  ma_status :: u64
  ma_size :: u64
  ma_key :: u64
  ma_desc_size :: u64

record 'f firmware =
  fw_get_memory_map :: "u64 \<Rightarrow> u64 \<Rightarrow> 'f \<Rightarrow> mem \<Rightarrow> map_answer \<times> 'f \<times> mem"
  fw_allocate_pool :: "u64 \<Rightarrow> 'f \<Rightarrow> (u64 \<times> u64) \<times> 'f"
  fw_free_pool :: "u64 \<Rightarrow> 'f \<Rightarrow> 'f"
  fw_allocate_pages :: "EFI_ALLOCATE_TYPE \<Rightarrow> u64 \<Rightarrow> u64 \<Rightarrow> 'f \<Rightarrow> (u64 \<times> u64) \<times> 'f"
  fw_exit_boot_services :: "u64 \<Rightarrow> 'f \<Rightarrow> u64 \<times> 'f"
  fw_reset_system :: "EFI_RESET_TYPE \<Rightarrow> 'f \<Rightarrow> 'f option"
  fw_locate_gop :: "u64 \<times> gop_mode option"
  fw_vendor :: "u16 list"
  fw_revision :: u32

datatype efi_call = GetMemoryMap u64 u64 | AllocatePool u64 | FreePool u64 | AllocatePages EFI_ALLOCATE_TYPE u64 u64
  | ExitBootServices u64 | Stall u64 | ResetSystem EFI_RESET_TYPE | SetWatchdogTimer u64 | ClearScreen | OutputString string

record 'f loader =
  ld_fw :: 'f
  ld_mem :: mem
  ld_gfx :: gfx_context
  total_memory_mb :: u64
  usable_memory_mb :: u64
  memory_entries :: u64
  ld_info :: boot_info
  ld_calls :: "efi_call list"

definition called :: "efi_call \<Rightarrow> 'f loader \<Rightarrow> 'f loader" where
  "called c s = s\<lparr>ld_calls := c # ld_calls s\<rparr>"

definition get_memory_map :: "'f firmware \<Rightarrow> u64 \<Rightarrow> u64 \<Rightarrow> 'f loader \<Rightarrow> map_answer \<times> 'f loader" where
  "get_memory_map fw req buf s =
     (let (a, f, m) = fw_get_memory_map fw req buf (ld_fw s) (ld_mem s)
      in (a, called (GetMemoryMap req buf) (s\<lparr>ld_fw := f, ld_mem := m\<rparr>)))"

definition allocate_pool :: "'f firmware \<Rightarrow> u64 \<Rightarrow> 'f loader \<Rightarrow> (u64 \<times> u64) \<times> 'f loader" where
  "allocate_pool fw req s =
     (let (r, f) = fw_allocate_pool fw req (ld_fw s) in (r, called (AllocatePool req) (s\<lparr>ld_fw := f\<rparr>)))"

definition free_pool :: "'f firmware \<Rightarrow> u64 \<Rightarrow> 'f loader \<Rightarrow> 'f loader" where
  "free_pool fw p s = called (FreePool p) (s\<lparr>ld_fw := fw_free_pool fw p (ld_fw s)\<rparr>)"

definition allocate_pages :: "'f firmware \<Rightarrow> EFI_ALLOCATE_TYPE \<Rightarrow> u64 \<Rightarrow> u64 \<Rightarrow> 'f loader \<Rightarrow> (u64 \<times> u64) \<times> 'f loader" where
  "allocate_pages fw kind pages addr s =
     (let (r, f) = fw_allocate_pages fw kind pages addr (ld_fw s)
      in (r, called (AllocatePages kind pages addr) (s\<lparr>ld_fw := f\<rparr>)))"

definition exit_boot_services :: "'f firmware \<Rightarrow> u64 \<Rightarrow> 'f loader \<Rightarrow> u64 \<times> 'f loader" where
  "exit_boot_services fw key s =
     (let (r, f) = fw_exit_boot_services fw key (ld_fw s) in (r, called (ExitBootServices key) (s\<lparr>ld_fw := f\<rparr>)))"

section \<open>Helpers\<close>

text \<open>The text a wide string is cut to, with its terminator; the limit counts the terminator.\<close>

fun wstr_to_str :: "u16 list \<Rightarrow> nat \<Rightarrow> u8 list" where
  "wstr_to_str [] n = [0]"
| "wstr_to_str (c # src) n = (if c \<noteq> 0 \<and> n > 1 then ucast c # wstr_to_str src (n - 1) else [0])"

definition delay_ms :: "u64 \<Rightarrow> 'f loader \<Rightarrow> 'f loader" where
  "delay_ms ms = called (Stall (ms * 1000))"

section \<open>Sizing memory\<close>

text \<open>Type and page count of a descriptor at an address, and the loop that adds the pages up.\<close>

definition desc_type :: "mem \<Rightarrow> u64 \<Rightarrow> u32" where "desc_type m d = load32 m d"
definition desc_pages :: "mem \<Rightarrow> u64 \<Rightarrow> u64" where "desc_pages m d = load64 m (d + 24)"

definition usable_type :: "u32 \<Rightarrow> bool" where
  "usable_type t \<longleftrightarrow> t = memory_type_code EfiConventionalMemory \<or> t = memory_type_code EfiBootServicesCode
     \<or> t = memory_type_code EfiBootServicesData"

fun add_pages :: "mem \<Rightarrow> u64 \<Rightarrow> u64 \<Rightarrow> nat list \<Rightarrow> u64 \<times> u64 \<Rightarrow> u64 \<times> u64" where
  "add_pages m mmap desc_size [] acc = acc"
| "add_pages m mmap desc_size (i # is) (total_pages, usable_pages) =
     (let d = mmap + of_nat i * desc_size;
          total_pages = total_pages + desc_pages m d;
          usable_pages = (if usable_type (desc_type m d) then usable_pages + desc_pages m d else usable_pages)
      in add_pages m mmap desc_size is (total_pages, usable_pages))"

text \<open>The division by the descriptor size faults when it is zero: the result is then None.\<close>

definition gather_memory_info :: "'f firmware \<Rightarrow> 'f loader \<Rightarrow> 'f loader option" where
  "gather_memory_info fw s =
     (let (a, s) = get_memory_map fw 0 NULL s in
      if ma_status a \<noteq> EFI_BUFFER_TOO_SMALL then Some s
      else
        let mmap_size = ma_size a + ma_desc_size a * 4;
            ((status, mmap), s) = allocate_pool fw mmap_size s
        in if EFI_ERROR status then Some s
           else
             let (a, s) = get_memory_map fw mmap_size mmap s in
             if EFI_ERROR (ma_status a) then Some (free_pool fw mmap s)
             else if ma_desc_size a = 0 then None
             else
               let s = s\<lparr>memory_entries := ma_size a div ma_desc_size a\<rparr>;
                   (total_pages, usable_pages) = add_pages (ld_mem s) mmap (ma_desc_size a) [0..<unat (memory_entries s)] (0, 0);
                   s = s\<lparr>total_memory_mb := (total_pages * 4096) div (1024 * 1024),
                        usable_memory_mb := (usable_pages * 4096) div (1024 * 1024)\<rparr>
               in Some (free_pool fw mmap s))"

section \<open>Loading the kernel\<close>

fun put_bytes :: "u64 \<Rightarrow> u8 list \<Rightarrow> mem \<Rightarrow> mem" where
  "put_bytes a [] m = m"
| "put_bytes a (b # bs) m = put_bytes (a + 1) bs (m(a := b))"

definition framebuffer_of_mode :: "gop_mode \<Rightarrow> framebuffer_info \<Rightarrow> framebuffer_info" where
  "framebuffer_of_mode mode f =
     f\<lparr>fbi_base := FrameBufferBase mode, fbi_size := FrameBufferSize mode, fbi_width := HorizontalResolution mode,
       fbi_height := VerticalResolution mode, fbi_pitch := PixelsPerScanLine mode * 4, fbi_bpp := 32,
       blue_mask_shift := 0, blue_mask_size := 8, green_mask_shift := 8, green_mask_size := 8,
       red_mask_shift := 16, red_mask_size := 8\<rparr>"

text \<open>Memory for the kernel: at one megabyte or, failing that, anywhere.\<close>

definition allocate_kernel :: "'f firmware \<Rightarrow> u64 \<Rightarrow> 'f loader \<Rightarrow> (u64 \<times> u64) \<times> 'f loader" where
  "allocate_kernel fw pages_needed s =
     (let ((status, kernel_addr), s) = allocate_pages fw AllocateAddress pages_needed 0x100000 s
      in if EFI_ERROR status then allocate_pages fw AllocateAnyPages pages_needed 0 s else ((status, kernel_addr), s))"

definition describe_kernel :: "u64 \<Rightarrow> u64 \<Rightarrow> gop_mode option \<Rightarrow> boot_info \<Rightarrow> boot_info" where
  "describe_kernel kernel_addr kernel_size gop info =
     (let info = info\<lparr>bi_magic := BOOTINFO_MAGIC, bi_version := 1, bi_kernel_physical_base := kernel_addr,
            bi_kernel_virtual_base := kernel_addr, bi_kernel_size := kernel_size\<rparr>
      in case gop of None \<Rightarrow> info
         | Some mode \<Rightarrow> info\<lparr>bi_framebuffer := framebuffer_of_mode mode (bi_framebuffer info)\<rparr>)"

text \<open>A status, and the new value of the variable for the entry point, which changes on success only.\<close>

definition prepare_kernel :: "'f firmware \<Rightarrow> u8 list \<Rightarrow> u64 \<Rightarrow> 'f loader \<Rightarrow> (u64 \<times> u64) \<times> 'f loader" where
  "prepare_kernel fw kernel_data kernel_entry s =
     (let kernel_size = of_nat (length kernel_data);
          pages_needed = (kernel_size + 4095) div 4096;
          ((status, kernel_addr), s) = allocate_kernel fw pages_needed s
      in if EFI_ERROR status then ((status, kernel_entry), s)
         else
           let s = s\<lparr>ld_mem := put_bytes kernel_addr kernel_data (ld_mem s)\<rparr>
           in ((EFI_SUCCESS, kernel_addr), s\<lparr>ld_info := describe_kernel kernel_addr kernel_size (gfx_gop (ld_gfx s)) (ld_info s)\<rparr>))"

section \<open>Handing over\<close>

text \<open>How the hand-over ends: with an error, at the entry point of the kernel, or in a division fault.\<close>

datatype 'f handover = Failed u64 "'f loader" | Entered u64 "'f loader" | Faulted

definition boot_kernel :: "'f firmware \<Rightarrow> u64 \<Rightarrow> 'f loader \<Rightarrow> 'f handover" where
  "boot_kernel fw kernel_entry s =
     (let (a, s) = get_memory_map fw 0 NULL s in
      if ma_status a \<noteq> EFI_BUFFER_TOO_SMALL then Failed (ma_status a) s
      else
        let mmap_size = ma_size a + ma_desc_size a * 16;
            ((status, mmap), s) = allocate_pool fw mmap_size s
        in if EFI_ERROR status then Failed status s
           else
             let (a, s) = get_memory_map fw mmap_size mmap s in
             if EFI_ERROR (ma_status a) then Failed (ma_status a) (free_pool fw mmap s)
             else if ma_desc_size a = 0 then Faulted
             else
               let s = s\<lparr>ld_info := (ld_info s)\<lparr>bi_mmap := mmap, bi_mmap_entries := ma_size a div ma_desc_size a,
                          bi_mmap_entry_size := ma_desc_size a\<rparr>\<rparr>;
                   (status, s) = exit_boot_services fw (ma_key a) s
               in if \<not> EFI_ERROR status then Entered kernel_entry s
                  else
                    let (a, s) = get_memory_map fw 0 NULL s;
                        mmap_size = ma_size a + ma_desc_size a * 16;
                        (a, s) = get_memory_map fw mmap_size mmap s
                    in if EFI_ERROR (ma_status a) then Failed (ma_status a) s
                       else if ma_desc_size a = 0 then Faulted
                       else
                         let s = s\<lparr>ld_info := (ld_info s)\<lparr>bi_mmap_entries := ma_size a div ma_desc_size a\<rparr>\<rparr>;
                             (status, s) = exit_boot_services fw (ma_key a) s
                         in if EFI_ERROR status then Failed status s else Entered kernel_entry s)"

end
