(* ===== verification/Boot_Menu.thy ===== *)
theory Boot_Menu
  imports Boot_Main "HOL-Library.Monad_Syntax"
begin

text \<open>
  The screens and the menu of the boot loader, the second half of \<open>src/boot/main.c\<close>. The keys the user presses are an
  argument: the answers of successive calls of \<open>wait_key\<close>. A result \<open>None\<close> means that the loader does not go on, because
  of a division by zero or a loop that does not end.
\<close>

section \<open>Screens\<close>

text \<open>A sequence of drawing calls, and the bytes of a string literal.\<close>

definition draw :: "(gfx_context \<Rightarrow> gfx_context) list \<Rightarrow> gfx_context \<Rightarrow> gfx_context" where
  "draw fs = fold (\<lambda>f. f) fs"

definition lit :: "string \<Rightarrow> u8 list" where
  "lit = map of_char"

record MENU_ITEM =
  mi_label :: string
  mi_description :: string
  mi_action :: int

definition menu_items :: "MENU_ITEM list" where
  "menu_items =
     [\<lparr>mi_label = ''Boot SimpleOS'', mi_description = ''Load and execute the SimpleOS kernel'', mi_action = 0\<rparr>,
      \<lparr>mi_label = ''UEFI Shell'', mi_description = ''Exit to the UEFI interactive shell'', mi_action = 1\<rparr>,
      \<lparr>mi_label = ''Reboot System'', mi_description = ''Restart the computer'', mi_action = 2\<rparr>,
      \<lparr>mi_label = ''Shutdown'', mi_description = ''Power off the computer'', mi_action = 3\<rparr>]"

definition MENU_COUNT :: int where "MENU_COUNT = 4"

text \<open>The gradient: two lines out of four, with a 32-bit counter that steps by four.\<close>

definition gradient_color :: "u32 \<Rightarrow> u32 \<Rightarrow> u32" where
  "gradient_color i h = RGB (20 + i * 10 div h) (20 + i * 15 div h) (35 + i * 20 div h)"

partial_function (option) gradient :: "u32 \<Rightarrow> gfx_context \<Rightarrow> gfx_context option" where
  "gradient i g =
     (if i < gfx_height g
      then let color = gradient_color i (gfx_height g)
           in gradient (i + 4) (draw [gfx_hline 0 i (gfx_width g) color, gfx_hline 0 (i + 1) (gfx_width g) color] g)
      else Some g)"

definition draw_header :: "gfx_context \<Rightarrow> gfx_context" where
  "draw_header g = draw
     [gfx_fill_rect 0 0 (gfx_width g) 60 (RGB 30 30 50),
      gfx_text_centered 20 (lit ''SimpleOS Bootloader'') GFX_WHITE,
      gfx_text (gfx_width g - 100) 22 (lit ''v0.3 GUI'') COLOR_TEXT_DIM] g"

definition draw_system_info :: "'f firmware \<Rightarrow> u64 \<Rightarrow> u64 \<Rightarrow> gfx_context \<Rightarrow> gfx_context option" where
  "draw_system_info fw usable_mb total_mb g =
     (let panel_w = 500; panel_h = 200; panel_x = 50; panel_y = 100;
          info_x = panel_x + 30;
          info_y = panel_y + 50;
          vendor = c_text (wstr_to_str (fw_vendor fw) 32);
          major = c_text (int_to_str (ucast (drop_bit 16 (fw_revision fw))));
          minor = c_text (int_to_str (ucast (fw_revision fw AND 0xFFFF)));
          width = c_text (int_to_str (ucast (gfx_width g)));
          height = c_text (int_to_str (ucast (gfx_height g)));
          usable_text = c_text (int_to_str usable_mb);
          total_text = c_text (int_to_str total_mb);
          g = draw
            [gfx_panel panel_x panel_y panel_w panel_h (lit ''System Information'') COLOR_BG_PANEL (RGB 60 60 90),
             gfx_text info_x info_y (lit ''Firmware:'') COLOR_TEXT_DIM,
             gfx_text (info_x + 100) info_y vendor GFX_WHITE,
             gfx_text info_x (info_y + 24) (lit ''UEFI:'') COLOR_TEXT_DIM,
             gfx_text (info_x + 100) (info_y + 24) major GFX_WHITE,
             gfx_text (info_x + 100 + gfx_text_width major) (info_y + 24) (lit ''.'') GFX_WHITE,
             gfx_text (info_x + 108 + gfx_text_width minor) (info_y + 24) minor GFX_WHITE,
             gfx_text info_x (info_y + 48) (lit ''Display:'') COLOR_TEXT_DIM,
             gfx_text (info_x + 100) (info_y + 48) width COLOR_ACCENT2,
             gfx_text (info_x + 100 + gfx_text_width width) (info_y + 48) (lit '' x '') COLOR_TEXT_DIM,
             gfx_text (info_x + 130 + gfx_text_width height) (info_y + 48) height COLOR_ACCENT2,
             gfx_text info_x (info_y + 72) (lit ''Memory:'') COLOR_TEXT_DIM,
             gfx_text (info_x + 100) (info_y + 72) usable_text COLOR_ACCENT,
             gfx_text (info_x + 100 + gfx_text_width usable_text) (info_y + 72) (lit '' MB usable / '') COLOR_TEXT_DIM,
             gfx_text (info_x + 225) (info_y + 72) total_text GFX_WHITE,
             gfx_text (info_x + 225 + gfx_text_width total_text) (info_y + 72) (lit '' MB total'') COLOR_TEXT_DIM] g
      in gfx_progress (panel_x + 30) (panel_y + panel_h - 35) (panel_w - 60) 20 (ucast usable_mb) (ucast total_mb)
           (RGB 60 60 80) COLOR_ACCENT g)"

definition draw_menu :: "int \<Rightarrow> gfx_context \<Rightarrow> gfx_context" where
  "draw_menu selected g =
     (let info_w = 350; info_h = 280;
          info_x = gfx_width g - info_w - 50;
          info_y = 100;
          menu_x = info_x + 25;
          menu_y = info_y + 50;
          btn_w = info_w - 50;
          btn_h = 40;
          g = gfx_panel info_x info_y info_w info_h (lit ''Boot Menu'') COLOR_BG_PANEL (RGB 60 60 90) g;
          g = fold (\<lambda>i. let chosen = (of_nat i = (word_of_int selected :: u32)) in
                gfx_button menu_x (menu_y + of_nat i * (btn_h + 10)) btn_w btn_h (lit (mi_label (menu_items ! i)))
                  (if chosen then COLOR_BG_HOVER else COLOR_BG_BUTTON) GFX_WHITE chosen) [0..<nat MENU_COUNT] g
      in if selected \<ge> 0 \<and> selected < MENU_COUNT
         then gfx_text (info_x + 25) (info_y + info_h - 35) (lit (mi_description (menu_items ! nat selected))) COLOR_TEXT_DIM g
         else g)"

definition draw_footer :: "gfx_context \<Rightarrow> gfx_context" where
  "draw_footer g =
     (let footer_y = gfx_height g - 40
      in draw
        [gfx_fill_rect 0 footer_y (gfx_width g) 40 (RGB 25 25 40),
         gfx_text 30 (footer_y + 12) (lit ''Use'') COLOR_TEXT_DIM,
         gfx_text 60 (footer_y + 12) (lit '' UP/DOWN '') COLOR_ACCENT,
         gfx_text 140 (footer_y + 12) (lit ''to navigate,'') COLOR_TEXT_DIM,
         gfx_text 260 (footer_y + 12) (lit '' ENTER '') COLOR_ACCENT,
         gfx_text 320 (footer_y + 12) (lit ''to select'') COLOR_TEXT_DIM,
         gfx_text (gfx_width g - 200) (footer_y + 12) (lit ''SimpleOS (c) 2026'') COLOR_TEXT_DIM] g)"

definition draw_ui :: "'f firmware \<Rightarrow> int \<Rightarrow> 'f loader \<Rightarrow> 'f loader option" where
  "draw_ui fw selected s =
     do {
       g \<leftarrow> gradient 0 (gfx_clear COLOR_BG_DARK (ld_gfx s));
       g \<leftarrow> draw_system_info fw (usable_memory_mb s) (total_memory_mb s) (draw_header g);
       Some (s\<lparr>ld_gfx := draw_footer (draw_menu selected g)\<rparr>)
     }"

definition draw_boot_screen :: "string \<Rightarrow> u32 \<Rightarrow> 'f loader \<Rightarrow> 'f loader option" where
  "draw_boot_screen msg progress s =
     (let g = ld_gfx s;
          center_x = gfx_width g div 2;
          center_y = gfx_height g div 2;
          g = draw
            [gfx_clear COLOR_BG_DARK,
             gfx_text_centered (center_y - 60) (lit ''SimpleOS'') GFX_WHITE,
             gfx_text_centered (center_y - 35) (lit msg) COLOR_TEXT_DIM] g;
          bar_w = 300;
          bar_x = center_x - bar_w div 2;
          bar_y = center_y + 10;
          pct = c_text (int_to_str (ucast progress)) @ lit ''%'';
          pct_x = center_x - gfx_text_width pct div 2
      in do {
        g \<leftarrow> gfx_progress bar_x bar_y bar_w 24 progress 100 COLOR_BG_PANEL COLOR_ACCENT2 g;
        Some (s\<lparr>ld_gfx := gfx_text pct_x (bar_y + 35) pct COLOR_TEXT g\<rparr>)
      })"

section \<open>The menu\<close>

text \<open>
  How a run of the loader ends: it returns to the firmware, the kernel runs, the machine is reset, or it waits for a key
  that does not come.
\<close>

datatype 'f loader_outcome = Returned u64 "'f loader" | KernelRuns u64 "'f loader" | SystemReset EFI_RESET_TYPE "'f loader"
  | WaitsForKey "'f loader"

record menu =
  mn_selected :: int
  mn_running :: bool
  mn_kernel_entry :: u64

datatype 'f turn = Ends "'f loader_outcome" | Goes menu "EFI_INPUT_KEY list" "'f loader"

definition paint :: "(gfx_context \<Rightarrow> gfx_context) list \<Rightarrow> 'f loader \<Rightarrow> 'f loader" where
  "paint fs s = s\<lparr>ld_gfx := draw fs (ld_gfx s)\<rparr>"

definition middle :: "'f loader \<Rightarrow> u32" where
  "middle s = gfx_height (ld_gfx s) div 2"

text \<open>Action 0, the kernel: the failure message waits for one more key.\<close>

definition load_failed :: "menu \<Rightarrow> EFI_INPUT_KEY list \<Rightarrow> 'f loader \<Rightarrow> 'f turn" where
  "load_failed mn keys s =
     (let s = paint [gfx_clear COLOR_BG_DARK,
                gfx_text_centered (middle s - 20) (lit ''Failed to load kernel!'') GFX_RED,
                gfx_text_centered (middle s + 10) (lit ''Press any key to return...'') COLOR_TEXT_DIM] s
      in if keys = [] then Ends (WaitsForKey s) else Goes mn (tl keys) s)"

fun after_boot :: "menu \<Rightarrow> EFI_INPUT_KEY list \<Rightarrow> 'f handover \<Rightarrow> 'f turn option" where
  "after_boot mn keys (Failed status s) = Some (Goes mn keys s)"
| "after_boot mn keys (Entered entry s) = Some (Ends (KernelRuns entry s))"
| "after_boot mn keys Faulted = None"

definition enter_kernel :: "'f firmware \<Rightarrow> menu \<Rightarrow> EFI_INPUT_KEY list \<Rightarrow> 'f loader \<Rightarrow> 'f turn option" where
  "enter_kernel fw mn keys s =
     do {
       s \<leftarrow> draw_boot_screen ''Preparing boot info...'' 50 s;
       let s = delay_ms 200 s;
       s \<leftarrow> draw_boot_screen ''Exiting UEFI services...'' 80 s;
       let s = delay_ms 200 s;
       s \<leftarrow> draw_boot_screen ''Jumping to kernel...'' 100 s;
       let s = delay_ms 100 s;
       after_boot mn keys (boot_kernel fw (mn_kernel_entry mn) s)
     }"

definition menu_boot :: "'f firmware \<Rightarrow> u8 list \<Rightarrow> menu \<Rightarrow> EFI_INPUT_KEY list \<Rightarrow> 'f loader \<Rightarrow> 'f turn option" where
  "menu_boot fw kernel_data mn keys s =
     do {
       s \<leftarrow> draw_boot_screen ''Preparing kernel...'' 0 s;
       let s = delay_ms 200 s;
       s \<leftarrow> draw_boot_screen ''Loading kernel...'' 20 s;
       let ((status, kernel_entry), s) = prepare_kernel fw kernel_data (mn_kernel_entry mn) s;
       let mn = mn\<lparr>mn_kernel_entry := kernel_entry\<rparr>;
       if EFI_ERROR status then Some (load_failed mn keys s) else enter_kernel fw mn keys s
     }"

text \<open>Actions 2 and 3: the loop goes on if the firmware returns from the reset.\<close>

definition menu_reset :: "'f firmware \<Rightarrow> EFI_RESET_TYPE \<Rightarrow> string \<Rightarrow> menu \<Rightarrow> EFI_INPUT_KEY list \<Rightarrow> 'f loader \<Rightarrow> 'f turn" where
  "menu_reset fw kind msg mn keys s =
     (let s = paint [gfx_clear COLOR_BG_DARK, gfx_text_centered (middle s) (lit msg) COLOR_ACCENT] s;
          s = called (ResetSystem kind) (delay_ms 500 s)
      in case fw_reset_system fw kind (ld_fw s) of
           None \<Rightarrow> Ends (SystemReset kind s)
         | Some f \<Rightarrow> Goes mn keys (s\<lparr>ld_fw := f\<rparr>))"

definition menu_action :: "'f firmware \<Rightarrow> u8 list \<Rightarrow> menu \<Rightarrow> EFI_INPUT_KEY list \<Rightarrow> 'f loader \<Rightarrow> 'f turn option" where
  "menu_action fw kernel_data mn keys s =
     (let action = mi_action (menu_items ! nat (mn_selected mn)) in
      if action = 0 then menu_boot fw kernel_data mn keys s
      else if action = 1 then Some (Goes (mn\<lparr>mn_running := False\<rparr>) keys s)
      else if action = 2 then Some (menu_reset fw EfiResetCold ''Rebooting...'' mn keys s)
      else if action = 3 then Some (menu_reset fw EfiResetShutdown ''Shutting down...'' mn keys s)
      else Some (Goes mn keys s))"

text \<open>After any other key than the arrows the escape key ends the loop.\<close>

fun check_escape :: "EFI_INPUT_KEY \<Rightarrow> 'f turn \<Rightarrow> 'f turn" where
  "check_escape key (Ends r) = Ends r"
| "check_escape key (Goes mn keys s) = Goes (if ScanCode key = 0x17 then mn\<lparr>mn_running := False\<rparr> else mn) keys s"

definition menu_key :: "'f firmware \<Rightarrow> u8 list \<Rightarrow> EFI_INPUT_KEY \<Rightarrow> menu \<Rightarrow> EFI_INPUT_KEY list \<Rightarrow> 'f loader \<Rightarrow> 'f turn option" where
  "menu_key fw kernel_data key mn keys s =
     (if ScanCode key = 1
      then Some (Goes (if mn_selected mn > 0 then mn\<lparr>mn_selected := mn_selected mn - 1\<rparr> else mn) keys s)
      else if ScanCode key = 2
      then Some (Goes (if mn_selected mn < MENU_COUNT - 1 then mn\<lparr>mn_selected := mn_selected mn + 1\<rparr> else mn) keys s)
      else do {
        t \<leftarrow> (if UnicodeChar key = 0x0D \<or> UnicodeChar key = 32 then menu_action fw kernel_data mn keys s else Some (Goes mn keys s));
        Some (check_escape key t)
      })"

text \<open>No action leaves more keys than it was given, so the loop below ends.\<close>

fun keys_left :: "'f turn \<Rightarrow> EFI_INPUT_KEY list" where
  "keys_left (Ends r) = []"
| "keys_left (Goes mn keys s) = keys"

lemma enter_kernel_keys: "enter_kernel fw mn keys s = Some t \<Longrightarrow> length (keys_left t) \<le> length keys"
  unfolding enter_kernel_def Let_def by (auto simp: bind_eq_Some_conv elim!: after_boot.elims)

lemma menu_boot_keys: "menu_boot fw kernel_data mn keys s = Some t \<Longrightarrow> length (keys_left t) \<le> length keys"
  unfolding menu_boot_def Let_def case_prod_beta load_failed_def
  by (auto simp: bind_eq_Some_conv dest: enter_kernel_keys split: if_split_asm)

lemma menu_action_keys: "menu_action fw kernel_data mn keys s = Some t \<Longrightarrow> length (keys_left t) \<le> length keys"
  unfolding menu_action_def menu_reset_def
  by (auto simp: Let_def menu_boot_keys split: if_split_asm option.split_asm)

lemma keys_left_escape: "keys_left (check_escape key t) = keys_left t"
  by (cases t) simp_all

lemma menu_key_keys: "menu_key fw kernel_data key mn keys s = Some t \<Longrightarrow> length (keys_left t) \<le> length keys"
  unfolding menu_key_def
  by (auto simp: bind_eq_Some_conv keys_left_escape menu_action_keys split: if_split_asm)

function menu_loop :: "'f firmware \<Rightarrow> u8 list \<Rightarrow> menu \<Rightarrow> EFI_INPUT_KEY list \<Rightarrow> 'f loader \<Rightarrow> 'f loader_outcome option" where
  "menu_loop fw kernel_data mn keys s =
     (if mn_running mn then
        case draw_ui fw (mn_selected mn) s of
          None \<Rightarrow> None
        | Some s \<Rightarrow>
            (case keys of
               [] \<Rightarrow> Some (WaitsForKey s)
             | key # keys \<Rightarrow>
                 (case menu_key fw kernel_data key mn keys s of
                    None \<Rightarrow> None
                  | Some (Ends r) \<Rightarrow> Some r
                  | Some (Goes mn keys s) \<Rightarrow> menu_loop fw kernel_data mn keys s))
      else Some (Returned EFI_SUCCESS (paint [gfx_clear GFX_BLACK] s)))"
  by pat_completeness auto
termination
  by (relation "measure (\<lambda>(fw, kernel_data, mn, keys, s). length keys)") (auto dest: menu_key_keys)

declare menu_loop.simps [simp del]

definition efi_main :: "'f firmware \<Rightarrow> u8 list \<Rightarrow> EFI_INPUT_KEY list \<Rightarrow> 'f loader \<Rightarrow> 'f loader_outcome option" where
  "efi_main fw kernel_data keys s =
     (let s = called (SetWatchdogTimer 0) s;
          (status, g) = gfx_init (fw_locate_gop fw) (ld_gfx s);
          s = s\<lparr>ld_gfx := g\<rparr>
      in if EFI_ERROR status then
           let s = called (OutputString (''Graphics not available!'' @ [CHR 0x0D, CHR 0x0A])) (called ClearScreen s)
           in Some (case keys of [] \<Rightarrow> WaitsForKey s | _ \<Rightarrow> Returned EFI_SUCCESS s)
         else do {
           s \<leftarrow> gather_memory_info fw s;
           menu_loop fw kernel_data \<lparr>mn_selected = 0, mn_running = True, mn_kernel_entry = 0\<rparr> keys s
         })"

section \<open>Everything drawn is on the screen\<close>

lemma draw_on_screen:
  assumes "\<forall>f \<in> set fs. \<forall>g. on_screen g (f g)"
  shows "on_screen g (draw fs g)"
  unfolding draw_def by (rule fold_on_screen) (use assms in blast)

lemma gradient_on_screen:
  assumes "gradient i g = Some g'"
  shows "on_screen g g'"
proof (rule gradient.raw_induct [OF _ assms, where P = "\<lambda>i g g'. on_screen g g'"])
  fix gr i and g g' :: gfx_context
  let ?c = "gradient_color i (gfx_height g)"
  let ?g = "draw [gfx_hline 0 i (gfx_width g) ?c, gfx_hline 0 (i + 1) (gfx_width g) ?c] g"
  assume IH: "\<And>i g g'. gr i g = Some g' \<Longrightarrow> on_screen g g'"
    and run: "(if i < gfx_height g then let color = gradient_color i (gfx_height g)
        in gr (i + 4) (draw [gfx_hline 0 i (gfx_width g) color, gfx_hline 0 (i + 1) (gfx_width g) color] g) else Some g) = Some g'"
  have "on_screen g ?g" by (rule draw_on_screen) auto
  moreover have "on_screen ?g g'" if "i < gfx_height g" by (rule IH [of "i + 4"]) (use run that in \<open>simp add: Let_def\<close>)
  ultimately show "on_screen g g'" using run on_screen_trans [of g ?g g'] by (cases "i < gfx_height g") simp_all
qed

text \<open>The counter of the gradient passes every height of at most \<open>2 ^ 32 - 4\<close> without wrapping around.\<close>

lemma gradient_returns:
  assumes "unat (gfx_height g) \<le> 2 ^ 32 - 4"
  shows "\<exists>g'. gradient i g = Some g'"
  using assms
proof (induction "unat (gfx_height g) - unat i" arbitrary: i g rule: less_induct)
  case less
  show ?case
  proof (cases "i < gfx_height g")
    case True
    let ?w = "gfx_width g" and ?c = "gradient_color i (gfx_height g)"
    let ?g = "draw [gfx_hline 0 i ?w ?c, gfx_hline 0 (i + 1) ?w ?c] g"
    have "on_screen g ?g" by (rule draw_on_screen) auto
    then have h: "gfx_height ?g = gfx_height g" by (rule on_screen_dims)
    have i: "unat i < unat (gfx_height g)" using True by (simp add: word_less_nat_alt)
    then have "unat (i + 4) = unat i + 4" using less(2) by (intro unat_plus_nowrap [of i 4, simplified]) simp
    then have "\<exists>g'. gradient (i + 4) ?g = Some g'" using less h i by simp
    then show ?thesis using True by (subst gradient.simps) (simp add: Let_def)
  next
    case False
    then show ?thesis by (subst gradient.simps) simp
  qed
qed

lemma draw_header_on_screen: "on_screen g (draw_header g)"
  unfolding draw_header_def by (rule draw_on_screen) auto

lemma draw_footer_on_screen: "on_screen g (draw_footer g)"
  unfolding draw_footer_def Let_def by (rule draw_on_screen) auto

lemma draw_menu_on_screen: "on_screen g (draw_menu selected g)"
  unfolding draw_menu_def Let_def
  by (intro on_screen_if on_screen_trans [OF _ on_screen_text(1)] on_screen_trans [OF on_screen_panel fold_on_screen] on_screen_button)

lemma draw_system_info_on_screen:
  assumes "draw_system_info fw usable_mb total_mb g = Some g'"
  shows "on_screen g g'"
  using assms unfolding draw_system_info_def Let_def
  by (elim on_screen_trans [OF _ on_screen_progress, rotated]) (rule draw_on_screen, auto)

lemma draw_ui_on_screen:
  assumes "draw_ui fw selected s = Some s'"
  shows "on_screen (ld_gfx s) (ld_gfx s')"
proof -
  obtain g1 g2 where g: "gradient 0 (gfx_clear COLOR_BG_DARK (ld_gfx s)) = Some g1"
    "draw_system_info fw (usable_memory_mb s) (total_memory_mb s) (draw_header g1) = Some g2"
    and s': "s' = s\<lparr>ld_gfx := draw_footer (draw_menu selected g2)\<rparr>"
    using assms by (auto simp: draw_ui_def bind_eq_Some_conv)
  have "on_screen (ld_gfx s) g1" by (rule on_screen_trans [OF on_screen_clear gradient_on_screen [OF g(1)]])
  then have "on_screen (ld_gfx s) g2"
    by (rule on_screen_trans [OF on_screen_trans [OF _ draw_header_on_screen] draw_system_info_on_screen [OF g(2)]])
  then have "on_screen (ld_gfx s) (draw_footer (draw_menu selected g2))"
    by (rule on_screen_trans [OF on_screen_trans [OF _ draw_menu_on_screen] draw_footer_on_screen])
  then show ?thesis unfolding s' by simp
qed

text \<open>
  What a step of the loader keeps: the size of the screen and everything off it, the mode, and the memory totals.
\<close>

definition stays :: "'f loader \<Rightarrow> 'f loader \<Rightarrow> bool" where
  "stays s s' \<longleftrightarrow> on_screen (ld_gfx s) (ld_gfx s') \<and> total_memory_mb s' = total_memory_mb s"

lemma stays_refl [simp]: "stays s s"
  by (simp add: stays_def)

lemma stays_trans: "stays s1 s2 \<Longrightarrow> stays s2 s3 \<Longrightarrow> stays s1 s3"
  unfolding stays_def using on_screen_trans [of "ld_gfx s1" "ld_gfx s2" "ld_gfx s3"] by simp

lemma stays_same: "ld_gfx s' = ld_gfx s \<Longrightarrow> total_memory_mb s' = total_memory_mb s \<Longrightarrow> stays s s'"
  by (simp add: stays_def)

lemma on_screen_mode: "on_screen g g' \<Longrightarrow> gfx_gop g' = gfx_gop g"
  unfolding on_screen_def by (metis gfx_context.select_convs(6) gfx_context.surjective gfx_context.update_convs(1))

lemma call_fields [simp]:
  "ld_gfx (called c s) = ld_gfx s" "total_memory_mb (called c s) = total_memory_mb s" "ld_info (called c s) = ld_info s"
  "ld_mem (called c s) = ld_mem s" "ld_calls (called c s) = c # ld_calls s" "ld_fw (called c s) = ld_fw s"
  "ld_gfx (delay_ms n s) = ld_gfx s" "total_memory_mb (delay_ms n s) = total_memory_mb s" "ld_info (delay_ms n s) = ld_info s"
  "ld_mem (delay_ms n s) = ld_mem s" "ld_calls (delay_ms n s) = Stall (n * 1000) # ld_calls s"
  by (simp_all add: called_def delay_ms_def)

lemma service_fields [simp]:
  "ld_gfx (snd (get_memory_map fw req buf s)) = ld_gfx s" "total_memory_mb (snd (get_memory_map fw req buf s)) = total_memory_mb s"
  "ld_info (snd (get_memory_map fw req buf s)) = ld_info s" "ld_calls (snd (get_memory_map fw req buf s)) = GetMemoryMap req buf # ld_calls s"
  "ld_gfx (snd (allocate_pool fw req s)) = ld_gfx s" "total_memory_mb (snd (allocate_pool fw req s)) = total_memory_mb s"
  "ld_info (snd (allocate_pool fw req s)) = ld_info s" "ld_mem (snd (allocate_pool fw req s)) = ld_mem s"
  "ld_calls (snd (allocate_pool fw req s)) = AllocatePool req # ld_calls s"
  "ld_gfx (free_pool fw p s) = ld_gfx s" "total_memory_mb (free_pool fw p s) = total_memory_mb s"
  "ld_gfx (snd (allocate_pages fw kind pages addr s)) = ld_gfx s"
  "total_memory_mb (snd (allocate_pages fw kind pages addr s)) = total_memory_mb s"
  "ld_info (snd (allocate_pages fw kind pages addr s)) = ld_info s" "ld_mem (snd (allocate_pages fw kind pages addr s)) = ld_mem s"
  "ld_gfx (snd (exit_boot_services fw key s)) = ld_gfx s" "total_memory_mb (snd (exit_boot_services fw key s)) = total_memory_mb s"
  "ld_info (snd (exit_boot_services fw key s)) = ld_info s" "ld_mem (snd (exit_boot_services fw key s)) = ld_mem s"
  "ld_calls (snd (exit_boot_services fw key s)) = ExitBootServices key # ld_calls s"
  by (simp_all add: get_memory_map_def allocate_pool_def free_pool_def allocate_pages_def exit_boot_services_def case_prod_beta Let_def)

lemma stays_paint:
  assumes "\<forall>f \<in> set fs. \<forall>g. on_screen g (f g)"
  shows "stays s (paint fs s)"
  unfolding stays_def paint_def using draw_on_screen [OF assms] by simp

lemma stays_draw_ui: "draw_ui fw selected s = Some s' \<Longrightarrow> stays s s'"
  unfolding stays_def using draw_ui_on_screen [of fw selected s s'] by (auto simp: draw_ui_def bind_eq_Some_conv)

lemma stays_boot_screen:
  assumes "draw_boot_screen msg progress s = Some s'"
  shows "stays s s'"
proof -
  obtain x y w h v l bg fg tx ty str c g fs where g: "gfx_progress x y w h v l bg fg (draw fs (ld_gfx s)) = Some g"
    and fs: "\<forall>f \<in> set fs. \<forall>g. on_screen g (f g)" and s': "s' = s\<lparr>ld_gfx := gfx_text tx ty str c g\<rparr>"
    using assms unfolding draw_boot_screen_def Let_def bind_eq_Some_conv by (fastforce simp: on_screen_clear on_screen_text)
  have "on_screen (ld_gfx s) g" by (rule on_screen_trans [OF draw_on_screen [OF fs] on_screen_progress [OF g]])
  then have "on_screen (ld_gfx s) (gfx_text tx ty str c g)" by (rule on_screen_trans [OF _ on_screen_text(1)])
  then show ?thesis by (simp add: stays_def s')
qed

lemma draw_boot_screen_returns: "\<exists>s'. draw_boot_screen msg progress s = Some s'"
  by (simp add: draw_boot_screen_def Let_def gfx_progress_def)

lemma boot_screen_frame:
  assumes "draw_boot_screen msg progress s = Some s'"
  shows "ld_info s' = ld_info s" "ld_mem s' = ld_mem s" "ld_calls s' = ld_calls s"
  using assms by (auto simp: draw_boot_screen_def Let_def bind_eq_Some_conv)

lemma stays_prepare: "stays s (snd (prepare_kernel fw kernel_data e s))"
  by (rule stays_same) (simp_all add: prepare_kernel_def allocate_kernel_def case_prod_beta Let_def)

fun handover_loader :: "'f handover \<Rightarrow> 'f loader option" where
  "handover_loader (Failed status s) = Some s"
| "handover_loader (Entered entry s) = Some s"
| "handover_loader Faulted = None"

lemma stays_boot: "handover_loader (boot_kernel fw e s) = Some s' \<Longrightarrow> stays s s'"
  by (rule stays_same) (auto simp: boot_kernel_def case_prod_beta Let_def split: if_split_asm)

fun outcome_loader :: "'f loader_outcome \<Rightarrow> 'f loader" where
  "outcome_loader (Returned status s) = s"
| "outcome_loader (KernelRuns entry s) = s"
| "outcome_loader (SystemReset kind s) = s"
| "outcome_loader (WaitsForKey s) = s"

fun turn_loader :: "'f turn \<Rightarrow> 'f loader" where
  "turn_loader (Ends r) = outcome_loader r"
| "turn_loader (Goes mn keys s) = s"

lemma stays_enter:
  assumes "enter_kernel fw mn keys s = Some t"
  shows "stays s (turn_loader t)"
proof -
  obtain s1 s2 s3 where s: "draw_boot_screen ''Preparing boot info...'' 50 s = Some s1"
    "draw_boot_screen ''Exiting UEFI services...'' 80 (delay_ms 200 s1) = Some s2"
    "draw_boot_screen ''Jumping to kernel...'' 100 (delay_ms 200 s2) = Some s3"
    and t: "after_boot mn keys (boot_kernel fw (mn_kernel_entry mn) (delay_ms 100 s3)) = Some t"
    using assms by (auto simp: enter_kernel_def Let_def bind_eq_Some_conv)
  have d: "stays a (delay_ms n a)" for n and a :: "'a loader" by (rule stays_same) simp_all
  have "stays s (delay_ms 100 s3)"
    by (rule stays_trans [OF stays_boot_screen [OF s(1)] stays_trans [OF d stays_trans [OF stays_boot_screen [OF s(2)]
        stays_trans [OF d stays_trans [OF stays_boot_screen [OF s(3)] d]]]]])
  moreover have "stays (delay_ms 100 s3) (turn_loader t)"
    using t by (elim after_boot.elims) (auto intro!: stays_boot [of fw "mn_kernel_entry mn"])
  ultimately show ?thesis by (rule stays_trans)
qed

lemma stays_menu_boot:
  assumes "menu_boot fw kernel_data mn keys s = Some t"
  shows "stays s (turn_loader t)"
proof -
  obtain s1 s2 where s: "draw_boot_screen ''Preparing kernel...'' 0 s = Some s1"
    "draw_boot_screen ''Loading kernel...'' 20 (delay_ms 200 s1) = Some s2"
    using assms by (auto simp: menu_boot_def Let_def bind_eq_Some_conv)
  define s3 where "s3 = snd (prepare_kernel fw kernel_data (mn_kernel_entry mn) s2)"
  define mn' where "mn' = mn\<lparr>mn_kernel_entry := snd (fst (prepare_kernel fw kernel_data (mn_kernel_entry mn) s2))\<rparr>"
  have t: "t = load_failed mn' keys s3 \<or> enter_kernel fw mn' keys s3 = Some t"
    using assms s by (auto simp: menu_boot_def Let_def case_prod_beta s3_def mn'_def split: if_split_asm)
  have "stays s1 (delay_ms 200 s1)" by (rule stays_same) simp_all
  then have "stays s s3" unfolding s3_def
    by (rule stays_trans [OF stays_trans [OF stays_trans [OF stays_boot_screen [OF s(1)]] stays_boot_screen [OF s(2)]] stays_prepare])
  moreover have "stays s3 (turn_loader t)"
    using t
  proof
    assume t: "t = load_failed mn' keys s3"
    have "stays s3 (paint [gfx_clear c, gfx_text_centered y1 l1 c1, gfx_text_centered y2 l2 c2] s3)" for c y1 l1 c1 y2 l2 c2
      by (rule stays_paint) auto
    then show ?thesis by (simp add: t load_failed_def Let_def)
  qed (rule stays_enter)
  ultimately show ?thesis by (rule stays_trans)
qed

lemma stays_reset: "stays s (turn_loader (menu_reset fw kind msg mn keys s))"
proof -
  let ?s = "paint [gfx_clear COLOR_BG_DARK, gfx_text_centered (middle s) (lit msg) COLOR_ACCENT] s"
  have 1: "stays s ?s" by (rule stays_paint) auto
  have "stays ?s (turn_loader (menu_reset fw kind msg mn keys s))"
    by (rule stays_same) (simp_all add: menu_reset_def Let_def split: option.splits)
  with 1 show ?thesis by (rule stays_trans)
qed

lemma stays_action: "menu_action fw kernel_data mn keys s = Some t \<Longrightarrow> stays s (turn_loader t)"
  unfolding menu_action_def Let_def
  by (auto simp: stays_reset stays_menu_boot split: if_split_asm)

lemma turn_loader_escape [simp]: "turn_loader (check_escape key t) = turn_loader t"
  by (cases t) simp_all

lemma stays_key: "menu_key fw kernel_data key mn keys s = Some t \<Longrightarrow> stays s (turn_loader t)"
  unfolding menu_key_def by (auto simp: bind_eq_Some_conv stays_action split: if_split_asm)

text \<open>The ways a turn of the loop can go.\<close>

lemma menu_loop_cases:
  assumes "menu_loop fw kernel_data mn keys s = Some r"
  obtains (stopped) "r = Returned EFI_SUCCESS (paint [gfx_clear GFX_BLACK] s)"
  | (waits) s1 where "draw_ui fw (mn_selected mn) s = Some s1" "r = WaitsForKey s1"
  | (ends) s1 key ks where "draw_ui fw (mn_selected mn) s = Some s1" "menu_key fw kernel_data key mn ks s1 = Some (Ends r)"
  | (goes) s1 key ks mn' ks' s' where "mn_running mn" "draw_ui fw (mn_selected mn) s = Some s1" "keys = key # ks"
      "menu_key fw kernel_data key mn ks s1 = Some (Goes mn' ks' s')" "menu_loop fw kernel_data mn' ks' s' = Some r"
  using assms by (subst (asm) menu_loop.simps) (auto split: if_split_asm option.split_asm list.split_asm turn.split_asm)

lemma menu_loop_stays:
  assumes "menu_loop fw kernel_data mn keys s = Some r"
  shows "stays s (outcome_loader r)"
  using assms
proof (induction "length keys" arbitrary: mn keys s rule: less_induct)
  case less
  from less(2) show ?case
  proof (cases rule: menu_loop_cases)
    case stopped
    have "stays s (paint [gfx_clear GFX_BLACK] s)" by (rule stays_paint) auto
    then show ?thesis using stopped by simp
  next
    case (waits s1)
    then show ?thesis using stays_draw_ui by simp
  next
    case (ends s1 key ks)
    then show ?thesis using stays_trans [OF stays_draw_ui [OF ends(1)] stays_key [OF ends(2)]] by simp
  next
    case (goes s1 key ks mn' ks' s')
    have "stays s s'" using stays_trans [OF stays_draw_ui [OF goes(2)] stays_key [OF goes(4)]] by simp
    moreover have "length ks' < length keys" using menu_key_keys [OF goes(4)] goes(3) by simp
    ultimately show ?thesis using stays_trans less(1) goes(5) by blast
  qed
qed

section \<open>When the loader goes on\<close>

lemma draw_system_info_stops: "draw_system_info fw usable_mb total_mb g = None \<longleftrightarrow> (ucast total_mb :: u32) = 0"
  by (simp add: draw_system_info_def Let_def gfx_progress_def)

lemma draw_ui_stops:
  assumes "unat (gfx_height (ld_gfx s)) \<le> 2 ^ 32 - 4"
  shows "draw_ui fw selected s = None \<longleftrightarrow> (ucast (total_memory_mb s) :: u32) = 0"
proof -
  have "unat (gfx_height (gfx_clear COLOR_BG_DARK (ld_gfx s))) \<le> 2 ^ 32 - 4"
    using assms on_screen_dims(2) [OF on_screen_clear] by simp
  then obtain g1 where "gradient 0 (gfx_clear COLOR_BG_DARK (ld_gfx s)) = Some g1" using gradient_returns by blast
  then show ?thesis
    using draw_system_info_stops [of fw "usable_memory_mb s" "total_memory_mb s" "draw_header g1"]
    by (cases "draw_system_info fw (usable_memory_mb s) (total_memory_mb s) (draw_header g1)") (simp_all add: draw_ui_def)
qed

text \<open>What the firmware promises of the memory map: the size it reports for a descriptor is not zero.\<close>

definition reports_sizes :: "'f firmware \<Rightarrow> bool" where
  "reports_sizes fw \<longleftrightarrow> (\<forall>req buf f m. ma_desc_size (fst (fw_get_memory_map fw req buf f m)) \<noteq> 0)"

lemma map_answer_size: "reports_sizes fw \<Longrightarrow> ma_desc_size (fst (get_memory_map fw req buf s)) \<noteq> 0"
  by (simp add: reports_sizes_def get_memory_map_def case_prod_beta Let_def)

lemma boot_kernel_no_fault: "reports_sizes fw \<Longrightarrow> boot_kernel fw e s \<noteq> Faulted"
  by (simp add: boot_kernel_def case_prod_beta Let_def map_answer_size)

lemma enter_kernel_returns:
  assumes "reports_sizes fw"
  shows "\<exists>t. enter_kernel fw mn keys s = Some t"
proof -
  obtain s1 where 1: "draw_boot_screen ''Preparing boot info...'' 50 s = Some s1" using draw_boot_screen_returns by blast
  obtain s2 where 2: "draw_boot_screen ''Exiting UEFI services...'' 80 (delay_ms 200 s1) = Some s2" using draw_boot_screen_returns by blast
  obtain s3 where 3: "draw_boot_screen ''Jumping to kernel...'' 100 (delay_ms 200 s2) = Some s3" using draw_boot_screen_returns by blast
  show ?thesis
    using boot_kernel_no_fault [OF assms, of "mn_kernel_entry mn" "delay_ms 100 s3"]
    by (cases "boot_kernel fw (mn_kernel_entry mn) (delay_ms 100 s3)") (simp_all add: enter_kernel_def Let_def 1 2 3)
qed

lemma menu_boot_returns:
  assumes "reports_sizes fw"
  shows "\<exists>t. menu_boot fw kernel_data mn keys s = Some t"
proof -
  obtain s1 where 1: "draw_boot_screen ''Preparing kernel...'' 0 s = Some s1" using draw_boot_screen_returns by blast
  obtain s2 where 2: "draw_boot_screen ''Loading kernel...'' 20 (delay_ms 200 s1) = Some s2" using draw_boot_screen_returns by blast
  show ?thesis using enter_kernel_returns [OF assms] by (simp add: menu_boot_def Let_def case_prod_beta 1 2)
qed

lemma menu_key_returns:
  assumes "reports_sizes fw"
  shows "\<exists>t. menu_key fw kernel_data key mn keys s = Some t"
proof -
  obtain t where "menu_boot fw kernel_data mn keys s = Some t" using menu_boot_returns [OF assms] by blast
  then show ?thesis unfolding menu_key_def menu_action_def Let_def by auto
qed

lemma menu_loop_returns:
  assumes "reports_sizes fw" "unat (gfx_height (ld_gfx s)) \<le> 2 ^ 32 - 4" "(ucast (total_memory_mb s) :: u32) \<noteq> 0"
  shows "\<exists>r. menu_loop fw kernel_data mn keys s = Some r"
  using assms(2,3)
proof (induction "length keys" arbitrary: mn keys s rule: less_induct)
  case less
  obtain s1 where s1: "draw_ui fw (mn_selected mn) s = Some s1" using draw_ui_stops [OF less(2)] less(3) by blast
  show ?case
  proof (cases keys)
    case Nil
    then show ?thesis using s1 by (subst menu_loop.simps) simp
  next
    case (Cons key ks)
    obtain t where t: "menu_key fw kernel_data key mn ks s1 = Some t" using menu_key_returns [OF assms(1)] by blast
    show ?thesis
    proof (cases t)
      case (Ends x)
      then show ?thesis using s1 Cons t by (subst menu_loop.simps) simp
    next
      case (Goes mn' ks' s')
      have "stays s s'" using stays_trans [OF stays_draw_ui [OF s1] stays_key [OF t]] Goes by simp
      then have "gfx_height (ld_gfx s') = gfx_height (ld_gfx s)" "total_memory_mb s' = total_memory_mb s"
        using on_screen_dims(2) by (auto simp: stays_def)
      moreover have "length ks' < length keys" using menu_key_keys [OF t] Cons Goes by simp
      ultimately have "\<exists>r. menu_loop fw kernel_data mn' ks' s' = Some r" using less by simp
      then show ?thesis using s1 Cons t Goes by (subst menu_loop.simps) simp
    qed
  qed
qed

text \<open>The loader right after it has found the graphics protocol.\<close>

definition loader_started :: "gop_mode \<Rightarrow> 'f loader \<Rightarrow> 'f loader" where
  "loader_started mode s =
     (called (SetWatchdogTimer 0) s)\<lparr>ld_gfx := snd (gfx_init (EFI_SUCCESS, Some mode) (ld_gfx s))\<rparr>"

lemma EFI_SUCCESS_ok [simp]: "\<not> EFI_ERROR EFI_SUCCESS"
  by (simp add: EFI_ERROR_def EFI_SUCCESS_def)

lemma efi_main_graphics:
  assumes "fw_locate_gop fw = (EFI_SUCCESS, Some mode)"
  shows "efi_main fw kernel_data keys s =
    do { s \<leftarrow> gather_memory_info fw (loader_started mode s);
         menu_loop fw kernel_data \<lparr>mn_selected = 0, mn_running = True, mn_kernel_entry = 0\<rparr> keys s }"
  unfolding efi_main_def assms by (simp add: loader_started_def gfx_init_def Let_def)

lemma gather_gfx: "gather_memory_info fw s = Some s' \<Longrightarrow> ld_gfx s' = ld_gfx s"
  by (auto simp: gather_memory_info_def Let_def case_prod_beta split: if_split_asm)

lemma started_height: "gfx_height (ld_gfx (loader_started mode s)) = VerticalResolution mode"
  by (simp add: loader_started_def gfx_init_def)

section \<open>The memory totals\<close>

lemma add_pages_sums:
  assumes "unat tp + (\<Sum>i\<leftarrow>is. unat (desc_pages m (mmap + of_nat i * d))) < 2 ^ 64" "up \<le> tp"
  shows "unat (fst (add_pages m mmap d is (tp, up))) = unat tp + (\<Sum>i\<leftarrow>is. unat (desc_pages m (mmap + of_nat i * d)))"
    and "unat (snd (add_pages m mmap d is (tp, up))) = unat up +
      (\<Sum>i\<leftarrow>filter (\<lambda>i. usable_type (desc_type m (mmap + of_nat i * d))) is. unat (desc_pages m (mmap + of_nat i * d)))"
proof -
  have "unat (fst (add_pages m mmap d is (tp, up))) = unat tp + (\<Sum>i\<leftarrow>is. unat (desc_pages m (mmap + of_nat i * d)))
    \<and> unat (snd (add_pages m mmap d is (tp, up))) = unat up +
      (\<Sum>i\<leftarrow>filter (\<lambda>i. usable_type (desc_type m (mmap + of_nat i * d))) is. unat (desc_pages m (mmap + of_nat i * d)))"
    using assms
  proof (induction "is" arbitrary: tp up)
    case (Cons i "is")
    let ?p = "desc_pages m (mmap + of_nat i * d)"
    have up: "unat up \<le> unat tp" using Cons(3) by (simp add: word_le_nat_alt)
    have tp': "unat (tp + ?p) = unat tp + unat ?p" using Cons(2) by (intro unat_plus_nowrap) simp
    have up': "unat (up + ?p) = unat up + unat ?p" using Cons(2) up by (intro unat_plus_nowrap) simp
    have "up + ?p \<le> tp + ?p" "up \<le> tp + ?p" using tp' up' up by (simp_all add: word_le_nat_alt)
    moreover have "unat (tp + ?p) + (\<Sum>i\<leftarrow>is. unat (desc_pages m (mmap + of_nat i * d))) < 2 ^ 64" using tp' Cons(2) by simp
    ultimately show ?case
      using Cons(1) [of "tp + ?p" "up + ?p"] Cons(1) [of "tp + ?p" up] tp' up' by (auto simp: Let_def)
  qed simp
  then show "unat (fst (add_pages m mmap d is (tp, up))) = unat tp + (\<Sum>i\<leftarrow>is. unat (desc_pages m (mmap + of_nat i * d)))"
    "unat (snd (add_pages m mmap d is (tp, up))) = unat up +
      (\<Sum>i\<leftarrow>filter (\<lambda>i. usable_type (desc_type m (mmap + of_nat i * d))) is. unat (desc_pages m (mmap + of_nat i * d)))"
    by simp_all
qed

lemma megabytes:
  assumes "unat (p :: u64) * 4096 < 2 ^ 64"
  shows "unat (p * 4096 div (1024 * 1024)) = unat p div 256"
proof -
  have "unat (p * 4096) = unat p * 4096" using assms unat_mult_nowrap [of p 4096] by simp
  then show ?thesis using div_mult2_eq [of "unat p * 4096" 4096 256] by (simp add: unat_div_distrib)
qed

lemma filter_sum_le: "(\<Sum>i\<leftarrow>filter P is. f i) \<le> (\<Sum>i\<leftarrow>is. f i :: nat)"
  by (induction "is") auto

lemma gather_steps:
  assumes "get_memory_map fw 0 NULL s = (a1, s1)" "ma_status a1 = EFI_BUFFER_TOO_SMALL"
    and "allocate_pool fw (ma_size a1 + ma_desc_size a1 * 4) s1 = ((status, mmap), s2)" "\<not> EFI_ERROR status"
    and "get_memory_map fw (ma_size a1 + ma_desc_size a1 * 4) mmap s2 = (a2, s3)" "\<not> EFI_ERROR (ma_status a2)" "ma_desc_size a2 \<noteq> 0"
  shows "gather_memory_info fw s =
    (let n = ma_size a2 div ma_desc_size a2;
         p = add_pages (ld_mem s3) mmap (ma_desc_size a2) [0..<unat n] (0, 0)
     in Some (free_pool fw mmap (s3\<lparr>memory_entries := n, total_memory_mb := (fst p * 4096) div (1024 * 1024),
          usable_memory_mb := (snd p * 4096) div (1024 * 1024)\<rparr>)))"
  unfolding gather_memory_info_def assms(1) prod.case Let_def
  using assms by (simp add: case_prod_beta Let_def)

lemma free_pool_fields:
  "memory_entries (free_pool fw p s) = memory_entries s" "usable_memory_mb (free_pool fw p s) = usable_memory_mb s"
  "ld_calls (free_pool fw p s) = FreePool p # ld_calls s"
  by (simp_all add: free_pool_def called_def)

text \<open>
  When the firmware answers, the loader reports the pages of all descriptors and those of the usable ones in megabytes,
  rounded down, never more usable than total, and frees the buffer; the sums do not wrap around below 16 EB of memory.
\<close>

theorem gather_memory_info_totals:
  assumes "get_memory_map fw 0 NULL s = (a1, s1)" "ma_status a1 = EFI_BUFFER_TOO_SMALL"
    and "allocate_pool fw (ma_size a1 + ma_desc_size a1 * 4) s1 = ((status, mmap), s2)" "\<not> EFI_ERROR status"
    and "get_memory_map fw (ma_size a1 + ma_desc_size a1 * 4) mmap s2 = (a2, s3)" "\<not> EFI_ERROR (ma_status a2)" "ma_desc_size a2 \<noteq> 0"
    and "n = unat (ma_size a2) div unat (ma_desc_size a2)" "desc = (\<lambda>i. mmap + of_nat i * ma_desc_size a2)"
    and "(\<Sum>i\<leftarrow>[0..<n]. unat (desc_pages (ld_mem s3) (desc i))) * 4096 < 2 ^ 64"
  shows "\<exists>s'. gather_memory_info fw s = Some s' \<and> unat (memory_entries s') = n
    \<and> unat (total_memory_mb s') = (\<Sum>i\<leftarrow>[0..<n]. unat (desc_pages (ld_mem s3) (desc i))) div 256
    \<and> unat (usable_memory_mb s') =
        (\<Sum>i\<leftarrow>filter (\<lambda>i. usable_type (desc_type (ld_mem s3) (desc i))) [0..<n]. unat (desc_pages (ld_mem s3) (desc i))) div 256
    \<and> usable_memory_mb s' \<le> total_memory_mb s' \<and> hd (ld_calls s') = FreePool mmap"
proof -
  define p where "p = add_pages (ld_mem s3) mmap (ma_desc_size a2) [0..<n] (0, 0)"
  define s' where "s' = free_pool fw mmap (s3\<lparr>memory_entries := ma_size a2 div ma_desc_size a2,
      total_memory_mb := (fst p * 4096) div (1024 * 1024), usable_memory_mb := (snd p * 4096) div (1024 * 1024)\<rparr>)"
  have n: "unat (ma_size a2 div ma_desc_size a2) = n" by (simp add: assms(8) unat_div_distrib)
  have run: "gather_memory_info fw s = Some s'"
    unfolding gather_steps [OF assms(1-7)] s'_def p_def Let_def n ..
  let ?t = "\<Sum>i\<leftarrow>[0..<n]. unat (desc_pages (ld_mem s3) (desc i))"
  let ?u = "\<Sum>i\<leftarrow>filter (\<lambda>i. usable_type (desc_type (ld_mem s3) (desc i))) [0..<n]. unat (desc_pages (ld_mem s3) (desc i))"
  have le: "?u \<le> ?t" by (rule filter_sum_le)
  have less: "?t < 2 ^ 64" using assms(10) by linarith
  have sums: "unat (fst p) = ?t" "unat (snd p) = ?u"
    unfolding p_def assms(9) using add_pages_sums [of 0 "ld_mem s3" mmap "ma_desc_size a2" "[0..<n]" 0] less
    by (simp_all add: assms(9))
  have "unat (total_memory_mb s') = ?t div 256" "unat (usable_memory_mb s') = ?u div 256"
    using megabytes [of "fst p"] megabytes [of "snd p"] sums assms(10) le by (simp_all add: s'_def free_pool_fields)
  moreover from this have "usable_memory_mb s' \<le> total_memory_mb s'" using le by (simp add: word_le_nat_alt div_le_mono)
  moreover have "hd (ld_calls s') = FreePool mmap" "unat (memory_entries s') = n" using n by (simp_all add: s'_def free_pool_fields)
  ultimately show ?thesis using run by blast
qed


section \<open>Handing over\<close>

lemma put_bytes_other: "(\<And>i. i < length bs \<Longrightarrow> x \<noteq> a + of_nat i) \<Longrightarrow> put_bytes a bs m x = m x"
proof (induction bs arbitrary: a m)
  case (Cons b bs)
  have "x \<noteq> a + 1 + of_nat i" if "i < length bs" for i using Cons(2) [of "Suc i"] that by (simp add: ac_simps)
  then show ?case using Cons(1) Cons(2) [of 0] by simp
qed simp

lemma put_bytes_at:
  assumes "length bs \<le> 2 ^ 64" "i < length bs"
  shows "put_bytes a bs m (a + of_nat i) = bs ! i"
  using assms
proof (induction bs arbitrary: a m i)
  case (Cons b bs)
  show ?case
  proof (cases i)
    case 0
    have "a \<noteq> a + 1 + of_nat j" if "j < length bs" for j
    proof -
      have "\<not> 2 ^ 64 dvd Suc j" using Cons(2) that dvd_imp_le [of "2 ^ 64" "Suc j"] by auto
      then have "of_nat (Suc j) \<noteq> (0 :: u64)" unfolding word_of_nat_eq_0_iff by simp
      then show ?thesis by (simp add: add.assoc)
    qed
    then show ?thesis using 0 by (simp add: put_bytes_other)
  next
    case (Suc j)
    have "a + of_nat i = a + 1 + of_nat j" by (simp add: Suc add.assoc)
    moreover have "put_bytes (a + 1) bs (m(a := b)) (a + 1 + of_nat j) = bs ! j" by (rule Cons(1)) (use Cons(2,3) Suc in simp_all)
    ultimately show ?thesis by (simp only: put_bytes.simps Suc nth_Cons_Suc)
  qed
qed simp

text \<open>
  The kernel image stands in memory, except where a buffer the firmware was given for a memory map lies over it; the
  firmware writes such a map inside the buffer only.
\<close>

definition image_at :: "u8 list \<Rightarrow> u64 \<Rightarrow> 'f loader \<Rightarrow> bool" where
  "image_at kernel_data entry s \<longleftrightarrow> (\<forall>i < length kernel_data. ld_mem s (entry + of_nat i) = kernel_data ! i
     \<or> (\<exists>req buf. GetMemoryMap req buf \<in> set (ld_calls s) \<and> entry + of_nat i - buf < req))"

definition map_in_buffer :: "'f firmware \<Rightarrow> bool" where
  "map_in_buffer fw \<longleftrightarrow> (\<forall>req buf f m x. \<not> x - buf < req \<longrightarrow> snd (snd (fw_get_memory_map fw req buf f m)) x = m x)"

text \<open>What the loader has prepared before it leaves the firmware.\<close>

definition boot_ready :: "u8 list \<Rightarrow> u64 \<Rightarrow> 'f loader \<Rightarrow> bool" where
  "boot_ready kernel_data entry s \<longleftrightarrow>
     image_at kernel_data entry s \<and> bi_magic (ld_info s) = BOOTINFO_MAGIC
     \<and> bi_kernel_physical_base (ld_info s) = entry \<and> bi_kernel_virtual_base (ld_info s) = entry
     \<and> bi_kernel_size (ld_info s) = of_nat (length kernel_data)
     \<and> (\<forall>mode. gfx_gop (ld_gfx s) = Some mode \<longrightarrow> bi_framebuffer (ld_info s) = framebuffer_of_mode mode (bi_framebuffer (ld_info s)))"

lemma boot_ready_cong:
  assumes "boot_ready kernel_data entry s" "ld_info s' = ld_info s" "ld_mem s' = ld_mem s"
    and "set (ld_calls s) \<subseteq> set (ld_calls s')" "gfx_gop (ld_gfx s') = gfx_gop (ld_gfx s)"
  shows "boot_ready kernel_data entry s'"
proof -
  have "image_at kernel_data entry s'" using assms unfolding boot_ready_def image_at_def by (metis subsetD)
  then show ?thesis using assms unfolding boot_ready_def by simp
qed

lemma describe_kernel_fields:
  "bi_magic (describe_kernel a n gop info) = BOOTINFO_MAGIC" "bi_kernel_physical_base (describe_kernel a n gop info) = a"
  "bi_kernel_virtual_base (describe_kernel a n gop info) = a" "bi_kernel_size (describe_kernel a n gop info) = n"
  by (simp_all add: describe_kernel_def Let_def split: option.split)

lemma describe_kernel_framebuffer:
  "gop = Some mode \<Longrightarrow>
    bi_framebuffer (describe_kernel a n gop info) = framebuffer_of_mode mode (bi_framebuffer (describe_kernel a n gop info))"
  by (simp add: describe_kernel_def framebuffer_of_mode_def Let_def)

lemma prepare_kernel_ready:
  assumes "prepare_kernel fw kernel_data e s = ((status, entry), s')" "\<not> EFI_ERROR status" "length kernel_data \<le> 2 ^ 64"
  shows "boot_ready kernel_data entry s'"
proof -
  obtain s1 where "s' = s1\<lparr>ld_mem := put_bytes entry kernel_data (ld_mem s1),
      ld_info := describe_kernel entry (of_nat (length kernel_data)) (gfx_gop (ld_gfx s1)) (ld_info s1)\<rparr>"
    using assms(1,2) by (auto simp: prepare_kernel_def case_prod_beta Let_def split: if_split_asm)
  then show ?thesis
    unfolding boot_ready_def image_at_def
    using put_bytes_at [OF assms(3)] by (intro conjI allI impI) (simp_all add: describe_kernel_fields describe_kernel_framebuffer [symmetric])
qed


text \<open>The memory map the kernel is given: the answer of a call that filled the buffer, with the key of the exit that followed.\<close>

definition map_handed_over :: "'f firmware \<Rightarrow> 'f loader \<Rightarrow> bool" where
  "map_handed_over fw s \<longleftrightarrow> (\<exists>req f m. case fw_get_memory_map fw req (bi_mmap (ld_info s)) f m of (a, f', m') \<Rightarrow>
     \<not> EFI_ERROR (ma_status a) \<and> ld_mem s = m' \<and> bi_mmap_entries (ld_info s) = ma_size a div ma_desc_size a
     \<and> GetMemoryMap req (bi_mmap (ld_info s)) \<in> set (ld_calls s) \<and> hd (ld_calls s) = ExitBootServices (ma_key a))"

lemma image_at_map:
  assumes "map_in_buffer fw" "image_at kernel_data entry s"
  shows "image_at kernel_data entry (snd (get_memory_map fw req buf s))"
proof -
  have "ld_mem (snd (get_memory_map fw req buf s)) x = ld_mem s x" if "\<not> x - buf < req" for x
    using assms(1) that by (simp add: map_in_buffer_def get_memory_map_def case_prod_beta Let_def)
  then show ?thesis using assms(2) unfolding image_at_def service_fields by (metis list.set_intros)
qed

lemma boot_ready_map:
  assumes "map_in_buffer fw" "boot_ready kernel_data entry s"
  shows "boot_ready kernel_data entry (snd (get_memory_map fw req buf s))"
  using assms image_at_map [OF assms(1)] unfolding boot_ready_def by simp

lemma boot_ready_service:
  assumes "boot_ready kernel_data entry s"
  shows "boot_ready kernel_data entry (snd (allocate_pool fw req s))" "boot_ready kernel_data entry (snd (exit_boot_services fw key s))"
    "boot_ready kernel_data entry (delay_ms n s)"
  by (rule boot_ready_cong [OF assms]; auto)+

text \<open>The two ways into the kernel: at the first exit from the boot services or, with a new map in the same buffer, at the second.\<close>

lemma boot_kernel_entered:
  assumes "boot_kernel fw e s = Entered entry s'"
  obtains a1 s1 status mmap s2 a2 s3 x s4 where
    "get_memory_map fw 0 NULL s = (a1, s1)"
    "allocate_pool fw (ma_size a1 + ma_desc_size a1 * 16) s1 = ((status, mmap), s2)"
    "get_memory_map fw (ma_size a1 + ma_desc_size a1 * 16) mmap s2 = (a2, s3)" "\<not> EFI_ERROR (ma_status a2)"
    "exit_boot_services fw (ma_key a2) (s3\<lparr>ld_info := (ld_info s3)\<lparr>bi_mmap := mmap,
       bi_mmap_entries := ma_size a2 div ma_desc_size a2, bi_mmap_entry_size := ma_desc_size a2\<rparr>\<rparr>) = (x, s4)"
    "entry = e"
    "s' = s4 \<or> (\<exists>req a3 s5 a4 s6 y. get_memory_map fw 0 NULL s4 = (a3, s5) \<and> get_memory_map fw req mmap s5 = (a4, s6)
       \<and> \<not> EFI_ERROR (ma_status a4)
       \<and> exit_boot_services fw (ma_key a4) (s6\<lparr>ld_info := (ld_info s6)\<lparr>bi_mmap_entries := ma_size a4 div ma_desc_size a4\<rparr>\<rparr>) = (y, s'))"
proof -
  obtain a1 s1 where 1: "get_memory_map fw 0 NULL s = (a1, s1)" by (cases "get_memory_map fw 0 NULL s")
  let ?n = "ma_size a1 + ma_desc_size a1 * 16"
  obtain status mmap s2 where 2: "allocate_pool fw ?n s1 = ((status, mmap), s2)" by (cases "allocate_pool fw ?n s1") auto
  obtain a2 s3 where 3: "get_memory_map fw ?n mmap s2 = (a2, s3)" by (cases "get_memory_map fw ?n mmap s2")
  let ?s = "s3\<lparr>ld_info := (ld_info s3)\<lparr>bi_mmap := mmap, bi_mmap_entries := ma_size a2 div ma_desc_size a2, bi_mmap_entry_size := ma_desc_size a2\<rparr>\<rparr>"
  obtain x s4 where 4: "exit_boot_services fw (ma_key a2) ?s = (x, s4)" by (cases "exit_boot_services fw (ma_key a2) ?s")
  obtain a3 s5 where 5: "get_memory_map fw 0 NULL s4 = (a3, s5)" by (cases "get_memory_map fw 0 NULL s4")
  let ?n' = "ma_size a3 + ma_desc_size a3 * 16"
  obtain a4 s6 where 6: "get_memory_map fw ?n' mmap s5 = (a4, s6)" by (cases "get_memory_map fw ?n' mmap s5")
  let ?s' = "s6\<lparr>ld_info := (ld_info s6)\<lparr>bi_mmap_entries := ma_size a4 div ma_desc_size a4\<rparr>\<rparr>"
  obtain y s7 where 7: "exit_boot_services fw (ma_key a4) ?s' = (y, s7)" by (cases "exit_boot_services fw (ma_key a4) ?s'")
  note run = assms [unfolded boot_kernel_def Let_def 1 prod.case 2 3 4 5 6 7]
  have "\<not> EFI_ERROR (ma_status a2)" "entry = e" using run by (auto split: if_split_asm)
  moreover have "s' = s4 \<or> \<not> EFI_ERROR (ma_status a4) \<and> s' = s7" using run by (auto split: if_split_asm)
  ultimately show thesis using that [OF 1 2 3 _ 4] 5 6 7 by blast
qed

text \<open>A map in the buffer, its size in the boot information, and the exit with its key: what both ways have in common.\<close>

lemma exit_hands_over:
  assumes "map_in_buffer fw" "boot_ready kernel_data e s" "get_memory_map fw req mmap s = (a, s1)" "\<not> EFI_ERROR (ma_status a)"
    and "exit_boot_services fw (ma_key a) s2 = (x, s3)" "ld_mem s2 = ld_mem s1" "ld_calls s2 = ld_calls s1" "ld_gfx s2 = ld_gfx s1"
    and "ld_info s2 = (ld_info s1)\<lparr>bi_mmap := mmap, bi_mmap_entries := ma_size a div ma_desc_size a, bi_mmap_entry_size := k\<rparr>"
  shows "boot_ready kernel_data e s3 \<and> map_handed_over fw s3"
proof
  have 3: "ld_info s3 = ld_info s2" "ld_mem s3 = ld_mem s2" "ld_calls s3 = ExitBootServices (ma_key a) # ld_calls s2" "ld_gfx s3 = ld_gfx s2"
    using assms(5) by (auto simp: exit_boot_services_def called_def case_prod_beta Let_def)
  have "boot_ready kernel_data e s1" using boot_ready_map [OF assms(1,2), of req mmap] assms(3) by simp
  then have "boot_ready kernel_data e s2" unfolding boot_ready_def image_at_def using assms(6-9) by simp
  then show "boot_ready kernel_data e s3" by (rule boot_ready_cong) (auto simp: 3)
  show "map_handed_over fw s3"
    unfolding map_handed_over_def 3 using assms(3,4,6,7,9)
    by (intro exI [of _ req] exI [of _ "ld_fw s"] exI [of _ "ld_mem s"])
      (auto simp: get_memory_map_def called_def case_prod_beta Let_def)
qed

lemma boot_kernel_ready:
  assumes "map_in_buffer fw" "boot_ready kernel_data e s" "boot_kernel fw e s = Entered entry s'"
  shows "entry = e \<and> boot_ready kernel_data entry s' \<and> map_handed_over fw s'"
  using assms(3)
proof (cases rule: boot_kernel_entered)
  case (1 a1 s1 status mmap s2 a2 s3 x s4)
  have "boot_ready kernel_data e s1" using boot_ready_map [OF assms(1) assms(2), of 0 NULL] 1(1) by simp
  then have 2: "boot_ready kernel_data e s2" using boot_ready_service(1) [of kernel_data e s1 fw] 1(2) by (metis snd_conv)
  have 4: "boot_ready kernel_data e s4 \<and> map_handed_over fw s4"
    by (rule exit_hands_over [OF assms(1) 2 1(3,4,5)]) simp_all
  from 1(7) show ?thesis
  proof
    assume "s' = s4"
    then show ?thesis using 4 1(6) by simp
  next
    assume "\<exists>req a3 s5 a4 s6 y. get_memory_map fw 0 NULL s4 = (a3, s5) \<and> get_memory_map fw req mmap s5 = (a4, s6)
       \<and> \<not> EFI_ERROR (ma_status a4)
       \<and> exit_boot_services fw (ma_key a4) (s6\<lparr>ld_info := (ld_info s6)\<lparr>bi_mmap_entries := ma_size a4 div ma_desc_size a4\<rparr>\<rparr>) = (y, s')"
    then obtain req a3 s5 a4 s6 y where r: "get_memory_map fw 0 NULL s4 = (a3, s5)" "get_memory_map fw req mmap s5 = (a4, s6)"
      "\<not> EFI_ERROR (ma_status a4)"
      "exit_boot_services fw (ma_key a4) (s6\<lparr>ld_info := (ld_info s6)\<lparr>bi_mmap_entries := ma_size a4 div ma_desc_size a4\<rparr>\<rparr>) = (y, s')"
      by blast
    have 5: "boot_ready kernel_data e s5" using boot_ready_map [OF assms(1), of kernel_data e s4 0 NULL] 4 r(1) by simp
    have "ld_info s6 = ld_info s4" "ld_info s4 = (ld_info s3)\<lparr>bi_mmap := mmap, bi_mmap_entries := ma_size a2 div ma_desc_size a2, bi_mmap_entry_size := ma_desc_size a2\<rparr>"
      using r(1,2) 1(5) by (auto simp: get_memory_map_def exit_boot_services_def called_def case_prod_beta Let_def)
    then have "(ld_info s6)\<lparr>bi_mmap_entries := ma_size a4 div ma_desc_size a4\<rparr> =
        (ld_info s6)\<lparr>bi_mmap := mmap, bi_mmap_entries := ma_size a4 div ma_desc_size a4, bi_mmap_entry_size := ma_desc_size a2\<rparr>" by simp
    then show ?thesis using exit_hands_over [OF assms(1) 5 r(2,3,4), of "ma_desc_size a2"] 1(6) by simp
  qed
qed

lemma enter_kernel_ready:
  assumes "map_in_buffer fw" "boot_ready kernel_data (mn_kernel_entry mn) s" "enter_kernel fw mn keys s = Some (Ends (KernelRuns entry s'))"
  shows "boot_ready kernel_data entry s' \<and> map_handed_over fw s'"
proof -
  obtain s1 s2 s3 where s: "draw_boot_screen ''Preparing boot info...'' 50 s = Some s1"
    "draw_boot_screen ''Exiting UEFI services...'' 80 (delay_ms 200 s1) = Some s2"
    "draw_boot_screen ''Jumping to kernel...'' 100 (delay_ms 200 s2) = Some s3"
    and t: "after_boot mn keys (boot_kernel fw (mn_kernel_entry mn) (delay_ms 100 s3)) = Some (Ends (KernelRuns entry s'))"
    using assms(3) by (auto simp: enter_kernel_def Let_def bind_eq_Some_conv)
  have drawn: "boot_ready kernel_data e b" if "boot_ready kernel_data e a" "draw_boot_screen msg p a = Some b" for a b :: "'a loader" and e msg p
    by (rule boot_ready_cong [OF that(1)])
      (use boot_screen_frame [OF that(2)] stays_boot_screen [OF that(2)] on_screen_mode in \<open>auto simp: stays_def\<close>)
  have "boot_ready kernel_data (mn_kernel_entry mn) (delay_ms 100 s3)"
    by (intro boot_ready_service(3) drawn [OF _ s(3)] drawn [OF _ s(2)] drawn [OF _ s(1)] assms(2))
  moreover have "boot_kernel fw (mn_kernel_entry mn) (delay_ms 100 s3) = Entered entry s'" using t by (elim after_boot.elims) auto
  ultimately show ?thesis using boot_kernel_ready [OF assms(1)] by blast
qed

lemma menu_boot_ready:
  assumes "map_in_buffer fw" "length kernel_data \<le> 2 ^ 64" "menu_boot fw kernel_data mn keys s = Some (Ends (KernelRuns entry s'))"
  shows "boot_ready kernel_data entry s' \<and> map_handed_over fw s'"
proof -
  obtain s1 s2 where s: "draw_boot_screen ''Preparing kernel...'' 0 s = Some s1"
    "draw_boot_screen ''Loading kernel...'' 20 (delay_ms 200 s1) = Some s2"
    using assms(3) by (auto simp: menu_boot_def Let_def bind_eq_Some_conv)
  obtain status e s3 where p: "prepare_kernel fw kernel_data (mn_kernel_entry mn) s2 = ((status, e), s3)"
    by (cases "prepare_kernel fw kernel_data (mn_kernel_entry mn) s2") auto
  have run: "(if EFI_ERROR status then Some (load_failed (mn\<lparr>mn_kernel_entry := e\<rparr>) keys s3)
      else enter_kernel fw (mn\<lparr>mn_kernel_entry := e\<rparr>) keys s3) = Some (Ends (KernelRuns entry s'))"
    using assms(3) s p by (simp add: menu_boot_def Let_def)
  then have ok: "\<not> EFI_ERROR status" by (auto simp: load_failed_def Let_def split: if_split_asm)
  have "boot_ready kernel_data e s3" by (rule prepare_kernel_ready [OF p ok assms(2)])
  then show ?thesis using enter_kernel_ready [OF assms(1), of kernel_data "mn\<lparr>mn_kernel_entry := e\<rparr>"] run ok by simp
qed

lemma menu_key_ready:
  assumes "map_in_buffer fw" "length kernel_data \<le> 2 ^ 64" "menu_key fw kernel_data key mn keys s = Some (Ends (KernelRuns entry s'))"
  shows "boot_ready kernel_data entry s' \<and> map_handed_over fw s'"
proof -
  obtain t where t: "(if UnicodeChar key = 0x0D \<or> UnicodeChar key = 32 then menu_action fw kernel_data mn keys s else Some (Goes mn keys s)) = Some t"
    and c: "check_escape key t = Ends (KernelRuns entry s')"
    using assms(3) by (auto simp: menu_key_def bind_eq_Some_conv split: if_split_asm)
  have "t = Ends (KernelRuns entry s')" using c by (cases t) simp_all
  then have "menu_action fw kernel_data mn keys s = Some (Ends (KernelRuns entry s'))" using t by (simp split: if_split_asm)
  then have "menu_boot fw kernel_data mn keys s = Some (Ends (KernelRuns entry s'))"
    by (auto simp: menu_action_def menu_reset_def Let_def split: if_split_asm option.split_asm)
  then show ?thesis by (rule menu_boot_ready [OF assms(1,2)])
qed

lemma menu_loop_ready:
  assumes "map_in_buffer fw" "length kernel_data \<le> 2 ^ 64" "menu_loop fw kernel_data mn keys s = Some (KernelRuns entry s')"
  shows "boot_ready kernel_data entry s' \<and> map_handed_over fw s'"
  using assms(3)
proof (induction "length keys" arbitrary: mn keys s rule: less_induct)
  case less
  from less(2) show ?case
  proof (cases rule: menu_loop_cases)
    case (ends s1 key ks)
    then show ?thesis using menu_key_ready [OF assms(1,2)] by blast
  next
    case (goes s1 key ks mn' ks' s'')
    have "length ks' < length keys" using menu_key_keys [OF goes(4)] goes(3) by simp
    then show ?thesis using less(1) goes(5) by blast
  qed simp_all
qed

lemma framebuffer_of_mode_fields:
  "fbi_base (framebuffer_of_mode mode f) = FrameBufferBase mode" "fbi_width (framebuffer_of_mode mode f) = HorizontalResolution mode"
  "fbi_height (framebuffer_of_mode mode f) = VerticalResolution mode" "fbi_pitch (framebuffer_of_mode mode f) = PixelsPerScanLine mode * 4"
  by (simp_all add: framebuffer_of_mode_def)

lemma boot_ready_screen:
  assumes "boot_ready kernel_data entry s" "gfx_gop (ld_gfx s) = Some mode"
  shows "fbi_base (bi_framebuffer (ld_info s)) = FrameBufferBase mode" "fbi_width (bi_framebuffer (ld_info s)) = HorizontalResolution mode"
    "fbi_height (bi_framebuffer (ld_info s)) = VerticalResolution mode" "fbi_pitch (bi_framebuffer (ld_info s)) = PixelsPerScanLine mode * 4"
proof -
  have "bi_framebuffer (ld_info s) = framebuffer_of_mode mode (bi_framebuffer (ld_info s))" using assms by (simp add: boot_ready_def)
  then show "fbi_base (bi_framebuffer (ld_info s)) = FrameBufferBase mode" "fbi_width (bi_framebuffer (ld_info s)) = HorizontalResolution mode"
    "fbi_height (bi_framebuffer (ld_info s)) = VerticalResolution mode" "fbi_pitch (bi_framebuffer (ld_info s)) = PixelsPerScanLine mode * 4"
    using framebuffer_of_mode_fields [of mode "bi_framebuffer (ld_info s)"] by metis+
qed

lemma menu_loop_mode:
  assumes "menu_loop fw kernel_data mn keys s = Some (KernelRuns entry s')" "gfx_gop (ld_gfx s) = Some mode"
  shows "gfx_gop (ld_gfx s') = Some mode"
  using menu_loop_stays [OF assms(1)] on_screen_mode assms(2) by (fastforce simp: stays_def)

text \<open>
  C37: If the loader starts the kernel, after whatever keys, then the kernel image stands at the entry point, up to buffers the
  firmware itself placed over it for memory maps; the boot information carries the magic number, the place and size of the
  image, the framebuffer with the scan line length in bytes, and the number of descriptors of the map in the buffer; and
  the last thing the loader did was to leave the boot services with the key of that map.
\<close>

theorem kernel_entered_prepared:
  assumes "map_in_buffer fw" "length kernel_data \<le> 2 ^ 64" "gfx_gop (ld_gfx s) = Some mode"
    and "menu_loop fw kernel_data mn keys s = Some (KernelRuns entry s')"
  shows "image_at kernel_data entry s' \<and> map_handed_over fw s'
    \<and> bi_magic (ld_info s') = BOOTINFO_MAGIC \<and> bi_kernel_physical_base (ld_info s') = entry
    \<and> bi_kernel_size (ld_info s') = of_nat (length kernel_data)
    \<and> fbi_base (bi_framebuffer (ld_info s')) = FrameBufferBase mode \<and> fbi_width (bi_framebuffer (ld_info s')) = HorizontalResolution mode
    \<and> fbi_height (bi_framebuffer (ld_info s')) = VerticalResolution mode
    \<and> fbi_pitch (bi_framebuffer (ld_info s')) = PixelsPerScanLine mode * 4"
proof -
  have r: "boot_ready kernel_data entry s'" "map_handed_over fw s'" using menu_loop_ready [OF assms(1,2,4)] by blast+
  then show ?thesis using boot_ready_screen [OF r(1) menu_loop_mode [OF assms(4,3)]] by (simp add: boot_ready_def)
qed

section \<open>A firmware\<close>

text \<open>
  A firmware with one descriptor of 48 bytes for 128 MB of conventional memory, whose map has 21 descriptors once an exit
  from the boot services has failed, as the first one does. Its state counts the exits.
\<close>

definition demo_map :: "u64 \<Rightarrow> u64 \<Rightarrow> nat \<Rightarrow> mem \<Rightarrow> map_answer \<times> nat \<times> mem" where
  "demo_map req buf f m =
     (let n = (if f = 0 then 48 else 1008)
      in if req < n then (\<lparr>ma_status = EFI_BUFFER_TOO_SMALL, ma_size = n, ma_key = of_nat f, ma_desc_size = 48\<rparr>, f, m)
         else (\<lparr>ma_status = EFI_SUCCESS, ma_size = n, ma_key = of_nat f, ma_desc_size = 48\<rparr>, f,
               \<lambda>x. if x - buf < n then (if (x - buf) mod 48 = 0 then 7 else if (x - buf) mod 48 = 25 then 0x80 else 0) else m x))"

definition demo_mode :: gop_mode where
  "demo_mode = \<lparr>FrameBufferBase = 0x80000000, FrameBufferSize = 0x258000, HorizontalResolution = 800, VerticalResolution = 600,
     PixelsPerScanLine = 1024\<rparr>"

definition demo_firmware :: "nat firmware" where
  "demo_firmware =
     \<lparr>fw_get_memory_map = demo_map, fw_allocate_pool = (\<lambda>req f. ((EFI_SUCCESS, 0x200000), f)), fw_free_pool = (\<lambda>p f. f),
      fw_allocate_pages = (\<lambda>kind pages addr f. ((EFI_SUCCESS, addr), f)),
      fw_exit_boot_services = (\<lambda>key f. (if f = 0 then EFI_ERROR_MASK OR 2 else EFI_SUCCESS, f + 1)),
      fw_reset_system = (\<lambda>kind f. None), fw_locate_gop = (EFI_SUCCESS, Some demo_mode), fw_vendor = [83, 105, 109],
      fw_revision = 0x20046\<rparr>"

definition demo_info :: boot_info where
  "demo_info = \<lparr>bi_magic = 0, bi_version = 0,
     bi_framebuffer = \<lparr>fbi_base = 0, fbi_size = 0, fbi_width = 0, fbi_height = 0, fbi_pitch = 0, fbi_bpp = 0,
       red_mask_size = 0, red_mask_shift = 0, green_mask_size = 0, green_mask_shift = 0, blue_mask_size = 0, blue_mask_shift = 0, fbi_reserved = [0, 0]\<rparr>,
     bi_mmap_entries = 0, bi_mmap_entry_size = 0, bi_mmap = 0, bi_acpi_rsdp = 0, bi_kernel_physical_base = 0,
     bi_kernel_virtual_base = 0, bi_kernel_size = 0, bi_reserved = replicate 8 0\<rparr>"

definition demo_loader :: "nat loader" where
  "demo_loader = \<lparr>ld_fw = 0, ld_mem = (\<lambda>_. 0), ld_gfx = demo_gfx\<lparr>gfx_gop := Some demo_mode\<rparr>, total_memory_mb = 0, usable_memory_mb = 0,
     memory_entries = 0, ld_info = demo_info, ld_calls = []\<rparr>"

lemma EFI_codes: "\<not> EFI_ERROR EFI_SUCCESS" "EFI_ERROR (EFI_ERROR_MASK OR 2)" "EFI_ERROR EFI_BUFFER_TOO_SMALL" "EFI_SUCCESS \<noteq> EFI_BUFFER_TOO_SMALL"
  by (simp_all add: EFI_ERROR_def EFI_SUCCESS_def EFI_ERROR_MASK_def EFI_BUFFER_TOO_SMALL_def)

lemma demo_firmware_laws: "reports_sizes demo_firmware" "map_in_buffer demo_firmware"
  by (auto simp: reports_sizes_def map_in_buffer_def demo_firmware_def demo_map_def Let_def)

lemma demo_get_map:
  "get_memory_map demo_firmware req buf s =
     (let (a, f, m) = demo_map req buf (ld_fw s) (ld_mem s) in (a, called (GetMemoryMap req buf) (s\<lparr>ld_fw := f, ld_mem := m\<rparr>)))"
  by (simp add: get_memory_map_def demo_firmware_def)

lemma demo_pool: "allocate_pool demo_firmware req s = ((EFI_SUCCESS, 0x200000), called (AllocatePool req) s)"
  by (simp add: allocate_pool_def demo_firmware_def called_def)

lemma demo_exit: "exit_boot_services demo_firmware key s =
    (if ld_fw s = 0 then EFI_ERROR_MASK OR 2 else EFI_SUCCESS, called (ExitBootServices key) (s\<lparr>ld_fw := ld_fw s + 1\<rparr>))"
  by (simp add: exit_boot_services_def demo_firmware_def)

lemma demo_pages: "allocate_pages demo_firmware kind pages addr s = ((EFI_SUCCESS, addr), called (AllocatePages kind pages addr) s)"
  by (simp add: allocate_pages_def demo_firmware_def called_def)

lemmas demo_services = demo_get_map demo_pool demo_exit demo_pages

definition demo_filled :: mem where
  "demo_filled = snd (snd (demo_map 240 0x200000 0 (\<lambda>_. 0)))"

lemma demo_descriptor: "desc_type demo_filled 0x200000 = 7" "desc_pages demo_filled 0x200000 = 0x8000"
  by (simp_all add: demo_filled_def demo_map_def desc_type_def desc_pages_def load32_def load64_def join_bytes_def upt_rec)

lemma demo_boots:
  "\<exists>s'. boot_kernel demo_firmware e s = Entered e s' \<and> bi_mmap (ld_info s') = 0x200000 \<and> bi_mmap_entries (ld_info s') \<in> {1, 21}"
  by (simp add: boot_kernel_def demo_services demo_map_def EFI_codes called_def Let_def case_prod_beta)


text \<open>The steps of sizing memory on this firmware.\<close>

definition demo_answer :: "u64 \<Rightarrow> map_answer" where
  "demo_answer status = \<lparr>ma_status = status, ma_size = 48, ma_key = 0, ma_desc_size = 48\<rparr>"

definition demo_asked :: "nat loader" where
  "demo_asked = called (GetMemoryMap 0 NULL) (loader_started demo_mode demo_loader)"

definition demo_mapped :: "nat loader" where
  "demo_mapped = called (GetMemoryMap 240 0x200000) ((called (AllocatePool 240) demo_asked)\<lparr>ld_mem := demo_filled\<rparr>)"

lemma demo_sizing:
  "get_memory_map demo_firmware 0 NULL (loader_started demo_mode demo_loader) = (demo_answer EFI_BUFFER_TOO_SMALL, demo_asked)"
  "allocate_pool demo_firmware 240 demo_asked = ((EFI_SUCCESS, 0x200000), called (AllocatePool 240) demo_asked)"
  "get_memory_map demo_firmware 240 0x200000 (called (AllocatePool 240) demo_asked) = (demo_answer EFI_SUCCESS, demo_mapped)"
  by (simp_all add: demo_services demo_map_def demo_filled_def demo_answer_def demo_asked_def demo_mapped_def loader_started_def
      demo_loader_def called_def Let_def)

lemma demo_gather:
  "\<exists>s'. gather_memory_info demo_firmware (loader_started demo_mode demo_loader) = Some s' \<and> total_memory_mb s' = 128"
proof -
  have "add_pages demo_filled 0x200000 48 [0..<1] (0, 0) = (0x8000, 0x8000)"
    by (simp add: demo_descriptor usable_type_def)
  then show ?thesis
    using gather_steps [OF demo_sizing(1), where status = EFI_SUCCESS and mmap = "0x200000" and ?s2.0 = "called (AllocatePool 240) demo_asked"
        and ?a2.0 = "demo_answer EFI_SUCCESS" and ?s3.0 = demo_mapped]
      demo_sizing(2,3)
    by (simp add: demo_answer_def EFI_codes demo_mapped_def)
qed

text \<open>
  C38: When graphics are available and the screen has at most \<open>2 ^ 32 - 4\<close> rows, the loader answers every sequence of keys, provided
  the total of memory is known and does not vanish in 32 bits; otherwise it divides by zero before the menu appears.
\<close>

theorem efi_main_answers_iff_memory_known:
  assumes "fw_locate_gop fw = (EFI_SUCCESS, Some mode)" "unat (VerticalResolution mode) \<le> 2 ^ 32 - 4" "reports_sizes fw"
    and "gather_memory_info fw (loader_started mode s) = Some s1"
  shows "(\<exists>r. efi_main fw kernel_data keys s = Some r) \<longleftrightarrow> (ucast (total_memory_mb s1) :: u32) \<noteq> 0"
proof -
  let ?mn = "\<lparr>mn_selected = 0, mn_running = True, mn_kernel_entry = 0\<rparr>"
  have main: "efi_main fw kernel_data keys s = menu_loop fw kernel_data ?mn keys s1"
    using efi_main_graphics [OF assms(1)] assms(4) by simp
  have h: "unat (gfx_height (ld_gfx s1)) \<le> 2 ^ 32 - 4" using gather_gfx [OF assms(4)] started_height [of mode s] assms(2) by simp
  show ?thesis
  proof (cases "(ucast (total_memory_mb s1) :: u32) = 0")
    case True
    then have "draw_ui fw 0 s1 = None" using draw_ui_stops [OF h] by simp
    then show ?thesis using True main by (subst (asm) menu_loop.simps) simp
  next
    case False
    then show ?thesis using menu_loop_returns [OF assms(3) h False] main by simp
  qed
qed

lemma efi_main_answers_iff_memory_known_witness:
  "\<exists>r. efi_main demo_firmware [0x90] [\<lparr>ScanCode = 0, UnicodeChar = 0x0D\<rparr>] demo_loader = Some r"
proof -
  obtain s1 where "gather_memory_info demo_firmware (loader_started demo_mode demo_loader) = Some s1" "total_memory_mb s1 = 128"
    using demo_gather by blast
  then show ?thesis
    using efi_main_answers_iff_memory_known [of demo_firmware demo_mode demo_loader s1 "[0x90]" "[\<lparr>ScanCode = 0, UnicodeChar = 0x0D\<rparr>]"]
      demo_firmware_laws(1) by (simp add: demo_firmware_def demo_mode_def)
qed

lemma gather_memory_info_totals_witness:
  "\<exists>s'. gather_memory_info demo_firmware (loader_started demo_mode demo_loader) = Some s' \<and> unat (memory_entries s') = 1
    \<and> unat (total_memory_mb s') = 128 \<and> unat (usable_memory_mb s') = 128 \<and> hd (ld_calls s') = FreePool 0x200000"
  using gather_memory_info_totals [OF demo_sizing(1), where status = EFI_SUCCESS and mmap = "0x200000"
      and ?s2.0 = "called (AllocatePool 240) demo_asked" and ?a2.0 = "demo_answer EFI_SUCCESS" and ?s3.0 = demo_mapped and n = 1
      and desc = "\<lambda>i. 0x200000 + of_nat i * 48"] demo_sizing(2,3) demo_descriptor
  by (simp add: demo_answer_def EFI_codes demo_mapped_def usable_type_def) blast

definition demo_ready :: "nat loader" where
  "demo_ready = demo_loader\<lparr>total_memory_mb := 128, usable_memory_mb := 128\<rparr>"

definition enter_key :: EFI_INPUT_KEY where
  "enter_key = \<lparr>ScanCode = 0, UnicodeChar = 0x0D\<rparr>"

lemma demo_ready_screen: "gfx_gop (ld_gfx demo_ready) = Some demo_mode" "unat (gfx_height (ld_gfx demo_ready)) \<le> 2 ^ 32 - 4"
  "(ucast (total_memory_mb demo_ready) :: u32) \<noteq> 0"
  by (simp_all add: demo_ready_def demo_loader_def demo_gfx_def)

text \<open>
  C39: Whatever keys are pressed and whatever the firmware answers, the loader changes no framebuffer word outside the visible
  rectangle, and it leaves the size of the screen, the scan line length and the mode as they are.
\<close>

theorem loader_draws_on_screen:
  assumes "menu_loop fw kernel_data mn keys s = Some r"
  shows "on_screen (ld_gfx s) (ld_gfx (outcome_loader r))"
  using menu_loop_stays [OF assms] by (simp add: stays_def)

lemma loader_draws_on_screen_witness:
  "\<exists>r. menu_loop demo_firmware [0x90] \<lparr>mn_selected = 0, mn_running = True, mn_kernel_entry = 0\<rparr> [enter_key] demo_ready = Some r
    \<and> on_screen (ld_gfx demo_ready) (ld_gfx (outcome_loader r))"
  using menu_loop_returns [OF demo_firmware_laws(1) demo_ready_screen(2,3)] loader_draws_on_screen [of demo_firmware "[0x90]"] by blast

text \<open>A firmware that grants every request leads from the first menu item to the kernel.\<close>

lemma granting_menu_boot:
  assumes "\<And>kind pages addr s. \<exists>s'. allocate_pages fw kind pages addr s = ((EFI_SUCCESS, addr), s')"
    and "\<And>e s. \<exists>s'. boot_kernel fw e s = Entered e s' \<and> P s'"
  shows "\<exists>s'. menu_boot fw kernel_data mn keys s = Some (Ends (KernelRuns 0x100000 s')) \<and> P s'"
proof -
  obtain s1 where 1: "draw_boot_screen ''Preparing kernel...'' 0 s = Some s1" using draw_boot_screen_returns by blast
  obtain s2 where 2: "draw_boot_screen ''Loading kernel...'' 20 (delay_ms 200 s1) = Some s2" using draw_boot_screen_returns by blast
  obtain t where "allocate_pages fw AllocateAddress ((of_nat (length kernel_data) + 4095) div 4096) 0x100000 s2 = ((EFI_SUCCESS, 0x100000), t)"
    using assms(1) by blast
  then obtain s3 where p: "prepare_kernel fw kernel_data (mn_kernel_entry mn) s2 = ((EFI_SUCCESS, 0x100000), s3)"
    by (simp add: prepare_kernel_def allocate_kernel_def EFI_codes Let_def)
  obtain s4 where 4: "draw_boot_screen ''Preparing boot info...'' 50 s3 = Some s4" using draw_boot_screen_returns by blast
  obtain s5 where 5: "draw_boot_screen ''Exiting UEFI services...'' 80 (delay_ms 200 s4) = Some s5" using draw_boot_screen_returns by blast
  obtain s6 where 6: "draw_boot_screen ''Jumping to kernel...'' 100 (delay_ms 200 s5) = Some s6" using draw_boot_screen_returns by blast
  obtain s' where "boot_kernel fw 0x100000 (delay_ms 100 s6) = Entered 0x100000 s'" "P s'" using assms(2) by blast
  then show ?thesis by (simp add: menu_boot_def enter_kernel_def Let_def 1 2 p 4 5 6 EFI_codes)
qed

lemma granting_menu_loop:
  assumes "\<And>kind pages addr s. \<exists>s'. allocate_pages fw kind pages addr s = ((EFI_SUCCESS, addr), s')"
    and "\<And>e s. \<exists>s'. boot_kernel fw e s = Entered e s' \<and> P s'"
  shows "\<exists>s'. menu_loop fw kernel_data \<lparr>mn_selected = 0, mn_running = True, mn_kernel_entry = 0\<rparr> [enter_key] demo_ready
      = Some (KernelRuns 0x100000 s') \<and> P s'"
proof -
  let ?mn = "\<lparr>mn_selected = 0, mn_running = True, mn_kernel_entry = 0\<rparr>"
  obtain s1 where 1: "draw_ui fw 0 demo_ready = Some s1" using draw_ui_stops [OF demo_ready_screen(2)] demo_ready_screen(3) by blast
  obtain s' where b: "menu_boot fw kernel_data ?mn [] s1 = Some (Ends (KernelRuns 0x100000 s'))" "P s'"
    using granting_menu_boot [of fw P, OF assms] by blast
  then have "menu_key fw kernel_data enter_key ?mn [] s1 = Some (Ends (KernelRuns 0x100000 s'))"
    by (simp add: menu_key_def menu_action_def menu_items_def enter_key_def)
  then show ?thesis using 1 b(2) by (subst menu_loop.simps) simp
qed

lemma demo_menu_loop:
  "\<exists>s'. menu_loop demo_firmware kernel_data \<lparr>mn_selected = 0, mn_running = True, mn_kernel_entry = 0\<rparr> [enter_key] demo_ready
      = Some (KernelRuns 0x100000 s')
    \<and> bi_mmap (ld_info s') = 0x200000 \<and> bi_mmap_entries (ld_info s') \<in> {1, 21}"
  by (rule granting_menu_loop) (simp_all only: demo_pages demo_boots prod.inject simp_thms ex_simps)

lemma kernel_entered_prepared_witness:
  "\<exists>s'. menu_loop demo_firmware [0x90, 0xF4] \<lparr>mn_selected = 0, mn_running = True, mn_kernel_entry = 0\<rparr> [enter_key] demo_ready
      = Some (KernelRuns 0x100000 s')
    \<and> bi_magic (ld_info s') = BOOTINFO_MAGIC \<and> bi_kernel_size (ld_info s') = 2 \<and> fbi_pitch (bi_framebuffer (ld_info s')) = 4096"
proof -
  obtain s' where "menu_loop demo_firmware [0x90, 0xF4] \<lparr>mn_selected = 0, mn_running = True, mn_kernel_entry = 0\<rparr> [enter_key] demo_ready
      = Some (KernelRuns 0x100000 s')" using demo_menu_loop by blast
  moreover from this have "bi_magic (ld_info s') = BOOTINFO_MAGIC" "bi_kernel_size (ld_info s') = 2" "fbi_pitch (bi_framebuffer (ld_info s')) = 4096"
    using kernel_entered_prepared [OF demo_firmware_laws(2) _ demo_ready_screen(1), of "[0x90, 0xF4]" _ "[enter_key]" "0x100000" s']
    by (simp_all add: demo_mode_def)
  ultimately show ?thesis by blast
qed


text \<open>
  A firmware whose descriptors have 40 bytes, the size the kernel expects: 128 MB of conventional memory at address 0, then
  1 MB that is reserved, then 64 KB of boot services code.
\<close>

definition packed_byte :: "u64 \<Rightarrow> u8" where
  "packed_byte x = (if x = 0 then 7 else if x = 25 then 0x80 else if x = 51 then 8 else if x = 65 then 1
     else if x = 80 then 3 else if x = 90 then 0x10 else if x = 91 then 8 else if x = 104 then 16 else 0)"

definition packed_map :: "u64 \<Rightarrow> u64 \<Rightarrow> nat \<Rightarrow> mem \<Rightarrow> map_answer \<times> nat \<times> mem" where
  "packed_map req buf f m =
     (if req < 120 then (\<lparr>ma_status = EFI_BUFFER_TOO_SMALL, ma_size = 120, ma_key = of_nat f, ma_desc_size = 40\<rparr>, f, m)
      else (\<lparr>ma_status = EFI_SUCCESS, ma_size = 120, ma_key = of_nat f, ma_desc_size = 40\<rparr>, f,
            \<lambda>x. if x - buf < 120 then packed_byte (x - buf) else m x))"

definition packed_firmware :: "nat firmware" where
  "packed_firmware = demo_firmware\<lparr>fw_get_memory_map := packed_map, fw_exit_boot_services := (\<lambda>key f. (EFI_SUCCESS, f + 1))\<rparr>"

lemma packed_services:
  "get_memory_map packed_firmware req buf s =
     (let (a, f, m) = packed_map req buf (ld_fw s) (ld_mem s) in (a, called (GetMemoryMap req buf) (s\<lparr>ld_fw := f, ld_mem := m\<rparr>)))"
  "allocate_pool packed_firmware req s = ((EFI_SUCCESS, 0x200000), called (AllocatePool req) s)"
  "exit_boot_services packed_firmware key s = (EFI_SUCCESS, called (ExitBootServices key) (s\<lparr>ld_fw := ld_fw s + 1\<rparr>))"
  "allocate_pages packed_firmware kind pages addr s = ((EFI_SUCCESS, addr), called (AllocatePages kind pages addr) s)"
  by (simp_all add: get_memory_map_def allocate_pool_def exit_boot_services_def allocate_pages_def packed_firmware_def demo_firmware_def called_def)

lemma packed_in_buffer: "map_in_buffer packed_firmware"
  by (auto simp: map_in_buffer_def packed_firmware_def packed_map_def)

lemma packed_menu_loop:
  "\<exists>s'. menu_loop packed_firmware kernel_data \<lparr>mn_selected = 0, mn_running = True, mn_kernel_entry = 0\<rparr> [enter_key] demo_ready
      = Some (KernelRuns 0x100000 s')
    \<and> bi_mmap (ld_info s') = 0x200000 \<and> bi_mmap_entries (ld_info s') = 3
    \<and> (\<exists>m. ld_mem s' = (\<lambda>x. if x - 0x200000 < 120 then packed_byte (x - 0x200000) else m x))"
proof (rule granting_menu_loop)
  show "\<exists>s'. allocate_pages packed_firmware kind pages addr s = ((EFI_SUCCESS, addr), s')" for kind pages addr s
    by (simp add: packed_services)
  show "\<exists>s'. boot_kernel packed_firmware e s = Entered e s' \<and> bi_mmap (ld_info s') = 0x200000 \<and> bi_mmap_entries (ld_info s') = 3
    \<and> (\<exists>m. ld_mem s' = (\<lambda>x. if x - 0x200000 < 120 then packed_byte (x - 0x200000) else m x))" for e s
    by (simp add: boot_kernel_def packed_services packed_map_def EFI_codes called_def Let_def) blast
qed

section \<open>The second memory map\<close>

text \<open>
  When the first exit from the boot services fails, the second map is requested with a size computed from the new map, in
  the buffer that was allocated for the old one.
\<close>

theorem boot_kernel_retry_ignores_pool_size:
  assumes "get_memory_map fw 0 NULL s = (a1, s1)" "ma_status a1 = EFI_BUFFER_TOO_SMALL"
    and "allocate_pool fw (ma_size a1 + ma_desc_size a1 * 16) s1 = ((status, mmap), s2)" "\<not> EFI_ERROR status"
    and "get_memory_map fw (ma_size a1 + ma_desc_size a1 * 16) mmap s2 = (a2, s3)" "\<not> EFI_ERROR (ma_status a2)" "ma_desc_size a2 \<noteq> 0"
    and "exit_boot_services fw (ma_key a2) (s3\<lparr>ld_info := (ld_info s3)\<lparr>bi_mmap := mmap,
       bi_mmap_entries := ma_size a2 div ma_desc_size a2, bi_mmap_entry_size := ma_desc_size a2\<rparr>\<rparr>) = (x, s4)" "EFI_ERROR x"
    and "get_memory_map fw 0 NULL s4 = (a3, s5)" "handover_loader (boot_kernel fw e s) = Some s'"
  shows "GetMemoryMap (ma_size a3 + ma_desc_size a3 * 16) mmap \<in> set (ld_calls s')
    \<and> AllocatePool (ma_size a1 + ma_desc_size a1 * 16) \<in> set (ld_calls s')"
proof -
  have c: "ld_calls s1 = GetMemoryMap 0 NULL # ld_calls s" "ld_calls s2 = AllocatePool (ma_size a1 + ma_desc_size a1 * 16) # ld_calls s1"
    "ld_calls s3 = GetMemoryMap (ma_size a1 + ma_desc_size a1 * 16) mmap # ld_calls s2" "ld_calls s4 = ExitBootServices (ma_key a2) # ld_calls s3"
    "ld_calls s5 = GetMemoryMap 0 NULL # ld_calls s4"
    using assms(1,3,5,8,10) by (auto simp: get_memory_map_def allocate_pool_def exit_boot_services_def called_def case_prod_beta Let_def)
  obtain a4 s6 where 6: "get_memory_map fw (ma_size a3 + ma_desc_size a3 * 16) mmap s5 = (a4, s6)"
    by (cases "get_memory_map fw (ma_size a3 + ma_desc_size a3 * 16) mmap s5")
  have c6: "ld_calls s6 = GetMemoryMap (ma_size a3 + ma_desc_size a3 * 16) mmap # ld_calls s5"
    using service_fields(4) [of fw "ma_size a3 + ma_desc_size a3 * 16" mmap s5] 6 by simp
  have "set (ld_calls s6) \<subseteq> set (ld_calls s')"
    using assms(11) unfolding boot_kernel_def Let_def assms(1,3,5,8,10) prod.case 6
    using assms(2,4,6,7,9) by (auto simp: case_prod_beta split: if_split_asm)
  then show ?thesis using c c6 by auto
qed

text \<open>On the firmware above the buffer has 816 bytes, and the second call claims 1776.\<close>

lemma boot_kernel_retry_ignores_pool_size_witness:
  "\<exists>s'. handover_loader (boot_kernel demo_firmware 0x100000 demo_loader) = Some s'
    \<and> GetMemoryMap 1776 0x200000 \<in> set (ld_calls s') \<and> AllocatePool 816 \<in> set (ld_calls s')"
proof -
  obtain s' where b: "handover_loader (boot_kernel demo_firmware 0x100000 demo_loader) = Some s'"
    using demo_boots [of "0x100000" demo_loader] by (metis handover_loader.simps(2))
  define s1 s2 where "s1 = called (GetMemoryMap 0 NULL) demo_loader" and "s2 = called (AllocatePool 816) s1"
  define m where "m = snd (snd (demo_map 816 0x200000 0 (\<lambda>_. 0)))"
  define s3 where "s3 = called (GetMemoryMap 816 0x200000) (s2\<lparr>ld_mem := m\<rparr>)"
  define s4 where "s4 = called (ExitBootServices 0) (s3\<lparr>ld_info := (ld_info s3)\<lparr>bi_mmap := 0x200000, bi_mmap_entries := 1, bi_mmap_entry_size := 48\<rparr>, ld_fw := 1\<rparr>)"
  note d = demo_services demo_map_def called_def Let_def demo_loader_def demo_answer_def
  have "get_memory_map demo_firmware 0 NULL demo_loader = (demo_answer EFI_BUFFER_TOO_SMALL, s1)" by (simp add: d s1_def)
  moreover have "allocate_pool demo_firmware 816 s1 = ((EFI_SUCCESS, 0x200000), s2)" by (simp add: d s2_def)
  moreover have "get_memory_map demo_firmware 816 0x200000 s2 = (demo_answer EFI_SUCCESS, s3)" by (simp add: d s1_def s2_def s3_def m_def)
  moreover have "exit_boot_services demo_firmware 0 (s3\<lparr>ld_info := (ld_info s3)\<lparr>bi_mmap := 0x200000, bi_mmap_entries := 1, bi_mmap_entry_size := 48\<rparr>\<rparr>)
      = (EFI_ERROR_MASK OR 2, s4)" by (simp add: d s1_def s2_def s3_def s4_def)
  moreover have "get_memory_map demo_firmware 0 NULL s4 =
      (\<lparr>ma_status = EFI_BUFFER_TOO_SMALL, ma_size = 1008, ma_key = 1, ma_desc_size = 48\<rparr>, called (GetMemoryMap 0 NULL) s4)"
    by (simp add: d s1_def s2_def s3_def s4_def)
  ultimately show ?thesis
    using boot_kernel_retry_ignores_pool_size [of demo_firmware demo_loader "demo_answer EFI_BUFFER_TOO_SMALL" s1 EFI_SUCCESS "0x200000" s2
        "demo_answer EFI_SUCCESS" s3 "EFI_ERROR_MASK OR 2" s4 "\<lparr>ma_status = EFI_BUFFER_TOO_SMALL, ma_size = 1008, ma_key = 1, ma_desc_size = 48\<rparr>"
        "called (GetMemoryMap 0 NULL) s4" "0x100000" s'] b by (simp add: demo_answer_def EFI_codes)
qed

section \<open>Moving in the menu\<close>

text \<open>A reference for the selection: arrows move it within the four items, other keys that choose nothing leave it.\<close>

definition move_selection :: "EFI_INPUT_KEY \<Rightarrow> int \<Rightarrow> int" where
  "move_selection key i = (if ScanCode key = 1 then max 0 (i - 1) else if ScanCode key = 2 then min 3 (i + 1) else i)"

definition chooses :: "EFI_INPUT_KEY \<Rightarrow> bool" where
  "chooses key \<longleftrightarrow> ScanCode key \<notin> {1, 2} \<and> (UnicodeChar key \<in> {0x0D, 32} \<or> ScanCode key = 0x17)"

lemma menu_key_moves:
  assumes "\<not> chooses key" "0 \<le> mn_selected mn" "mn_selected mn \<le> 3"
  shows "menu_key fw kernel_data key mn keys s = Some (Goes (mn\<lparr>mn_selected := move_selection key (mn_selected mn)\<rparr>) keys s)
    \<and> 0 \<le> move_selection key (mn_selected mn) \<and> move_selection key (mn_selected mn) \<le> 3"
  using assms by (auto simp: menu_key_def chooses_def move_selection_def MENU_COUNT_def)


text \<open>
  Keys that choose nothing only move the selection, as the reference does, and never off the four items: after them the
  loop goes on as if it had started at the new selection, with nothing but the screen redrawn.
\<close>

theorem menu_loop_navigates:
  assumes "\<forall>key \<in> set ks. \<not> chooses key" "mn_running mn" "0 \<le> mn_selected mn" "mn_selected mn \<le> 3"
    and "unat (gfx_height (ld_gfx s)) \<le> 2 ^ 32 - 4" "(ucast (total_memory_mb s) :: u32) \<noteq> 0"
  shows "\<exists>g. on_screen (ld_gfx s) g \<and> fold move_selection ks (mn_selected mn) \<in> {0..3}
    \<and> menu_loop fw kernel_data mn (ks @ keys) s =
      menu_loop fw kernel_data (mn\<lparr>mn_selected := fold move_selection ks (mn_selected mn)\<rparr>) keys (s\<lparr>ld_gfx := g\<rparr>)"
  using assms
proof (induction ks arbitrary: mn s)
  case Nil
  then show ?case by (intro exI [of _ "ld_gfx s"]) simp
next
  case (Cons key ks)
  let ?mn = "mn\<lparr>mn_selected := move_selection key (mn_selected mn)\<rparr>"
  obtain s1 where s1: "draw_ui fw (mn_selected mn) s = Some s1" using draw_ui_stops [OF Cons(6)] Cons(7) by blast
  then obtain g1 where g1: "s1 = s\<lparr>ld_gfx := g1\<rparr>" by (auto simp: draw_ui_def bind_eq_Some_conv)
  then have on: "on_screen (ld_gfx s) g1" using draw_ui_on_screen [OF s1] by simp
  have mv: "menu_key fw kernel_data key mn (ks @ keys) s1 = Some (Goes ?mn (ks @ keys) s1)"
    "0 \<le> mn_selected ?mn" "mn_selected ?mn \<le> 3" using menu_key_moves [of key mn fw kernel_data "ks @ keys" s1] Cons(2,4,5) by simp_all
  have "unat (gfx_height (ld_gfx s1)) \<le> 2 ^ 32 - 4" "(ucast (total_memory_mb s1) :: u32) \<noteq> 0" "mn_running ?mn" "\<forall>key \<in> set ks. \<not> chooses key"
    using Cons(2,3,6,7) g1 on_screen_dims(2) [OF on] by simp_all
  then obtain g where g: "on_screen (ld_gfx s1) g" "fold move_selection ks (mn_selected ?mn) \<in> {0..3}"
    "menu_loop fw kernel_data ?mn (ks @ keys) s1 = menu_loop fw kernel_data (?mn\<lparr>mn_selected := fold move_selection ks (mn_selected ?mn)\<rparr>) keys (s1\<lparr>ld_gfx := g\<rparr>)"
    using Cons(1) [of ?mn s1] mv(2,3) by blast
  have "menu_loop fw kernel_data mn ((key # ks) @ keys) s = menu_loop fw kernel_data ?mn (ks @ keys) s1"
    using Cons(3) s1 mv(1) by (subst menu_loop.simps) simp
  then show ?case using g on_screen_trans [OF on] g1 by (intro exI [of _ g]) simp
qed

lemma menu_loop_navigates_witness:
  "\<exists>g. on_screen (ld_gfx demo_ready) g
    \<and> menu_loop demo_firmware [] \<lparr>mn_selected = 0, mn_running = True, mn_kernel_entry = 0\<rparr>
        [\<lparr>ScanCode = 1, UnicodeChar = 0\<rparr>, \<lparr>ScanCode = 2, UnicodeChar = 0\<rparr>, enter_key] demo_ready =
      menu_loop demo_firmware [] \<lparr>mn_selected = 1, mn_running = True, mn_kernel_entry = 0\<rparr> [enter_key] (demo_ready\<lparr>ld_gfx := g\<rparr>)"
  using menu_loop_navigates [of "[\<lparr>ScanCode = 1, UnicodeChar = 0\<rparr>, \<lparr>ScanCode = 2, UnicodeChar = 0\<rparr>]"
      "\<lparr>mn_selected = 0, mn_running = True, mn_kernel_entry = 0\<rparr>" demo_ready demo_firmware "[]" "[enter_key]"] demo_ready_screen(2,3)
  by (simp add: chooses_def move_selection_def)

section \<open>Numbers\<close>

lemma digits_back_dec: "dec_loop num acc = rev (digits_back num) @ acc"
proof (induction num arbitrary: acc rule: digits_back.induct)
  case (1 num)
  show ?case
  proof (cases "num = 0")
    case False
    then have "0 < num" by (simp add: word_gt_0)
    then show ?thesis using 1 [of "(48 + ucast (num mod 10)) # acc"] by (subst dec_loop.simps, subst digits_back.simps) simp
  qed (simp add: dec_loop.simps digits_back.simps)
qed

lemma digits_back_length: "unat num < 10 ^ n \<Longrightarrow> length (digits_back num) \<le> n"
proof (induction n arbitrary: num)
  case 0
  then show ?case by (simp add: digits_back.simps unat_eq_0)
next
  case (Suc n)
  have "unat (num div 10) = unat num div 10" by (simp add: unat_div_distrib)
  then have "unat (num div 10) < 10 ^ n" using Suc(2) by (simp add: div_less_iff_less_mult mult.commute)
  then show ?case using Suc(1) [of "num div 10"] by (subst digits_back.simps) simp
qed

text \<open>
  The loader's conversion of numbers writes the same decimal digits as the console of the kernel, followed by one zero
  byte, and never more than the 32 bytes of its buffers.
\<close>

theorem int_to_str_decimal: "int_to_str num = dec_digits num @ [0] \<and> length (int_to_str num) \<le> 21"
proof -
  have "unat num < 10 ^ 20" using unsigned_less [of num, where ?'a = nat] by simp
  then show ?thesis using digits_back_length [of num 20] by (simp add: int_to_str_def dec_digits_def digits_back_dec)
qed

end
