(* ===== verification/Entry_Stubs.thy ===== *)
theory Entry_Stubs
  imports Syscall
begin

text \<open>
  The interrupt stubs of \<open>src/kernel/cpu/isr.S\<close>, with \<open>interrupt_frame_t\<close> of \<open>idt.h\<close>, and the entry point of the kernel,
  \<open>src/kernel/entry.S\<close>, instruction by instruction on the registers of \<open>Syscall\<close> and byte-addressed memory. The
  called C functions are arguments.
\<close>

section \<open>Interrupt stubs\<close>

text \<open>The registers an interrupt saves and restores besides the general ones.\<close>

record int_state =
  i_rip :: u64
  i_cs :: u64
  i_rflags :: u64
  i_ss :: u64

definition push_value :: "u64 \<Rightarrow> regs \<times> mem \<Rightarrow> regs \<times> mem" where
  "push_value v = pushq (\<lambda>_. v)"

text \<open>
  What the processor does before the stub, when the interrupted code runs at the privilege level of the kernel and the gate
  names no interrupt stack, as is the case for every gate of \<open>idt_init\<close>: it aligns the stack pointer to 16 bytes
  and pushes the stack segment and pointer, the flags, the code segment and the instruction pointer. Behind them it pushes
  an error code for the exceptions for which its manuals list one: double fault, invalid task state segment, segment not
  present, stack fault, general protection, page fault, alignment check, control protection, and the two exceptions of the
  virtualisation extensions. The table is the processor's, whatever the stubs expect.
\<close>

definition cpu_pushes_error :: "nat \<Rightarrow> bool" where
  "cpu_pushes_error num \<longleftrightarrow> num \<in> {8, 10, 11, 12, 13, 14, 17, 21, 29, 30}"

definition deliver :: "nat \<Rightarrow> u64 \<Rightarrow> int_state \<Rightarrow> regs \<times> mem \<Rightarrow> regs \<times> mem" where
  "deliver num e i s =
     (let old_rsp = g_rsp (fst s);
          s = mov (\<lambda>r. r\<lparr>g_rsp := g_rsp r AND NOT 15\<rparr>) s;
          s = push_value (i_ss i) s;
          s = push_value old_rsp s;
          s = push_value (i_rflags i) s;
          s = push_value (i_cs i) s;
          s = push_value (i_rip i) s
      in if cpu_pushes_error num then push_value e s else s)"

text \<open>The two macros that make a stub, and the stub of a vector: there are stubs for the vectors 0 to 20 and 32 to 47.\<close>

definition ISR_NOERRCODE :: "nat \<Rightarrow> regs \<times> mem \<Rightarrow> regs \<times> mem" where
  "ISR_NOERRCODE num s = (let s = push_value 0 s in push_value (of_nat num) s)"

definition ISR_ERRCODE :: "nat \<Rightarrow> regs \<times> mem \<Rightarrow> regs \<times> mem" where
  "ISR_ERRCODE num s = push_value (of_nat num) s"

definition isr :: "nat \<Rightarrow> (regs \<times> mem \<Rightarrow> regs \<times> mem) option" where
  "isr num =
     (if num \<in> {8, 10, 11, 12, 13, 14} then Some (ISR_ERRCODE num)
      else if num \<le> 20 \<or> 32 \<le> num \<and> num \<le> 47 then Some (ISR_NOERRCODE num)
      else None)"

definition isr_save :: "regs \<times> mem \<Rightarrow> regs \<times> mem" where
  "isr_save s =
     (let s = pushq g_rax s; s = pushq g_rbx s; s = pushq g_rcx s; s = pushq g_rdx s; s = pushq g_rsi s; s = pushq g_rdi s;
          s = pushq g_rbp s; s = pushq g_r8 s; s = pushq g_r9 s; s = pushq g_r10 s; s = pushq g_r11 s; s = pushq g_r12 s;
          s = pushq g_r13 s; s = pushq g_r14 s; s = pushq g_r15 s;
          s = mov (\<lambda>r. r\<lparr>g_rsp := g_rsp r - 8\<rparr>) s
      in mov (\<lambda>r. r\<lparr>g_rdi := g_rsp r + 8\<rparr>) s)"

definition isr_restore :: "regs \<times> mem \<Rightarrow> regs \<times> mem" where
  "isr_restore s =
     (let s = mov (\<lambda>r. r\<lparr>g_rsp := g_rsp r + 8\<rparr>) s;
          s = popq (\<lambda>v r. r\<lparr>g_r15 := v\<rparr>) s; s = popq (\<lambda>v r. r\<lparr>g_r14 := v\<rparr>) s; s = popq (\<lambda>v r. r\<lparr>g_r13 := v\<rparr>) s;
          s = popq (\<lambda>v r. r\<lparr>g_r12 := v\<rparr>) s; s = popq (\<lambda>v r. r\<lparr>g_r11 := v\<rparr>) s; s = popq (\<lambda>v r. r\<lparr>g_r10 := v\<rparr>) s;
          s = popq (\<lambda>v r. r\<lparr>g_r9 := v\<rparr>) s; s = popq (\<lambda>v r. r\<lparr>g_r8 := v\<rparr>) s; s = popq (\<lambda>v r. r\<lparr>g_rbp := v\<rparr>) s;
          s = popq (\<lambda>v r. r\<lparr>g_rdi := v\<rparr>) s; s = popq (\<lambda>v r. r\<lparr>g_rsi := v\<rparr>) s; s = popq (\<lambda>v r. r\<lparr>g_rdx := v\<rparr>) s;
          s = popq (\<lambda>v r. r\<lparr>g_rcx := v\<rparr>) s; s = popq (\<lambda>v r. r\<lparr>g_rbx := v\<rparr>) s; s = popq (\<lambda>v r. r\<lparr>g_rax := v\<rparr>) s
      in mov (\<lambda>r. r\<lparr>g_rsp := g_rsp r + 16\<rparr>) s)"

text \<open>The return from an interrupt pops what the processor pushed.\<close>

definition iretq :: "regs \<times> mem \<Rightarrow> int_state \<times> regs \<times> mem" where
  "iretq s = (case s of (r, m) \<Rightarrow>
     (\<lparr>i_rip = load64 m (g_rsp r), i_cs = load64 m (g_rsp r + 8), i_rflags = load64 m (g_rsp r + 16), i_ss = load64 m (g_rsp r + 32)\<rparr>,
      r\<lparr>g_rsp := load64 m (g_rsp r + 24)\<rparr>, m))"

text \<open>
  The whole path. The call pushes the return address \<open>ret\<close> and enters \<open>interrupt_handler\<close> with the address of
  the frame in \<open>rdi\<close>; the state the handler gives back is the one behind its own return instruction, which pops that
  address. It may not return.
\<close>

definition isr_common_stub ::
  "u64 \<Rightarrow> (regs \<times> mem \<Rightarrow> (regs \<times> mem) option) \<Rightarrow> regs \<times> mem \<Rightarrow> (int_state \<times> regs \<times> mem) option" where
  "isr_common_stub ret handler s =
     (let s = isr_save s;
          s = push_value ret s
      in case handler s of None \<Rightarrow> None | Some s \<Rightarrow> Some (iretq (isr_restore s)))"

section \<open>The frame\<close>

text \<open>The fields of \<open>interrupt_frame_t\<close> in the order of the structure, and where they are in memory.\<close>

definition interrupt_frame :: "regs \<Rightarrow> u64 \<Rightarrow> u64 \<Rightarrow> int_state \<Rightarrow> u64 list" where
  "interrupt_frame r num err i =
     [g_r15 r, g_r14 r, g_r13 r, g_r12 r, g_r11 r, g_r10 r, g_r9 r, g_r8 r, g_rbp r, g_rdi r, g_rsi r, g_rdx r, g_rcx r,
      g_rbx r, g_rax r, num, err, i_rip i, i_cs i, i_rflags i, g_rsp r, i_ss i]"

fun words_at :: "mem \<Rightarrow> u64 \<Rightarrow> u64 list \<Rightarrow> bool" where
  "words_at m a [] \<longleftrightarrow> True"
| "words_at m a (w # ws) \<longleftrightarrow> load64 m a = w \<and> words_at m (a + 8) ws"

lemma words_at_push:
  assumes "aligned 3 a" "words_at m a ws" "length ws < 2 ^ 60"
  shows "words_at (store64 m (a - 8) v) (a - 8) (v # ws)"
proof -
  have al: "aligned 3 8" by (simp add: aligned_unat)
  have "words_at (store64 m (a - 8) v) (a + 8 * of_nat k) ws" if "words_at m (a + 8 * of_nat k) ws" "length ws + k < 2 ^ 60" for k
    using that
  proof (induction ws arbitrary: k)
    case (Cons w ws)
    have "aligned 3 (8 * of_nat k)" using aligned_mult [of 3 "of_nat k"] by simp
    then have b: "aligned 3 (a + 8 * of_nat k)" using assms(1) aligned_add by blast
    have "a - 8 \<noteq> a + 8 * of_nat k"
    proof
      assume "a - 8 = a + 8 * of_nat k"
      then have "8 * of_nat (Suc k) = (0 :: u64)" by (simp add: algebra_simps)
      then have "of_nat (8 * Suc k) = (0 :: u64)" by simp
      then have "2 ^ 64 dvd 8 * Suc k" unfolding word_of_nat_eq_0_iff by simp
      then show False using dvd_imp_le [of "2 ^ 64" "8 * Suc k"] Cons(3) by simp
    qed
    then have "load64 (store64 m (a - 8) v) (a + 8 * of_nat k) = load64 m (a + 8 * of_nat k)"
      using qword.ld_other [OF aligned_diff [OF assms(1) al] b] by simp
    moreover have "a + 8 * of_nat k + 8 = a + 8 * of_nat (Suc k)" by (simp add: algebra_simps)
    ultimately show ?case using Cons(1) [of "Suc k"] Cons(2,3) by (simp add: ac_simps)
  qed simp
  from this [of 0] show ?thesis using assms(2,3) by (simp add: load64_store64_same)
qed

text \<open>A run of pushes puts the values on the stack, the last one at the lowest address.\<close>

lemma fold_pushq_words:
  assumes "aligned 3 (g_rsp r)" "words_at m (g_rsp r) ws" "length fs + length ws < 2 ^ 60"
    and "\<forall>f \<in> set fs. \<forall>r v. f (r\<lparr>g_rsp := v\<rparr>) = f r"
  shows "\<exists>m'. fold pushq fs (r, m) = (r\<lparr>g_rsp := g_rsp r - 8 * of_nat (length fs)\<rparr>, m')
    \<and> words_at m' (g_rsp r - 8 * of_nat (length fs)) (rev (map (\<lambda>f. f r) fs) @ ws)"
  using assms
proof (induction fs arbitrary: r m ws)
  case (Cons f fs)
  let ?r = "r\<lparr>g_rsp := g_rsp r - 8\<rparr>"
  let ?m = "store64 m (g_rsp r - 8) (f r)"
  have "aligned 3 8" by (simp add: aligned_unat)
  then have 1: "aligned 3 (g_rsp ?r)" "words_at ?m (g_rsp ?r) (f r # ws)"
    using words_at_push [OF Cons(2,3)] Cons(2,4) aligned_diff by auto
  have mp: "map (\<lambda>f. f ?r) fs = map (\<lambda>f. f r) fs" using Cons(5) by simp
  have "\<exists>m'. fold pushq fs (?r, ?m) = (?r\<lparr>g_rsp := g_rsp ?r - 8 * of_nat (length fs)\<rparr>, m')
    \<and> words_at m' (g_rsp ?r - 8 * of_nat (length fs)) (rev (map (\<lambda>f. f r) fs) @ f r # ws)"
    using Cons(1) [OF 1, unfolded mp] Cons(4,5) by simp
  moreover have "pushq f (r, m) = (?r, ?m)" by (simp add: pushq_def)
  ultimately show ?case by (simp add: algebra_simps)
qed simp

text \<open>
  The words on the stack when the handler is called, for what the processor and the stub have pushed between the
  instruction pointer and the saved registers: an error code, a dummy one and the number.
\<close>

definition pushed_frame :: "regs \<Rightarrow> u64 list \<Rightarrow> int_state \<Rightarrow> u64 list" where
  "pushed_frame r mid i =
     [g_r15 r, g_r14 r, g_r13 r, g_r12 r, g_r11 r, g_r10 r, g_r9 r, g_r8 r, g_rbp r, g_rdi r, g_rsi r, g_rdx r, g_rcx r,
      g_rbx r, g_rax r] @ mid @ [i_rip i, i_cs i, i_rflags i, g_rsp r, i_ss i]"

lemma isr_path_pushes:
  assumes "stub = fold pushq (map (\<lambda>v _. v) mid)"
  shows "isr_save (stub (deliver num e i (r, m))) =
    mov (\<lambda>r. r\<lparr>g_rdi := g_rsp r + 8\<rparr>) (mov (\<lambda>r. r\<lparr>g_rsp := g_rsp r - 8\<rparr>) (fold pushq
      ([\<lambda>_. i_ss i, \<lambda>_. g_rsp r, \<lambda>_. i_rflags i, \<lambda>_. i_cs i, \<lambda>_. i_rip i]
       @ map (\<lambda>v _. v) ((if cpu_pushes_error num then [e] else []) @ mid)
       @ [g_rax, g_rbx, g_rcx, g_rdx, g_rsi, g_rdi, g_rbp, g_r8, g_r9, g_r10, g_r11, g_r12, g_r13, g_r14, g_r15])
      (r\<lparr>g_rsp := g_rsp r AND NOT 15\<rparr>, m)))"
  by (simp add: isr_save_def assms deliver_def push_value_def mov_def Let_def)

lemma stubs_push:
  "ISR_ERRCODE num = fold pushq (map (\<lambda>v _. v) [of_nat num])"
  "ISR_NOERRCODE num = fold pushq (map (\<lambda>v _. v) [0, of_nat num])"
  by (simp_all add: fun_eq_iff ISR_ERRCODE_def ISR_NOERRCODE_def push_value_def)

lemma aligned_and_not: "aligned 4 (a AND NOT 15)"
proof -
  have "(15 :: u64) = mask 4" by (simp add: mask_eq_exp_minus_1)
  then show ?thesis unfolding aligned_def by (auto intro: bit_eqI simp: bit_simps)
qed

text \<open>At the entry of the handler the frame is complete, and the return address is below it, with a gap between them.\<close>

lemma isr_saves_frame:
  fixes num :: nat and e :: u64 and r :: regs
  assumes "stub = fold pushq (map (\<lambda>v _. v) mid)" "length mid \<le> 2"
  defines "n \<equiv> (if cpu_pushes_error num then [e] else []) @ mid"
  defines "sp \<equiv> (g_rsp r AND NOT 15) - 8 * of_nat (20 + length n)"
  shows "\<exists>m'. push_value ret (isr_save (stub (deliver num e i (r, m)))) = (r\<lparr>g_rdi := sp, g_rsp := sp - 16\<rparr>, m')
    \<and> words_at m' sp (pushed_frame r (rev n) i)"
proof -
  let ?r = "r\<lparr>g_rsp := g_rsp r AND NOT 15\<rparr>"
  let ?fs = "[\<lambda>_. i_ss i, \<lambda>_. g_rsp r, \<lambda>_. i_rflags i, \<lambda>_. i_cs i, \<lambda>_. i_rip i] @ map (\<lambda>v _. v) n
    @ [g_rax, g_rbx, g_rcx, g_rdx, g_rsi, g_rdi, g_rbp, g_r8, g_r9, g_r10, g_r11, g_r12, g_r13, g_r14, g_r15]"
  have al: "aligned 3 (g_rsp ?r)" using aligned_mono [OF aligned_and_not [of "g_rsp r"], of 3] by simp
  have len: "length n \<le> 3" using assms(2) by (simp add: n_def)
  then obtain m1 where f: "fold pushq ?fs (?r, m) = (?r\<lparr>g_rsp := sp\<rparr>, m1)" "words_at m1 sp (pushed_frame r (rev n) i)"
    using fold_pushq_words [OF al, of m "[]" ?fs]
    by (auto simp: sp_def pushed_frame_def rev_map comp_def ac_simps simp del: fold.simps)
  have "aligned 3 (8 * of_nat (20 + length n))" using aligned_mult [of 3 "of_nat (20 + length n)"] by simp
  then have "aligned 3 sp" unfolding sp_def using al aligned_diff by simp
  moreover have "aligned 3 8" by (simp add: aligned_unat)
  ultimately have "aligned 3 (sp - 8)" using aligned_diff by blast
  moreover have "words_at m1 (sp - 8) (load64 m1 (sp - 8) # pushed_frame r (rev n) i)" using f(2) by simp
  ultimately have "words_at (store64 m1 (sp - 8 - 8) ret) (sp - 8 - 8) (ret # load64 m1 (sp - 8) # pushed_frame r (rev n) i)"
    by (rule words_at_push) (use len in \<open>simp add: pushed_frame_def\<close>)
  then have "words_at (store64 m1 (sp - 16) ret) sp (pushed_frame r (rev n) i)" by simp
  moreover have "push_value ret (isr_save (stub (deliver num e i (r, m)))) = (r\<lparr>g_rdi := sp, g_rsp := sp - 16\<rparr>, store64 m1 (sp - 16) ret)"
    unfolding isr_path_pushes [OF assms(1)] n_def [symmetric] f(1) by (simp add: mov_def push_value_def pushq_def)
  ultimately show ?thesis by blast
qed

lemma isr_restores_frame:
  assumes "words_at m sp (interrupt_frame r num err i)" "g_rsp r' = sp - 8"
  shows "iretq (isr_restore (r', m)) = (i, r, m)"
  using assms by (cases r; cases r'; cases i)
    (simp add: isr_restore_def iretq_def popq_def mov_def interrupt_frame_def Let_def add.assoc)

lemma words_at_nth: "words_at m a ws \<longleftrightarrow> (\<forall>k < length ws. load64 m (a + 8 * of_nat k) = ws ! k)"
proof (induction ws arbitrary: a)
  case (Cons w ws)
  have "a + 8 + 8 * of_nat k = a + 8 * of_nat (Suc k)" for k by (simp add: algebra_simps)
  then have "(\<forall>k < length ws. load64 m (a + 8 + 8 * of_nat k) = ws ! k) \<longleftrightarrow> (\<forall>k < length ws. load64 m (a + 8 * of_nat (Suc k)) = ws ! k)" by metis
  then show ?case using Cons [of "a + 8"] by (simp only: words_at.simps list.size(4) add_0 add_Suc_right add_0_right All_less_Suc2 nth_Cons_0 nth_Cons_Suc
        ) simp
qed simp

text \<open>Where stub and processor agree, exactly one word stands for the error code.\<close>

lemma isr_agrees:
  assumes "isr num = Some stub" "num \<noteq> 17"
  obtains mid where "stub = fold pushq (map (\<lambda>v _. v) mid)" "length mid \<le> 2"
    "rev ((if cpu_pushes_error num then [e] else []) @ mid) = [of_nat num, if cpu_pushes_error num then e else 0]"
proof (cases "num \<in> {8, 10, 11, 12, 13, 14}")
  case True
  then have "stub = ISR_ERRCODE num" "cpu_pushes_error num" using assms(1) by (auto simp: isr_def cpu_pushes_error_def)
  then show ?thesis using that [of "[of_nat num]"] by (simp add: stubs_push)
next
  case False
  then have "stub = ISR_NOERRCODE num" "\<not> cpu_pushes_error num"
    using assms by (auto simp: isr_def cpu_pushes_error_def split: if_splits)
  then show ?thesis using that [of "[0, of_nat num]"] by (simp add: stubs_push)
qed

text \<open>
  C40: An interrupt or exception with a stub is transparent, except the alignment check, vector 17
  (\<open>alignment_check_frame_shifted\<close>). The processor pushes an error code for the vectors its manuals list, and the stub pushes
  what is missing; whatever the handler does, if it returns, with the return address popped, and has not written to the
  frame, the interrupted code continues with all its registers, its stack and its flags; and the handler
  finds the interrupt number, the processor's error code or zero, and the saved registers in the fields of the structure it
  is passed. The stack pointer is a multiple of 16 at the first instruction of the handler, where the calling convention
  asks for 8 modulo 16: the stub subtracts 8 from a stack pointer that was right.
\<close>

theorem interrupt_is_transparent:
  assumes "isr num = Some stub" "num \<noteq> 17"
    and "push_value ret (isr_save (stub (deliver num e i (r, m)))) = (r1, m1)"
    and "handler (r1, m1) = Some (r2, m2)" "g_rsp r2 = g_rsp r1 + 8"
    and "\<forall>k < 22. load64 m2 (g_rdi r1 + 8 * of_nat k) = load64 m1 (g_rdi r1 + 8 * of_nat k)"
  shows "isr_common_stub ret handler (stub (deliver num e i (r, m))) = Some (i, r, m2)
    \<and> words_at m1 (g_rdi r1) (interrupt_frame r (of_nat num) (if cpu_pushes_error num then e else 0) i)
    \<and> unat (g_rsp r1) mod 16 = 0"
proof -
  let ?f = "interrupt_frame r (of_nat num) (if cpu_pushes_error num then e else 0) i"
  let ?sp = "(g_rsp r AND NOT 15) - 176"
  obtain mid where mid: "stub = fold pushq (map (\<lambda>v _. v) mid)" "length mid \<le> 2"
    "rev ((if cpu_pushes_error num then [e] else []) @ mid) = [of_nat num, if cpu_pushes_error num then e else 0]"
    by (rule isr_agrees [OF assms(1,2)])
  have "length ((if cpu_pushes_error num then [e] else []) @ mid) = 2" using arg_cong [OF mid(3), of length] by simp
  then have s: "r1 = r\<lparr>g_rdi := ?sp, g_rsp := ?sp - 16\<rparr>" "words_at m1 ?sp ?f"
    using isr_saves_frame [OF mid(1,2), where num = num and e = e and ret = ret and i = i and r = r and m = m, unfolded mid(3)] assms(3)
    by (auto simp: pushed_frame_def interrupt_frame_def)
  have len: "length ?f = 22" by (simp add: interrupt_frame_def)
  then have "words_at m2 ?sp ?f" using s assms(6) unfolding words_at_nth by simp
  then have "iretq (isr_restore (r2, m2)) = (i, r, m2)" by (rule isr_restores_frame) (simp add: assms(5) s(1))
  then have "isr_common_stub ret handler (stub (deliver num e i (r, m))) = Some (i, r, m2)"
    by (simp add: isr_common_stub_def assms(3,4))
  moreover have "aligned 4 (g_rsp r1)"
  proof -
    have "aligned 4 192" by (simp add: aligned_unat)
    then have "aligned 4 ((g_rsp r AND NOT 15) - 192)" using aligned_and_not aligned_diff by blast
    then show ?thesis by (simp add: s(1))
  qed
  ultimately show ?thesis using s by (simp add: aligned_unat)
qed

section \<open>The kernel's entry point\<close>

text \<open>The string instruction that stores a value a number of times.\<close>

function rep_stosq :: "u64 \<Rightarrow> u64 \<Rightarrow> u64 \<Rightarrow> mem \<Rightarrow> mem" where
  "rep_stosq n a v m = (if n = 0 then m else rep_stosq (n - 1) (a + 8) v (store64 m a v))"
  by pat_completeness auto
termination
proof (relation "measure (\<lambda>(n, a, v, m). unat n)")
  fix n :: u64 and a v :: u64 and m :: mem
  assume "n \<noteq> 0"
  then have "unat (n - 1) < unat n" by (simp add: measure_unat)
  then show "((n - 1, a + 8, v, store64 m a v), n, a, v, m) \<in> measure (\<lambda>(n, a, v, m). unat n)" by simp
qed simp

declare rep_stosq.simps [simp del]

definition clear_bss :: "u64 \<Rightarrow> u64 \<Rightarrow> regs \<times> mem \<Rightarrow> regs \<times> mem" where
  "clear_bss bss_start bss_end s =
     (let s = mov (\<lambda>r. r\<lparr>g_rdi := bss_start\<rparr>) s;
          s = mov (\<lambda>r. r\<lparr>g_rcx := bss_end\<rparr>) s;
          s = mov (\<lambda>r. r\<lparr>g_rcx := g_rcx r - g_rdi r\<rparr>) s
      in if g_rcx (fst s) = 0 then s
         else
           let s = mov (\<lambda>r. r\<lparr>g_rcx := drop_bit 3 (g_rcx r)\<rparr>) s
           in if g_rcx (fst s) = 0 then s
              else
                let (r, m) = mov (\<lambda>r. r\<lparr>g_rax := 0\<rparr>) s
                in (r\<lparr>g_rdi := g_rdi r + 8 * g_rcx r, g_rcx := 0\<rparr>, rep_stosq (g_rcx r) (g_rdi r) (g_rax r) m))"

text \<open>Up to the first instruction of \<open>kernel_main\<close>; the call pushes its return address.\<close>

definition start_kernel :: "u64 \<Rightarrow> u64 \<Rightarrow> u64 \<Rightarrow> u64 \<Rightarrow> regs \<times> mem \<Rightarrow> regs \<times> mem" where
  "start_kernel stack_top bss_start bss_end ret s =
     (let s = mov (\<lambda>r. r\<lparr>g_r12 := g_rcx r\<rparr>) s;
          s = mov (\<lambda>r. r\<lparr>g_rsp := stack_top\<rparr>) s;
          s = mov (\<lambda>r. r\<lparr>g_rsp := g_rsp r AND NOT 0xF\<rparr>) s;
          s = clear_bss bss_start bss_end s;
          s = mov (\<lambda>r. r\<lparr>g_rsp := stack_top\<rparr>) s;
          s = mov (\<lambda>r. r\<lparr>g_rsp := g_rsp r AND NOT 0xF\<rparr>) s;
          s = push_value 0 s;
          s = mov (\<lambda>r. r\<lparr>g_rdi := g_r12 r\<rparr>) s;
          s = mov (\<lambda>r. r\<lparr>g_rax := 0, g_rbx := 0, g_rcx := 0, g_rdx := 0, g_rsi := 0, g_r8 := 0, g_r9 := 0, g_r10 := 0, g_r11 := 0,
                 g_r13 := 0, g_r14 := 0, g_r15 := 0, g_rbp := 0\<rparr>) s
      in push_value ret s)"

lemma stosq_window:
  fixes d n :: u64
  assumes "n \<noteq> 0" "unat n < 2 ^ 61"
  shows "d < 8 * n \<longleftrightarrow> d < 8 \<or> d - 8 < 8 * (n - 1)"
proof -
  have n: "unat (n - 1) = unat n - 1" using assms(1) by (simp add: measure_unat unat_minus_one)
  have p: "0 < unat n" using assms(1) by (simp add: word_neq_0_conv word_less_nat_alt)
  have 8: "unat (8 * n) = 8 * unat n" "unat (8 * (n - 1)) = 8 * (unat n - 1)"
    using assms(2) n unat_mult_nowrap [of 8 n] unat_mult_nowrap [of 8 "n - 1"] by simp_all
  show ?thesis
  proof (cases "d < 8")
    case True
    then have "unat d < 8" by (simp add: word_less_nat_alt)
    then show ?thesis using True 8 p by (simp add: word_less_nat_alt)
  next
    case False
    then have "unat (d - 8) = unat d - 8" using unat_sub [of 8 d] by (simp add: not_less)
    moreover have "8 \<le> unat d" using False by (simp add: word_less_nat_alt)
    ultimately show ?thesis using False 8 p by (auto simp: word_less_nat_alt)
  qed
qed

lemma byte_of_0: "byte_of k 0 = 0"
  by (simp add: byte_of_def)

lemma rep_stosq_clears:
  assumes "unat n < 2 ^ 61"
  shows "rep_stosq n a 0 m x = (if x - a < 8 * n then 0 else m x)"
  using assms
proof (induction n a "0 :: u64" m rule: rep_stosq.induct)
  case (1 n a m)
  show ?case
  proof (cases "n = 0")
    case True
    then show ?thesis by (simp add: rep_stosq.simps)
  next
    case False
    then have "unat (n - 1) < 2 ^ 61" using 1(2) by (simp add: unat_minus_one)
    then have "rep_stosq n a 0 m x = (if x - (a + 8) < 8 * (n - 1) then 0 else store64 m a 0 x)"
      using 1(1) [OF False] False by (subst rep_stosq.simps) simp
    moreover have "x - (a + 8) = (x - a) - 8" by simp
    ultimately show ?thesis using stosq_window [OF False 1(2), of "x - a"] by (auto simp: store64_def byte_of_0)
  qed
qed

lemma clear_bss_effect:
  "\<exists>r'. clear_bss bss_start bss_end (r, m) = (r', \<lambda>a. if a - bss_start < 8 * ((bss_end - bss_start) div 8) then 0 else m a)
    \<and> g_r12 r' = g_r12 r"
proof -
  let ?n = "drop_bit 3 (bss_end - bss_start)"
  have div: "?n = (bss_end - bss_start) div 8" by (simp add: drop_bit_eq_div)
  have "unat ?n = unat (bss_end - bss_start) div 8" by (simp add: div unat_div_distrib)
  then have "unat ?n < 2 ^ 61" using unsigned_less [of "bss_end - bss_start", where ?'a = nat] by simp
  then have st: "rep_stosq ?n bss_start 0 m = (\<lambda>a. if a - bss_start < 8 * ?n then 0 else m a)" by (intro ext rep_stosq_clears)
  have 0: "(\<lambda>a. if a - bss_start < 8 * ?n then 0 else m a) = m" if "?n = 0" using that by simp
  show ?thesis
  proof (cases "?n = 0")
    case True
    then show ?thesis unfolding div [symmetric] 0 [OF True] by (simp add: clear_bss_def mov_def Let_def)
  next
    case False
    then have "bss_end - bss_start \<noteq> 0" by auto
    then show ?thesis unfolding div [symmetric] using False st by (simp add: clear_bss_def mov_def Let_def)
  qed
qed

text \<open>
  The entry code passes the boot information, whose address the loader leaves in \<open>rcx\<close>, as first argument to
  \<open>kernel_main\<close>, on a stack of its own; it clears the uninitialised data by whole quadwords, so that up to seven bytes at
  its end stay as they were, and writes nothing else but the two topmost cells of the stack.
\<close>

theorem start_kernel_clears_bss:
  shows "case start_kernel stack_top bss_start bss_end ret (r, m) of (r', m') \<Rightarrow>
    g_rdi r' = g_rcx r \<and> g_rsp r' = (stack_top AND NOT 15) - 16 \<and> load64 m' (g_rsp r') = ret
    \<and> (\<forall>a. \<not> a - ((stack_top AND NOT 15) - 16) < 16 \<longrightarrow>
          m' a = (if a - bss_start < 8 * ((bss_end - bss_start) div 8) then 0 else m a))"
proof -
  let ?sp = "stack_top AND NOT 15"
  let ?r = "r\<lparr>g_r12 := g_rcx r, g_rsp := ?sp\<rparr>"
  define m1 where "m1 = (\<lambda>a. if a - bss_start < 8 * ((bss_end - bss_start) div 8) then 0 else m a)"
  obtain r1 where c: "clear_bss bss_start bss_end (?r, m) = (r1, m1)" "g_r12 r1 = g_rcx r"
    using clear_bss_effect [of bss_start bss_end ?r m] unfolding m1_def by auto
  define m2 where "m2 = store64 (store64 m1 (?sp - 8) 0) (?sp - 16) ret"
  have run: "case start_kernel stack_top bss_start bss_end ret (r, m) of (r', m') \<Rightarrow>
      g_rdi r' = g_rcx r \<and> g_rsp r' = ?sp - 16 \<and> m' = m2"
    using c by (simp add: start_kernel_def mov_def push_value_def pushq_def Let_def m2_def)
  have "m2 a = m1 a" if "\<not> a - (?sp - 16) < 16" for a
  proof -
    define d where "d = a - (?sp - 16)"
    have d: "16 \<le> unat d" using that by (simp add: d_def word_less_nat_alt)
    then have "unat (d - 8) = unat d - 8" using unat_sub [of 8 d] by (simp add: word_le_nat_alt)
    then have "\<not> d < 8" "\<not> d - 8 < 8" using d by (simp_all add: word_less_nat_alt)
    moreover have "a - (?sp - 8) = d - 8" by (simp add: d_def)
    ultimately have "\<not> a - (?sp - 16) < 8" "\<not> a - (?sp - 8) < 8" unfolding d_def by metis+
    then show ?thesis by (simp only: m2_def store64_def if_False)
  qed
  moreover have "load64 m2 (?sp - 16) = ret" by (simp add: m2_def load64_store64_same)
  ultimately show ?thesis using run by (auto simp: m1_def)
qed

definition demo_regs :: regs where
  "demo_regs = \<lparr>g_rax = 1, g_rdi = 2, g_rsi = 3, g_rdx = 4, g_rcx = 0x8000, g_r8 = 6, g_r9 = 7, g_r10 = 8, g_r11 = 9, g_rbx = 10, g_rbp = 11,
     g_r12 = 12, g_r13 = 13, g_r14 = 14, g_r15 = 15, g_rsp = 0x70008\<rparr>"

text \<open>Twelve bytes of uninitialised data: the last four keep their contents.\<close>

lemma start_kernel_clears_bss_witness:
  "case start_kernel 0x120000 0x130000 0x13000C 0x100050 (demo_regs, \<lambda>_. 0xAA) of (r', m') \<Rightarrow>
    g_rdi r' = 0x8000 \<and> m' 0x130007 = 0 \<and> m' 0x130008 = 0xAA"
  using start_kernel_clears_bss [where stack_top = "0x120000" and bss_start = "0x130000" and bss_end = "0x13000C" and ret = "0x100050"
      and r = demo_regs and m = "\<lambda>_. 0xAA"]
  by (auto simp: demo_regs_def)

definition demo_int :: int_state where
  "demo_int = \<lparr>i_rip = 0x100000, i_cs = 8, i_rflags = 0x202, i_ss = 16\<rparr>"

text \<open>
  A timer interrupt, and a page fault with error code 2, with a handler that changes every register it may.
\<close>

definition demo_handler :: "regs \<times> mem \<Rightarrow> (regs \<times> mem) option" where
  "demo_handler = (\<lambda>(r, m). Some (r\<lparr>g_rax := 0, g_rdi := 0, g_rsi := 0, g_rcx := 0, g_rsp := g_rsp r + 8\<rparr>, m))"

lemma interrupt_is_transparent_witness:
  "(\<exists>m'. isr_common_stub 0x100200 demo_handler (ISR_NOERRCODE 32 (deliver 32 0 demo_int (demo_regs, \<lambda>_. 0))) = Some (demo_int, demo_regs, m'))
   \<and> (\<exists>m'. isr_common_stub 0x100200 demo_handler (ISR_ERRCODE 14 (deliver 14 2 demo_int (demo_regs, \<lambda>_. 0))) = Some (demo_int, demo_regs, m'))"
proof
  obtain r1 m1 where "push_value 0x100200 (isr_save (ISR_NOERRCODE 32 (deliver 32 0 demo_int (demo_regs, \<lambda>_. 0)))) = (r1, m1)" by fastforce
  then show "\<exists>m'. isr_common_stub 0x100200 demo_handler (ISR_NOERRCODE 32 (deliver 32 0 demo_int (demo_regs, \<lambda>_. 0))) = Some (demo_int, demo_regs, m')"
    using interrupt_is_transparent [of 32 "ISR_NOERRCODE 32" "0x100200" 0 demo_int demo_regs "\<lambda>_. 0" r1 m1 demo_handler]
    by (simp add: isr_def demo_handler_def)
  obtain r1 m1 where "push_value 0x100200 (isr_save (ISR_ERRCODE 14 (deliver 14 2 demo_int (demo_regs, \<lambda>_. 0)))) = (r1, m1)" by fastforce
  then show "\<exists>m'. isr_common_stub 0x100200 demo_handler (ISR_ERRCODE 14 (deliver 14 2 demo_int (demo_regs, \<lambda>_. 0))) = Some (demo_int, demo_regs, m')"
    using interrupt_is_transparent [of 14 "ISR_ERRCODE 14" "0x100200" 2 demo_int demo_regs "\<lambda>_. 0" r1 m1 demo_handler]
    by (simp add: isr_def demo_handler_def)
qed

text \<open>
  The stub of the alignment check, vector 17, pushes a dummy error code although the processor has pushed one: in the frame
  the error code stands where the handler looks for the instruction pointer, and a handler that returns sends the
  processor there, with the old instruction pointer as code segment.
\<close>

lemma alignment_check_frame_shifted:
  assumes "push_value ret (isr_save (ISR_NOERRCODE 17 (deliver 17 e i (r, m)))) = (r1, m1)"
    and "handler (r1, m1) = Some (r2, m1)" "g_rsp r2 = g_rsp r1 + 8"
  shows "\<exists>i' r'. isr 17 = Some (ISR_NOERRCODE 17) \<and> isr_common_stub ret handler (ISR_NOERRCODE 17 (deliver 17 e i (r, m))) = Some (i', r', m1)
    \<and> load64 m1 (g_rdi r1 + 8 * 17) = e \<and> i_rip i' = e \<and> i_cs i' = i_rip i"
proof -
  let ?sp = "(g_rsp r AND NOT 15) - 184"
  have "cpu_pushes_error 17" by (simp add: cpu_pushes_error_def)
  then have s: "r1 = r\<lparr>g_rdi := ?sp, g_rsp := ?sp - 16\<rparr>" "words_at m1 ?sp (pushed_frame r [17, 0, e] i)"
    using isr_saves_frame [OF stubs_push(2) [of 17], where num = 17 and e = e and ret = ret and i = i and r = r and m = m] assms(1) by auto
  then have "words_at m1 ?sp (interrupt_frame (r\<lparr>g_rsp := i_rflags i\<rparr>) 17 0 \<lparr>i_rip = e, i_cs = i_rip i, i_rflags = i_cs i, i_ss = g_rsp r\<rparr>)"
    by (simp add: pushed_frame_def interrupt_frame_def)
  note f = this isr_restores_frame [OF this, of r2]
  have "load64 m1 (g_rdi r1 + 8 * 17) = e" using s by (simp add: pushed_frame_def add.assoc)
  then show ?thesis using assms f(2) s(1) by (simp add: isr_common_stub_def isr_def)
qed

end
