(* ===== verification/Spec2Isabelle.thy ===== *)
theory Spec2Isabelle
  imports Kernel_Main Syscall Vmm_Spec Net_Packets Boot_Menu Entry_Stubs
begin

text \<open>
  A verification development for SimpleOS, a small x86-64 operating system in C and assembly under \<open>src/\<close>, and for its
  UEFI boot loader. The model is a shallow embedding: C integers are words of their width, a struct or a group of static
  variables is a record, a function is a HOL function from state to state, pointers into memory are 64-bit addresses
  and pointers to the elements of a static array are indices. Endless halt loops are \<open>Halts\<close>, loops that may not end
  are \<open>partial_function (option)\<close> definitions whose \<open>None\<close> means ``does not return'', and all other loops are
  functions with a termination proof. No loop runs on invented fuel; the only bound is the number of rounds of the
  endless command loop of \<open>shell_run\<close>, which is an argument.

  \<^bold>\<open>The program.\<close> The boot loader sizes memory, shows a menu, copies the kernel image to memory, leaves the firmware and
  hands \<open>kernel_main\<close> a description of the screen and of memory. The kernel sets up
  segments, interrupt controller and interrupt table, the page allocator and the heap, the timer, the keyboard and the
  process table, and runs a shell. Interrupts feed the keyboard buffer and the scheduler.

  \<^bold>\<open>Theories and sources.\<close>
  \<^item> \<open>Prelude\<close>, \<open>Memory\<close>, \<open>Linked_List\<close>, \<open>Ring\<close>: shared words, byte-addressed memory, null-terminated doubly linked lists
    in a store, ring buffers with the locale \<open>bounded_queue\<close>. They model no source line of their own.
  \<^item> \<open>Pmm\<close> (\<open>mm/pmm.c\<close>): bitmap and counters. The abstraction is the set of free pages; the lemmas give what every call
    does to it, and that the run search equals the naive one.
  \<^item> \<open>Heap\<close>, \<open>Heap_Spec\<close>, \<open>Heap_Calls\<close>, \<open>Heap_Realloc\<close> (\<open>mm/heap.c\<close>): headers in memory, the abstraction as a list of
    blocks that tile the area, first fit, merging, preservation of live blocks, and what \<open>krealloc\<close> does and breaks.
  \<^item> \<open>Vmm\<close>, \<open>Vmm_Spec\<close> (\<open>mm/vmm.c\<close>): four-level tables in memory with frames from \<open>Pmm\<close>; the abstraction is the
    translation of addresses, and mapping or unmapping changes exactly one page of it.
  \<^item> \<open>Port_Io\<close> (\<open>io.h\<close>, \<open>cpu/pic.c\<close>), \<open>Gdt\<close> (\<open>cpu/gdt.c\<close>), \<open>Idt\<close> (\<open>cpu/idt.c\<close>): ports as answers and a list of writes,
    descriptor tables as the processor reads them.
  \<^item> \<open>Context\<close> (\<open>proc/context.S\<close>), \<open>Process\<close> (\<open>proc/process.c\<close>), \<open>Scheduler\<close>, \<open>Scheduler_Spec\<close>, \<open>Scheduler_Props\<close>
    (\<open>proc/scheduler.c\<close>): the switch of stacks, the process table, and the ready and sleep queues, abstracted to lists of
    process slots per priority.
  \<^item> \<open>Keyboard\<close> (\<open>drivers/keyboard.c\<close>), \<open>Interrupts\<close> (\<open>drivers/timer.c\<close>, the dispatcher of \<open>cpu/idt.c\<close>): decoding of scan
    codes against a reference decoder, and the path from an interrupt number to the handlers and the acknowledgement.
  \<^item> \<open>Syscall\<close> (\<open>syscall/syscall.c\<close>, \<open>syscall_entry.S\<close>): model-specific registers, the call table and the assembly path.
  \<^item> \<open>Console\<close>, \<open>Console_Spec\<close> (text output of \<open>kernel.c\<close>): pixels, glyphs, cursor and scrolling in 32-bit arithmetic.
  \<^item> \<open>History\<close> (\<open>shell/history.c\<close>), \<open>Shell_Text\<close>, \<open>Shell\<close>, \<open>Shell_Spec\<close> (\<open>shell/shell.c\<close>): the ring of lines, parsing and
    splitting, the commands as traces of console calls and port writes, the line editor and the command loop.
  \<^item> \<open>Boot_Info\<close> (\<open>include/bootinfo.h\<close>), \<open>Kernel_Main\<close> (\<open>kernel_main\<close> of \<open>kernel.c\<close>): the structure loader and kernel share,
    and the order of initialisation. This theory states what it establishes.
  \<^item> \<open>Byte_Memory\<close>: 16-bit accesses, copies and frames in byte-addressed memory, and the memory-mapped accesses of \<open>io.h\<close>.
  \<^item> \<open>Net\<close> (\<open>net.h\<close>), \<open>Pci\<close> (\<open>pci.h\<close>), \<open>Virtqueue\<close>, \<open>Virtqueue_Spec\<close> (\<open>virtio.h\<close> and the queue functions of
    \<open>virtio_net.h\<close>), \<open>Virtio_Net\<close>, \<open>Net_Packets\<close> (the rest of \<open>virtio_net.h\<close>): checksum and byte order, the configuration
    space as answers that depend on the history of accesses, descriptor queues in memory shared with the device, sending and
    receiving, and the ARP and ping replies as exact frames.
  \<^item> \<open>Boot_Graphics\<close> (\<open>boot/graphics.h\<close>, \<open>boot/font.h\<close>), \<open>Boot_Main\<close>, \<open>Boot_Menu\<close> (\<open>boot/main.c\<close>): drawing in 32-bit
    arithmetic, sizing memory, loading and handing over the kernel, and the menu loop on a list of keys.

  \<^item> \<open>Entry_Stubs\<close> (\<open>entry.S\<close>, \<open>cpu/isr.S\<close>): the first instructions of the kernel and the interrupt stubs, with the frame the
    dispatcher reads.

  \<^bold>\<open>What the theorems show.\<close> Per component: the invariant of its state and that every operation keeps it; the effect of
  each operation on the abstraction, failure branches included; round trips (allocate and free, switch away and back,
  interrupt and return, print and parse); and, where the code does not do what it means to, a theorem that exhibits it (growing in place in
  \<open>krealloc\<close>, blocking a process, the unacknowledged timer interrupt, the lost system call argument, the endless hex
  dump, the heap the page allocator still owns, the network driver that never sets up a queue, the boot loader that divides
  by an unknown memory total). Across components: typed keys reach the editor, the history and the command through the
  interrupt handler; booting establishes the invariants the other theorems assume; and the keys that choose the first item
  of the loader's menu lead, through the entry code, to a booted kernel, whose page allocator owns the firmware's usable
  pages if the firmware's descriptors have the size the kernel expects. Interfaces are locales interpreted on the code's own operations
  (\<open>bounded_queue\<close> on the key buffer, \<open>descriptor_pool\<close> on the descriptor queues, and those of the page and block allocators
  in their theories). The loader's menu consumes at least one key per turn, which is why its loop ends; its results are
  \<open>None\<close> only for a division fault or the gradient loop that does not end.

  \<^bold>\<open>Assumptions.\<close> Addresses below \<open>2 ^ 52\<close> for the heap area and page tables inside memory the page allocator owns are
  hypotheses of the theorems that need them. For the kernel's own controllers what a port answers is a function of the
  port; for the bus drivers it depends on the whole history of accesses, and the PCI theorems assume that the configuration
  ports answer for the address last written. The firmware is a parameter of the loader: \<open>map_in_buffer\<close> (a memory map is
  written inside the buffer given for it) and \<open>reports_sizes\<close> (the reported descriptor size is not zero) are named
  hypotheses, with concrete firmwares that satisfy them. The processor's side of an interrupt, \<open>deliver\<close> and \<open>iretq\<close>,
  follows its manuals for an interrupt without change of privilege; for which exceptions it pushes an error code
  (\<open>cpu_pushes_error\<close>) is stated apart from what the stubs expect. Interrupts arrive only where the code waits for one or
  at the boundaries of the modelled calls; in particular \<open>keyboard_getchar\<close> is interrupted when it halts. The static
  variables of a component are a record of their own and not part of the byte-addressed memory, so a stray pointer cannot
  change them: this concerns the network driver, whose queues are null pointers as long as nobody sets them up, and the boot
  information, of which the entry code passes on the address. Memory does not change while a hex dump reads it, and every
  address can be read. \<open>priority\<close> and \<open>exit_code\<close> of a process are integers, since no operation on them can overflow.

  \<^bold>\<open>Not modelled.\<close> The idle and demo threads, which only halt or yield; the declarations of \<open>boot/efi.h\<close> that describe
  firmware functions the loader does not call; constants and structures of the network headers that no function uses; the
  memory barriers of \<open>io.h\<close>, which change no state of a sequential model.
\<close>

section \<open>Properties of the composed kernel\<close>

text \<open>
  C27: Booting: with valid boot information (a screen of at least 100 rows, a memory map of 1 to 256 entries) the
  initialisation returns with interrupts enabled, and every component is in a state its own properties start from:
  the page allocator owns exactly the usable pages between 2 MB and 256 MB, the heap is one free block of a megabyte
  at 4 MB, no process exists, no key is queued, the history is empty, and the text cursor is on the screen.
\<close>

theorem kernel_boot_establishes_invariants:
  assumes "bi_magic bi = BOOTINFO_MAGIC" "100 \<le> unat (fbi_height (bi_framebuffer bi))" "unat (fbi_height (bi_framebuffer bi)) < 2 ^ 32 - 20"
    and "bi_mmap bi \<noteq> NULL" "bi_mmap_entries bi \<noteq> 0" "bi_mmap_entries bi \<le> 256" "machine_bss mc"
  shows "\<exists>mc'. kernel_boot l (Some bi) mc = Some (Returns mc') \<and> m_interrupts mc'
    \<and> pmm_inv (m_pmm mc')
    \<and> free_pages (m_pmm mc') = {q. 512 \<le> q \<and> q < 65536 \<and> (\<exists>k < bi_mmap_entries bi. q \<in> entry_pages (mmap_at (sh_mem (m_shell mc)) (bi_mmap bi) k))}
    \<and> heap_wf (m_heap mc') [(0x400000, 0x100000 - 32, True)]
    \<and> (\<forall>i < 64. pstate (processes (m_sys mc') ! i) = PROC_UNUSED)
    \<and> kb_inv (m_keyboard mc') \<and> queued (m_keyboard mc') = [] \<and> history_rep (sh_history (m_shell mc')) []
    \<and> fb_height (m_console mc') = fbi_height (bi_framebuffer bi)
    \<and> unat (cursor_y (m_console mc')) + 10 \<le> unat (fb_height (m_console mc'))"
proof -
  have len: "length (bitmap (m_pmm mc)) = 8192" using assms(7) by (simp add: machine_bss_def)
  obtain mc' where B: "kernel_boot l (Some bi) mc = Some (Returns mc')"
    "m_pmm mc' = pmm_init (sh_mem (m_shell mc)) (bi_mmap bi) (bi_mmap_entries bi) (m_pmm mc)"
    "m_heap mc' = heap_init HEAP_START HEAP_SIZE (m_heap mc)" "con_ok bi (m_console mc')"
    "\<And>i. i < 64 \<Longrightarrow> pstate (processes (m_sys mc') ! i) = PROC_UNUSED"
    "kb_inv (m_keyboard mc')" "queued (m_keyboard mc') = []" "history_rep (sh_history (m_shell mc')) []" "m_interrupts mc'"
    using kernel_boot_state [OF assms(1-3,7), of l] by blast
  have P: "pmm_inv (m_pmm mc') \<and> free_pages (m_pmm mc') = {q. 512 \<le> q \<and> q < 65536 \<and> (\<exists>k < bi_mmap_entries bi. q \<in> entry_pages (mmap_at (sh_mem (m_shell mc)) (bi_mmap bi) k))}"
    unfolding B(2) by (rule pmm_init_spec [OF assms(4-6) len])
  have H: "heap_wf (m_heap mc') [(0x400000, 0x100000 - 32, True)]" unfolding B(3) by (rule boot_heap(1))
  have K: "fb_height (m_console mc') = fbi_height (bi_framebuffer bi)" "unat (cursor_y (m_console mc')) + 10 \<le> unat (fb_height (m_console mc'))"
    using B(4) unfolding con_ok_def con_inv_def by blast+
  show ?thesis using B(1,5-9) P H K by blast
qed

text \<open>A machine at power-on, with a map of four pages of conventional memory at 4 MB, and a screen of 640 by 480 pixels.\<close>

definition power_on :: machine where
  "power_on = \<lparr>m_shell = demo_shell\<lparr>sh_mem := one_entry_map,
       sh_kernel := demo_kernel ((demo 3)\<lparr>sys := (sys (demo 3))\<lparr>ps_vmm := (ps_vmm (sys (demo 3)))\<lparr>vm_pmm := pmm_bss\<rparr>\<rparr>\<rparr>)\<rparr>,
     m_console = small_screen, m_idt = \<lparr>idt = [], idtr = \<lparr>idt_limit = 0, idt_base = 0\<rparr>\<rparr>, m_interrupts = False\<rparr>"

definition demo_boot_info :: boot_info where
  "demo_boot_info = \<lparr>bi_magic = BOOTINFO_MAGIC, bi_version = 1,
     bi_framebuffer = \<lparr>fbi_base = 0x80000000, fbi_size = 0x12C000, fbi_width = 640, fbi_height = 480, fbi_pitch = 2560, fbi_bpp = 32,
       red_mask_size = 8, red_mask_shift = 16, green_mask_size = 8, green_mask_shift = 8, blue_mask_size = 8, blue_mask_shift = 0, fbi_reserved = [0, 0]\<rparr>,
     bi_mmap_entries = 1, bi_mmap_entry_size = 40, bi_mmap = 0x1000, bi_acpi_rsdp = 0, bi_kernel_physical_base = 0x100000,
     bi_kernel_virtual_base = 0x100000, bi_kernel_size = 0x20000, bi_reserved = replicate 8 0\<rparr>"

definition demo_layout :: layout where
  "demo_layout = \<lparr>at_gdt = 0x110000, at_tss = 0x111000, at_idt = 0x112000, at_stubs = (\<lambda>n. 0x113000 + 16 * of_nat n), at_rsp = 0x1F0000\<rparr>"

lemma power_on_bss: "machine_bss power_on" "sh_mem (m_shell power_on) = one_entry_map"
  by (simp_all add: machine_bss_def power_on_def demo_shell_def demo_kernel_def pmm_bss_def demo_def keyboard_bss_def history_bss_def)

theorem kernel_boot_establishes_invariants_witness:
  "\<exists>mc'. kernel_boot demo_layout (Some demo_boot_info) power_on = Some (Returns mc') \<and> m_interrupts mc'
    \<and> heap_wf (m_heap mc') [(0x400000, 0x100000 - 32, True)] \<and> queued (m_keyboard mc') = []"
  using kernel_boot_establishes_invariants [of demo_boot_info power_on demo_layout] power_on_bss(1) by (auto simp: demo_boot_info_def)

text \<open>
  C28: The heap is not reserved: when the memory map lists the page at 4 MB as usable, the page allocator still owns it after
  boot, so a sequence of page allocations returns the address at which the kernel heap starts.
\<close>

theorem kernel_boot_heap_not_reserved:
  assumes "bi_magic bi = BOOTINFO_MAGIC" "100 \<le> unat (fbi_height (bi_framebuffer bi))" "unat (fbi_height (bi_framebuffer bi)) < 2 ^ 32 - 20"
    and "bi_mmap bi \<noteq> NULL" "bi_mmap_entries bi \<noteq> 0" "bi_mmap_entries bi \<le> 256" "machine_bss mc"
    and "k < bi_mmap_entries bi" "1024 \<in> entry_pages (mmap_at (sh_mem (m_shell mc)) (bi_mmap bi) k)"
  shows "\<exists>mc' n. kernel_boot l (Some bi) mc = Some (Returns mc')
    \<and> fst (pmm_alloc_page (((snd \<circ> pmm_alloc_page) ^^ n) (m_pmm mc'))) = heap_start (m_heap mc')"
proof -
  have len: "length (bitmap (m_pmm mc)) = 8192" using assms(7) by (simp add: machine_bss_def)
  obtain mc' where B: "kernel_boot l (Some bi) mc = Some (Returns mc')"
    "m_pmm mc' = pmm_init (sh_mem (m_shell mc)) (bi_mmap bi) (bi_mmap_entries bi) (m_pmm mc)"
    "m_heap mc' = heap_init HEAP_START HEAP_SIZE (m_heap mc)"
    using kernel_boot_state [OF assms(1-3,7), of l] by blast
  have "pmm_inv (m_pmm mc')" "1024 \<in> free_pages (m_pmm mc')"
    using pmm_init_spec [OF assms(4-6) len] assms(8,9) unfolding B(2) by auto
  then obtain n where "unat (fst (pmm_alloc_page (((snd \<circ> pmm_alloc_page) ^^ n) (m_pmm mc')))) = 1024 * 4096"
    using alloc_reaches [of "m_pmm mc'" 1024] by auto
  then have "fst (pmm_alloc_page (((snd \<circ> pmm_alloc_page) ^^ n) (m_pmm mc'))) = heap_start (m_heap mc')"
    unfolding B(3) boot_heap(2) by (simp add: word_unat_eq_iff)
  then show ?thesis using B(1) by blast
qed

theorem kernel_boot_heap_not_reserved_witness:
  "\<exists>mc' n. kernel_boot demo_layout (Some demo_boot_info) power_on = Some (Returns mc')
    \<and> fst (pmm_alloc_page (((snd \<circ> pmm_alloc_page) ^^ n) (m_pmm mc'))) = heap_start (m_heap mc')"
proof -
  have "1024 \<in> entry_pages (mmap_at (sh_mem (m_shell power_on)) (bi_mmap demo_boot_info) 0)"
    by (simp add: power_on_bss(2) demo_boot_info_def one_entry_map_at entry_pages_def usable_def MEMORY_CONVENTIONAL_def)
  then show ?thesis
    using kernel_boot_heap_not_reserved [of demo_boot_info power_on 0 demo_layout] power_on_bss(1) by (simp add: demo_boot_info_def)
qed

text \<open>
  The entry size is ignored: the kernel reads the memory map in steps of its own 40-byte structure whatever size of a
  descriptor the boot loader reports, so a firmware with longer descriptors is misread from the second one on.
\<close>

theorem kernel_boot_ignores_entry_size:
  "kernel_boot l (Some (bi\<lparr>bi_mmap_entry_size := n\<rparr>)) mc = kernel_boot l (Some bi) mc"
proof -
  have "boot_screen (bi\<lparr>bi_mmap_entry_size := n\<rparr>) mc = boot_screen bi mc" for mc by (simp add: boot_screen_def)
  moreover have "boot_memory (bi\<lparr>bi_mmap_entry_size := n\<rparr>) mc = boot_memory bi mc" for mc by (simp add: boot_memory_def)
  ultimately show ?thesis by (simp add: kernel_boot_def)
qed

text \<open>
  What the descriptors of a memory map mean to the firmware and the loader: the pages of a descriptor of a usable type, and
  those of a map of a number of descriptors of a size.
\<close>

definition descriptor_pages :: "mem \<Rightarrow> u64 \<Rightarrow> nat set" where
  "descriptor_pages m d = (if usable_type (desc_type m d)
     then {q. unat (load64 m (d + 8)) div 4096 \<le> q \<and> q < unat (load64 m (d + 8)) div 4096 + unat (desc_pages m d)} else {})"

definition map_pages :: "mem \<Rightarrow> u64 \<Rightarrow> u64 \<Rightarrow> u64 \<Rightarrow> nat set" where
  "map_pages m mmap desc_size n = (\<Union>i < unat n. descriptor_pages m (mmap + of_nat i * desc_size))"

text \<open>The structure of the kernel and the types it takes for usable are those of the firmware, for descriptors of 40 bytes.\<close>

lemma entry_pages_descriptor: "entry_pages (mmap_at m mmap k) = descriptor_pages m (mmap + k * 40)"
  by (simp add: entry_pages_def descriptor_pages_def usable_def usable_type_def mmap_at_def desc_type_def desc_pages_def Let_def
      MEMORY_CONVENTIONAL_def MEMORY_BOOT_CODE_def MEMORY_BOOT_DATA_def mult.commute)

lemma map_pages_kernel: "q \<in> map_pages m mmap 40 n \<longleftrightarrow> (\<exists>k < n. q \<in> entry_pages (mmap_at m mmap k))"
proof -
  have "(\<exists>k < n. P k) \<longleftrightarrow> (\<exists>i < unat n. P (of_nat i))" for P
  proof
    assume "\<exists>k < n. P k"
    then obtain k where "k < n" "P k" by blast
    then show "\<exists>i < unat n. P (of_nat i)" by (intro exI [of _ "unat k"]) (simp add: word_less_nat_alt)
  next
    assume "\<exists>i < unat n. P (of_nat i)"
    then obtain i where i: "i < unat n" "P (of_nat i)" by blast
    have "unat (of_nat i :: u64) = i" by (rule unat_of_nat_u64) (use i(1) unat_below [of n] in simp)
    then show "\<exists>k < n. P k" using i by (intro exI [of _ "of_nat i"]) (simp add: word_less_nat_alt)
  qed
  then show ?thesis by (auto simp: map_pages_def entry_pages_descriptor)
qed

lemma map_pages_same:
  assumes "same_bytes mmap 0 (40 * unat n) m m'"
  shows "map_pages m' mmap 40 n = map_pages m mmap 40 n"
proof -
  have "descriptor_pages m' (mmap + of_nat i * 40) = descriptor_pages m (mmap + of_nat i * 40)" if "i < unat n" for i
  proof -
    have at: "mmap + of_nat i * 40 = mmap + of_nat (40 * i)" "mmap + of_nat i * 40 + 8 = mmap + of_nat (40 * i + 8)"
      "mmap + of_nat i * 40 + 24 = mmap + of_nat (40 * i + 24)" by (simp_all add: mult.commute)
    have "load32 m' (mmap + of_nat (40 * i)) = load32 m (mmap + of_nat (40 * i))"
      "load64 m' (mmap + of_nat (40 * i + 8)) = load64 m (mmap + of_nat (40 * i + 8))"
      "load64 m' (mmap + of_nat (40 * i + 24)) = load64 m (mmap + of_nat (40 * i + 24))"
      by (rule same_bytes_load(2) [OF assms] same_bytes_load(3) [OF assms]; use that in simp)+
    then show ?thesis unfolding descriptor_pages_def desc_type_def desc_pages_def at(2,3) unfolding at(1) by (simp only:)
  qed
  then show ?thesis by (simp add: map_pages_def)
qed

text \<open>The entry code of the kernel keeps what lies outside the data it clears and the two topmost cells of its stack.\<close>

lemma start_kernel_keeps_map:
  assumes "start_kernel stack_top bss_start bss_end ret (r, m) = (r', m')" "n \<le> 256"
    and "\<And>x. x - mmap < 40 * n \<Longrightarrow> \<not> x - bss_start < bss_end - bss_start \<and> \<not> x - ((stack_top AND NOT 15) - 16) < 16"
  shows "map_pages m' mmap 40 n = map_pages m mmap 40 n"
proof (rule map_pages_same, unfold same_bytes_def, intro allI impI)
  fix k :: nat assume k: "0 \<le> k \<and> k < 0 + 40 * unat n"
  let ?x = "mmap + of_nat k"
  have n: "unat n \<le> 256" using assms(2) by (simp add: word_nat)
  then have "unat (40 * n) = 40 * unat n" using unat_mult_nowrap [of 40 n] by simp
  moreover have "unat (?x - mmap) = k" using k n by (simp add: unsigned_of_nat take_bit_nat_eq_self)
  ultimately have x: "?x - mmap < 40 * n" using k by (simp add: word_less_nat_alt)
  have "8 * ((bss_end - bss_start) div 8) \<le> bss_end - bss_start"
    using unat_mult_nowrap [of 8 "(bss_end - bss_start) div 8"] unsigned_less [of "bss_end - bss_start", where ?'a = nat]
    by (simp add: word_le_nat_alt unat_div_distrib)
  then have "\<not> ?x - bss_start < 8 * ((bss_end - bss_start) div 8)" using assms(3) [OF x] by auto
  then show "m' ?x = m ?x"
    using start_kernel_clears_bss [where stack_top = stack_top and bss_start = bss_start and bss_end = bss_end and ret = ret and r = r and m = m] assms(3) [OF x] unfolding assms(1) by simp
qed

lemma map_handed_overE:
  assumes "map_handed_over fw s"
  obtains req f m0 a f' m1 where "fw_get_memory_map fw req (bi_mmap (ld_info s)) f m0 = (a, f', m1)" "\<not> EFI_ERROR (ma_status a)" "ld_mem s = m1"
    "bi_mmap_entries (ld_info s) = ma_size a div ma_desc_size a" "GetMemoryMap req (bi_mmap (ld_info s)) \<in> set (ld_calls s)"
    "hd (ld_calls s) = ExitBootServices (ma_key a)"
  using assms unfolding map_handed_over_def
proof (elim exE)
  fix req f m0
  assume h: "case fw_get_memory_map fw req (bi_mmap (ld_info s)) f m0 of (a, f', m') \<Rightarrow>
     \<not> EFI_ERROR (ma_status a) \<and> ld_mem s = m' \<and> bi_mmap_entries (ld_info s) = ma_size a div ma_desc_size a
     \<and> GetMemoryMap req (bi_mmap (ld_info s)) \<in> set (ld_calls s) \<and> hd (ld_calls s) = ExitBootServices (ma_key a)"
  obtain a f' m1 where e: "fw_get_memory_map fw req (bi_mmap (ld_info s)) f m0 = (a, f', m1)" by (metis prod_cases3)
  then show ?thesis using h that [OF e] by simp
qed

text \<open>
  C36: From the menu to the kernel: when the user's keys make the boot loader start the kernel, on a screen of at least 100
  rows and with a map of 1 to 256 descriptors that overlaps neither the uninitialised data of the kernel nor the top of its
  stack, the entry code passes on its argument, and the initialisation of the kernel, in the memory the entry code leaves,
  returns with interrupts enabled; text goes to the screen the firmware reported, the heap is one free block, and the page
  allocator owns, between 2 MB and 256 MB, exactly the pages of the descriptors that stand in the buffer at steps of 40 bytes,
  the size of the kernel's own structure. The buffer holds the firmware's last answer, so if the firmware's descriptors have
  that size, these are exactly the usable pages of the map it handed over. With any other size the kernel reads between the
  descriptors (\<open>kernel_boot_ignores_entry_size\<close>), and nothing is claimed about the firmware's map. That the map stays clear
  of the uninitialised data is a hypothesis on the firmware's choice of a buffer: the loader allocates memory for the image
  only, which ends where those data begin.
\<close>

theorem loader_boots_kernel:
  assumes "map_in_buffer fw" "length kernel_data \<le> 2 ^ 64" "gfx_gop (ld_gfx s) = Some mode"
    and "100 \<le> unat (VerticalResolution mode)" "unat (VerticalResolution mode) < 2 ^ 32 - 20"
    and "menu_loop fw kernel_data mn keys s = Some (KernelRuns entry s')"
    and "mmap = bi_mmap (ld_info s')" "n = bi_mmap_entries (ld_info s')" "mmap \<noteq> NULL" "n \<noteq> 0" "n \<le> 256"
    and "start_kernel stack_top bss_start bss_end ret (r, ld_mem s') = (r', m')"
    and "\<And>x. x - mmap < 40 * n \<Longrightarrow> \<not> x - bss_start < bss_end - bss_start \<and> \<not> x - ((stack_top AND NOT 15) - 16) < 16"
    and "machine_bss mc" "sh_mem (m_shell mc) = m'"
  shows "\<exists>mc'. g_rdi r' = g_rcx r \<and> kernel_boot l (Some (ld_info s')) mc = Some (Returns mc') \<and> m_interrupts mc'
    \<and> fb_width (m_console mc') = HorizontalResolution mode \<and> fb_height (m_console mc') = VerticalResolution mode
    \<and> heap_wf (m_heap mc') [(0x400000, 0x100000 - 32, True)] \<and> pmm_inv (m_pmm mc')
    \<and> free_pages (m_pmm mc') = {512..<65536} \<inter> map_pages (ld_mem s') mmap 40 n
    \<and> (\<exists>req f m0 a f' m1. fw_get_memory_map fw req mmap f m0 = (a, f', m1) \<and> \<not> EFI_ERROR (ma_status a) \<and> ld_mem s' = m1
        \<and> GetMemoryMap req mmap \<in> set (ld_calls s') \<and> hd (ld_calls s') = ExitBootServices (ma_key a)
        \<and> (ma_desc_size a = 40 \<longrightarrow>
             free_pages (m_pmm mc') = {512..<65536} \<inter> map_pages m1 mmap (ma_desc_size a) (ma_size a div ma_desc_size a)))"
proof -
  have len: "length (bitmap (m_pmm mc)) = 8192" using assms(14) by (simp add: machine_bss_def)
  have r: "boot_ready kernel_data entry s'" "map_handed_over fw s'" using menu_loop_ready [OF assms(1,2,6)] by blast+
  have f: "fbi_width (bi_framebuffer (ld_info s')) = HorizontalResolution mode" "fbi_height (bi_framebuffer (ld_info s')) = VerticalResolution mode"
    using boot_ready_screen [OF r(1)] menu_loop_mode [OF assms(6,3)] by simp_all
  have magic: "bi_magic (ld_info s') = BOOTINFO_MAGIC" using r(1) by (simp add: boot_ready_def)
  obtain mc' where B: "kernel_boot l (Some (ld_info s')) mc = Some (Returns mc')"
    "m_pmm mc' = pmm_init (sh_mem (m_shell mc)) (bi_mmap (ld_info s')) (bi_mmap_entries (ld_info s')) (m_pmm mc)"
    "m_heap mc' = heap_init HEAP_START HEAP_SIZE (m_heap mc)" "con_ok (ld_info s') (m_console mc')" "m_interrupts mc'"
    using kernel_boot_state [OF magic _ _ assms(14), of l] assms(4,5) unfolding f by blast
  have P: "pmm_inv (m_pmm mc')" "free_pages (m_pmm mc') = {512..<65536} \<inter> map_pages m' mmap 40 n"
    using pmm_init_spec [OF assms(9-11) len, of m'] unfolding B(2) assms(15) assms(7,8) [symmetric]
    by (simp, fastforce simp: map_pages_kernel)
  have F: "free_pages (m_pmm mc') = {512..<65536} \<inter> map_pages (ld_mem s') mmap 40 n"
    unfolding P(2) using start_kernel_keeps_map [OF assms(12,11), of mmap] assms(13) by simp
  have R: "g_rdi r' = g_rcx r" using start_kernel_clears_bss [where stack_top = stack_top and bss_start = bss_start and bss_end = bss_end
        and ret = ret and r = r and m = "ld_mem s'"] assms(12) by simp
  obtain req f m0 a f' m1 where M: "fw_get_memory_map fw req mmap f m0 = (a, f', m1)" "\<not> EFI_ERROR (ma_status a)" "ld_mem s' = m1"
    "n = ma_size a div ma_desc_size a" "GetMemoryMap req mmap \<in> set (ld_calls s')" "hd (ld_calls s') = ExitBootServices (ma_key a)"
    using r(2) unfolding assms(7,8) by (rule map_handed_overE)
  have "heap_wf (m_heap mc') [(0x400000, 0x100000 - 32, True)]" unfolding B(3) by (rule boot_heap(1))
  moreover have "fb_width (m_console mc') = HorizontalResolution mode" "fb_height (m_console mc') = VerticalResolution mode"
    using B(4) f by (auto simp: con_ok_def)
  moreover have "ma_desc_size a = 40 \<longrightarrow>
      free_pages (m_pmm mc') = {512..<65536} \<inter> map_pages m1 mmap (ma_desc_size a) (ma_size a div ma_desc_size a)"
    using F M(3,4) by simp
  ultimately show ?thesis using R B(1,5) P(1) F M by blast
qed

text \<open>
  With the firmware whose descriptors have 40 bytes, and the uninitialised data of the kernel from 0x130000 to 0x170000, the
  allocator owns the 128 MB of conventional memory from 2 MB on and the boot services code, and not the reserved megabyte
  between them.
\<close>

lemma packed_map_pages:
  assumes "m = (\<lambda>x. if x - 0x200000 < 120 then packed_byte (x - 0x200000) else m0 x)"
  shows "map_pages m 0x200000 40 3 = {0..<0x8000} \<union> {0x8100..<0x8110}"
proof -
  have d: "descriptor_pages m 0x200000 = {0..<0x8000}" "descriptor_pages m 0x200028 = {}" "descriptor_pages m 0x200050 = {0x8100..<0x8110}"
    by (auto simp: descriptor_pages_def assms packed_byte_def desc_type_def desc_pages_def usable_type_def load32_def load64_def join_bytes_def upt_rec)
  have "{..<unat (3 :: u64)} = {0, 1, 2}" by auto
  then show ?thesis unfolding map_pages_def by (simp add: d)
qed

theorem loader_boots_kernel_witness:
  "\<exists>s' r' m' mc'. menu_loop packed_firmware [0x90, 0xF4] \<lparr>mn_selected = 0, mn_running = True, mn_kernel_entry = 0\<rparr> [enter_key] demo_ready
      = Some (KernelRuns 0x100000 s')
    \<and> start_kernel 0x120000 0x130000 0x170000 0x100050 (demo_regs, ld_mem s') = (r', m') \<and> g_rdi r' = 0x8000
    \<and> kernel_boot demo_layout (Some (ld_info s')) (power_on\<lparr>m_shell := (m_shell power_on)\<lparr>sh_mem := m'\<rparr>\<rparr>) = Some (Returns mc')
    \<and> m_interrupts mc' \<and> fb_height (m_console mc') = 600
    \<and> free_pages (m_pmm mc') = {512..<0x8000} \<union> {0x8100..<0x8110}"
proof -
  obtain s' m0 where s': "menu_loop packed_firmware [0x90, 0xF4] \<lparr>mn_selected = 0, mn_running = True, mn_kernel_entry = 0\<rparr> [enter_key] demo_ready
      = Some (KernelRuns 0x100000 s')" "bi_mmap (ld_info s') = 0x200000" "bi_mmap_entries (ld_info s') = 3"
    "ld_mem s' = (\<lambda>x. if x - 0x200000 < 120 then packed_byte (x - 0x200000) else m0 x)"
    using packed_menu_loop by blast
  obtain r' m' where k: "start_kernel 0x120000 0x130000 0x170000 0x100050 (demo_regs, ld_mem s') = (r', m')" by fastforce
  let ?mc = "power_on\<lparr>m_shell := (m_shell power_on)\<lparr>sh_mem := m'\<rparr>\<rparr>"
  have mc: "machine_bss ?mc" using power_on_bss(1) by (simp add: machine_bss_def)
  have m: "VerticalResolution demo_mode = 600" by (simp add: demo_mode_def)
  have "\<not> x - 0x130000 < 0x170000 - 0x130000 \<and> \<not> x - ((0x120000 AND NOT 15) - 16) < 16" if "x - 0x200000 < 40 * 3" for x :: u64
  proof -
    have "unat (x - 0x200000) < 120" using that by (simp add: word_less_nat_alt)
    moreover have "x = 0x200000 + of_nat (unat (x - 0x200000))" by simp
    ultimately obtain k where "x = 0x200000 + of_nat k" "k < 120" by blast
    then have "unat (x - 0x130000) = 0xD0000 + k" "unat (x - 0x11FFF0) = 0xE0010 + k"
      using unat_offset [of "0xD0000" 120 k] unat_offset [of "0xE0010" 120 k] by simp_all
    then show ?thesis by (simp add: word_less_nat_alt)
  qed
  then obtain mc' where "g_rdi r' = g_rcx demo_regs" "kernel_boot demo_layout (Some (ld_info s')) ?mc = Some (Returns mc')" "m_interrupts mc'"
    "fb_height (m_console mc') = VerticalResolution demo_mode" "free_pages (m_pmm mc') = {512..<65536} \<inter> map_pages (ld_mem s') 0x200000 40 3"
    using loader_boots_kernel [OF packed_in_buffer _ demo_ready_screen(1) _ _ s'(1) refl refl _ _ _ k _ mc, of demo_layout] s'(2,3)
    unfolding m by auto
  moreover have "{512..<65536} \<inter> map_pages (ld_mem s') 0x200000 40 3 = {512..<0x8000} \<union> {0x8100..<0x8110}"
    unfolding packed_map_pages [OF s'(4)] by auto
  moreover have "g_rcx demo_regs = 0x8000" by (simp add: demo_regs_def)
  ultimately show ?thesis using s'(1) k unfolding m by metis
qed

end
